(* ===== verification/Prelude.thy ===== *)
theory Prelude
  imports Main "HOL-Library.Word" "HOL-Library.Multiset"
begin

text \<open>
  What every component of the model shares: Go's integers, durations and results, the sum of a
  quantity over the entries of a Go map, decimal printing, the "least loaded candidate" loop and
  the two interfaces that several components implement (a run of state changes that keeps an
  invariant, and a placement rule).
\<close>

subsection \<open>Collections of facts\<close>

named_theorems op_defs \<open>definitions of the operations of a component\<close>
named_theorems inv_simps \<open>rewriting of invariants over updated states\<close>

subsection \<open>Results and Go integers\<close>

abbreviation Ok :: "'a \<Rightarrow> 'e + 'a" where
  "Ok \<equiv> Inr"

abbreviation Err :: "'e \<Rightarrow> 'e + 'a" where
  "Err \<equiv> Inl"

text \<open>\<open>time.Duration\<close> is an \<open>int64\<close> of nanoseconds; an instant is its nanoseconds since the epoch.\<close>

type_synonym duration = int
type_synonym instant = int

abbreviation Second :: duration where
  "Second \<equiv> 1000000000"

abbreviation Minute :: duration where
  "Minute \<equiv> 60000000000"

abbreviation Hour :: duration where
  "Hour \<equiv> 3600000000000"

text \<open>The bytes of a yuv420p frame (\<^verbatim>\<open>rawFrameSize\<close> of \<^verbatim>\<open>internal/media/ffmpeg.go\<close>): odd sizes round the chroma planes up.\<close>

definition rawFrameSize :: "nat \<Rightarrow> nat \<Rightarrow> nat" where
  "rawFrameSize w h = w * h + 2 * ((w + 1) div 2) * ((h + 1) div 2)"

text \<open>Two's complement wrap-around of \<open>int64\<close> and of Go's \<open>int\<close> on a 64-bit target.\<close>

definition i64 :: "int \<Rightarrow> int" where
  "i64 x = (x + 9223372036854775808) mod 18446744073709551616 - 9223372036854775808"

abbreviation fits64 :: "int \<Rightarrow> bool" where
  "fits64 x \<equiv> - 9223372036854775808 \<le> x \<and> x \<le> 9223372036854775807"

lemma i64_id: "fits64 x \<Longrightarrow> i64 x = x"
  by (simp add: i64_def)

lemma i64_range: "fits64 (i64 x)"
  using pos_mod_bound [of 18446744073709551616 "x + 9223372036854775808"]
    pos_mod_sign [of 18446744073709551616 "x + 9223372036854775808"]
  by (simp add: i64_def)

text \<open>Go's integer division truncates towards zero.\<close>

definition go_quot :: "int \<Rightarrow> int \<Rightarrow> int" where
  "go_quot a b = sgn a * sgn b * (\<bar>a\<bar> div \<bar>b\<bar>)"

lemma go_quot_nonneg: "0 \<le> a \<Longrightarrow> 0 < b \<Longrightarrow> go_quot a b = a div b"
  by (cases "a = 0") (auto simp: go_quot_def)

lemma go_quot_nonpos: "a \<le> 0 \<Longrightarrow> 0 < b \<Longrightarrow> go_quot a b \<le> 0"
  by (cases "a = 0") (auto simp: go_quot_def pos_imp_zdiv_nonneg_iff)

text \<open>\<open>Time.Sub\<close> saturates at the ends of \<open>int64\<close>.\<close>

definition time_sub :: "instant \<Rightarrow> instant \<Rightarrow> duration" where
  "time_sub a b = max (- 9223372036854775808) (min 9223372036854775807 (a - b))"

lemma time_sub_id: "fits64 (a - b) \<Longrightarrow> time_sub a b = a - b"
  by (simp add: time_sub_def)

text \<open>\<open>sort.Strings\<close> sorts by bytes.\<close>

fun str_less_eq :: "string \<Rightarrow> string \<Rightarrow> bool" where
  "str_less_eq [] ys = True"
| "str_less_eq (x # xs) [] = False"
| "str_less_eq (x # xs) (y # ys) =
    (if (of_char x :: nat) = of_char y then str_less_eq xs ys else (of_char x :: nat) < of_char y)"

fun insert_str :: "string \<Rightarrow> string list \<Rightarrow> string list" where
  "insert_str x [] = [x]"
| "insert_str x (y # ys) = (if str_less_eq x y then x # y # ys else y # insert_str x ys)"

definition sort_strings :: "string list \<Rightarrow> string list" where
  "sort_strings xs = foldr insert_str xs []"

subsection \<open>Sums over Go maps\<close>

text \<open>A Go map is a partial function; \<open>msum f m\<close> adds \<open>f\<close> over its values.\<close>

definition msum :: "('v \<Rightarrow> int) \<Rightarrow> ('k \<rightharpoonup> 'v) \<Rightarrow> int" where
  "msum f m = (\<Sum>k\<in>dom m. f (the (m k)))"

lemma msum_empty [simp]: "msum f Map.empty = 0"
  by (simp add: msum_def)

lemma msum_delete:
  assumes "finite (dom m)" and "m k = Some u"
  shows "msum f (m(k := None)) = msum f m - f u"
proof -
  have k: "k \<in> dom m" using assms(2) by auto
  have "msum f m = f (the (m k)) + (\<Sum>j\<in>dom m - {k}. f (the (m j)))"
    unfolding msum_def using assms(1) k by (rule sum.remove)
  moreover have "msum f (m(k := None)) = (\<Sum>j\<in>dom m - {k}. f (the (m j)))"
    unfolding msum_def by (rule sum.cong) auto
  ultimately show ?thesis using assms(2) by simp
qed

lemma msum_insert:
  assumes "finite (dom m)" and "m k = None"
  shows "msum f (m(k \<mapsto> v)) = msum f m + f v"
proof -
  have k: "k \<notin> dom m" using assms(2) by auto
  have "msum f (m(k \<mapsto> v)) = (\<Sum>j\<in>insert k (dom m). f (the ((m(k \<mapsto> v)) j)))"
    by (simp add: msum_def)
  also have "\<dots> = f v + (\<Sum>j\<in>dom m. f (the ((m(k \<mapsto> v)) j)))"
    using assms(1) k by (simp del: fun_upd_apply) simp
  also have "(\<Sum>j\<in>dom m. f (the ((m(k \<mapsto> v)) j))) = msum f m"
    unfolding msum_def using k by (intro sum.cong) auto
  finally show ?thesis by (simp only: add.commute)
qed

lemma msum_replace:
  assumes "finite (dom m)" and "m k = Some u"
  shows "msum f (m(k \<mapsto> v)) = msum f m - f u + f v"
proof -
  have "m(k \<mapsto> v) = (m(k := None))(k \<mapsto> v)" by simp
  then have "msum f (m(k \<mapsto> v)) = msum f (m(k := None)) + f v"
    using msum_insert [of "m(k := None)" k f v] assms(1) by simp
  with msum_delete [OF assms] show ?thesis by simp
qed

lemma msum_nonneg: "(\<And>k v. m k = Some v \<Longrightarrow> 0 \<le> f v) \<Longrightarrow> 0 \<le> msum f m"
  unfolding msum_def by (rule sum_nonneg) auto

lemma msum_member_le:
  assumes "finite (dom m)" and "m k = Some v" and "\<And>k v. m k = Some v \<Longrightarrow> 0 \<le> f v"
  shows "f v \<le> msum f m"
proof -
  have "0 \<le> msum f (m(k := None))"
    using assms(3) by (intro msum_nonneg) (auto split: if_splits)
  with msum_delete [OF assms(1,2), of f] show ?thesis by simp
qed

lemma msum_mono:
  assumes "\<And>k v. m k = Some v \<Longrightarrow> f v \<le> g v"
  shows "msum f m \<le> msum g m"
  unfolding msum_def using assms by (intro sum_mono) auto

lemma msum_zero: "(\<And>k v. m k = Some v \<Longrightarrow> f v = 0) \<Longrightarrow> msum f m = 0"
  unfolding msum_def by (rule sum.neutral) auto

subsection \<open>Decimal printing\<close>

text \<open>\<open>%d\<close> of a non-negative number, and the reading that inverts it.\<close>

fun itoa :: "nat \<Rightarrow> string" where
  "itoa n = (if n < 10 then [char_of (48 + n)] else itoa (n div 10) @ [char_of (48 + n mod 10)])"

declare itoa.simps [simp del]

definition digit_val :: "char \<Rightarrow> nat" where
  "digit_val c = of_char c - 48"

definition atoi :: "string \<Rightarrow> nat" where
  "atoi = foldl (\<lambda>acc c. acc * 10 + digit_val c) 0"

lemma digit_val_char_of [simp]: "d < 10 \<Longrightarrow> digit_val (char_of (48 + d)) = d"
  by (simp add: digit_val_def)

lemma atoi_itoa [simp]: "atoi (itoa n) = n"
proof (induction n rule: itoa.induct)
  case (1 n)
  show ?case
  proof (cases "n < 10")
    case True
    then show ?thesis by (simp add: itoa.simps [of n] atoi_def)
  next
    case False
    with "1.IH" have "atoi (itoa (n div 10)) = n div 10" by simp
    with False show ?thesis by (simp add: itoa.simps [of n] atoi_def)
  qed
qed

lemma itoa_inject [simp]: "itoa m = itoa n \<longleftrightarrow> m = n"
  by (metis atoi_itoa)

subsection \<open>Counting in lists\<close>

lemma length_filter_update:
  assumes "i < length xs"
  shows "int (length (filter P (xs[i := y]))) =
    int (length (filter P xs)) - (if P (xs ! i) then 1 else 0) + (if P y then 1 else 0)"
proof -
  have "filter P xs = filter P (take i xs @ xs ! i # drop (Suc i) xs)"
    using id_take_nth_drop [OF assms] by (rule arg_cong)
  then show ?thesis
    unfolding upd_conv_take_nth_drop [OF assms] by simp
qed

lemma length_filter_member: "x \<in> set xs \<Longrightarrow> P x \<Longrightarrow> 1 \<le> length (filter P xs)"
  by (induction xs) auto

subsection \<open>Choosing the least loaded candidate\<close>

text \<open>
  The loop \<^verbatim>\<open>best := -1; for index in order { if !ok(index) continue;
  if best < 0 || load(index) < load(best) { best = index } }\<close>, with \<open>None\<close> for \<open>-1\<close>.
\<close>

fun scan_least :: "(nat \<Rightarrow> bool) \<Rightarrow> (nat \<Rightarrow> int) \<Rightarrow> nat list \<Rightarrow> nat option \<Rightarrow> nat option" where
  "scan_least ok load [] best = best"
| "scan_least ok load (i # is) best =
     scan_least ok load is
       (if \<not> ok i then best
        else case best of
          None \<Rightarrow> Some i
        | Some j \<Rightarrow> if load i < load j then Some i else Some j)"

lemma scan_least_Some_start: "scan_least ok load is (Some j) \<noteq> None"
  by (induction "is" arbitrary: j) auto

lemma scan_least_None:
  "scan_least ok load is None = None \<longleftrightarrow> (\<forall>i\<in>set is. \<not> ok i)"
  by (induction "is") (auto simp: scan_least_Some_start)

lemma scan_least_Some:
  assumes "scan_least ok load is best = Some r" and "\<forall>j. best = Some j \<longrightarrow> ok j"
  shows "ok r \<and> (r \<in> set is \<or> best = Some r) \<and> (\<forall>i\<in>set is. ok i \<longrightarrow> load r \<le> load i)
    \<and> (\<forall>j. best = Some j \<longrightarrow> load r \<le> load j)"
  using assms
proof (induction "is" arbitrary: best)
  case Nil
  then show ?case by auto
next
  case (Cons i "is")
  show ?case
  proof (cases "ok i")
    case False
    with Cons.IH [of best] Cons.prems show ?thesis by auto
  next
    case True
    define best' where "best' = (case best of None \<Rightarrow> Some i
        | Some j \<Rightarrow> if load i < load j then Some i else Some j)"
    obtain b where b: "best' = Some b" and "ok b" and "b = i \<or> best = Some b"
      and "load b \<le> load i" and bj: "\<forall>j. best = Some j \<longrightarrow> load b \<le> load j"
    proof (cases best)
      case None
      then show ?thesis using that [of i] True by (simp add: best'_def)
    next
      case (Some a)
      then show ?thesis
        using that [of "if load i < load a then i else a"] True Cons.prems(2)
        by (simp add: best'_def)
    qed
    from Cons.prems(1) True have "scan_least ok load is best' = Some r"
      by (simp add: best'_def)
    from Cons.IH [OF this] b \<open>ok b\<close>
    have "ok r" "r \<in> set is \<or> r = b" "\<forall>i\<in>set is. ok i \<longrightarrow> load r \<le> load i" "load r \<le> load b"
      by auto
    with \<open>b = i \<or> best = Some b\<close> \<open>load b \<le> load i\<close> bj show ?thesis by force
  qed
qed

lemmas scan_least_NoneI = scan_least_None [THEN iffD2]
lemmas scan_least_result = scan_least_Some [where best = None, simplified]

lemma nth_update_if: "j < length xs \<Longrightarrow> xs[i := y] ! j = (if i = j then y else xs ! j)"
  by (cases "i = j") auto

lemma member_le_sum_list_int:
  fixes xs :: "int list"
  shows "x \<in> set xs \<Longrightarrow> (\<And>y. y \<in> set xs \<Longrightarrow> 0 \<le> y) \<Longrightarrow> x \<le> sum_list xs"
proof (induction xs)
  case (Cons a xs)
  have "0 \<le> sum_list xs" using Cons.prems(2) by (intro sum_list_nonneg) auto
  then show ?case using Cons by (cases "x = a") (auto intro: order_trans [of x "sum_list xs"])
qed simp

subsection \<open>Interfaces shared by several components\<close>

text \<open>
  A component with one lock: its operations are atomic changes of its state and every operation
  its callers may ask for (\<open>allowed\<close>) keeps the invariant, so every sequence of such operations,
  every interleaving of its callers, does.
\<close>

locale guarded_state =
  fixes step :: "'s \<Rightarrow> 'e \<Rightarrow> 's"
    and inv :: "'s \<Rightarrow> bool"
    and allowed :: "'e \<Rightarrow> bool"
  assumes step_inv: "inv s \<Longrightarrow> allowed e \<Longrightarrow> inv (step s e)"
begin

lemma run_inv: "inv s \<Longrightarrow> list_all allowed es \<Longrightarrow> inv (foldl step s es)"
  by (induction es arbitrary: s) (auto intro: step_inv)

lemma run_split:
  assumes "inv s" and "list_all allowed (es @ fs)"
  shows "inv (foldl step s es) \<and> foldl step s (es @ fs) = foldl step (foldl step s es) fs"
  using assms run_inv [of s es] by simp

end

text \<open>
  A placement rule: \<open>pick s\<close> chooses where the next unit of work goes among the \<open>slots s\<close>
  candidates, and the choice is an eligible candidate that no other eligible one undercuts.
\<close>

locale placement =
  fixes pick :: "'s \<Rightarrow> nat option"
    and slots :: "'s \<Rightarrow> nat"
    and eligible :: "'s \<Rightarrow> nat \<Rightarrow> bool"
    and load :: "'s \<Rightarrow> nat \<Rightarrow> int"
  assumes pick_sound: "pick s = Some i \<Longrightarrow> i < slots s \<and> eligible s i"
    and pick_least: "pick s = Some i \<Longrightarrow> j < slots s \<Longrightarrow> eligible s j \<Longrightarrow> load s i \<le> load s j"
    and pick_complete: "i < slots s \<Longrightarrow> eligible s i \<Longrightarrow> pick s \<noteq> None"
begin

lemma pick_None_iff: "pick s = None \<longleftrightarrow> (\<forall>i < slots s. \<not> eligible s i)"
  using pick_sound pick_complete by (metis option.exhaust)

text \<open>Placing one more unit never raises the highest eligible load above the second lowest plus one.\<close>

lemma pick_balances:
  assumes "pick s = Some i" and "j < slots s" and "eligible s j"
  shows "((load s)(i := load s i + 1)) i \<le> load s j + 1"
  using pick_least [OF assms] by simp

end

end
