(* ===== verification/Plan.thy ===== *)
theory Plan
  imports Prelude
begin

text \<open>
  The plans and their policy values (\<^verbatim>\<open>internal/plan/plan.go\<close>): which broadcast modes a plan
  allows on the server and on the device, the time limits, and the unit multiplier by which
  broadcast time is charged. Plans and modes are Go strings, so an unknown plan or mode is a
  value of the model too.
\<close>

subsection \<open>Plans, modes and policies\<close>

type_synonym Plan = string
type_synonym Mode = string

abbreviation Spark :: Plan where "Spark \<equiv> ''spark''"
abbreviation Glow :: Plan where "Glow \<equiv> ''glow''"
abbreviation Beam :: Plan where "Beam \<equiv> ''beam''"
abbreviation Plasma :: Plan where "Plasma \<equiv> ''plasma''"

abbreviation Mode720pSingle :: Mode where "Mode720pSingle \<equiv> ''720p_single''"
abbreviation ModeFHDSingle :: Mode where "ModeFHDSingle \<equiv> ''fhd_single''"
abbreviation Mode720pMulti :: Mode where "Mode720pMulti \<equiv> ''720p_multi''"
abbreviation ModeFHDMulti :: Mode where "ModeFHDMulti \<equiv> ''fhd_multi''"

definition Modes :: "Mode list" where
  "Modes = [Mode720pSingle, ModeFHDSingle, Mode720pMulti, ModeFHDMulti]"

record Policy =
  MonthlyServer :: duration
  MonthlyDevice :: duration
  MaxPerBroadcast :: duration
  ServerModes :: "Mode list"
  DeviceModes :: "Mode list"
  FaceSlots :: int

text \<open>The zero value of the struct, which a lookup of an unknown plan gives.\<close>

definition zero_Policy :: Policy where
  "zero_Policy = \<lparr>MonthlyServer = 0, MonthlyDevice = 0, MaxPerBroadcast = 0,
     ServerModes = [], DeviceModes = [], FaceSlots = 0\<rparr>"

definition policies :: "Plan \<rightharpoonup> Policy" where
  "policies = [
     Spark \<mapsto> zero_Policy\<lparr>MonthlyDevice := 5 * Hour, MaxPerBroadcast := Hour,
       DeviceModes := [Mode720pSingle], FaceSlots := 2\<rparr>,
     Glow \<mapsto> zero_Policy\<lparr>MonthlyDevice := 60 * Hour, MaxPerBroadcast := 8 * Hour,
       DeviceModes := [Mode720pSingle, ModeFHDSingle], FaceSlots := 2\<rparr>,
     Beam \<mapsto> zero_Policy\<lparr>MonthlyServer := 40 * Hour, MonthlyDevice := 120 * Hour,
       MaxPerBroadcast := 8 * Hour,
       ServerModes := [Mode720pSingle, ModeFHDSingle, Mode720pMulti],
       DeviceModes := [Mode720pSingle, ModeFHDSingle, Mode720pMulti], FaceSlots := 5\<rparr>,
     Plasma \<mapsto> zero_Policy\<lparr>MonthlyServer := 80 * Hour, MonthlyDevice := 300 * Hour,
       MaxPerBroadcast := 12 * Hour,
       ServerModes := [Mode720pSingle, ModeFHDSingle, Mode720pMulti, ModeFHDMulti],
       DeviceModes := [Mode720pSingle, ModeFHDSingle, Mode720pMulti, ModeFHDMulti],
       FaceSlots := 10\<rparr>]"

definition Monthly :: "Policy \<Rightarrow> bool \<Rightarrow> duration" where
  "Monthly p onDevice = (if onDevice then MonthlyDevice p else MonthlyServer p)"

definition Policy_Modes :: "Policy \<Rightarrow> bool \<Rightarrow> Mode list" where
  "Policy_Modes p onDevice = (if onDevice then DeviceModes p else ServerModes p)"

text \<open>\<open>Plan.Policy\<close>: the policy and whether the plan is known. The slices are copied, which a
  value of the model always is.\<close>

definition Plan_Policy :: "Plan \<Rightarrow> Policy \<times> bool" where
  "Plan_Policy p = (case policies p of None \<Rightarrow> (zero_Policy, False) | Some q \<Rightarrow> (q, True))"

definition Valid :: "Plan \<Rightarrow> bool" where
  "Valid p = (case policies p of None \<Rightarrow> False | Some _ \<Rightarrow> True)"

subsection \<open>Units and modes\<close>

definition Units :: "bool \<Rightarrow> int \<Rightarrow> int" where
  "Units fhd targets = (if targets \<le> 0 then 0 else if fhd then i64 (targets + 1) else targets)"

definition Mode_Units :: "Mode \<Rightarrow> int" where
  "Mode_Units m =
     (if m = ModeFHDSingle then Units True 1
      else if m = Mode720pMulti then Units False 2
      else if m = ModeFHDMulti then Units True 2
      else Units False 1)"

definition ModeFor :: "bool \<Rightarrow> int \<Rightarrow> Mode" where
  "ModeFor fhd targets =
     (if fhd \<and> targets > 1 then ModeFHDMulti
      else if fhd then ModeFHDSingle
      else if targets > 1 then Mode720pMulti
      else Mode720pSingle)"

fun Allows_loop :: "Mode list \<Rightarrow> Mode \<Rightarrow> bool" where
  "Allows_loop [] m = False"
| "Allows_loop (a # as) m = (if a = m then True else Allows_loop as m)"

text \<open>Indexing the map with an unknown plan gives the zero policy, which has no modes.\<close>

definition Allows :: "Plan \<Rightarrow> Mode \<Rightarrow> bool \<Rightarrow> bool" where
  "Allows p m onDevice =
     Allows_loop (Policy_Modes (case policies p of None \<Rightarrow> zero_Policy | Some q \<Rightarrow> q) onDevice) m"

subsection \<open>Lemmas\<close>

lemma Allows_loop_iff [simp]: "Allows_loop as m \<longleftrightarrow> m \<in> set as"
  by (induction as) auto

lemma policies_cases:
  "policies p = Some q \<Longrightarrow> p = Spark \<or> p = Glow \<or> p = Beam \<or> p = Plasma"
  by (auto simp: policies_def split: if_splits)

lemma policies_simps [simp]:
  "policies Spark = Some (zero_Policy\<lparr>MonthlyDevice := 5 * Hour, MaxPerBroadcast := Hour,
       DeviceModes := [Mode720pSingle], FaceSlots := 2\<rparr>)"
  "policies Glow = Some (zero_Policy\<lparr>MonthlyDevice := 60 * Hour, MaxPerBroadcast := 8 * Hour,
       DeviceModes := [Mode720pSingle, ModeFHDSingle], FaceSlots := 2\<rparr>)"
  "policies Beam = Some (zero_Policy\<lparr>MonthlyServer := 40 * Hour, MonthlyDevice := 120 * Hour,
       MaxPerBroadcast := 8 * Hour,
       ServerModes := [Mode720pSingle, ModeFHDSingle, Mode720pMulti],
       DeviceModes := [Mode720pSingle, ModeFHDSingle, Mode720pMulti], FaceSlots := 5\<rparr>)"
  "policies Plasma = Some (zero_Policy\<lparr>MonthlyServer := 80 * Hour, MonthlyDevice := 300 * Hour,
       MaxPerBroadcast := 12 * Hour,
       ServerModes := [Mode720pSingle, ModeFHDSingle, Mode720pMulti, ModeFHDMulti],
       DeviceModes := [Mode720pSingle, ModeFHDSingle, Mode720pMulti, ModeFHDMulti],
       FaceSlots := 10\<rparr>)"
  by (simp_all add: policies_def)

lemma Plan_Policy_fst: "fst (Plan_Policy p) = (case policies p of None \<Rightarrow> zero_Policy | Some q \<Rightarrow> q)"
  by (simp add: Plan_Policy_def split: option.split)

lemma Allows_known: "Allows p m onDevice \<Longrightarrow> p = Spark \<or> p = Glow \<or> p = Beam \<or> p = Plasma"
  by (cases "policies p")
    (auto simp: Allows_def Policy_Modes_def zero_Policy_def dest: policies_cases split: if_splits)

lemma Units_nonneg: "targets < 9223372036854775807 \<Longrightarrow> 0 \<le> Units fhd targets"
  by (simp add: Units_def i64_id)

lemma Units_mono:
  "a \<le> b \<Longrightarrow> b < 9223372036854775807 \<Longrightarrow> Units fhd a \<le> Units fhd b"
  by (simp add: Units_def i64_id)

lemma Units_pos: "0 < targets \<Longrightarrow> targets < 9223372036854775807 \<Longrightarrow> 1 \<le> Units fhd targets"
  by (simp add: Units_def i64_id)

lemma policy_times_nonneg:
  "policies p = Some q \<Longrightarrow> 0 \<le> MonthlyServer q \<and> 0 \<le> MonthlyDevice q \<and> 0 < MaxPerBroadcast q"
  by (frule policies_cases) (auto simp: zero_Policy_def)

subsection \<open>Properties\<close>

text \<open>
  The modes of a plan are an upper bound: a plan that allows a mode allows every mode
  before it in the list of modes ordered by multiplier, on the server as on the device; and
  whatever a plan allows on the server it allows on the device.
\<close>

theorem modes_downward_closed:
  assumes "j < length Modes" and "i \<le> j" and "Allows p (Modes ! j) onDevice"
  shows "Allows p (Modes ! i) onDevice \<and> Allows p (Modes ! j) True"
proof -
  have "j = 0 \<or> j = 1 \<or> j = 2 \<or> j = 3" and "i = 0 \<or> i = 1 \<or> i = 2 \<or> i = 3"
    using assms(1,2) by (auto simp: Modes_def)
  with assms(2,3) Allows_known [OF assms(3)] show ?thesis
    by (cases onDevice) (auto simp: Modes_def Allows_def Policy_Modes_def zero_Policy_def)
qed

theorem modes_downward_closed_witness:
  "Allows Beam (Modes ! 2) False \<and> Allows Beam (Modes ! 0) False \<and> Allows Beam (Modes ! 2) True"
  using modes_downward_closed [of 2 0 Beam False]
  by (simp add: Modes_def Allows_def Policy_Modes_def zero_Policy_def)

text \<open>
  The multiplier of the mode chosen for a resolution and a number of targets is the
  number of units those targets cost, for one and for two targets; with more targets the units
  keep growing while the mode's multiplier stays at the two-target value.
\<close>

theorem mode_units_are_target_units:
  assumes "1 \<le> targets" and "targets < 9223372036854775807"
  shows "Mode_Units (ModeFor fhd targets) = Units fhd (min targets 2)
    \<and> Mode_Units (ModeFor fhd targets) \<le> Units fhd targets"
  using assms by (auto simp: Mode_Units_def ModeFor_def Units_def min_def i64_id)

theorem mode_units_are_target_units_witness:
  "Mode_Units (ModeFor True 2) = 3 \<and> Mode_Units (ModeFor True 2) \<le> Units True 2"
  using mode_units_are_target_units [of 2 True] by (simp add: Units_def i64_id)

end
