(* ===== verification/BroadcastLimits.thy ===== *)
theory BroadcastLimits
  imports Plan
begin

text \<open>
  Broadcast limits (\<^verbatim>\<open>internal/server/limits.go\<close>, \<^verbatim>\<open>internal/server/plan_gate.go\<close>,
  \<^verbatim>\<open>internal/session/limits.go\<close>): which notices a running broadcast gets, when it is stopped,
  how long it may still run, which prepare requests a plan rejects, and the notice and heartbeat
  bookkeeping of a session. Logging and the JSON \<open>Details\<close> of an error are left out.
\<close>

subsection \<open>Errors of the REST layer\<close>

record apiError =
  Status :: int
  Code :: string
  Message :: string

definition StatusForbidden :: int where
  "StatusForbidden = 403"

text \<open>\<open>planGateError\<close>; \<open>None\<close> is Go's nil, a request that passes.\<close>

definition planGateError :: "Plan \<Rightarrow> bool \<Rightarrow> bool \<Rightarrow> int \<Rightarrow> apiError option" where
  "planGateError owner onDevice fhd targets =
     (if owner = '''' then None
      else let mode = ModeFor fhd targets in
        if Allows owner mode onDevice then None
        else let policy = fst (Plan_Policy owner) in
          if length (Policy_Modes policy onDevice) = 0 then
            Some \<lparr>Status = StatusForbidden, Code = ''plan_server_streaming_not_allowed'',
              Message = ''This plan streams from the device, not through the server.''\<rparr>
          else if fhd \<and> \<not> Allows owner ModeFHDSingle onDevice then
            Some \<lparr>Status = StatusForbidden, Code = ''plan_resolution_not_allowed'',
              Message = ''This plan does not include FHD streaming.''\<rparr>
          else
            Some \<lparr>Status = StatusForbidden, Code = ''plan_simulcast_not_allowed'',
              Message = ''This plan does not include simultaneous streaming at this resolution.''\<rparr>)"

subsection \<open>The decision of one limit check\<close>

abbreviation noticeBroadcastLimit30m :: string where "noticeBroadcastLimit30m \<equiv> ''broadcast_limit_30m''"
abbreviation noticeBroadcastLimit10m :: string where "noticeBroadcastLimit10m \<equiv> ''broadcast_limit_10m''"
abbreviation noticeBroadcastLimitReached :: string where "noticeBroadcastLimitReached \<equiv> ''broadcast_limit_reached''"
abbreviation noticeMonthlyUsage80 :: string where "noticeMonthlyUsage80 \<equiv> ''monthly_usage_80''"
abbreviation noticeMonthlyUsage100 :: string where "noticeMonthlyUsage100 \<equiv> ''monthly_usage_100''"
abbreviation noticeMonthlyLimitReached :: string where "noticeMonthlyLimitReached \<equiv> ''monthly_limit_reached''"
abbreviation noticeNoInputStopped :: string where "noticeNoInputStopped \<equiv> ''no_input_stopped''"

record limitDecision =
  notices :: "string list"
  stopReason :: string

text \<open>The closure \<open>stop\<close>: the first reason given stays.\<close>

definition stop :: "string \<Rightarrow> limitDecision \<Rightarrow> limitDecision" where
  "stop reason d = (if stopReason d = '''' then d\<lparr>stopReason := reason\<rparr> else d)"

definition notice :: "string \<Rightarrow> limitDecision \<Rightarrow> limitDecision" where
  "notice code d = d\<lparr>notices := notices d @ [code]\<rparr>"

definition when_then :: "bool \<Rightarrow> (limitDecision \<Rightarrow> limitDecision) \<Rightarrow> limitDecision \<Rightarrow> limitDecision" where
  "when_then b f d = (if b then f d else d)"

text \<open>The three groups of checks of \<open>decideLimits\<close>, in the order of the code.\<close>

definition decide_broadcast :: "Policy \<Rightarrow> duration \<Rightarrow> limitDecision \<Rightarrow> limitDecision" where
  "decide_broadcast policy onAir d =
     (let limit = MaxPerBroadcast policy in
      if limit > 0 then
        let remaining = i64 (limit - onAir);
            d1 = when_then (remaining \<le> 30 * Minute) (notice noticeBroadcastLimit30m) d;
            d2 = when_then (remaining \<le> 10 * Minute) (notice noticeBroadcastLimit10m) d1
        in when_then (remaining \<le> 0)
             (\<lambda>d. stop noticeBroadcastLimitReached (notice noticeBroadcastLimitReached d)) d2
      else d)"

definition decide_monthly :: "Plan \<Rightarrow> Policy \<Rightarrow> bool \<Rightarrow> duration \<Rightarrow> limitDecision \<Rightarrow> limitDecision" where
  "decide_monthly owner policy onDevice used d =
     (let limit = Monthly policy onDevice in
      if limit > 0 then
        let d1 = when_then (i64 (used * 5) \<ge> i64 (limit * 4)) (notice noticeMonthlyUsage80) d
        in when_then (used \<ge> limit)
             (\<lambda>d. when_then (owner = Spark)
                (\<lambda>d. stop noticeMonthlyLimitReached (notice noticeMonthlyLimitReached d))
                (notice noticeMonthlyUsage100 d)) d1
      else d)"

definition decide_idle :: "bool \<Rightarrow> duration \<Rightarrow> duration \<Rightarrow> limitDecision \<Rightarrow> limitDecision" where
  "decide_idle checkIdle idleFor idleTimeout d =
     when_then (idleTimeout > 0 \<and> checkIdle \<and> idleFor \<ge> idleTimeout)
       (\<lambda>d. stop noticeNoInputStopped (notice noticeNoInputStopped d)) d"

definition decideLimits ::
  "Plan \<Rightarrow> bool \<Rightarrow> duration \<Rightarrow> duration \<Rightarrow> bool \<Rightarrow> duration \<Rightarrow> duration \<Rightarrow> limitDecision" where
  "decideLimits owner onDevice onAir used checkIdle idleFor idleTimeout =
     (let policy = fst (Plan_Policy owner)
      in decide_idle checkIdle idleFor idleTimeout
           (decide_monthly owner policy onDevice used
             (decide_broadcast policy onAir \<lparr>notices = [], stopReason = ''''\<rparr>)))"

subsection \<open>Remaining broadcast time\<close>

definition consider_remaining :: "duration \<Rightarrow> duration option \<Rightarrow> duration option" where
  "consider_remaining value remaining =
     (let value = max value 0 in
      case remaining of
        None \<Rightarrow> Some value
      | Some r \<Rightarrow> if value < r then Some value else Some r)"

definition broadcastRemaining ::
  "Plan \<Rightarrow> bool \<Rightarrow> duration \<Rightarrow> duration \<Rightarrow> int \<Rightarrow> duration option" where
  "broadcastRemaining owner onDevice onAir used units =
     (let policy = fst (Plan_Policy owner);
          monthly = Monthly policy onDevice;
          r1 = (if monthly > 0 \<and> units > 0
                then consider_remaining (go_quot (i64 (monthly - used)) units) None else None)
      in if MaxPerBroadcast policy > 0
         then consider_remaining (i64 (MaxPerBroadcast policy - onAir)) r1 else r1)"

subsection \<open>Reading the ledger\<close>

text \<open>
  One line of the usage report (\<open>usage.SessionCharge\<close>), with the fields the limits read. The
  ledger itself is modelled in its own theory; here it is the value its \<open>Month\<close> returns.
\<close>

record SessionCharge =
  sc_SessionID :: string
  sc_OnDevice :: bool
  sc_Local :: bool
  sc_OnAir :: duration
  sc_Charged :: duration

text \<open>\<open>broadcastUsage\<close>: the last charge of the session wins, 0 when it has none.\<close>

definition session_onAir :: "string \<Rightarrow> SessionCharge list \<Rightarrow> duration" where
  "session_onAir sessionID charges =
     fold (\<lambda>c onAir. if sc_SessionID c = sessionID then sc_OnAir c else onAir) charges 0"

text \<open>\<open>monthlyUsed\<close>: the charges of one processing place are added.\<close>

definition monthlyUsed :: "bool \<Rightarrow> SessionCharge list \<Rightarrow> duration" where
  "monthlyUsed onDevice charges =
     fold (\<lambda>c used. if sc_OnDevice c = onDevice then i64 (used + sc_Charged c) else used) charges 0"

definition broadcastUsage ::
  "'e + SessionCharge list \<Rightarrow> 'e + SessionCharge list \<Rightarrow> string \<Rightarrow> bool \<Rightarrow> 'e + (duration \<times> duration)" where
  "broadcastUsage since month sessionID onDevice =
     (case since of
        Inl e \<Rightarrow> Err e
      | Inr s \<Rightarrow>
        (case month of
           Inl e \<Rightarrow> Err e
         | Inr m \<Rightarrow> Ok (session_onAir sessionID s, monthlyUsed onDevice m)))"

text \<open>
  \<open>broadcastLimitError\<close> and \<open>monthlyLimitError\<close>: whether a prepare request is turned away. The
  ledger answer is an argument; \<open>ledger\<close>, \<open>user\<close> say whether the server has a ledger and the
  session a user.
\<close>

definition broadcastLimitError ::
  "bool \<Rightarrow> bool \<Rightarrow> Plan \<Rightarrow> string \<Rightarrow> 'e + SessionCharge list \<Rightarrow> 'e + apiError option" where
  "broadcastLimitError ledger user owner sessionID since =
     (if \<not> ledger \<or> owner = '''' \<or> \<not> user then Ok None
      else let policy = fst (Plan_Policy owner) in
        if MaxPerBroadcast policy \<le> 0 then Ok None
        else case since of
          Inl e \<Rightarrow> Err e
        | Inr charges \<Rightarrow>
          Ok (if \<exists>c\<in>set charges. sc_SessionID c = sessionID \<and> sc_OnAir c \<ge> MaxPerBroadcast policy
              then Some \<lparr>Status = StatusForbidden, Code = noticeBroadcastLimitReached,
                Message = ''This broadcast reached its maximum length. Start a new session.''\<rparr>
              else None))"

definition monthlyLimitError ::
  "bool \<Rightarrow> bool \<Rightarrow> Plan \<Rightarrow> bool \<Rightarrow> 'e + SessionCharge list \<Rightarrow> 'e + apiError option" where
  "monthlyLimitError ledger user owner onDevice month =
     (if \<not> ledger \<or> owner = '''' \<or> \<not> user then Ok None
      else let limit = Monthly (fst (Plan_Policy owner)) onDevice in
        if limit \<le> 0 then Ok None
        else case month of
          Inl e \<Rightarrow> Err e
        | Inr charges \<Rightarrow>
          Ok (if monthlyUsed onDevice charges < limit then None
              else Some \<lparr>Status = StatusForbidden, Code = ''monthly_limit_exhausted'',
                Message = ''This month's broadcast time is used up.''\<rparr>))"

subsection \<open>Lemmas on the decision\<close>

lemmas decide_defs = decide_broadcast_def decide_monthly_def decide_idle_def when_then_def
  notice_def stop_def Let_def

text \<open>Amounts of time for which no product of the check leaves \<open>int64\<close>.\<close>

abbreviation modest :: "duration \<Rightarrow> bool" where
  "modest t \<equiv> 0 \<le> t \<and> t \<le> 1000000000000000000"

lemma policy_times_modest:
  "modest (MonthlyServer (fst (Plan_Policy p))) \<and> modest (MonthlyDevice (fst (Plan_Policy p)))
   \<and> modest (MaxPerBroadcast (fst (Plan_Policy p)))"
proof (cases "policies p")
  case None
  then show ?thesis by (simp add: Plan_Policy_fst zero_Policy_def)
next
  case (Some q)
  from policies_cases [OF Some] show ?thesis by (auto simp: Plan_Policy_fst zero_Policy_def)
qed

lemma Monthly_modest: "modest (Monthly (fst (Plan_Policy p)) onDevice)"
  using policy_times_modest [of p] by (simp add: Monthly_def)

lemma policy_times_i64:
  assumes "modest onAir" and "modest used"
  shows "i64 (MaxPerBroadcast (fst (Plan_Policy p)) - onAir) = MaxPerBroadcast (fst (Plan_Policy p)) - onAir
    \<and> i64 (used * 5) = used * 5
    \<and> i64 (Monthly (fst (Plan_Policy p)) onDevice * 4) = Monthly (fst (Plan_Policy p)) onDevice * 4
    \<and> i64 (Monthly (fst (Plan_Policy p)) onDevice - used) = Monthly (fst (Plan_Policy p)) onDevice - used"
  using assms policy_times_modest [of p] Monthly_modest [of p onDevice]
  by (intro conjI i64_id) auto

lemma decide_broadcast_stop:
  "stopReason (decide_broadcast policy onAir d) =
     (if stopReason d = '''' \<and> 0 < MaxPerBroadcast policy \<and> i64 (MaxPerBroadcast policy - onAir) \<le> 0
      then noticeBroadcastLimitReached else stopReason d)"
  by (simp add: decide_defs)

lemma decide_monthly_stop:
  "stopReason (decide_monthly owner policy onDevice used d) =
     (if stopReason d = '''' \<and> 0 < Monthly policy onDevice \<and> Monthly policy onDevice \<le> used \<and> owner = Spark
      then noticeMonthlyLimitReached else stopReason d)"
  by (simp add: decide_defs)

lemma decide_idle_stop:
  "stopReason (decide_idle checkIdle idleFor idleTimeout d) =
     (if stopReason d = '''' \<and> idleTimeout > 0 \<and> checkIdle \<and> idleFor \<ge> idleTimeout
      then noticeNoInputStopped else stopReason d)"
  by (simp add: decide_defs)

lemmas decide_stop = decide_idle_stop decide_monthly_stop decide_broadcast_stop

lemma decide_broadcast_notices:
  "set (notices (decide_broadcast policy onAir d)) = set (notices d) \<union>
     (if 0 < MaxPerBroadcast policy then
        (let r = i64 (MaxPerBroadcast policy - onAir) in
          {n. n = noticeBroadcastLimit30m \<and> r \<le> 30 * Minute} \<union>
          {n. n = noticeBroadcastLimit10m \<and> r \<le> 10 * Minute} \<union>
          {n. n = noticeBroadcastLimitReached \<and> r \<le> 0}) else {})"
  by (auto simp: decide_defs)

lemma decide_monthly_notices:
  "set (notices (decide_monthly owner policy onDevice used d)) = set (notices d) \<union>
     (if 0 < Monthly policy onDevice then
        {n. n = noticeMonthlyUsage80 \<and> i64 (Monthly policy onDevice * 4) \<le> i64 (used * 5)} \<union>
        {n. n = noticeMonthlyUsage100 \<and> Monthly policy onDevice \<le> used} \<union>
        {n. n = noticeMonthlyLimitReached \<and> Monthly policy onDevice \<le> used \<and> owner = Spark} else {})"
  by (auto simp: decide_defs)

lemma decide_idle_notices:
  "set (notices (decide_idle checkIdle idleFor idleTimeout d)) = set (notices d) \<union>
     {n. n = noticeNoInputStopped \<and> idleTimeout > 0 \<and> checkIdle \<and> idleFor \<ge> idleTimeout}"
  by (auto simp: decide_defs)

lemmas decide_notices = decide_idle_notices decide_monthly_notices decide_broadcast_notices

lemma select_mono: "(r' :: int) \<le> r \<Longrightarrow> {n. n = c \<and> r \<le> t} \<subseteq> {n. n = c \<and> r' \<le> t}"
  by auto

lemma decide_broadcast_mono:
  assumes "i64 (MaxPerBroadcast policy - onAir') \<le> i64 (MaxPerBroadcast policy - onAir)"
  shows "set (notices (decide_broadcast policy onAir d)) \<subseteq> set (notices (decide_broadcast policy onAir' d))"
proof (cases "0 < MaxPerBroadcast policy")
  case True
  show ?thesis
    unfolding decide_broadcast_notices Let_def if_P [OF True]
    by (intro Un_mono subset_refl select_mono assms)
next
  case False
  then show ?thesis by (simp add: decide_broadcast_notices)
qed

lemma decide_monthly_mono:
  assumes "i64 (used * 5) \<le> i64 (used' * 5)" and "used \<le> used'"
    and "set (notices d) \<subseteq> set (notices d')"
  shows "set (notices (decide_monthly owner policy onDevice used d))
    \<subseteq> set (notices (decide_monthly owner policy onDevice used' d'))"
proof (cases "0 < Monthly policy onDevice")
  case True
  show ?thesis
    unfolding decide_monthly_notices if_P [OF True]
    using assms by (intro Un_mono Collect_mono impI conjI) auto
next
  case False
  then show ?thesis using assms(3) by (simp add: decide_monthly_notices)
qed

lemma decide_idle_mono:
  assumes "idleFor \<le> idleFor'" and "set (notices d) \<subseteq> set (notices d')"
  shows "set (notices (decide_idle checkIdle idleFor idleTimeout d))
    \<subseteq> set (notices (decide_idle checkIdle idleFor' idleTimeout d'))"
  using assms by (auto simp: decide_idle_notices)

lemma consider_remaining_Some:
  "consider_remaining v r = Some (case r of None \<Rightarrow> max v 0 | Some r \<Rightarrow> min (max v 0) r)"
  by (auto simp: consider_remaining_def Let_def min_def split: option.split)

lemma le_div_units:
  fixes t u x :: int
  assumes "0 < u"
  shows "x \<le> t div u \<longleftrightarrow> u * x \<le> t"
proof
  assume "x \<le> t div u"
  then have "u * x \<le> u * (t div u)" using assms by simp
  also have "\<dots> \<le> t" using assms pos_mod_sign [of u t] by (simp add: minus_mod_eq_mult_div [symmetric])
  finally show "u * x \<le> t" .
next
  assume "u * x \<le> t"
  then have "u * x div u \<le> t div u" using assms by (intro zdiv_mono1)
  then show "x \<le> t div u" using assms by simp
qed

subsection \<open>Properties\<close>

text \<open>
  Property C15. A limit check stops a broadcast exactly when the broadcast has reached its maximum
  length, or a Spark user has used up the month, or no input has arrived for the idle timeout;
  a paid plan is never cut off for the month. The reason given is among the notices sent.
\<close>

theorem decideLimits_stops_exactly:
  fixes owner :: Plan and onDevice checkIdle :: bool and idleFor idleTimeout :: duration
  assumes "modest onAir" and "modest used"
  defines "d \<equiv> decideLimits owner onDevice onAir used checkIdle idleFor idleTimeout"
  defines "p \<equiv> fst (Plan_Policy owner)"
  shows "(stopReason d \<noteq> '''' \<longleftrightarrow>
      0 < MaxPerBroadcast p \<and> MaxPerBroadcast p \<le> onAir
    \<or> owner = Spark \<and> 0 < Monthly p onDevice \<and> Monthly p onDevice \<le> used
    \<or> 0 < idleTimeout \<and> checkIdle \<and> idleTimeout \<le> idleFor)
    \<and> (stopReason d = '''' \<or> stopReason d \<in> set (notices d))"
  using policy_times_i64 [OF assms(1,2), of owner onDevice]
  by (auto simp: d_def p_def decideLimits_def Let_def decide_stop decide_notices)

theorem decideLimits_stops_exactly_witness:
  "stopReason (decideLimits Spark True Hour 0 False 0 0) \<noteq> ''''
   \<and> stopReason (decideLimits Beam False 0 (40 * Hour) False 0 0) = ''''"
  using decideLimits_stops_exactly [of Hour 0 Spark True False 0 0]
    decideLimits_stops_exactly [of 0 "40 * Hour" Beam False False 0 0]
  by (simp add: Plan_Policy_fst zero_Policy_def)

text \<open>
  Notices only accumulate: with more time on air, more time used in the month and a
  longer idle period, every notice of the earlier check is given again (and \<open>AddNotice\<close> drops it).
\<close>

theorem decideLimits_notices_mono:
  assumes "modest onAir" "modest used" "modest onAir'" "modest used'"
    and "onAir \<le> onAir'" "used \<le> used'" "idleFor \<le> idleFor'"
  shows "set (notices (decideLimits owner onDevice onAir used checkIdle idleFor idleTimeout))
    \<subseteq> set (notices (decideLimits owner onDevice onAir' used' checkIdle idleFor' idleTimeout))"
  unfolding decideLimits_def Let_def
  using assms policy_times_i64 [OF assms(1,2), of owner onDevice]
    policy_times_i64 [OF assms(3,4), of owner onDevice]
  by (intro decide_idle_mono decide_monthly_mono decide_broadcast_mono) simp_all

theorem decideLimits_notices_mono_witness:
  "set (notices (decideLimits Spark True 0 0 False 0 0))
   \<subseteq> set (notices (decideLimits Spark True Hour (5 * Hour) False 0 0))"
  by (rule decideLimits_notices_mono) simp_all



text \<open>
  The plan gate lets a prepare request pass exactly when the session has no plan or
  its plan allows the mode; a rejected request is a 403 whose code names the missing feature.
\<close>

theorem planGateError_iff_not_allowed:
  "(planGateError owner onDevice fhd targets = None \<longleftrightarrow>
      owner = '''' \<or> Allows owner (ModeFor fhd targets) onDevice)
   \<and> (\<forall>e. planGateError owner onDevice fhd targets = Some e \<longrightarrow> Status e = 403
      \<and> (Code e = ''plan_server_streaming_not_allowed'' \<longleftrightarrow> (\<forall>m. \<not> Allows owner m onDevice))
      \<and> (Code e = ''plan_resolution_not_allowed'' \<longrightarrow> fhd \<and> \<not> Allows owner ModeFHDSingle onDevice))"
  by (auto simp: planGateError_def Let_def StatusForbidden_def Allows_def Plan_Policy_fst)

theorem planGateError_iff_not_allowed_witness:
  "planGateError Glow True True 1 = None
   \<and> (\<exists>e. planGateError Glow True True 2 = Some e \<and> Status e = 403)"
proof -
  have s: "\<exists>e. planGateError Glow True True 2 = Some e"
    by (simp add: planGateError_def Let_def Allows_def Policy_Modes_def zero_Policy_def ModeFor_def
        Plan_Policy_fst)
  show ?thesis
    using s planGateError_iff_not_allowed [of Glow True True 1]
      planGateError_iff_not_allowed [of Glow True True 2]
    by (auto simp: Allows_def Policy_Modes_def zero_Policy_def ModeFor_def)
qed

end
