(* ===== verification/EgressSlots.thy ===== *)
theory EgressSlots
  imports Plan
begin

text \<open>
  The egress slot budget (\<^verbatim>\<open>internal/media/egress_slots.go\<close>): units per owner, reserved shares of
  the higher plan tiers, the cards of the NVENC encoder, units held for an upgrade offer, and the
  queue of waiting requests. Every method runs under the budget's mutex, so each is one atomic
  change of the record below. A channel is its number; \<open>signals\<close> holds the channels whose one
  buffered signal has not been received.
\<close>

subsection \<open>State\<close>

record EgressClaim =
  Owner :: string
  HighRes :: bool
  Tier :: int
  Group :: string

record egressOwner =
  ow_claim :: EgressClaim
  ow_count :: int
  ow_held :: int

record egressHold =
  hold_units :: int
  hold_tier :: int
  hold_group :: string

datatype egressError =
    ErrEgressSlotsExhausted
  | ErrEgressTierUnitsExhausted
  | ErrUnitsAlreadyHeld string
  | ErrContext

definition EgressTierUnrestricted :: int where
  "EgressTierUnrestricted = 9223372036854775807"

definition nvencSessionsPerCard :: int where
  "nvencSessionsPerCard = 12"

record EgressSlotBudget =
  capacity :: int
  devices :: int
  tierReserves :: "int list"
  used :: int
  usedByTier :: "int \<Rightarrow> int"
  perCard :: "int list"
  owners :: "string \<rightharpoonup> egressOwner"
  anonymous :: nat
  waiters :: "nat list"
  usedByGroup :: "string \<rightharpoonup> int"
  holds :: "string \<rightharpoonup> egressHold"
  signals :: "nat set"
  next_chan :: nat

text \<open>\<open>NewEgressSlotBudget\<close>; \<open>None\<close> is the nil budget, which neither limits nor assigns cards.\<close>

definition NewEgressSlotBudget :: "int \<Rightarrow> int \<Rightarrow> EgressSlotBudget option" where
  "NewEgressSlotBudget cap devs =
     (if cap \<le> 0 \<and> devs \<le> 0 then None
      else Some \<lparr>capacity = cap, devices = devs, tierReserves = [], used = 0,
        usedByTier = (\<lambda>_. 0), perCard = (if devs > 0 then replicate (nat devs) 0 else []),
        owners = Map.empty, anonymous = 0, waiters = [], usedByGroup = Map.empty,
        holds = Map.empty, signals = {}, next_chan = 0\<rparr>)"

record EgressLease =
  device :: "nat option"
  lease_owner :: string
  released :: bool

subsection \<open>Accounting helpers\<close>

definition egressUnits :: "bool \<Rightarrow> int \<Rightarrow> int" where
  "egressUnits highRes n = (if n \<le> 0 then 0 else if highRes then n + 1 else n)"

definition group_units :: "EgressSlotBudget \<Rightarrow> string \<Rightarrow> int" where
  "group_units b g = (case usedByGroup b g of None \<Rightarrow> 0 | Some v \<Rightarrow> v)"

text \<open>The three \<open>+=\<close> that move units in and out of a tier and a group.\<close>

definition add_units :: "int \<Rightarrow> string \<Rightarrow> int \<Rightarrow> EgressSlotBudget \<Rightarrow> EgressSlotBudget" where
  "add_units tier g n b = b\<lparr>used := used b + n,
     usedByTier := (usedByTier b)(tier := usedByTier b tier + n),
     usedByGroup := (usedByGroup b)(g \<mapsto> group_units b g + n)\<rparr>"

text \<open>\<open>if b.usedByGroup[group] <= 0 { delete(b.usedByGroup, group) }\<close>\<close>

definition drop_group :: "string \<Rightarrow> EgressSlotBudget \<Rightarrow> EgressSlotBudget" where
  "drop_group g b = (if group_units b g \<le> 0 then b\<lparr>usedByGroup := (usedByGroup b)(g := None)\<rparr> else b)"

definition addLocked :: "int \<Rightarrow> string \<Rightarrow> int \<Rightarrow> EgressSlotBudget \<Rightarrow> EgressSlotBudget" where
  "addLocked tier g n b = drop_group g (add_units tier g n b)"

definition zero_hold :: egressHold where
  "zero_hold = \<lparr>hold_units = 0, hold_tier = 0, hold_group = ''''\<rparr>"

definition hold_of :: "EgressSlotBudget \<Rightarrow> string \<Rightarrow> egressHold" where
  "hold_of b k = (case holds b k of None \<Rightarrow> zero_hold | Some h \<Rightarrow> h)"

definition holdForLocked :: "EgressSlotBudget \<Rightarrow> string \<Rightarrow> int \<Rightarrow> int" where
  "holdForLocked b k delta =
     (if k = '''' \<or> delta \<le> 0 then 0 else min (hold_units (hold_of b k)) delta)"

definition consumeHoldLocked :: "string \<Rightarrow> int \<Rightarrow> EgressSlotBudget \<Rightarrow> EgressSlotBudget" where
  "consumeHoldLocked k n b =
     (if n \<le> 0 then b
      else let h = hold_of b k;
               h' = h\<lparr>hold_units := hold_units h - n\<rparr>;
               b1 = addLocked (hold_tier h') (hold_group h') (- n) b
           in if hold_units h' \<le> 0 then b1\<lparr>holds := (holds b1)(k := None)\<rparr>
              else b1\<lparr>holds := (holds b1)(k \<mapsto> h')\<rparr>)"

definition higherTierVacancyLocked :: "EgressSlotBudget \<Rightarrow> int \<Rightarrow> int" where
  "higherTierVacancyLocked b tier =
     (let higher = i64 (tier + 1) in
      if higher < 0 then 0
      else fold (\<lambda>h vacancy. let unused = tierReserves b ! h - usedByTier b (int h)
                            in if unused > 0 then vacancy + unused else vacancy)
             [nat higher ..< length (tierReserves b)] 0)"

text \<open>The two comparisons every admission makes with the units in use after it.\<close>

definition admission :: "EgressSlotBudget \<Rightarrow> int \<Rightarrow> int \<Rightarrow> egressError option" where
  "admission b want tier =
     (if want > capacity b then Some ErrEgressSlotsExhausted
      else if want > capacity b - higherTierVacancyLocked b tier then Some ErrEgressTierUnitsExhausted
      else None)"

definition leastLoadedLocked :: "EgressSlotBudget \<Rightarrow> nat option" where
  "leastLoadedLocked b =
     scan_least (\<lambda>i. \<not> perCard b ! i \<ge> nvencSessionsPerCard) (\<lambda>i. perCard b ! i)
       [0..<length (perCard b)] None"

subsection \<open>Waiting requests\<close>

definition appendWaiterLocked :: "EgressSlotBudget \<Rightarrow> nat \<times> EgressSlotBudget" where
  "appendWaiterLocked b =
     (next_chan b, b\<lparr>waiters := waiters b @ [next_chan b], next_chan := Suc (next_chan b)\<rparr>)"

definition wakeOneLocked :: "EgressSlotBudget \<Rightarrow> EgressSlotBudget" where
  "wakeOneLocked b =
     (case waiters b of
        [] \<Rightarrow> b
      | w # ws \<Rightarrow> b\<lparr>waiters := ws, signals := insert w (signals b)\<rparr>)"

text \<open>\<open>for len(b.waiters) > 0 { b.wakeOneLocked() }\<close>\<close>

function wake_all :: "EgressSlotBudget \<Rightarrow> EgressSlotBudget" where
  "wake_all b = (if waiters b = [] then b else wake_all (wakeOneLocked b))"
  by pat_completeness auto
termination
  by (relation "measure (\<lambda>b. length (waiters b))") (auto simp: wakeOneLocked_def split: list.splits)

declare wake_all.simps [simp del]

definition abandonWaiter :: "nat \<Rightarrow> EgressSlotBudget \<Rightarrow> EgressSlotBudget" where
  "abandonWaiter w b =
     (if w \<in> set (waiters b) then b\<lparr>waiters := remove1 w (waiters b)\<rparr>
      else if w \<in> signals b then wakeOneLocked (b\<lparr>signals := signals b - {w}\<rparr>)
      else b)"

subsection \<open>Operations\<close>

text \<open>The key of a claim without an owner, \<^verbatim>\<open>fmt.Sprintf("\x00anonymous-%d", b.anonymous)\<close>.\<close>

definition anonymous_key :: "nat \<Rightarrow> string" where
  "anonymous_key n = CHR 0x00 # ''anonymous-'' @ itoa n"

definition claim_owner_of :: "EgressSlotBudget \<Rightarrow> EgressClaim \<Rightarrow> egressOwner" where
  "claim_owner_of b claim =
     (if Owner claim = '''' then \<lparr>ow_claim = claim, ow_count = 0, ow_held = 0\<rparr>
      else case owners b (Owner claim) of
        None \<Rightarrow> \<lparr>ow_claim = claim, ow_count = 0, ow_held = 0\<rparr>
      | Some ow \<Rightarrow> ow)"

text \<open>The end of \<open>tryAcquire\<close>, once a card is chosen: the changes of the accounts.\<close>

definition commit_acquire ::
  "EgressClaim \<Rightarrow> egressOwner \<Rightarrow> int \<Rightarrow> int \<Rightarrow> nat option \<Rightarrow> EgressSlotBudget \<Rightarrow> EgressLease \<times> EgressSlotBudget" where
  "commit_acquire claim ow delta heldUnits dev b =
     (let b1 = (case dev of None \<Rightarrow> b | Some d \<Rightarrow> b\<lparr>perCard := (perCard b)[d := perCard b ! d + 1]\<rparr>);
          b2 = consumeHoldLocked (Owner claim) heldUnits b1;
          ow' = ow\<lparr>ow_count := ow_count ow + 1, ow_held := ow_held ow + delta\<rparr>;
          b3 = add_units (Tier (ow_claim ow)) (Group (ow_claim ow)) delta b2;
          b4 = (if Owner claim = '''' then b3\<lparr>anonymous := Suc (anonymous b3)\<rparr> else b3);
          key = (if Owner claim = '''' then anonymous_key (anonymous b4) else Owner claim)
      in (\<lparr>device = dev, lease_owner = key, released = False\<rparr>,
          b4\<lparr>owners := (owners b4)(key \<mapsto> ow')\<rparr>))"

definition wait_for :: "egressError \<Rightarrow> EgressSlotBudget \<Rightarrow> (nat \<times> egressError + EgressLease) \<times> EgressSlotBudget" where
  "wait_for reason b = (case appendWaiterLocked b of (w, b') \<Rightarrow> (Err (w, reason), b'))"

definition tryAcquire ::
  "EgressClaim \<Rightarrow> EgressSlotBudget \<Rightarrow> (nat \<times> egressError + EgressLease) \<times> EgressSlotBudget" where
  "tryAcquire claim b =
     (let ow = claim_owner_of b claim;
          delta = egressUnits (HighRes (ow_claim ow)) (ow_count ow + 1) - ow_held ow;
          heldUnits = holdForLocked b (Owner claim) delta
      in case (if capacity b > 0 then admission b (used b - heldUnits + delta) (Tier (ow_claim ow)) else None) of
           Some reason \<Rightarrow> wait_for reason b
         | None \<Rightarrow>
           (if devices b > 0
            then (case leastLoadedLocked b of
                    None \<Rightarrow> wait_for ErrEgressSlotsExhausted b
                  | Some d \<Rightarrow> (case commit_acquire claim ow delta heldUnits (Some d) b of (l, b') \<Rightarrow> (Ok l, b')))
            else (case commit_acquire claim ow delta heldUnits None b of (l, b') \<Rightarrow> (Ok l, b'))))"

text \<open>\<open>release\<close>: the owner's units, then the card, then every waiter is woken.\<close>

definition release_units :: "string \<Rightarrow> EgressSlotBudget \<Rightarrow> EgressSlotBudget" where
  "release_units key b =
     (case owners b key of
        None \<Rightarrow> b
      | Some ow \<Rightarrow>
        let n = ow_count ow - 1;
            freed = ow_held ow - egressUnits (HighRes (ow_claim ow)) n;
            ow' = ow\<lparr>ow_count := n, ow_held := ow_held ow - freed\<rparr>;
            b' = drop_group (Group (ow_claim ow))
                   (add_units (Tier (ow_claim ow)) (Group (ow_claim ow)) (- freed) b)
        in b'\<lparr>owners := (if n \<le> 0 then (owners b')(key := None) else (owners b')(key \<mapsto> ow'))\<rparr>)"

definition release_card :: "nat option \<Rightarrow> EgressSlotBudget \<Rightarrow> EgressSlotBudget" where
  "release_card dev b =
     (case dev of
        None \<Rightarrow> b
      | Some d \<Rightarrow> if d < length (perCard b) \<and> perCard b ! d > 0
                 then b\<lparr>perCard := (perCard b)[d := perCard b ! d - 1]\<rparr> else b)"

definition release :: "nat option \<Rightarrow> string \<Rightarrow> EgressSlotBudget \<Rightarrow> EgressSlotBudget" where
  "release dev key b = wake_all (release_card dev (release_units key b))"

text \<open>\<open>EgressLease.Release\<close>: only the first call reaches the budget.\<close>

definition Release :: "EgressLease \<Rightarrow> EgressSlotBudget \<Rightarrow> EgressLease \<times> EgressSlotBudget" where
  "Release l b =
     (if released l then (l, b)
      else (l\<lparr>released := True\<rparr>, release (device l) (lease_owner l) b))"

definition ChangeResolution ::
  "string \<Rightarrow> bool \<Rightarrow> EgressSlotBudget \<Rightarrow> (egressError + unit) \<times> EgressSlotBudget" where
  "ChangeResolution key highRes b =
     (case (if key = '''' then None else owners b key) of
        None \<Rightarrow> (Ok (), b)
      | Some ow \<Rightarrow>
        let delta = egressUnits highRes (ow_count ow) - ow_held ow;
            heldUnits = holdForLocked b key delta
        in case (if delta > 0 \<and> capacity b > 0
                 then admission b (used b - heldUnits + delta) (Tier (ow_claim ow)) else None) of
             Some e \<Rightarrow> (Err e, b)
           | None \<Rightarrow>
             let b1 = consumeHoldLocked key heldUnits b;
                 ow' = ow\<lparr>ow_claim := (ow_claim ow)\<lparr>HighRes := highRes\<rparr>, ow_held := ow_held ow + delta\<rparr>;
                 b2 = add_units (Tier (ow_claim ow)) (Group (ow_claim ow)) delta b1;
                 b3 = b2\<lparr>owners := (owners b2)(key \<mapsto> ow')\<rparr>
             in (Ok (), if delta < 0 then wake_all b3 else b3))"

definition CheckClaim :: "EgressClaim \<Rightarrow> int \<Rightarrow> EgressSlotBudget \<Rightarrow> egressError option" where
  "CheckClaim claim n b =
     (if capacity b \<le> 0 then None
      else let ownUnits = (if Owner claim = '''' then 0 else
                (case owners b (Owner claim) of None \<Rightarrow> 0 | Some ow \<Rightarrow> ow_held ow)
                + hold_units (hold_of b (Owner claim)))
           in admission b (used b - ownUnits + egressUnits (HighRes claim) n) (Tier claim))"

definition Hold :: "EgressClaim \<Rightarrow> int \<Rightarrow> EgressSlotBudget \<Rightarrow> (egressError + unit) \<times> EgressSlotBudget" where
  "Hold claim n b =
     (if n \<le> 0 \<or> Owner claim = '''' then (Ok (), b)
      else if holds b (Owner claim) \<noteq> None then (Err (ErrUnitsAlreadyHeld (Owner claim)), b)
      else case (if capacity b > 0 then admission b (used b + n) (Tier claim) else None) of
        Some e \<Rightarrow> (Err e, b)
      | None \<Rightarrow>
        (Ok (), addLocked (Tier claim) (Group claim) n
           (b\<lparr>holds := (holds b)(Owner claim \<mapsto>
                \<lparr>hold_units = n, hold_tier = Tier claim, hold_group = Group claim\<rparr>)\<rparr>)))"

definition ReleaseHold :: "string \<Rightarrow> EgressSlotBudget \<Rightarrow> EgressSlotBudget" where
  "ReleaseHold k b =
     (case holds b k of
        None \<Rightarrow> b
      | Some h \<Rightarrow> wake_all (addLocked (hold_tier h) (hold_group h) (- hold_units h)
                    (b\<lparr>holds := (holds b)(k := None)\<rparr>)))"

definition Held :: "string \<Rightarrow> EgressSlotBudget \<Rightarrow> int" where
  "Held k b = hold_units (hold_of b k)"

definition SetTierReserves :: "int list \<Rightarrow> EgressSlotBudget \<Rightarrow> EgressSlotBudget" where
  "SetTierReserves reserves b = b\<lparr>tierReserves := reserves\<rparr>"

text \<open>The read-only methods, with their answers for the nil budget.\<close>

definition Used :: "EgressSlotBudget option \<Rightarrow> int" where
  "Used b = (case b of None \<Rightarrow> 0 | Some b \<Rightarrow> used b)"

definition Capacity :: "EgressSlotBudget option \<Rightarrow> int" where
  "Capacity b = (case b of None \<Rightarrow> 0 | Some b \<Rightarrow> capacity b)"

definition UsedByGroup :: "EgressSlotBudget option \<Rightarrow> (string \<rightharpoonup> int)" where
  "UsedByGroup b = (case b of None \<Rightarrow> Map.empty | Some b \<Rightarrow> usedByGroup b)"

definition PerCard :: "EgressSlotBudget option \<Rightarrow> int list" where
  "PerCard b = (case b of None \<Rightarrow> [] | Some b \<Rightarrow> perCard b)"

subsection \<open>The invariant of the accounts\<close>

text \<open>The units that owners and holds of the selected tiers and groups account for.\<close>

definition units_where :: "(int \<Rightarrow> string \<Rightarrow> bool) \<Rightarrow> EgressSlotBudget \<Rightarrow> int" where
  "units_where w b =
     msum (\<lambda>ow. if w (Tier (ow_claim ow)) (Group (ow_claim ow)) then ow_held ow else 0) (owners b)
   + msum (\<lambda>h. if w (hold_tier h) (hold_group h) then hold_units h else 0) (holds b)"

text \<open>Every owner has an egress and holds exactly the units of its egresses; a hold is positive.\<close>

definition owner_ok :: "egressOwner \<Rightarrow> bool" where
  "owner_ok ow \<longleftrightarrow> 1 \<le> ow_count ow \<and> ow_held ow = egressUnits (HighRes (ow_claim ow)) (ow_count ow)"

definition entries_ok :: "EgressSlotBudget \<Rightarrow> bool" where
  "entries_ok b \<longleftrightarrow> finite (dom (owners b)) \<and> finite (dom (holds b))
     \<and> (\<forall>k ow. owners b k = Some ow \<longrightarrow> owner_ok ow)
     \<and> (\<forall>k h. holds b k = Some h \<longrightarrow> 1 \<le> hold_units h)"

definition sums_ok :: "EgressSlotBudget \<Rightarrow> bool" where
  "sums_ok b \<longleftrightarrow> used b = units_where (\<lambda>_ _. True) b
     \<and> (\<forall>t. usedByTier b t = units_where (\<lambda>t' _. t' = t) b)
     \<and> (\<forall>g. usedByGroup b g = (let s = units_where (\<lambda>_ g'. g' = g) b in if s = 0 then None else Some s))"

definition capacity_ok :: "EgressSlotBudget \<Rightarrow> bool" where
  "capacity_ok b \<longleftrightarrow> (capacity b > 0 \<longrightarrow> used b \<le> capacity b)"

definition cards_ok :: "EgressSlotBudget \<Rightarrow> bool" where
  "cards_ok b \<longleftrightarrow> (\<forall>n\<in>set (perCard b). 0 \<le> n \<and> n \<le> nvencSessionsPerCard)
     \<and> (devices b > 0 \<longrightarrow> length (perCard b) = nat (devices b))"

definition keys_ok :: "EgressSlotBudget \<Rightarrow> bool" where
  "keys_ok b \<longleftrightarrow> owners b '''' = None \<and> holds b '''' = None
     \<and> (\<forall>n > anonymous b. owners b (anonymous_key n) = None)"

text \<open>Callers name owners by session id, which never begins with the NUL of an anonymous key.\<close>

definition plain_key :: "string \<Rightarrow> bool" where
  "plain_key k \<longleftrightarrow> (case k of [] \<Rightarrow> True | c # _ \<Rightarrow> c \<noteq> CHR 0x00)"

subsection \<open>Lemmas on units and sums\<close>

lemma egressUnits_step: "0 \<le> n \<Longrightarrow> egressUnits hr n + 1 \<le> egressUnits hr (n + 1)"
  by (simp add: egressUnits_def)

lemma egressUnits_pos: "1 \<le> n \<Longrightarrow> 1 \<le> egressUnits hr n"
  by (simp add: egressUnits_def)

lemma egressUnits_nonneg: "0 \<le> egressUnits hr n"
  by (simp add: egressUnits_def)

lemma units_where_frame:
  "owners b' = owners b \<Longrightarrow> holds b' = holds b \<Longrightarrow> units_where w b' = units_where w b"
  by (simp add: units_where_def)

lemma add_units_fields [simp]:
  "owners (add_units t g n b) = owners b" "holds (add_units t g n b) = holds b"
  "capacity (add_units t g n b) = capacity b" "devices (add_units t g n b) = devices b"
  "perCard (add_units t g n b) = perCard b" "anonymous (add_units t g n b) = anonymous b"
  "used (add_units t g n b) = used b + n" "tierReserves (add_units t g n b) = tierReserves b"
  "usedByTier (add_units t g n b) = (usedByTier b)(t := usedByTier b t + n)"
  "usedByGroup (add_units t g n b) = (usedByGroup b)(g \<mapsto> group_units b g + n)"
  "waiters (add_units t g n b) = waiters b" "signals (add_units t g n b) = signals b"
  by (simp_all add: add_units_def)

lemma drop_group_fields [simp]:
  "owners (drop_group g b) = owners b" "holds (drop_group g b) = holds b"
  "capacity (drop_group g b) = capacity b" "devices (drop_group g b) = devices b"
  "perCard (drop_group g b) = perCard b" "anonymous (drop_group g b) = anonymous b"
  "used (drop_group g b) = used b" "tierReserves (drop_group g b) = tierReserves b"
  "usedByTier (drop_group g b) = usedByTier b"
  "waiters (drop_group g b) = waiters b" "signals (drop_group g b) = signals b"
  by (simp_all add: drop_group_def)

lemma addLocked_fields [simp]:
  "owners (addLocked t g n b) = owners b" "holds (addLocked t g n b) = holds b"
  "capacity (addLocked t g n b) = capacity b" "devices (addLocked t g n b) = devices b"
  "perCard (addLocked t g n b) = perCard b" "anonymous (addLocked t g n b) = anonymous b"
  "used (addLocked t g n b) = used b + n" "tierReserves (addLocked t g n b) = tierReserves b"
  "usedByTier (addLocked t g n b) = (usedByTier b)(t := usedByTier b t + n)"
  "waiters (addLocked t g n b) = waiters b" "signals (addLocked t g n b) = signals b"
  by (simp_all add: addLocked_def)

lemma wakeOneLocked_fields [simp]:
  "owners (wakeOneLocked b) = owners b" "holds (wakeOneLocked b) = holds b"
  "capacity (wakeOneLocked b) = capacity b" "devices (wakeOneLocked b) = devices b"
  "perCard (wakeOneLocked b) = perCard b" "anonymous (wakeOneLocked b) = anonymous b"
  "used (wakeOneLocked b) = used b" "tierReserves (wakeOneLocked b) = tierReserves b"
  "usedByTier (wakeOneLocked b) = usedByTier b" "usedByGroup (wakeOneLocked b) = usedByGroup b"
  by (simp_all add: wakeOneLocked_def split: list.split)

lemma wake_all_eq:
  "wake_all b = b\<lparr>waiters := [], signals := signals b \<union> set (waiters b)\<rparr>"
proof (induction b rule: wake_all.induct)
  case (1 b)
  show ?case
  proof (cases "waiters b")
    case Nil
    then show ?thesis by (simp add: wake_all.simps [of b])
  next
    case (Cons w ws)
    with "1.IH" have "wake_all (wakeOneLocked b) = (wakeOneLocked b)\<lparr>waiters := [],
        signals := signals (wakeOneLocked b) \<union> set (waiters (wakeOneLocked b))\<rparr>" by simp
    with Cons show ?thesis by (simp add: wake_all.simps [of b] wakeOneLocked_def insert_commute Un_commute)
  qed
qed

lemma units_where_owners:
  assumes "finite (dom (owners b))"
  shows "owners b k = None \<Longrightarrow> units_where w (b\<lparr>owners := (owners b)(k \<mapsto> ow)\<rparr>) =
      units_where w b + (if w (Tier (ow_claim ow)) (Group (ow_claim ow)) then ow_held ow else 0)"
    and "owners b k = Some ow' \<Longrightarrow> Tier (ow_claim ow) = Tier (ow_claim ow') \<Longrightarrow>
      Group (ow_claim ow) = Group (ow_claim ow') \<Longrightarrow>
      units_where w (b\<lparr>owners := (owners b)(k \<mapsto> ow)\<rparr>) = units_where w b +
        (if w (Tier (ow_claim ow')) (Group (ow_claim ow')) then ow_held ow - ow_held ow' else 0)"
    and "owners b k = Some ow' \<Longrightarrow> units_where w (b\<lparr>owners := (owners b)(k := None)\<rparr>) =
      units_where w b - (if w (Tier (ow_claim ow')) (Group (ow_claim ow')) then ow_held ow' else 0)"
  using assms by (simp_all add: units_where_def msum_insert msum_replace msum_delete)

lemma units_where_holds:
  assumes "finite (dom (holds b))"
  shows "holds b k = None \<Longrightarrow> units_where w (b\<lparr>holds := (holds b)(k \<mapsto> h)\<rparr>) =
      units_where w b + (if w (hold_tier h) (hold_group h) then hold_units h else 0)"
    and "holds b k = Some h' \<Longrightarrow> hold_tier h = hold_tier h' \<Longrightarrow> hold_group h = hold_group h' \<Longrightarrow>
      units_where w (b\<lparr>holds := (holds b)(k \<mapsto> h)\<rparr>) = units_where w b +
        (if w (hold_tier h') (hold_group h') then hold_units h - hold_units h' else 0)"
    and "holds b k = Some h' \<Longrightarrow> units_where w (b\<lparr>holds := (holds b)(k := None)\<rparr>) =
      units_where w b - (if w (hold_tier h') (hold_group h') then hold_units h' else 0)"
  using assms by (simp_all add: units_where_def msum_insert msum_replace msum_delete)

lemma units_where_nonneg: "entries_ok b \<Longrightarrow> 0 \<le> units_where w b"
  unfolding units_where_def entries_ok_def owner_ok_def
  by (intro add_nonneg_nonneg msum_nonneg) (fastforce simp: egressUnits_nonneg)+

lemma units_where_owner_ge:
  assumes e: "entries_ok b" and "owners b k = Some ow" and "w (Tier (ow_claim ow)) (Group (ow_claim ow))"
  shows "ow_held ow \<le> units_where w b"
proof -
  let ?f = "\<lambda>ow. if w (Tier (ow_claim ow)) (Group (ow_claim ow)) then ow_held ow else 0"
  have "?f ow \<le> msum ?f (owners b)"
    using e assms(2) by (intro msum_member_le [of _ k]) (auto simp: entries_ok_def owner_ok_def egressUnits_nonneg)
  moreover have "0 \<le> msum (\<lambda>h. if w (hold_tier h) (hold_group h) then hold_units h else 0) (holds b)"
    using e by (intro msum_nonneg) (fastforce simp: entries_ok_def)
  ultimately show ?thesis using assms(3) by (simp add: units_where_def)
qed

lemma group_units_eq: "sums_ok b \<Longrightarrow> group_units b g = units_where (\<lambda>_ g'. g' = g) b"
  by (simp add: sums_ok_def group_units_def Let_def)

lemma sums_ok_shift:
  assumes "sums_ok b" and shift: "\<And>w. units_where w b' = units_where w b + (if w t g then n else 0)"
    and "used b' = used b + n" and "usedByTier b' = (usedByTier b)(t := usedByTier b t + n)"
    and "usedByGroup b' = (usedByGroup b)(g := (let s = group_units b g + n in if s = 0 then None else Some s))"
  shows "sums_ok b'"
  using assms by (auto simp: sums_ok_def group_units_eq Let_def)

lemma sums_ok_add_units:
  assumes "sums_ok b" and "\<And>w. units_where w b' = units_where w b + (if w t g then n else 0)"
    and "used b' = used (add_units t g n b)" and "usedByTier b' = usedByTier (add_units t g n b)"
    and "usedByGroup b' = usedByGroup (add_units t g n b)" and "units_where (\<lambda>_ g'. g' = g) b' \<noteq> 0"
  shows "sums_ok b'"
proof (rule sums_ok_shift [OF assms(1,2)])
  have "group_units b g + n \<noteq> 0"
    using assms(2,6) by (simp add: group_units_eq [OF assms(1)])
  then show "usedByGroup b' = (usedByGroup b)(g := (let s = group_units b g + n in if s = 0 then None else Some s))"
    using assms(5) by simp
qed (use assms in simp_all)

lemma sums_ok_addLocked:
  assumes "sums_ok b" and "\<And>w. units_where w b' = units_where w b + (if w t g then n else 0)"
    and "used b' = used (addLocked t g n b)" and "usedByTier b' = usedByTier (addLocked t g n b)"
    and "usedByGroup b' = usedByGroup (addLocked t g n b)" and "0 \<le> units_where (\<lambda>_ g'. g' = g) b'"
  shows "sums_ok b'"
proof (rule sums_ok_shift [OF assms(1,2)])
  have "0 \<le> group_units b g + n"
    using assms(2,6) by (simp add: group_units_eq [OF assms(1)])
  then show "usedByGroup b' = (usedByGroup b)(g := (let s = group_units b g + n in if s = 0 then None else Some s))"
    using assms(5) by (auto simp: addLocked_def drop_group_def group_units_def [of "add_units t g n b"])
qed (use assms in simp_all)

subsection \<open>The operations keep the accounts\<close>

lemma holdForLocked_bounds:
  assumes "entries_ok b"
  shows "0 \<le> holdForLocked b k delta" and "holdForLocked b k delta \<le> hold_units (hold_of b k)"
    and "0 \<le> delta \<Longrightarrow> holdForLocked b k delta \<le> delta"
proof -
  have "0 \<le> hold_units (hold_of b k)"
    using assms by (fastforce simp: entries_ok_def hold_of_def zero_hold_def split: option.splits)
  then show "0 \<le> holdForLocked b k delta" "holdForLocked b k delta \<le> hold_units (hold_of b k)"
    "0 \<le> delta \<Longrightarrow> holdForLocked b k delta \<le> delta"
    by (auto simp: holdForLocked_def)
qed

lemma consumeHold_fields [simp]:
  "owners (consumeHoldLocked k n b) = owners b" "capacity (consumeHoldLocked k n b) = capacity b"
  "devices (consumeHoldLocked k n b) = devices b" "perCard (consumeHoldLocked k n b) = perCard b"
  "anonymous (consumeHoldLocked k n b) = anonymous b" "waiters (consumeHoldLocked k n b) = waiters b"
  "signals (consumeHoldLocked k n b) = signals b" "tierReserves (consumeHoldLocked k n b) = tierReserves b"
  by (simp_all add: consumeHoldLocked_def Let_def)

lemma consumeHold_ok:
  assumes "entries_ok b" and "sums_ok b" and "n \<le> hold_units (hold_of b k)"
  shows "entries_ok (consumeHoldLocked k n b) \<and> sums_ok (consumeHoldLocked k n b)
    \<and> used (consumeHoldLocked k n b) = used b - max 0 n"
proof (cases "n \<le> 0")
  case True
  with assms show ?thesis by (simp add: consumeHoldLocked_def)
next
  case False
  with assms(3) obtain h where h: "holds b k = Some h" and le: "n \<le> hold_units h"
    by (auto simp: hold_of_def zero_hold_def split: option.splits)
  define b' where "b' = consumeHoldLocked k n b"
  have fin: "finite (dom (holds b))" using assms(1) by (simp add: entries_ok_def)
  have e: "entries_ok b'"
    using False assms(1) h le
    by (auto simp: b'_def entries_ok_def consumeHoldLocked_def Let_def hold_of_def)
  have w: "units_where w b' = units_where w b + (if w (hold_tier h) (hold_group h) then - n else 0)" for w
    using False h le units_where_holds(2) [OF fin h, where h = "h\<lparr>hold_units := hold_units h - n\<rparr>" and w = w]
      units_where_holds(3) [OF fin h, where w = w]
    by (auto simp: b'_def consumeHoldLocked_def Let_def hold_of_def units_where_def)
  have "sums_ok b'"
    by (rule sums_ok_addLocked [OF assms(2) w])
      (use False h units_where_nonneg [OF e] in \<open>auto simp: b'_def consumeHoldLocked_def Let_def hold_of_def\<close>)
  moreover have "used b' = used b - n"
    using False by (simp add: b'_def consumeHoldLocked_def Let_def)
  ultimately show ?thesis using e False by (simp add: b'_def)
qed

lemma claim_owner_of_cases:
  assumes "entries_ok b"
  shows "0 \<le> ow_count (claim_owner_of b claim)"
    and "ow_held (claim_owner_of b claim) = egressUnits (HighRes (ow_claim (claim_owner_of b claim)))
      (ow_count (claim_owner_of b claim))"
    and "Owner claim \<noteq> '''' \<Longrightarrow> owners b (Owner claim) = Some ow \<Longrightarrow> claim_owner_of b claim = ow"
    and "Owner claim = '''' \<or> owners b (Owner claim) = None \<Longrightarrow>
      ow_claim (claim_owner_of b claim) = claim \<and> ow_count (claim_owner_of b claim) = 0
      \<and> ow_held (claim_owner_of b claim) = 0"
proof -
  have "owner_ok x" if "owners b k = Some x" for k x
    using assms that by (simp add: entries_ok_def)
  then have *: "0 \<le> ow_count x" "ow_held x = egressUnits (HighRes (ow_claim x)) (ow_count x)"
    if "owners b k = Some x" for k x
    using that by (force simp: owner_ok_def)+
  then show "0 \<le> ow_count (claim_owner_of b claim)"
    "ow_held (claim_owner_of b claim) = egressUnits (HighRes (ow_claim (claim_owner_of b claim)))
      (ow_count (claim_owner_of b claim))"
    by (auto simp: claim_owner_of_def egressUnits_def split: option.split)
qed (auto simp: claim_owner_of_def)

lemma anonymous_key_simps [simp]:
  "anonymous_key n \<noteq> ''''" "anonymous_key m = anonymous_key n \<longleftrightarrow> m = n"
  "plain_key k \<Longrightarrow> k \<noteq> anonymous_key n" "plain_key k \<Longrightarrow> anonymous_key n \<noteq> k"
  by (auto simp: anonymous_key_def plain_key_def)

definition acquire_key :: "EgressClaim \<Rightarrow> EgressSlotBudget \<Rightarrow> string" where
  "acquire_key claim b = (if Owner claim = '''' then anonymous_key (Suc (anonymous b)) else Owner claim)"

lemma consumeHold_perCard:
  "consumeHoldLocked k n (b\<lparr>perCard := p\<rparr>) = (consumeHoldLocked k n b)\<lparr>perCard := p\<rparr>"
  by (simp add: consumeHoldLocked_def Let_def hold_of_def addLocked_def drop_group_def add_units_def
      group_units_def)

lemma commit_acquire_eq:
  "commit_acquire claim ow delta heldUnits dev b =
     (let b2 = add_units (Tier (ow_claim ow)) (Group (ow_claim ow)) delta
                 (consumeHoldLocked (Owner claim) heldUnits b)
      in (\<lparr>device = dev, lease_owner = acquire_key claim b, released = False\<rparr>,
          b2\<lparr>perCard := (case dev of None \<Rightarrow> perCard b | Some d \<Rightarrow> (perCard b)[d := perCard b ! d + 1]),
            anonymous := (if Owner claim = '''' then Suc (anonymous b) else anonymous b),
            owners := (owners b)(acquire_key claim b \<mapsto>
              ow\<lparr>ow_count := ow_count ow + 1, ow_held := ow_held ow + delta\<rparr>)\<rparr>))"
  by (cases dev) (simp_all add: commit_acquire_def acquire_key_def Let_def consumeHold_perCard add_units_def
      group_units_def)

lemma commit_acquire_fields:
  assumes "commit_acquire claim ow delta heldUnits dev b = (l, b')"
  shows "l = \<lparr>device = dev, lease_owner = acquire_key claim b, released = False\<rparr>"
    and "owners b' = (owners b)(acquire_key claim b \<mapsto>
        ow\<lparr>ow_count := ow_count ow + 1, ow_held := ow_held ow + delta\<rparr>)"
    and "holds b' = holds (consumeHoldLocked (Owner claim) heldUnits b)"
    and "capacity b' = capacity b" and "devices b' = devices b" and "tierReserves b' = tierReserves b"
    and "anonymous b' = (if Owner claim = '''' then Suc (anonymous b) else anonymous b)"
    and "perCard b' = (case dev of None \<Rightarrow> perCard b | Some d \<Rightarrow> (perCard b)[d := perCard b ! d + 1])"
    and "waiters b' = waiters b" and "signals b' = signals b"
    and "used b' = used (consumeHoldLocked (Owner claim) heldUnits b) + delta"
  using assms by (auto simp: commit_acquire_eq Let_def)

lemma commit_acquire_ok:
  fixes b :: EgressSlotBudget
  assumes e: "entries_ok b" and s: "sums_ok b" and k: "keys_ok b" and plain: "plain_key (Owner claim)"
  defines "ow \<equiv> claim_owner_of b claim"
  defines "delta \<equiv> egressUnits (HighRes (ow_claim ow)) (ow_count ow + 1) - ow_held ow"
  defines "heldUnits \<equiv> holdForLocked b (Owner claim) delta"
  assumes c: "commit_acquire claim ow delta heldUnits dev b = (l, b')"
  shows "entries_ok b' \<and> sums_ok b' \<and> keys_ok b' \<and> used b' = used b - heldUnits + delta"
proof -
  note f = commit_acquire_fields [OF c]
  have count: "0 \<le> ow_count ow" and held: "ow_held ow = egressUnits (HighRes (ow_claim ow)) (ow_count ow)"
    using claim_owner_of_cases(1,2) [OF e] by (auto simp: ow_def)
  have delta: "1 \<le> delta"
    using egressUnits_step [OF count, of "HighRes (ow_claim ow)"] held by (simp add: delta_def)
  define b1 where "b1 = consumeHoldLocked (Owner claim) heldUnits b"
  have b1: "entries_ok b1" "sums_ok b1" "used b1 = used b - heldUnits"
    using consumeHold_ok [OF e s holdForLocked_bounds(2) [OF e]] holdForLocked_bounds(1) [OF e]
    by (simp_all add: b1_def heldUnits_def max_def)
  let ?key = "acquire_key claim b"
  let ?ow' = "ow\<lparr>ow_count := ow_count ow + 1, ow_held := ow_held ow + delta\<rparr>"
  have key: "owners b1 ?key = None \<and> ow_held ow = 0 \<or> owners b1 ?key = Some ow"
    using claim_owner_of_cases(3,4) [OF e, of claim] k
    by (cases "owners b (Owner claim)")
      (auto simp: acquire_key_def b1_def ow_def keys_ok_def)
  have fin: "finite (dom (owners b1))" using b1(1) by (simp add: entries_ok_def)
  have w: "units_where w b' = units_where w b1 + (if w (Tier (ow_claim ow)) (Group (ow_claim ow)) then delta else 0)" for w
  proof -
    have "units_where w b' = units_where w (b1\<lparr>owners := (owners b1)(?key \<mapsto> ?ow')\<rparr>)"
      using f(2,3) by (simp add: units_where_def b1_def)
    with key units_where_owners(1,2) [OF fin, where k = ?key and ow = ?ow' and w = w] show ?thesis by auto
  qed
  have e': "entries_ok b'"
    using b1(1) f(2,3) held count
    by (auto simp: entries_ok_def b1_def owner_ok_def delta_def split: if_splits)
  have pos: "units_where (\<lambda>_ g'. g' = Group (ow_claim ow)) b' \<noteq> 0"
    using w [of "\<lambda>_ g'. g' = Group (ow_claim ow)"] delta units_where_nonneg [OF b1(1)]
    by (smt (verit))
  have "sums_ok b'"
    by (rule sums_ok_add_units [OF b1(2) w _ _ _ pos])
      (use c in \<open>auto simp: commit_acquire_eq Let_def b1_def\<close>)
  moreover have "holds b' '''' = None"
    using k by (auto simp: f(3) keys_ok_def consumeHoldLocked_def Let_def heldUnits_def holdForLocked_def)
  then have "keys_ok b'"
    using k plain f(2,7) by (auto simp: keys_ok_def acquire_key_def)
  ultimately show ?thesis using e' b1(3) f(11) by (simp add: b1_def)
qed

definition slots_inv :: "EgressSlotBudget \<Rightarrow> bool" where
  "slots_inv b \<longleftrightarrow> entries_ok b \<and> sums_ok b \<and> capacity_ok b \<and> cards_ok b \<and> keys_ok b"

lemma slots_inv_frame:
  assumes "slots_inv b" and "owners b' = owners b" "holds b' = holds b" "capacity b' = capacity b"
    "devices b' = devices b" "perCard b' = perCard b" "anonymous b' = anonymous b" "used b' = used b"
    "usedByTier b' = usedByTier b" "usedByGroup b' = usedByGroup b"
  shows "slots_inv b'"
proof -
  have u: "units_where w b' = units_where w b" for w
    using assms by (simp add: units_where_def)
  have "entries_ok b' = entries_ok b" "sums_ok b' = sums_ok b" "capacity_ok b' = capacity_ok b"
    "cards_ok b' = cards_ok b" "keys_ok b' = keys_ok b"
    by (simp_all add: entries_ok_def sums_ok_def capacity_ok_def cards_ok_def keys_ok_def u assms(2-))
  with assms(1) show ?thesis by (simp add: slots_inv_def)
qed

lemma slots_inv_wake_all: "slots_inv b \<Longrightarrow> slots_inv (wake_all b)"
  by (erule slots_inv_frame) (simp_all add: wake_all_eq)

lemma wait_for_inv: "slots_inv b \<Longrightarrow> slots_inv (snd (wait_for reason b))"
  by (erule slots_inv_frame) (simp_all add: wait_for_def appendWaiterLocked_def)

lemma abandonWaiter_inv: "slots_inv b \<Longrightarrow> slots_inv (abandonWaiter w b)"
  by (erule slots_inv_frame) (simp_all add: abandonWaiter_def)

lemma leastLoaded_Some:
  "leastLoadedLocked b = Some d \<Longrightarrow> d < length (perCard b) \<and> perCard b ! d < nvencSessionsPerCard"
  unfolding leastLoadedLocked_def by (drule scan_least_result) auto

lemma cards_ok_bump:
  assumes "cards_ok b" and "d < length (perCard b)" and "perCard b ! d < nvencSessionsPerCard"
    and "perCard b' = (perCard b)[d := perCard b ! d + 1]" and "devices b' = devices b"
  shows "cards_ok b'"
  using assms nth_mem [OF assms(2)]
  by (auto simp: cards_ok_def dest!: in_set_takeD subsetD [OF set_update_subset_insert] intro: add_nonneg_nonneg)

lemma cards_ok_unbump:
  assumes "cards_ok b" and "d < length (perCard b)" and "0 < perCard b ! d"
    and "perCard b' = (perCard b)[d := perCard b ! d - 1]" and "devices b' = devices b"
  shows "cards_ok b'"
proof -
  have "perCard b ! d \<le> nvencSessionsPerCard"
    using assms(1) nth_mem [OF assms(2)] by (simp add: cards_ok_def)
  then have h: "perCard b ! d - 1 \<le> nvencSessionsPerCard" by simp
  show ?thesis
    using assms by (auto simp: cards_ok_def h dest!: subsetD [OF set_update_subset_insert])
qed

lemma tryAcquire_cases:
  fixes b :: EgressSlotBudget and claim :: EgressClaim
  defines "ow \<equiv> claim_owner_of b claim"
  defines "delta \<equiv> egressUnits (HighRes (ow_claim ow)) (ow_count ow + 1) - ow_held ow"
  defines "heldUnits \<equiv> holdForLocked b (Owner claim) delta"
  shows "(\<exists>reason. tryAcquire claim b = wait_for reason b) \<or>
    (\<exists>dev l b'. tryAcquire claim b = (Ok l, b') \<and> commit_acquire claim ow delta heldUnits dev b = (l, b')
      \<and> (capacity b > 0 \<longrightarrow> admission b (used b - heldUnits + delta) (Tier (ow_claim ow)) = None)
      \<and> (case dev of None \<Rightarrow> \<not> devices b > 0 | Some d \<Rightarrow> devices b > 0 \<and> leastLoadedLocked b = Some d))"
  unfolding tryAcquire_def Let_def ow_def [symmetric] delta_def [symmetric] heldUnits_def [symmetric]
  by (auto split: option.splits prod.splits if_splits)

lemma tryAcquire_wait:
  assumes "tryAcquire claim b = (Err r, b')"
  shows "\<exists>reason. (Err r, b') = wait_for reason b"
proof -
  note c = tryAcquire_cases [of claim b, unfolded assms]
  show ?thesis by (rule disjE [OF c]) (fast, simp)
qed

lemma tryAcquire_inv:
  assumes inv: "slots_inv b" and plain: "plain_key (Owner claim)"
  shows "slots_inv (snd (tryAcquire claim b))"
proof -
  define ow where "ow = claim_owner_of b claim"
  define delta where "delta = egressUnits (HighRes (ow_claim ow)) (ow_count ow + 1) - ow_held ow"
  define heldUnits where "heldUnits = holdForLocked b (Owner claim) delta"
  note i = inv [unfolded slots_inv_def]
  from tryAcquire_cases [of claim b, folded ow_def, folded delta_def, folded heldUnits_def]
  show ?thesis
  proof (elim disjE exE conjE)
    fix reason assume "tryAcquire claim b = wait_for reason b"
    then show ?thesis using wait_for_inv [OF inv] by simp
  next
    fix dev l b'
    assume t: "tryAcquire claim b = (Ok l, b')"
      and c: "commit_acquire claim ow delta heldUnits dev b = (l, b')"
      and a: "capacity b > 0 \<longrightarrow> admission b (used b - heldUnits + delta) (Tier (ow_claim ow)) = None"
      and d: "case dev of None \<Rightarrow> \<not> devices b > 0 | Some d \<Rightarrow> devices b > 0 \<and> leastLoadedLocked b = Some d"
    note f = commit_acquire_fields [OF c]
    have ok: "entries_ok b'" "sums_ok b'" "keys_ok b'" "used b' = used b - heldUnits + delta"
      using commit_acquire_ok [of b claim dev l b'] i plain c
      by (simp_all add: ow_def delta_def heldUnits_def)
    have "capacity_ok b'"
      using a ok(4) f(4) by (auto simp: capacity_ok_def admission_def split: if_splits)
    moreover have "cards_ok b'"
    proof (cases dev)
      case None
      with i f(5,8) show ?thesis by (simp add: cards_ok_def)
    next
      case (Some x)
      with d leastLoaded_Some [of b x] i f(5,8) show ?thesis by (auto intro: cards_ok_bump [of b x])
    qed
    ultimately show ?thesis using ok t by (simp add: slots_inv_def)
  qed
qed

text \<open>The change of an existing owner's units, shared by \<open>release\<close> and \<open>ChangeResolution\<close>.\<close>

lemma entries_ok_owner:
  "entries_ok b \<Longrightarrow> owners b k = Some ow \<Longrightarrow> owner_ok ow"
  by (simp add: entries_ok_def)

lemma release_owner_ok:
  assumes e: "entries_ok b" and s: "sums_ok b" and k: "keys_ok b" and o: "owners b key = Some ow"
  defines "n \<equiv> ow_count ow - 1"
  defines "freed \<equiv> ow_held ow - egressUnits (HighRes (ow_claim ow)) n"
  defines "ow' \<equiv> ow\<lparr>ow_count := n, ow_held := ow_held ow - freed\<rparr>"
  defines "b1 \<equiv> drop_group (Group (ow_claim ow)) (add_units (Tier (ow_claim ow)) (Group (ow_claim ow)) (- freed) b)"
  defines "b' \<equiv> b1\<lparr>owners := (if n \<le> 0 then (owners b1)(key := None) else (owners b1)(key \<mapsto> ow'))\<rparr>"
  shows "entries_ok b' \<and> sums_ok b' \<and> keys_ok b' \<and> used b' \<le> used b"
proof -
  note ok = entries_ok_owner [OF e o, unfolded owner_ok_def]
  have n: "0 \<le> n" using ok by (simp add: n_def)
  have freed: "0 \<le> freed"
    using ok egressUnits_step [OF n, of "HighRes (ow_claim ow)"] by (simp add: freed_def n_def)
  have fin: "finite (dom (owners b))" using e by (simp add: entries_ok_def)
  have zero: "ow_held ow - freed = 0" if "n \<le> 0" using that by (simp add: freed_def egressUnits_def)
  have w: "units_where w b' = units_where w b + (if w (Tier (ow_claim ow)) (Group (ow_claim ow)) then - freed else 0)" for w
  proof (cases "n \<le> 0")
    case True
    then have "units_where w b' = units_where w (b\<lparr>owners := (owners b)(key := None)\<rparr>)"
      by (simp add: b'_def b1_def units_where_def)
    with units_where_owners(3) [OF fin o, of w] zero [OF True] show ?thesis by auto
  next
    case False
    then have "units_where w b' = units_where w (b\<lparr>owners := (owners b)(key \<mapsto> ow')\<rparr>)"
      by (simp add: b'_def b1_def units_where_def)
    with units_where_owners(2) [OF fin o, of ow' w] show ?thesis by (auto simp: ow'_def)
  qed
  have e': "entries_ok b'"
    using e n by (auto simp: entries_ok_def b'_def b1_def owner_ok_def ow'_def freed_def split: if_splits)
  have "sums_ok b'"
    by (rule sums_ok_addLocked [OF s w])
      (use units_where_nonneg [OF e'] in \<open>auto simp: b'_def b1_def addLocked_def\<close>)
  moreover have "keys_ok b'"
    using k o by (auto simp: keys_ok_def b'_def b1_def)
  ultimately show ?thesis using e' freed by (simp add: b'_def b1_def)
qed

lemma release_units_ok:
  assumes "slots_inv b"
  shows "entries_ok (release_units key b) \<and> sums_ok (release_units key b) \<and> keys_ok (release_units key b)
    \<and> used (release_units key b) \<le> used b"
proof (cases "owners b key")
  case None
  with assms show ?thesis by (simp add: release_units_def slots_inv_def)
next
  case (Some ow)
  from release_owner_ok [OF _ _ _ Some] assms show ?thesis
    by (simp add: release_units_def Some Let_def slots_inv_def)
qed

lemma release_units_fields [simp]:
  "capacity (release_units key b) = capacity b" "devices (release_units key b) = devices b"
  "perCard (release_units key b) = perCard b" "holds (release_units key b) = holds b"
  "tierReserves (release_units key b) = tierReserves b" "waiters (release_units key b) = waiters b"
  "signals (release_units key b) = signals b"
  by (simp_all add: release_units_def Let_def split: option.split)

lemma release_card_fields [simp]:
  "owners (release_card dev b) = owners b" "holds (release_card dev b) = holds b"
  "capacity (release_card dev b) = capacity b" "devices (release_card dev b) = devices b"
  "anonymous (release_card dev b) = anonymous b" "used (release_card dev b) = used b"
  "usedByTier (release_card dev b) = usedByTier b" "usedByGroup (release_card dev b) = usedByGroup b"
  "tierReserves (release_card dev b) = tierReserves b" "waiters (release_card dev b) = waiters b"
  "signals (release_card dev b) = signals b"
  by (simp_all add: release_card_def split: option.split)

lemma release_card_cards: "cards_ok b \<Longrightarrow> cards_ok (release_card dev b)"
  by (auto simp: release_card_def intro: cards_ok_unbump split: option.split)

lemma release_inv:
  assumes inv: "slots_inv b"
  shows "slots_inv (release dev key b)"
proof -
  let ?b1 = "release_units key b"
  let ?b2 = "release_card dev ?b1"
  have u: "units_where w ?b2 = units_where w ?b1" for w by (rule units_where_frame) simp_all
  have "entries_ok ?b2" "sums_ok ?b2" "keys_ok ?b2"
    using release_units_ok [OF inv, of key] by (auto simp: entries_ok_def sums_ok_def keys_ok_def u)
  moreover have "capacity_ok ?b2"
    using release_units_ok [OF inv, of key] inv by (auto simp: capacity_ok_def slots_inv_def)
  moreover have "cards_ok ?b2"
    using inv by (intro release_card_cards) (simp add: cards_ok_def slots_inv_def)
  ultimately show ?thesis by (simp add: release_def slots_inv_wake_all slots_inv_def [of ?b2])
qed

lemma ChangeResolution_Some:
  fixes b :: EgressSlotBudget and key :: string and highRes :: bool and ow :: egressOwner
  assumes "key \<noteq> ''''" and "owners b key = Some ow"
  defines "delta \<equiv> egressUnits highRes (ow_count ow) - ow_held ow"
  defines "heldUnits \<equiv> holdForLocked b key delta"
  defines "b1 \<equiv> consumeHoldLocked key heldUnits b"
  defines "ow' \<equiv> ow\<lparr>ow_claim := (ow_claim ow)\<lparr>HighRes := highRes\<rparr>, ow_held := ow_held ow + delta\<rparr>"
  defines "b3 \<equiv> (add_units (Tier (ow_claim ow)) (Group (ow_claim ow)) delta b1)\<lparr>owners := (owners b1)(key \<mapsto> ow')\<rparr>"
  shows "ChangeResolution key highRes b =
    (case (if delta > 0 \<and> capacity b > 0
           then admission b (used b - heldUnits + delta) (Tier (ow_claim ow)) else None) of
       Some e \<Rightarrow> (Err e, b)
     | None \<Rightarrow> (Ok (), if delta < 0 then wake_all b3 else b3))"
  unfolding ChangeResolution_def if_not_P [OF assms(1)] assms(2) option.case Let_def
    delta_def [symmetric] heldUnits_def [symmetric] b1_def [symmetric] ow'_def [symmetric]
  by (simp add: b3_def split: option.split)

lemma ChangeResolution_inv:
  assumes inv: "slots_inv b"
  shows "slots_inv (snd (ChangeResolution key highRes b))"
proof (cases "if key = '''' then None else owners b key")
  case None
  then show ?thesis using inv by (simp add: ChangeResolution_def)
next
  case (Some ow)
  note so = Some
  then have o: "owners b key = Some ow" and key: "key \<noteq> ''''" by (auto split: if_splits)
  note i = inv [unfolded slots_inv_def]
  define delta where "delta = egressUnits highRes (ow_count ow) - ow_held ow"
  define heldUnits where "heldUnits = holdForLocked b key delta"
  define b1 where "b1 = consumeHoldLocked key heldUnits b"
  define ow' where "ow' = ow\<lparr>ow_claim := (ow_claim ow)\<lparr>HighRes := highRes\<rparr>, ow_held := ow_held ow + delta\<rparr>"
  define b3 where "b3 = (add_units (Tier (ow_claim ow)) (Group (ow_claim ow)) delta b1)\<lparr>owners := (owners b1)(key \<mapsto> ow')\<rparr>"
  note step = ChangeResolution_Some [OF key o, of highRes, folded delta_def, folded heldUnits_def,
      folded b1_def, folded ow'_def, folded b3_def]
  let ?adm = "if delta > 0 \<and> capacity b > 0
    then admission b (used b - heldUnits + delta) (Tier (ow_claim ow)) else None"
  show ?thesis
  proof (cases ?adm)
    case (Some e)
    then show ?thesis using inv unfolding step by simp
  next
    case None
    have b1: "entries_ok b1" "sums_ok b1" "used b1 = used b - heldUnits"
      using consumeHold_ok [of b heldUnits key] holdForLocked_bounds(1,2) [of b key delta] i
      by (simp_all add: b1_def heldUnits_def max_def)
    have fin: "finite (dom (owners b1))" using b1 by (simp add: entries_ok_def)
    have o1: "owners b1 key = Some ow" using o by (simp add: b1_def)
    have count: "1 \<le> ow_count ow" using entries_ok_owner [OF b1(1) o1] by (simp add: owner_ok_def)
    have w: "units_where w b3 = units_where w b1 + (if w (Tier (ow_claim ow)) (Group (ow_claim ow)) then delta else 0)" for w
    proof -
      have "units_where w b3 = units_where w (b1\<lparr>owners := (owners b1)(key \<mapsto> ow')\<rparr>)"
        by (simp add: b3_def units_where_def)
      with units_where_owners(2) [OF fin o1, of ow' w] show ?thesis by (auto simp: ow'_def)
    qed
    have e3: "entries_ok b3"
      using b1(1) count by (auto simp: entries_ok_def b3_def owner_ok_def ow'_def delta_def split: if_splits)
    have "ow_held ow' \<le> units_where (\<lambda>_ g'. g' = Group (ow_claim ow)) b3"
      by (rule units_where_owner_ge [OF e3, of key]) (simp_all add: b3_def ow'_def)
    moreover have "1 \<le> ow_held ow'"
      using count egressUnits_pos [of "ow_count ow" highRes] by (simp add: ow'_def delta_def)
    ultimately have pos: "units_where (\<lambda>_ g'. g' = Group (ow_claim ow)) b3 \<noteq> 0" by linarith
    have "sums_ok b3"
      by (rule sums_ok_add_units [OF b1(2) w _ _ _ pos]) (simp_all add: b3_def)
    moreover have "keys_ok b3"
      using i o key by (auto simp: keys_ok_def b3_def b1_def consumeHoldLocked_def Let_def)
    moreover have "capacity_ok b3"
      using None i b1(3) holdForLocked_bounds(1) [of b key delta]
      by (auto simp: capacity_ok_def b3_def b1_def admission_def heldUnits_def split: if_splits)
    moreover have "cards_ok b3" using i by (simp add: cards_ok_def b3_def b1_def)
    ultimately have "slots_inv b3" using e3 by (simp add: slots_inv_def)
    moreover have "snd (ChangeResolution key highRes b) = (if delta < 0 then wake_all b3 else b3)"
      unfolding step None by simp
    ultimately show ?thesis by (simp add: slots_inv_wake_all)
  qed
qed

lemma Hold_cases:
  "snd (Hold claim n b) = b \<or>
   0 < n \<and> Owner claim \<noteq> '''' \<and> holds b (Owner claim) = None \<and> Hold claim n b = (Ok (), snd (Hold claim n b))
   \<and> (capacity b > 0 \<longrightarrow> admission b (used b + n) (Tier claim) = None)
   \<and> snd (Hold claim n b) = addLocked (Tier claim) (Group claim) n
           (b\<lparr>holds := (holds b)(Owner claim \<mapsto>
                \<lparr>hold_units = n, hold_tier = Tier claim, hold_group = Group claim\<rparr>)\<rparr>)"
  by (auto simp: Hold_def split: option.split)

lemma Hold_inv:
  assumes inv: "slots_inv b"
  shows "slots_inv (snd (Hold claim n b))"
proof -
  note i = inv [unfolded slots_inv_def]
  let ?b' = "addLocked (Tier claim) (Group claim) n
     (b\<lparr>holds := (holds b)(Owner claim \<mapsto>
          \<lparr>hold_units = n, hold_tier = Tier claim, hold_group = Group claim\<rparr>)\<rparr>)"
  from Hold_cases [of claim n b] show ?thesis
  proof (elim disjE conjE)
    assume "snd (Hold claim n b) = b"
    with inv show ?thesis by simp
  next
    assume held: "0 < n" "Owner claim \<noteq> ''''" "holds b (Owner claim) = None"
        "capacity b > 0 \<longrightarrow> admission b (used b + n) (Tier claim) = None" "snd (Hold claim n b) = ?b'"
    let ?h = "\<lparr>hold_units = n, hold_tier = Tier claim, hold_group = Group claim\<rparr>"
    let ?b1 = "b\<lparr>holds := (holds b)(Owner claim \<mapsto> ?h)\<rparr>"
    define b' where "b' = addLocked (Tier claim) (Group claim) n ?b1"
    have fin: "finite (dom (holds b))" using i by (simp add: entries_ok_def)
    have w: "units_where w b' = units_where w b + (if w (Tier claim) (Group claim) then n else 0)" for w
      using units_where_holds(1) [OF fin held(3), of w ?h] units_where_frame [of b' ?b1 w]
      by (simp add: b'_def)
    have e': "entries_ok b'" using i held(1) by (auto simp: entries_ok_def b'_def)
    have "sums_ok b'"
      by (rule sums_ok_addLocked [OF _ w])
        (use i units_where_nonneg [OF e'] in
          \<open>auto simp: b'_def addLocked_def drop_group_def add_units_def group_units_def\<close>)
    moreover have "capacity_ok b'"
      using held(4) by (auto simp: capacity_ok_def b'_def admission_def split: if_splits)
    moreover have "cards_ok b'" "keys_ok b'"
      using i held(2) by (simp_all add: cards_ok_def keys_ok_def b'_def)
    ultimately show ?thesis using e' held(5) by (simp add: slots_inv_def b'_def)
  qed
qed

lemma ReleaseHold_inv:
  assumes inv: "slots_inv b"
  shows "slots_inv (ReleaseHold k b)"
proof (cases "holds b k")
  case None
  then show ?thesis using inv by (simp add: ReleaseHold_def)
next
  case (Some h)
  note i = inv [unfolded slots_inv_def]
  let ?b1 = "b\<lparr>holds := (holds b)(k := None)\<rparr>"
  define b' where "b' = addLocked (hold_tier h) (hold_group h) (- hold_units h) ?b1"
  have fin: "finite (dom (holds b))" using i by (simp add: entries_ok_def)
  have w: "units_where w b' = units_where w b + (if w (hold_tier h) (hold_group h) then - hold_units h else 0)" for w
    using units_where_holds(3) [OF fin Some, of w] units_where_frame [of b' ?b1 w]
    by (simp add: b'_def)
  have e': "entries_ok b'" using i by (auto simp: entries_ok_def b'_def)
  have "1 \<le> hold_units h" using i Some by (simp add: entries_ok_def)
  then have "capacity_ok b'" "cards_ok b'" "keys_ok b'"
    using i by (auto simp: capacity_ok_def cards_ok_def keys_ok_def b'_def)
  moreover have "sums_ok b'"
    by (rule sums_ok_addLocked [OF _ w])
      (use i units_where_nonneg [OF e'] in
        \<open>auto simp: b'_def addLocked_def drop_group_def add_units_def group_units_def\<close>)
  ultimately have "slots_inv b'" using e' by (simp add: slots_inv_def)
  then show ?thesis by (simp add: ReleaseHold_def Some b'_def slots_inv_wake_all)
qed

lemma NewEgressSlotBudget_inv: "NewEgressSlotBudget cap devs = Some b \<Longrightarrow> slots_inv b"
  by (auto simp: NewEgressSlotBudget_def slots_inv_def entries_ok_def sums_ok_def units_where_def
      capacity_ok_def cards_ok_def keys_ok_def nvencSessionsPerCard_def split: if_splits)

subsection \<open>The budget and the leases it has given out\<close>

text \<open>
  A lease is a pointer that its egress keeps until it ends; the system state is the budget with
  every lease handed out so far, and the callers' requests are its events.
\<close>

record slots_sys =
  bud :: EgressSlotBudget
  leases :: "EgressLease list"

datatype slots_event =
    TryAcquire EgressClaim
  | ReleaseLease nat
  | ChangeRes string bool
  | HoldUnits EgressClaim int
  | ReleaseHeld string
  | Abandon nat

fun slots_step :: "slots_sys \<Rightarrow> slots_event \<Rightarrow> slots_sys" where
  "slots_step s (TryAcquire claim) =
     (case tryAcquire claim (bud s) of
        (Inl _, b) \<Rightarrow> s\<lparr>bud := b\<rparr>
      | (Inr l, b) \<Rightarrow> s\<lparr>bud := b, leases := leases s @ [l]\<rparr>)"
| "slots_step s (ReleaseLease i) =
     (if i < length (leases s)
      then (case Release (leases s ! i) (bud s) of (l, b) \<Rightarrow> s\<lparr>bud := b, leases := (leases s)[i := l]\<rparr>)
      else s)"
| "slots_step s (ChangeRes key highRes) = s\<lparr>bud := snd (ChangeResolution key highRes (bud s))\<rparr>"
| "slots_step s (HoldUnits claim n) = s\<lparr>bud := snd (Hold claim n (bud s))\<rparr>"
| "slots_step s (ReleaseHeld k) = s\<lparr>bud := ReleaseHold k (bud s)\<rparr>"
| "slots_step s (Abandon w) = s\<lparr>bud := abandonWaiter w (bud s)\<rparr>"

definition slots_allowed :: "slots_event \<Rightarrow> bool" where
  "slots_allowed e = (case e of TryAcquire claim \<Rightarrow> plain_key (Owner claim) | _ \<Rightarrow> True)"

definition live_leases :: "(EgressLease \<Rightarrow> bool) \<Rightarrow> slots_sys \<Rightarrow> int" where
  "live_leases P s = int (length (filter (\<lambda>l. \<not> released l \<and> P l) (leases s)))"

definition leases_ok :: "slots_sys \<Rightarrow> bool" where
  "leases_ok s \<longleftrightarrow>
     (\<forall>k. live_leases (\<lambda>l. lease_owner l = k) s = (case owners (bud s) k of None \<Rightarrow> 0 | Some ow \<Rightarrow> ow_count ow))
   \<and> (\<forall>d < length (perCard (bud s)). perCard (bud s) ! d = live_leases (\<lambda>l. device l = Some d) s)"

definition slots_sys_inv :: "slots_sys \<Rightarrow> bool" where
  "slots_sys_inv s \<longleftrightarrow> slots_inv (bud s) \<and> leases_ok s"

definition owner_count :: "EgressSlotBudget \<Rightarrow> string \<Rightarrow> int" where
  "owner_count b k = (case owners b k of None \<Rightarrow> 0 | Some ow \<Rightarrow> ow_count ow)"

lemma leases_ok_eq:
  "leases_ok s \<longleftrightarrow> (\<forall>k. live_leases (\<lambda>l. lease_owner l = k) s = owner_count (bud s) k)
   \<and> (\<forall>d < length (perCard (bud s)). perCard (bud s) ! d = live_leases (\<lambda>l. device l = Some d) s)"
  by (simp add: leases_ok_def owner_count_def)

lemma live_leases_bud [simp]: "live_leases P (s\<lparr>bud := b\<rparr>) = live_leases P s"
  by (simp add: live_leases_def)

lemma ChangeResolution_owner_count:
  "owner_count (snd (ChangeResolution key highRes b)) k = owner_count b k
   \<and> perCard (snd (ChangeResolution key highRes b)) = perCard b"
proof (cases "if key = '''' then None else owners b key")
  case None
  then show ?thesis by (simp add: ChangeResolution_def)
next
  case (Some ow)
  then show ?thesis
    by (auto simp: ChangeResolution_def Let_def owner_count_def wake_all_eq split: option.split if_splits)
qed

lemma Hold_owner_count:
  "owner_count (snd (Hold claim n b)) k = owner_count b k \<and> perCard (snd (Hold claim n b)) = perCard b"
  using Hold_cases [of claim n b] by (auto simp: owner_count_def)

lemma ReleaseHold_owner_count:
  "owner_count (ReleaseHold j b) k = owner_count b k \<and> perCard (ReleaseHold j b) = perCard b"
  by (simp add: ReleaseHold_def owner_count_def wake_all_eq split: option.split)

lemma abandonWaiter_owner_count:
  "owner_count (abandonWaiter w b) k = owner_count b k \<and> perCard (abandonWaiter w b) = perCard b"
  by (simp add: abandonWaiter_def owner_count_def)

lemma tryAcquire_leases:
  assumes inv: "slots_sys_inv s" and t: "tryAcquire claim (bud s) = (Ok l, b')"
  shows "leases_ok (s\<lparr>bud := b', leases := leases s @ [l]\<rparr>)"
proof -
  let ?b = "bud s"
  obtain dev ow delta heldUnits where ow: "ow = claim_owner_of ?b claim"
    and c: "commit_acquire claim ow delta heldUnits dev ?b = (l, b')"
    and d: "case dev of None \<Rightarrow> \<not> devices ?b > 0 | Some d \<Rightarrow> devices ?b > 0 \<and> leastLoadedLocked ?b = Some d"
    using tryAcquire_cases [of claim ?b] t by (auto simp: wait_for_def split: prod.splits)
  note f = commit_acquire_fields [OF c]
  have e: "entries_ok ?b" and k: "keys_ok ?b" using inv by (simp_all add: slots_sys_inv_def slots_inv_def)
  have lo: "live_leases (\<lambda>l. lease_owner l = x) s = owner_count ?b x" for x
    using inv by (simp add: slots_sys_inv_def leases_ok_def owner_count_def)
  have cards: "perCard ?b ! x = live_leases (\<lambda>l. device l = Some x) s" if "x < length (perCard ?b)" for x
    using inv that by (simp add: slots_sys_inv_def leases_ok_def)
  have "ow_count ow = owner_count ?b (acquire_key claim ?b)"
    using claim_owner_of_cases(3,4) [OF e, of claim] k
    by (cases "owners ?b (Owner claim)") (auto simp: ow acquire_key_def owner_count_def keys_ok_def)
  then have "owner_count b' x = owner_count ?b x + (if x = acquire_key claim ?b then 1 else 0)" for x
    by (simp add: owner_count_def f(2))
  then have "live_leases (\<lambda>l. lease_owner l = x) (s\<lparr>bud := b', leases := leases s @ [l]\<rparr>) = owner_count b' x" for x
    using lo [of x] by (auto simp: live_leases_def f(1))
  moreover have "perCard b' ! x = live_leases (\<lambda>l. device l = Some x) (s\<lparr>bud := b', leases := leases s @ [l]\<rparr>)"
    if "x < length (perCard b')" for x
    using cards [of x] that d leastLoaded_Some [of ?b]
    by (cases dev) (auto simp: live_leases_def f(1,8) nth_list_update)
  ultimately show ?thesis by (simp add: leases_ok_def owner_count_def)
qed

lemma release_owner_count:
  assumes "entries_ok b"
  shows "owner_count (release dev key b) k =
    owner_count b k - (if k = key \<and> owners b key \<noteq> None then 1 else 0)"
proof (cases "owners b key")
  case None
  then show ?thesis by (simp add: release_def wake_all_eq release_units_def owner_count_def)
next
  case (Some ow)
  have "1 \<le> ow_count ow" using entries_ok_owner [OF assms Some] by (simp add: owner_ok_def)
  with Some show ?thesis
    by (simp add: release_def wake_all_eq release_units_def owner_count_def Let_def)
qed

lemma release_perCard:
  "perCard (release dev key b) = perCard (release_card dev b)"
  by (simp add: release_def wake_all_eq release_card_def split: option.split)

lemma release_leases:
  assumes inv: "slots_sys_inv s" and i: "i < length (leases s)" and r: "\<not> released (leases s ! i)"
  defines "l \<equiv> leases s ! i"
  shows "leases_ok (s\<lparr>bud := release (device l) (lease_owner l) (bud s), leases := (leases s)[i := l\<lparr>released := True\<rparr>]\<rparr>)"
proof -
  let ?b = "bud s" and ?s' = "s\<lparr>bud := release (device l) (lease_owner l) (bud s), leases := (leases s)[i := l\<lparr>released := True\<rparr>]\<rparr>"
  have e: "entries_ok ?b" using inv by (simp add: slots_sys_inv_def slots_inv_def)
  have shift: "live_leases P ?s' = live_leases P s - (if P l then 1 else 0)" for P
    using length_filter_update [OF i, of "\<lambda>l. \<not> released l \<and> P l" "l\<lparr>released := True\<rparr>"] r
    by (simp add: live_leases_def l_def)
  have mem: "1 \<le> live_leases P s" if "P l" for P
    using length_filter_member [of l "leases s" "\<lambda>l. \<not> released l \<and> P l"] that i r by (simp add: live_leases_def l_def)
  have lo: "live_leases (\<lambda>l. lease_owner l = x) s = owner_count ?b x" for x
    using inv by (simp add: slots_sys_inv_def leases_ok_def owner_count_def)
  have "owners ?b (lease_owner l) \<noteq> None"
    using mem [of "\<lambda>x. lease_owner x = lease_owner l"] lo
    by (auto simp: owner_count_def split: option.splits)
  then have "live_leases (\<lambda>l. lease_owner l = x) ?s' = owner_count (release (device l) (lease_owner l) ?b) x" for x
    by (simp add: shift lo release_owner_count [OF e])
  moreover have "perCard (release (device l) (lease_owner l) ?b) ! x = live_leases (\<lambda>l. device l = Some x) ?s'"
    if x: "x < length (perCard ?b)" for x
  proof -
    have c: "perCard ?b ! x = live_leases (\<lambda>l. device l = Some x) s"
      using inv x by (simp add: slots_sys_inv_def leases_ok_def)
    show ?thesis
      using c x mem [of "\<lambda>l. device l = Some x"] unfolding shift
      by (cases "device l") (auto simp: release_perCard release_card_def nth_list_update)
  qed
  moreover have "length (perCard (release (device l) (lease_owner l) ?b)) = length (perCard ?b)"
    by (simp add: release_perCard release_card_def split: option.split)
  ultimately show ?thesis by (simp add: leases_ok_def owner_count_def)
qed

lemma slots_step_inv:
  assumes inv: "slots_sys_inv s" and ok: "slots_allowed e"
  shows "slots_sys_inv (slots_step s e)"
proof (cases e)
  case (TryAcquire claim)
  have "slots_inv (snd (tryAcquire claim (bud s)))"
    using inv ok TryAcquire by (intro tryAcquire_inv) (auto simp: slots_sys_inv_def slots_allowed_def)
  moreover have "leases_ok (s\<lparr>bud := b'\<rparr>)" if "tryAcquire claim (bud s) = (Err r, b')" for r b'
  proof -
    from tryAcquire_wait [OF that] have "owners b' = owners (bud s) \<and> perCard b' = perCard (bud s)"
      by (auto simp: wait_for_def appendWaiterLocked_def)
    then show ?thesis
      using inv by (auto simp: slots_sys_inv_def owner_count_def leases_ok_def live_leases_def)
  qed
  ultimately show ?thesis
    using TryAcquire tryAcquire_leases [OF inv]
    by (auto simp: slots_sys_inv_def split: prod.splits sum.splits)
next
  case (ReleaseLease i)
  show ?thesis
  proof (cases "i < length (leases s) \<and> \<not> released (leases s ! i)")
    case True
    with inv release_leases [OF inv, of i] ReleaseLease show ?thesis
      by (auto simp: slots_sys_inv_def Release_def intro: release_inv)
  next
    case False
    with inv ReleaseLease show ?thesis
      by (auto simp: Release_def leases_ok_def live_leases_def slots_sys_inv_def list_update_id)
  qed
next
  case (ChangeRes key highRes)
  then show ?thesis
    using inv ChangeResolution_inv ChangeResolution_owner_count by (simp add: slots_sys_inv_def leases_ok_eq)
next
  case (HoldUnits claim n)
  then show ?thesis using inv Hold_inv Hold_owner_count by (simp add: slots_sys_inv_def leases_ok_eq)
next
  case (ReleaseHeld k)
  then show ?thesis using inv ReleaseHold_inv ReleaseHold_owner_count by (simp add: slots_sys_inv_def leases_ok_eq)
next
  case (Abandon w)
  then show ?thesis
    using inv abandonWaiter_inv abandonWaiter_owner_count by (simp add: slots_sys_inv_def leases_ok_eq)
qed

subsection \<open>Interfaces the budget implements\<close>

interpretation slots: guarded_state slots_step slots_sys_inv slots_allowed
  by unfold_locales (rule slots_step_inv)

interpretation cards: placement leastLoadedLocked "\<lambda>b. length (perCard b)"
  "\<lambda>b i. perCard b ! i < nvencSessionsPerCard" "\<lambda>b i. perCard b ! i"
proof
  fix b :: EgressSlotBudget and i j
  assume p: "leastLoadedLocked b = Some i"
  then show "i < length (perCard b) \<and> perCard b ! i < nvencSessionsPerCard"
    by (rule leastLoaded_Some)
  assume "j < length (perCard b)" "perCard b ! j < nvencSessionsPerCard"
  with p show "perCard b ! i \<le> perCard b ! j"
    unfolding leastLoadedLocked_def by (auto dest!: scan_least_result)
next
  fix b :: EgressSlotBudget and i
  assume "i < length (perCard b)" "perCard b ! i < nvencSessionsPerCard"
  then show "leastLoadedLocked b \<noteq> None"
    unfolding leastLoadedLocked_def by (auto simp: scan_least_None not_le intro!: bexI [of _ i])
qed

definition new_sys :: "EgressSlotBudget \<Rightarrow> slots_sys" where
  "new_sys b = \<lparr>bud = b, leases = []\<rparr>"

lemma new_sys_inv: "NewEgressSlotBudget cap devs = Some b \<Longrightarrow> slots_sys_inv (new_sys (SetTierReserves rs b))"
proof -
  assume n: "NewEgressSlotBudget cap devs = Some b"
  have "slots_inv (SetTierReserves rs b)"
    using NewEgressSlotBudget_inv [OF n] by (rule slots_inv_frame) (simp_all add: SetTierReserves_def)
  moreover have "owners b = Map.empty" "\<forall>d < length (perCard b). perCard b ! d = 0"
    using n by (auto simp: NewEgressSlotBudget_def split: if_splits)
  ultimately show ?thesis
    by (simp add: slots_sys_inv_def new_sys_def leases_ok_def live_leases_def SetTierReserves_def)
qed

subsection \<open>Calls of AcquireClaim\<close>

text \<open>
  \<open>AcquireClaim\<close> is a loop that other goroutines interleave with: it tries, and waits on its channel
  until it is signalled, its timer fires or its context ends. Each call is in one of these states.
\<close>

datatype acquire_call =
    Trying EgressClaim
  | Waiting EgressClaim nat egressError
  | Returned "egressError + EgressLease"

record acquire_sys =
  abud :: EgressSlotBudget
  calls :: "nat \<rightharpoonup> acquire_call"

inductive acquire_step :: "acquire_sys \<Rightarrow> acquire_sys \<Rightarrow> bool" where
  Call: "calls s c = None \<Longrightarrow> acquire_step s (s\<lparr>calls := (calls s)(c \<mapsto> Trying claim)\<rparr>)"
| Try_ok: "calls s c = Some (Trying claim) \<Longrightarrow> tryAcquire claim (abud s) = (Inr l, b) \<Longrightarrow>
    acquire_step s (s\<lparr>abud := b, calls := (calls s)(c \<mapsto> Returned (Inr l))\<rparr>)"
| Try_wait: "calls s c = Some (Trying claim) \<Longrightarrow> tryAcquire claim (abud s) = (Inl (w, reason), b) \<Longrightarrow>
    acquire_step s (s\<lparr>abud := b, calls := (calls s)(c \<mapsto> Waiting claim w reason)\<rparr>)"
| Signalled: "calls s c = Some (Waiting claim w reason) \<Longrightarrow> w \<in> signals (abud s) \<Longrightarrow>
    acquire_step s (s\<lparr>abud := (abud s)\<lparr>signals := signals (abud s) - {w}\<rparr>,
      calls := (calls s)(c \<mapsto> Trying claim)\<rparr>)"
| Deadline: "calls s c = Some (Waiting claim w reason) \<Longrightarrow>
    acquire_step s (s\<lparr>abud := abandonWaiter w (abud s), calls := (calls s)(c \<mapsto> Returned (Inl reason))\<rparr>)"
| Cancelled: "calls s c = Some (Waiting claim w reason) \<Longrightarrow>
    acquire_step s (s\<lparr>abud := abandonWaiter w (abud s), calls := (calls s)(c \<mapsto> Returned (Inl ErrContext))\<rparr>)"
| Freed: "acquire_step s (s\<lparr>abud := release dev key (abud s)\<rparr>)"
| Changed: "acquire_step s (s\<lparr>abud := snd (ChangeResolution key highRes (abud s))\<rparr>)"
| Held_for: "acquire_step s (s\<lparr>abud := snd (Hold claim n (abud s))\<rparr>)"
| Hold_freed: "acquire_step s (s\<lparr>abud := ReleaseHold key (abud s)\<rparr>)"

inductive_cases acquire_stepE: "acquire_step s s'"

fun call_channel :: "acquire_call \<Rightarrow> nat option" where
  "call_channel (Waiting _ w _) = Some w"
| "call_channel _ = None"

definition waiting_on :: "acquire_sys \<Rightarrow> nat \<rightharpoonup> nat" where
  "waiting_on s = (\<lambda>c. Option.bind (calls s c) call_channel)"

text \<open>
  The queue and the unread signals together are exactly the channels of the waiting calls, no channel
  is in both, and no two calls share one.
\<close>

definition queue_good :: "nat set \<Rightarrow> EgressSlotBudget \<Rightarrow> bool" where
  "queue_good ws b \<longleftrightarrow> ws = set (waiters b) \<union> signals b \<and> set (waiters b) \<inter> signals b = {}
     \<and> distinct (waiters b) \<and> (\<forall>w\<in>ws. w < next_chan b)"

definition queue_ok :: "acquire_sys \<Rightarrow> bool" where
  "queue_ok s \<longleftrightarrow> queue_good (ran (waiting_on s)) (abud s) \<and> inj_on (waiting_on s) (dom (waiting_on s))"
text \<open>What an operation of the budget does to the queue: nothing, or it wakes everybody.\<close>

definition queue_frame :: "EgressSlotBudget \<Rightarrow> EgressSlotBudget \<Rightarrow> bool" where
  "queue_frame b b' \<longleftrightarrow> next_chan b' = next_chan b
     \<and> (waiters b' = waiters b \<and> signals b' = signals b
        \<or> waiters b' = [] \<and> signals b' = signals b \<union> set (waiters b))"

lemma waiting_on_simps [simp]:
  "waiting_on (s\<lparr>abud := b\<rparr>) = waiting_on s"
  "waiting_on (s\<lparr>abud := b, calls := m\<rparr>) = waiting_on (s\<lparr>calls := m\<rparr>)"
  "waiting_on (s\<lparr>calls := (calls s)(c \<mapsto> x)\<rparr>) = (waiting_on s)(c := call_channel x)"
  by (auto simp: waiting_on_def)

lemma queue_good_frame: "queue_good ws b \<Longrightarrow> queue_frame b b' \<Longrightarrow> queue_good ws b'"
  by (auto simp: queue_good_def queue_frame_def)

lemma queue_ok_frame: "queue_ok s \<Longrightarrow> queue_frame (abud s) b \<Longrightarrow> queue_ok (s\<lparr>abud := b\<rparr>)"
  using queue_good_frame [of "ran (waiting_on s)" "abud s" b] by (simp add: queue_ok_def)

lemma inj_waiting_drop: "inj_on m (dom m) \<Longrightarrow> inj_on (m(c := None)) (dom (m(c := None)))"
  by (auto simp: inj_on_def)

lemma ran_drop_inj: "inj_on m (dom m) \<Longrightarrow> m c = Some w \<Longrightarrow> ran (m(c := None)) = ran m - {w}"
  by (force simp: ran_def inj_on_def dom_def)

lemma queue_good_abandon:
  "queue_good ws b \<Longrightarrow> w \<in> ws \<Longrightarrow> queue_good (ws - {w}) (abandonWaiter w b)"
  by (cases "waiters b") (auto simp: queue_good_def abandonWaiter_def wakeOneLocked_def)
lemma next_chan_simps [simp]:
  "next_chan (add_units t g n b) = next_chan b" "next_chan (drop_group g b) = next_chan b"
  "next_chan (addLocked t g n b) = next_chan b" "next_chan (wakeOneLocked b) = next_chan b"
  "next_chan (consumeHoldLocked k n b) = next_chan b" "next_chan (release_card dev b) = next_chan b"
  "next_chan (release_units k b) = next_chan b" "next_chan (abandonWaiter w b) = next_chan b"
  by (simp_all add: add_units_def drop_group_def addLocked_def wakeOneLocked_def consumeHoldLocked_def
      release_card_def release_units_def abandonWaiter_def Let_def split: option.split list.split)

lemma queue_simps [simp]:
  "waiters (consumeHoldLocked k n b) = waiters b" "signals (consumeHoldLocked k n b) = signals b"
  "waiters (release_card dev b) = waiters b" "signals (release_card dev b) = signals b"
  "waiters (release_units k b) = waiters b" "signals (release_units k b) = signals b"
  by (simp_all add: consumeHoldLocked_def release_card_def release_units_def Let_def split: option.split)

lemma queue_frame_ops:
  "queue_frame b (release dev key b)"
  "queue_frame b (ReleaseHold k b)"
  "queue_frame b (snd (Hold claim n b))"
  "queue_frame b (snd (ChangeResolution k hr b))"
  by (auto simp: queue_frame_def release_def wake_all_eq ReleaseHold_def Hold_def ChangeResolution_def
      Let_def split: option.split)

lemma queue_ok_leave:
  assumes ok: "queue_ok s" and c: "waiting_on s c = Some w" and x: "call_channel x = None"
    and g: "queue_good (ran (waiting_on s) - {w}) b"
  shows "queue_ok (s\<lparr>abud := b, calls := (calls s)(c \<mapsto> x)\<rparr>)"
  using ok g x ran_drop_inj [of "waiting_on s" c w] inj_waiting_drop [of "waiting_on s" c] c
  by (simp add: queue_ok_def)

lemma queue_ok_plain:
  assumes ok: "queue_ok s" and c: "waiting_on s c = None" and x: "call_channel x = None"
    and f: "queue_frame (abud s) b"
  shows "queue_ok (s\<lparr>abud := b, calls := (calls s)(c \<mapsto> x)\<rparr>)"
proof -
  have "(waiting_on s)(c := None) = waiting_on s" using c by (auto simp: fun_eq_iff)
  then show ?thesis using ok queue_good_frame [OF _ f] x by (simp add: queue_ok_def)
qed

lemma queue_ok_join:
  assumes ok: "queue_ok s" and c: "waiting_on s c = None"
    and b: "b = snd (appendWaiterLocked (abud s))"
  shows "queue_ok (s\<lparr>abud := b, calls := (calls s)(c \<mapsto> Waiting claim (next_chan (abud s)) reason)\<rparr>)"
proof -
  let ?n = "next_chan (abud s)" and ?m = "waiting_on s"
  have new: "?n \<notin> ran ?m" using ok by (auto simp: queue_ok_def queue_good_def)
  then have "inj_on (?m(c \<mapsto> ?n)) (dom (?m(c \<mapsto> ?n)))"
    using ok by (auto simp: queue_ok_def inj_on_def ran_def)
  moreover have "queue_good (insert ?n (ran ?m)) b"
    using ok new by (auto simp: queue_ok_def queue_good_def b appendWaiterLocked_def less_SucI)
  ultimately show ?thesis using c by (simp add: queue_ok_def)
qed

lemma commit_acquire_frame:
  "commit_acquire claim ow delta heldUnits dev b = (l, b') \<Longrightarrow> queue_frame b b'"
  unfolding commit_acquire_def Let_def
  by (cases dev; cases "Owner claim = []") (simp_all add: queue_frame_def, auto)

lemma tryAcquire_Ok_frame: "tryAcquire claim b = (Inr l, b') \<Longrightarrow> queue_frame b b'"
  using tryAcquire_cases [of claim b] by (auto simp: wait_for_def commit_acquire_frame split: prod.splits)

lemma waiting_on_calls [simp]:
  "calls s c = None \<Longrightarrow> waiting_on s c = None"
  "calls s c = Some (Trying claim) \<Longrightarrow> waiting_on s c = None"
  "calls s c = Some (Waiting claim w reason) \<Longrightarrow> waiting_on s c = Some w"
  by (simp_all add: waiting_on_def)

lemma queue_ok_abandon:
  assumes ok: "queue_ok s" and c: "calls s c = Some (Waiting claim w reason)" and x: "call_channel x = None"
  shows "queue_ok (s\<lparr>abud := abandonWaiter w (abud s), calls := (calls s)(c \<mapsto> x)\<rparr>)"
proof (rule queue_ok_leave [OF ok _ x])
  show "waiting_on s c = Some w" using c by simp
  then have "w \<in> ran (waiting_on s)" by (rule ranI)
  with ok show "queue_good (ran (waiting_on s) - {w}) (abandonWaiter w (abud s))"
    by (simp add: queue_ok_def queue_good_abandon)
qed

lemma acquire_step_queue:
  assumes "acquire_step s s'" and ok: "queue_ok s"
  shows "queue_ok s'"
  using assms(1)
proof cases
  case (Call c claim)
  then show ?thesis using queue_ok_plain [OF ok, of c "Trying claim" "abud s"]
    by (simp add: queue_frame_def)
next
  case (Try_ok c claim l b)
  then show ?thesis using queue_ok_plain [OF ok] tryAcquire_Ok_frame by simp
next
  case (Try_wait c claim w reason b)
  then show ?thesis
    using tryAcquire_wait [of claim "abud s" "(w, reason)" b] queue_ok_join [OF ok, of c b claim]
    by (auto simp: wait_for_def appendWaiterLocked_def)
next
  case (Signalled c claim w reason)
  have "queue_good (ran (waiting_on s) - {w}) ((abud s)\<lparr>signals := signals (abud s) - {w}\<rparr>)"
    using ok Signalled(3) by (auto simp: queue_ok_def queue_good_def)
  with Signalled show ?thesis using queue_ok_leave [OF ok] by simp
next
  case (Deadline c claim w reason)
  then show ?thesis using queue_ok_abandon [OF ok] by simp
next
  case (Cancelled c claim w reason)
  then show ?thesis using queue_ok_abandon [OF ok] by simp
qed (auto intro!: queue_ok_frame [OF ok] queue_frame_ops)

lemma acquire_run_queue: "acquire_step\<^sup>*\<^sup>* s s' \<Longrightarrow> queue_ok s \<Longrightarrow> queue_ok s'"
  by (induction rule: rtranclp_induct) (auto intro: acquire_step_queue)

subsection \<open>The reserved share of the highest tier\<close>

definition top_tier :: "EgressSlotBudget \<Rightarrow> nat" where
  "top_tier b = length (tierReserves b) - 1"

text \<open>The units the highest tier may still claim for itself.\<close>

definition top_unused :: "EgressSlotBudget \<Rightarrow> int" where
  "top_unused b = max 0 (tierReserves b ! top_tier b - usedByTier b (int (top_tier b)))"

definition reserve_kept :: "EgressSlotBudget \<Rightarrow> bool" where
  "reserve_kept b \<longleftrightarrow> tierReserves b \<noteq> [] \<and> length (tierReserves b) < 2 ^ 62 \<and> 0 < capacity b
     \<and> used b + top_unused b \<le> capacity b"

lemma vacancy_fold:
  "fold (\<lambda>h vacancy. let unused = f h - g h in if unused > 0 then vacancy + unused else vacancy) hs v
   = v + sum_list (map (\<lambda>h. max 0 (f h - g h :: int)) hs)"
  by (induction hs arbitrary: v) (auto simp: Let_def)

lemma vacancy_eq:
  assumes "0 \<le> t" and "t < 2 ^ 62"
  shows "higherTierVacancyLocked b t =
    sum_list (map (\<lambda>h. max 0 (tierReserves b ! h - usedByTier b (int h))) [nat (t + 1) ..< length (tierReserves b)])"
  using assms vacancy_fold [of "\<lambda>h. tierReserves b ! h" "\<lambda>h. usedByTier b (int h)" _ 0]
  by (simp add: higherTierVacancyLocked_def i64_id)

lemma vacancy_top:
  assumes "reserve_kept b" and "0 \<le> t" and "t \<le> int (top_tier b)"
  shows "t < int (top_tier b) \<Longrightarrow> top_unused b \<le> higherTierVacancyLocked b t"
    and "t = int (top_tier b) \<Longrightarrow> higherTierVacancyLocked b t = 0"
proof -
  let ?f = "\<lambda>h. max 0 (tierReserves b ! h - usedByTier b (int h))"
  have n: "tierReserves b \<noteq> []" and t: "t < 2 ^ 62"
    using assms by (auto simp: reserve_kept_def top_tier_def)
  note v = vacancy_eq [OF assms(2) t, of b]
  show "higherTierVacancyLocked b t = 0" if "t = int (top_tier b)"
    using that n unfolding v by (simp add: top_tier_def nat_add_distrib)
  show "top_unused b \<le> higherTierVacancyLocked b t" if "t < int (top_tier b)"
  proof -
    have "top_tier b \<in> set [nat (t + 1) ..< length (tierReserves b)]"
      using that assms(2) n by (auto simp: top_tier_def)
    then have "?f (top_tier b) \<in> set (map ?f [nat (t + 1) ..< length (tierReserves b)])" by auto
    then have "?f (top_tier b) \<le> sum_list (map ?f [nat (t + 1) ..< length (tierReserves b)])"
      by (rule member_le_sum_list_int) auto
    then show ?thesis unfolding v by (simp add: top_unused_def)
  qed
qed

text \<open>Moving \<open>n\<close> units into one tier keeps the reserve when the move is admitted or gives units back.\<close>

lemma reserve_kept_shift:
  assumes "reserve_kept b" and "0 \<le> t" and "t \<le> int (top_tier b)"
    and "capacity b' = capacity b" and "tierReserves b' = tierReserves b"
    and "used b' = used b + n" and "usedByTier b' = (usedByTier b)(t := usedByTier b t + n)"
    and "0 < n \<Longrightarrow> admission b (used b + n) t = None"
  shows "reserve_kept b'"
proof (cases "t = int (top_tier b)")
  case True
  with assms vacancy_top(2) [OF assms(1-3)] show ?thesis
    by (cases "0 < n") (auto simp: reserve_kept_def top_unused_def top_tier_def admission_def split: if_splits)
next
  case False
  then have "top_unused b' = top_unused b" using assms(5,7) by (simp add: top_unused_def top_tier_def)
  moreover have "top_unused b \<le> higherTierVacancyLocked b t"
    using vacancy_top(1) [OF assms(1-3)] assms(3) False by simp
  ultimately show ?thesis
    using assms(1,4,5,6,8) by (cases "0 < n") (auto simp: reserve_kept_def admission_def split: if_splits)
qed

text \<open>
  The tier discipline of the callers: a session's claims carry the tier of its plan, and no claim is
  above the highest reserved tier.
\<close>

definition tiers_ok :: "(string \<Rightarrow> int) \<Rightarrow> EgressSlotBudget \<Rightarrow> bool" where
  "tiers_ok tier_of b \<longleftrightarrow>
     (\<forall>k ow. owners b k = Some ow \<longrightarrow> 0 \<le> Tier (ow_claim ow) \<and> Tier (ow_claim ow) \<le> int (top_tier b)
        \<and> (plain_key k \<longrightarrow> Tier (ow_claim ow) = tier_of k))
   \<and> (\<forall>k h. holds b k = Some h \<longrightarrow> plain_key k \<and> hold_tier h = tier_of k
        \<and> 0 \<le> hold_tier h \<and> hold_tier h \<le> int (top_tier b))"

definition tier_claim_ok :: "(string \<Rightarrow> int) \<Rightarrow> nat \<Rightarrow> EgressClaim \<Rightarrow> bool" where
  "tier_claim_ok tier_of T claim \<longleftrightarrow> plain_key (Owner claim) \<and> Tier claim = tier_of (Owner claim)
     \<and> 0 \<le> Tier claim \<and> Tier claim \<le> int T"

definition tier_allowed :: "(string \<Rightarrow> int) \<Rightarrow> nat \<Rightarrow> slots_event \<Rightarrow> bool" where
  "tier_allowed tier_of T e = (case e of
     TryAcquire claim \<Rightarrow> tier_claim_ok tier_of T claim
   | HoldUnits claim n \<Rightarrow> tier_claim_ok tier_of T claim
   | _ \<Rightarrow> True)"

definition tier_inv :: "(string \<Rightarrow> int) \<Rightarrow> nat \<Rightarrow> slots_sys \<Rightarrow> bool" where
  "tier_inv tier_of T s \<longleftrightarrow> slots_sys_inv s \<and> top_tier (bud s) = T
     \<and> tiers_ok tier_of (bud s) \<and> reserve_kept (bud s)"

lemma consumeHold_tier:
  "usedByTier (consumeHoldLocked k n b) =
     (if n \<le> 0 then usedByTier b
      else (usedByTier b)(hold_tier (hold_of b k) := usedByTier b (hold_tier (hold_of b k)) - n))"
  by (simp add: consumeHoldLocked_def Let_def)

lemma consumeHold_used: "used (consumeHoldLocked k n b) = (if n \<le> 0 then used b else used b - n)"
  by (simp add: consumeHoldLocked_def Let_def)

lemma consumeHold_holds:
  "holds (consumeHoldLocked k n b) j = Some h \<Longrightarrow> 0 < n \<longrightarrow> holds b k \<noteq> None \<Longrightarrow>
   \<exists>h'. holds b j = Some h' \<and> hold_tier h' = hold_tier h"
  by (auto simp: consumeHoldLocked_def Let_def hold_of_def split: if_splits option.splits)

lemma holdFor_tier:
  assumes "tiers_ok tier_of b" and "0 < holdForLocked b k delta"
  shows "hold_tier (hold_of b k) = tier_of k" and "plain_key k" and "holds b k \<noteq> None"
  using assms by (auto simp: tiers_ok_def holdForLocked_def hold_of_def zero_hold_def split: if_splits option.splits)

text \<open>Turning held units into units of the same owner moves the difference into the owner's tier.\<close>

lemma reserve_kept_convert:
  assumes kept: "reserve_kept b" and tiers: "tiers_ok tier_of b" and inv: "entries_ok b"
    and t: "0 \<le> t" "t \<le> int (top_tier b)" "plain_key k \<Longrightarrow> t = tier_of k"
    and held: "heldUnits = holdForLocked b k delta"
    and adm: "0 < delta \<Longrightarrow> admission b (used b - heldUnits + delta) t = None"
    and b': "capacity b' = capacity b" "tierReserves b' = tierReserves b"
      "used b' = used (consumeHoldLocked k heldUnits b) + delta"
      "usedByTier b' = (usedByTier (consumeHoldLocked k heldUnits b))
         (t := usedByTier (consumeHoldLocked k heldUnits b) t + delta)"
  shows "reserve_kept b'"
proof (rule reserve_kept_shift [OF kept t(1,2) b'(1,2)])
  have pos: "0 \<le> heldUnits" using holdForLocked_bounds(1) [OF inv] held by simp
  then show "used b' = used b + (delta - heldUnits)" using b'(3) by (simp add: consumeHold_used)
  show "usedByTier b' = (usedByTier b)(t := usedByTier b t + (delta - heldUnits))"
    using b'(4) pos held holdFor_tier [OF tiers, of k delta] t(3) by (auto simp: consumeHold_tier)
  show "admission b (used b + (delta - heldUnits)) t = None" if "0 < delta - heldUnits"
    using adm that pos by (simp add: algebra_simps)
qed

lemma tiers_ok_change:
  assumes ok: "tiers_ok tier_of b" and r: "tierReserves b' = tierReserves b"
    and o: "\<And>k ow. owners b' k = Some ow \<Longrightarrow>
      (\<exists>ow'. owners b k = Some ow' \<and> Tier (ow_claim ow') = Tier (ow_claim ow)) \<or>
      0 \<le> Tier (ow_claim ow) \<and> Tier (ow_claim ow) \<le> int (top_tier b) \<and> (plain_key k \<longrightarrow> Tier (ow_claim ow) = tier_of k)"
    and h: "\<And>k h. holds b' k = Some h \<Longrightarrow>
      (\<exists>h'. holds b k = Some h' \<and> hold_tier h' = hold_tier h) \<or>
      plain_key k \<and> hold_tier h = tier_of k \<and> 0 \<le> hold_tier h \<and> hold_tier h \<le> int (top_tier b)"
  shows "tiers_ok tier_of b'"
  unfolding tiers_ok_def
proof (intro conjI allI impI)
  fix k ow assume "owners b' k = Some ow"
  from o [OF this] ok show "0 \<le> Tier (ow_claim ow)" "Tier (ow_claim ow) \<le> int (top_tier b')"
    "plain_key k \<Longrightarrow> Tier (ow_claim ow) = tier_of k"
    by (fastforce simp: tiers_ok_def top_tier_def r)+
next
  fix k x assume "holds b' k = Some x"
  from h [OF this] ok show "plain_key k" "hold_tier x = tier_of k" "0 \<le> hold_tier x"
    "hold_tier x \<le> int (top_tier b')"
    by (fastforce simp: tiers_ok_def top_tier_def r)+
qed

lemma tier_step_acquire:
  assumes inv: "tier_inv tier_of T s" and ok: "tier_claim_ok tier_of T claim"
    and c: "tryAcquire claim (bud s) = (Inr l, b')"
  shows "tiers_ok tier_of b' \<and> reserve_kept b' \<and> top_tier b' = T"
proof -
  let ?b = "bud s"
  note i = inv [unfolded tier_inv_def slots_sys_inv_def slots_inv_def]
  obtain dev ow delta heldUnits where ow: "ow = claim_owner_of ?b claim"
    and delta: "delta = egressUnits (HighRes (ow_claim ow)) (ow_count ow + 1) - ow_held ow"
    and held: "heldUnits = holdForLocked ?b (Owner claim) delta"
    and c: "commit_acquire claim ow delta heldUnits dev ?b = (l, b')"
    and adm: "capacity ?b > 0 \<longrightarrow> admission ?b (used ?b - heldUnits + delta) (Tier (ow_claim ow)) = None"
    using tryAcquire_cases [of claim ?b] c by (auto simp: wait_for_def split: prod.splits)
  note f = commit_acquire_fields [OF c]
  have tier: "Tier (ow_claim ow) = tier_of (Owner claim)"
    using i ok by (auto simp: ow claim_owner_of_def tiers_ok_def tier_claim_ok_def split: option.split)
  then have range: "0 \<le> Tier (ow_claim ow)" "Tier (ow_claim ow) \<le> int (top_tier ?b)"
    using ok i by (simp_all add: tier_claim_ok_def)
  have top: "top_tier b' = T" using i f(6) by (simp add: top_tier_def)
  have "reserve_kept b'"
  proof (rule reserve_kept_convert [OF _ _ _ range _ held])
    show "usedByTier b' = (usedByTier (consumeHoldLocked (Owner claim) heldUnits ?b))
       (Tier (ow_claim ow) := usedByTier (consumeHoldLocked (Owner claim) heldUnits ?b) (Tier (ow_claim ow)) + delta)"
      using c by (auto simp: commit_acquire_eq Let_def)
  qed (use i f adm tier reserve_kept_def in auto)
  moreover have "tiers_ok tier_of b'"
  proof -
    have key: "plain_key (acquire_key claim ?b) \<Longrightarrow> acquire_key claim ?b = Owner claim"
      by (auto simp: acquire_key_def anonymous_key_def plain_key_def)
    have "\<exists>h'. holds ?b j = Some h' \<and> hold_tier h' = hold_tier h" if "holds b' j = Some h" for j h
      using consumeHold_holds [of "Owner claim" heldUnits ?b j h] that f(3) holdFor_tier(3) [of tier_of ?b] i held
      by auto
    then show ?thesis
      using i tier range key by (intro tiers_ok_change [of tier_of ?b b']) (auto simp: f(2,6) split: if_splits)
  qed
  ultimately show ?thesis using top by simp
qed

lemma tier_step_change:
  fixes key :: string and highRes :: bool
  assumes inv: "tier_inv tier_of T s"
  defines "b' \<equiv> snd (ChangeResolution key highRes (bud s))"
  shows "tiers_ok tier_of b' \<and> reserve_kept b' \<and> top_tier b' = T"
proof (cases "if key = '''' then None else owners (bud s) key")
  case None
  then show ?thesis using inv by (simp add: ChangeResolution_def tier_inv_def b'_def)
next
  case (Some ow)
  let ?b = "bud s"
  note i = inv [unfolded tier_inv_def slots_sys_inv_def slots_inv_def]
  from Some have key: "key \<noteq> ''''" and o: "owners ?b key = Some ow" by (auto split: if_splits)
  define delta where "delta = egressUnits highRes (ow_count ow) - ow_held ow"
  define heldUnits where "heldUnits = holdForLocked ?b key delta"
  define b1 where "b1 = consumeHoldLocked key heldUnits ?b"
  define ow' where "ow' = ow\<lparr>ow_claim := (ow_claim ow)\<lparr>HighRes := highRes\<rparr>, ow_held := ow_held ow + delta\<rparr>"
  define b3 where "b3 = (add_units (Tier (ow_claim ow)) (Group (ow_claim ow)) delta b1)\<lparr>owners := (owners b1)(key \<mapsto> ow')\<rparr>"
  note step = ChangeResolution_Some [OF key o, of highRes, folded delta_def, folded heldUnits_def,
      folded b1_def, folded ow'_def, folded b3_def]
  let ?adm = "if delta > 0 \<and> capacity ?b > 0
    then admission ?b (used ?b - heldUnits + delta) (Tier (ow_claim ow)) else None"
  show ?thesis
  proof (cases ?adm)
    case (Some e)
    then show ?thesis using i unfolding b'_def step by simp
  next
    case None
    have tier: "0 \<le> Tier (ow_claim ow)" "Tier (ow_claim ow) \<le> int (top_tier ?b)"
      "plain_key key \<Longrightarrow> Tier (ow_claim ow) = tier_of key"
      using i o by (auto simp: tiers_ok_def)
    have f: "capacity b' = capacity ?b" "tierReserves b' = tierReserves ?b" "used b' = used b1 + delta"
      "usedByTier b' = (usedByTier b1)(Tier (ow_claim ow) := usedByTier b1 (Tier (ow_claim ow)) + delta)"
      "owners b' = (owners ?b)(key \<mapsto> ow')" "holds b' = holds b1"
      unfolding b'_def step None by (simp_all add: wake_all_eq b3_def b1_def)
    have "reserve_kept b'"
      by (rule reserve_kept_convert [where tier_of = tier_of and k = key, OF _ _ _ tier heldUnits_def _ f(1,2) f(3,4) [unfolded b1_def]])
        (use i None reserve_kept_def in auto)
    moreover have "tiers_ok tier_of b'"
    proof -
      have "\<exists>h'. holds ?b j = Some h' \<and> hold_tier h' = hold_tier h" if "holds b1 j = Some h" for j h
        using consumeHold_holds [of key heldUnits ?b j h] that holdFor_tier(3) [of tier_of ?b key delta] i
        by (auto simp: b1_def heldUnits_def)
      then show ?thesis
        using i o by (intro tiers_ok_change [of tier_of ?b b']) (auto simp: f ow'_def split: if_splits)
    qed
    ultimately show ?thesis using i f(2) by (simp add: top_tier_def)
  qed
qed

lemma tier_step_hold:
  fixes n :: int
  assumes inv: "tier_inv tier_of T s" and ok: "tier_claim_ok tier_of T claim"
  defines "b' \<equiv> snd (Hold claim n (bud s))"
  shows "tiers_ok tier_of b' \<and> reserve_kept b' \<and> top_tier b' = T"
proof (cases "b' = bud s")
  case True
  then show ?thesis using inv by (simp add: tier_inv_def)
next
  case False
  let ?b = "bud s"
  note i = inv [unfolded tier_inv_def]
  have h: "0 < n" "capacity ?b > 0 \<longrightarrow> admission ?b (used ?b + n) (Tier claim) = None"
    "b' = addLocked (Tier claim) (Group claim) n (?b\<lparr>holds := (holds ?b)(Owner claim \<mapsto>
         \<lparr>hold_units = n, hold_tier = Tier claim, hold_group = Group claim\<rparr>)\<rparr>)"
    using Hold_cases [of claim n ?b] False unfolding b'_def by auto
  have "reserve_kept b'"
    by (rule reserve_kept_shift [of ?b "Tier claim" b' n])
      (use i ok h(2) in \<open>auto simp: h(3) tier_claim_ok_def reserve_kept_def\<close>)
  moreover have "tiers_ok tier_of b'"
    using i ok by (intro tiers_ok_change [of tier_of ?b b']) (auto simp: h(3) tier_claim_ok_def split: if_splits)
  ultimately show ?thesis using i h(3) by (simp add: top_tier_def)
qed

lemma tier_step_frame:
  assumes "tier_inv tier_of T s" and "owners b = owners (bud s)" "holds b = holds (bud s)"
    "tierReserves b = tierReserves (bud s)" "capacity b = capacity (bud s)" "used b = used (bud s)"
    "usedByTier b = usedByTier (bud s)"
  shows "tiers_ok tier_of b \<and> reserve_kept b \<and> top_tier b = T"
proof -
  have "tiers_ok tier_of b = tiers_ok tier_of (bud s)" "reserve_kept b = reserve_kept (bud s)"
    "top_tier b = top_tier (bud s)"
    using assms(2-) by (simp_all add: tiers_ok_def reserve_kept_def top_unused_def top_tier_def)
  with assms(1) show ?thesis by (simp add: tier_inv_def)
qed

lemma tier_step_release:
  assumes inv: "tier_inv tier_of T s"
  shows "tiers_ok tier_of (release dev key (bud s)) \<and> reserve_kept (release dev key (bud s))
    \<and> top_tier (release dev key (bud s)) = T"
proof (cases "owners (bud s) key")
  case None
  then show ?thesis
    by (intro tier_step_frame [OF inv])
      (simp_all add: release_def wake_all_eq release_units_def release_card_def split: option.split)
next
  case (Some ow)
  let ?b = "bud s" and ?b' = "release dev key (bud s)"
  note i = inv [unfolded tier_inv_def slots_sys_inv_def slots_inv_def]
  define freed where "freed = ow_held ow - egressUnits (HighRes (ow_claim ow)) (ow_count ow - 1)"
  have f: "capacity ?b' = capacity ?b" "tierReserves ?b' = tierReserves ?b" "used ?b' = used ?b + - freed"
    "usedByTier ?b' = (usedByTier ?b)(Tier (ow_claim ow) := usedByTier ?b (Tier (ow_claim ow)) + - freed)"
    using Some by (auto simp: release_def wake_all_eq release_units_def release_card_def Let_def freed_def
        split: option.split)
  have "owner_ok ow" using i Some by (simp add: entries_ok_def)
  then have pos: "\<not> 0 < - freed"
    using egressUnits_step [of "ow_count ow - 1" "HighRes (ow_claim ow)"] by (simp add: owner_ok_def freed_def)
  have "reserve_kept ?b'"
    by (rule reserve_kept_shift [OF _ _ _ f]) (use i Some pos in \<open>auto simp: tiers_ok_def\<close>)
  moreover have "tiers_ok tier_of ?b'"
    using i Some by (intro tiers_ok_change [of tier_of ?b ?b'])
      (auto simp: f(2) release_def wake_all_eq release_units_def Let_def split: if_splits)
  ultimately show ?thesis using i f(2) by (simp add: top_tier_def)
qed

lemma tier_step_release_hold:
  assumes inv: "tier_inv tier_of T s"
  shows "tiers_ok tier_of (ReleaseHold key (bud s)) \<and> reserve_kept (ReleaseHold key (bud s))
    \<and> top_tier (ReleaseHold key (bud s)) = T"
proof (cases "holds (bud s) key")
  case None
  then show ?thesis using inv by (simp add: tier_inv_def ReleaseHold_def)
next
  case (Some h)
  let ?b = "bud s" and ?b' = "ReleaseHold key (bud s)"
  note i = inv [unfolded tier_inv_def slots_sys_inv_def slots_inv_def]
  have f: "capacity ?b' = capacity ?b" "tierReserves ?b' = tierReserves ?b" "used ?b' = used ?b + - hold_units h"
    "usedByTier ?b' = (usedByTier ?b)(hold_tier h := usedByTier ?b (hold_tier h) + - hold_units h)"
    using Some by (auto simp: ReleaseHold_def wake_all_eq)
  have pos: "\<not> 0 < - hold_units h" using i Some by (force simp: entries_ok_def)
  have range: "0 \<le> hold_tier h" "hold_tier h \<le> int (top_tier ?b)"
    using i Some unfolding tiers_ok_def by blast+
  have "reserve_kept ?b'"
    by (rule reserve_kept_shift [OF _ range f]) (use i pos in auto)
  moreover have "tiers_ok tier_of ?b'"
    using i Some by (intro tiers_ok_change [of tier_of ?b ?b'])
      (auto simp: f(2) ReleaseHold_def wake_all_eq split: if_splits)
  ultimately show ?thesis using i f(2) by (simp add: top_tier_def)
qed

lemma tier_step_inv:
  assumes inv: "tier_inv tier_of T s" and ok: "tier_allowed tier_of T e"
  shows "tier_inv tier_of T (slots_step s e)"
proof -
  have "slots_allowed e" using ok by (auto simp: tier_allowed_def tier_claim_ok_def slots_allowed_def split: slots_event.splits)
  then have sys: "slots_sys_inv (slots_step s e)" using inv slots_step_inv by (simp add: tier_inv_def)
  have "tiers_ok tier_of (bud (slots_step s e)) \<and> reserve_kept (bud (slots_step s e))
    \<and> top_tier (bud (slots_step s e)) = T"
  proof (cases e)
    case (TryAcquire claim)
    obtain r b' where t: "tryAcquire claim (bud s) = (r, b')" by fastforce
    show ?thesis
    proof (cases r)
      case (Inl x)
      with t tryAcquire_wait [of claim "bud s" x b']
      have "b' = snd (appendWaiterLocked (bud s))" by (auto simp: wait_for_def split_def)
      then have "tiers_ok tier_of b' \<and> reserve_kept b' \<and> top_tier b' = T"
        by (intro tier_step_frame [OF inv]) (simp_all add: appendWaiterLocked_def)
      with t Inl TryAcquire show ?thesis by simp
    next
      case (Inr l)
      with t TryAcquire ok tier_step_acquire [OF inv, of claim l b'] show ?thesis by (simp add: tier_allowed_def)
    qed
  next
    case (ReleaseLease j)
    then show ?thesis
      using inv tier_step_release [OF inv] by (simp add: Release_def tier_inv_def)
  qed (use ok inv in \<open>simp_all add: tier_allowed_def tier_step_change tier_step_hold tier_step_release_hold
      tier_step_frame abandonWaiter_def\<close>)
  then show ?thesis using sys by (simp add: tier_inv_def)
qed

interpretation tiers: guarded_state slots_step "tier_inv tier_of T" "tier_allowed tier_of T" for tier_of T
  by unfold_locales (rule tier_step_inv)

lemma new_sys_tier_inv:
  assumes n: "NewEgressSlotBudget cap devs = Some b" and cap: "0 < cap"
    and rs: "rs \<noteq> []" "length rs < 2 ^ 62" "last rs \<le> cap"
  shows "tier_inv tier_of (length rs - 1) (new_sys (SetTierReserves rs b))"
proof -
  have "owners b = Map.empty" "holds b = Map.empty" "used b = 0" "usedByTier b = (\<lambda>_. 0)" "capacity b = cap"
    using n by (auto simp: NewEgressSlotBudget_def split: if_splits)
  then show ?thesis
    using new_sys_inv [OF n, of rs] cap rs last_conv_nth [of rs]
    by (simp add: tier_inv_def new_sys_def SetTierReserves_def tiers_ok_def reserve_kept_def top_unused_def
        top_tier_def)
qed

lemma slots_step_frame:
  "capacity (bud (slots_step s e)) = capacity (bud s) \<and> tierReserves (bud (slots_step s e)) = tierReserves (bud s)"
proof (cases e)
  case (TryAcquire claim)
  obtain r b' where t: "tryAcquire claim (bud s) = (r, b')" by fastforce
  show ?thesis
  proof (cases r)
    case (Inl x)
    with t TryAcquire tryAcquire_wait [of claim "bud s" x b'] show ?thesis
      by (auto simp: wait_for_def appendWaiterLocked_def)
  next
    case (Inr l)
    with t tryAcquire_cases [of claim "bud s"]
    have "capacity b' = capacity (bud s) \<and> tierReserves b' = tierReserves (bud s)"
      by (auto simp: wait_for_def split_def dest: commit_acquire_fields(4,6))
    with t Inr TryAcquire show ?thesis by simp
  qed
next
  case (HoldUnits claim n)
  then show ?thesis using Hold_cases [of claim n "bud s"] by auto
qed (auto simp: Release_def release_def wake_all_eq ReleaseHold_def abandonWaiter_def ChangeResolution_def
    Let_def release_card_def split: option.split)

lemma slots_run_capacity: "capacity (bud (foldl slots_step s es)) = capacity (bud s)"
  by (induction es arbitrary: s) (simp_all add: slots_step_frame)

lemma slots_run_reserves: "tierReserves (bud (foldl slots_step s es)) = tierReserves (bud s)"
  by (induction es arbitrary: s) (simp_all add: slots_step_frame)

subsection \<open>Properties\<close>

text \<open>
  Property C1. However the callers interleave their requests, the units in use never exceed the
  capacity, they are exactly the units that the owners hold for their egresses and the units held
  back for upgrade offers (in total, per tier and per plan group), and every card carries as many
  NVENC sessions as it has live leases, at most twelve.
\<close>

theorem slots_accounts_balance:
  assumes "NewEgressSlotBudget cap devs = Some b0" and "list_all slots_allowed es"
    and s_def: "s = foldl slots_step (new_sys (SetTierReserves rs b0)) es"
  shows "(0 < cap \<longrightarrow> used (bud s) \<le> cap)
    \<and> used (bud s) = msum ow_held (owners (bud s)) + msum hold_units (holds (bud s))
    \<and> (\<forall>t. usedByTier (bud s) t = units_where (\<lambda>t' _. t' = t) (bud s))
    \<and> (\<forall>g. group_units (bud s) g = units_where (\<lambda>_ g'. g' = g) (bud s))
    \<and> (\<forall>k ow. owners (bud s) k = Some ow \<longrightarrow>
         ow_count ow = live_leases (\<lambda>l. lease_owner l = k) s
         \<and> ow_held ow = egressUnits (HighRes (ow_claim ow)) (ow_count ow))
    \<and> (\<forall>d < length (perCard (bud s)). perCard (bud s) ! d = live_leases (\<lambda>l. device l = Some d) s
         \<and> perCard (bud s) ! d \<le> nvencSessionsPerCard)"
proof -
  have inv: "slots_sys_inv s" unfolding s_def by (rule slots.run_inv [OF new_sys_inv [OF assms(1)] assms(2)])
  note i = inv [unfolded slots_sys_inv_def slots_inv_def]
  have cap: "capacity (bud s) = cap"
    using assms(1) by (auto simp: s_def slots_run_capacity new_sys_def SetTierReserves_def NewEgressSlotBudget_def
        split: if_splits)
  have owner: "ow_count ow = live_leases (\<lambda>l. lease_owner l = k) s
      \<and> ow_held ow = egressUnits (HighRes (ow_claim ow)) (ow_count ow)" if "owners (bud s) k = Some ow" for k ow
    using i that by (auto simp: leases_ok_def entries_ok_def owner_ok_def)
  have "used (bud s) = units_where (\<lambda>_ _. True) (bud s)" using i by (simp add: sums_ok_def)
  then have "used (bud s) = msum ow_held (owners (bud s)) + msum hold_units (holds (bud s))"
    by (simp add: units_where_def)
  moreover have "perCard (bud s) ! d = live_leases (\<lambda>l. device l = Some d) s \<and> perCard (bud s) ! d \<le> nvencSessionsPerCard"
    if "d < length (perCard (bud s))" for d
    using i that nth_mem [OF that] unfolding cards_ok_def leases_ok_def by blast
  moreover have "0 < cap \<longrightarrow> used (bud s) \<le> cap" using i cap by (simp add: capacity_ok_def)
  moreover have "usedByTier (bud s) t = units_where (\<lambda>t' _. t' = t) (bud s)" for t
    using i by (simp add: sums_ok_def)
  ultimately show ?thesis using i owner group_units_eq [of "bud s"] by blast
qed

text \<open>
  Nothing leaks: once every lease has been released and no units are held for an offer,
  whatever happened before, no unit is in use, no owner and no plan group is left and every card is
  empty. A lease that is released twice gives its units back once.
\<close>

theorem slots_no_leak:
  assumes "NewEgressSlotBudget cap devs = Some b0" and "list_all slots_allowed es"
    and s_def: "s = foldl slots_step (new_sys (SetTierReserves rs b0)) es"
    and "\<forall>l\<in>set (leases s). released l" and "holds (bud s) = Map.empty"
  shows "used (bud s) = 0 \<and> owners (bud s) = Map.empty \<and> usedByGroup (bud s) = Map.empty
    \<and> (\<forall>d < length (perCard (bud s)). perCard (bud s) ! d = 0)"
proof -
  have inv: "slots_sys_inv s" unfolding s_def by (rule slots.run_inv [OF new_sys_inv [OF assms(1)] assms(2)])
  note i = inv [unfolded slots_sys_inv_def slots_inv_def]
  have none: "live_leases P s = 0" for P
    using assms(4) by (auto simp: live_leases_def filter_empty_conv)
  have o: "owners (bud s) k = None" for k
  proof (cases "owners (bud s) k")
    case (Some ow)
    then have "1 \<le> ow_count ow" "ow_count ow = live_leases (\<lambda>l. lease_owner l = k) s"
      using i by (auto simp: entries_ok_def owner_ok_def leases_ok_def)
    with none show ?thesis by simp
  qed simp
  then have "owners (bud s) = Map.empty" by (simp add: fun_eq_iff)
  then have "units_where P (bud s) = 0" for P using assms(5) by (simp add: units_where_def)
  then show ?thesis using i none o by (auto simp: sums_ok_def leases_ok_def fun_eq_iff)
qed

definition demo_claim :: "string \<Rightarrow> bool \<Rightarrow> int \<Rightarrow> EgressClaim" where
  "demo_claim owner hr tier = \<lparr>Owner = owner, HighRes = hr, Tier = tier, Group = ''plan''\<rparr>"

definition demo_events :: "slots_event list" where
  "demo_events = [TryAcquire (demo_claim ''a'' True 2), TryAcquire (demo_claim ''b'' False 0), ReleaseLease 0]"

definition demo_budget :: EgressSlotBudget where
  "demo_budget = the (NewEgressSlotBudget 6 2)"

lemma demo_budget_new: "NewEgressSlotBudget 6 2 = Some demo_budget"
  by (simp add: demo_budget_def NewEgressSlotBudget_def)

lemma demo_events_allowed: "list_all slots_allowed demo_events"
  by (simp add: demo_events_def slots_allowed_def plain_key_def demo_claim_def)

theorem slots_accounts_balance_witness:
  "used (bud (foldl slots_step (new_sys (SetTierReserves [1, 1, 2] demo_budget)) demo_events)) \<le> 6"
  using slots_accounts_balance [OF demo_budget_new demo_events_allowed refl, of "[1, 1, 2]"] by simp

theorem slots_no_leak_witness:
  "used (bud (foldl slots_step (new_sys (SetTierReserves [1, 1, 2] demo_budget))
     [TryAcquire (demo_claim ''a'' True 2), ReleaseLease 0, ReleaseLease 0])) = 0"
proof -
  let ?s = "foldl slots_step (new_sys (SetTierReserves [1, 1, 2] demo_budget))
     [TryAcquire (demo_claim ''a'' True 2), ReleaseLease 0, ReleaseLease 0]"
  have ok: "list_all slots_allowed [TryAcquire (demo_claim ''a'' True 2), ReleaseLease 0, ReleaseLease 0]"
    by (simp add: slots_allowed_def plain_key_def demo_claim_def)
  have "list_all released (leases ?s)" "holds (bud ?s) = Map.empty"
    by (simp_all add: demo_budget_def NewEgressSlotBudget_def new_sys_def SetTierReserves_def tryAcquire_def
        demo_claim_def claim_owner_of_def holdForLocked_def hold_of_def zero_hold_def admission_def
        higherTierVacancyLocked_def i64_id egressUnits_def Let_def leastLoadedLocked_def nvencSessionsPerCard_def
        commit_acquire_def Release_def release_def wake_all_eq upt_rec numeral_eq_Suc release_card_def
        release_units_def consumeHoldLocked_def)
  then show ?thesis
    using slots_no_leak [OF demo_budget_new ok refl, of "[1, 1, 2]"] by (simp add: list_all_iff)
qed



text \<open>
  Property C9. No wake-up is lost. In every state that interleaved calls of \<open>AcquireClaim\<close> reach, the
  queue and the unread signals together hold exactly the channels of the calls still waiting; a
  release signals every one of them; and a call that gives up after its channel was signalled hands
  the signal to the first call in the queue.
\<close>

theorem acquire_no_lost_wakeup:
  assumes "NewEgressSlotBudget cap devs = Some b0"
    and "acquire_step\<^sup>*\<^sup>* \<lparr>abud = b0, calls = Map.empty\<rparr> s"
    and "calls s c = Some (Waiting claim w reason)"
  shows "(w \<in> set (waiters (abud s)) \<longleftrightarrow> w \<notin> signals (abud s))
    \<and> w \<in> signals (release dev key (abud s))
    \<and> (w \<in> signals (abud s) \<longrightarrow> waiters (abud s) = v # vs \<longrightarrow>
         v \<in> signals (abandonWaiter w (abud s)) \<and> waiters (abandonWaiter w (abud s)) = vs)
    \<and> w \<notin> set (waiters (abandonWaiter w (abud s))) \<union> signals (abandonWaiter w (abud s))"
proof -
  have "queue_ok \<lparr>abud = b0, calls = Map.empty\<rparr>"
    using assms(1) by (auto simp: queue_ok_def queue_good_def waiting_on_def NewEgressSlotBudget_def split: if_splits)
  then have ok: "queue_ok s" by (rule acquire_run_queue [OF assms(2)])
  have w: "w \<in> ran (waiting_on s)" using assms(3) ranI [of "waiting_on s" c w] by simp
  then have mem: "w \<in> set (waiters (abud s)) \<longleftrightarrow> w \<notin> signals (abud s)"
    using ok by (auto simp: queue_ok_def queue_good_def)
  have "w \<in> signals (release dev key (abud s))" using mem by (auto simp: release_def wake_all_eq)
  moreover have "queue_good (ran (waiting_on s) - {w}) (abandonWaiter w (abud s))"
    using ok w by (simp add: queue_ok_def queue_good_abandon)
  then have "w \<notin> set (waiters (abandonWaiter w (abud s))) \<union> signals (abandonWaiter w (abud s))"
    by (auto simp: queue_good_def)
  ultimately show ?thesis using mem by (auto simp: abandonWaiter_def wakeOneLocked_def)
qed

definition full_budget :: EgressSlotBudget where
  "full_budget = the (NewEgressSlotBudget 1 0)"

theorem acquire_no_lost_wakeup_witness:
  "\<exists>(s :: acquire_sys) w. calls s 0 = Some (Waiting (demo_claim ''a'' True 0) w ErrEgressSlotsExhausted)
     \<and> w \<in> signals (release None ''x'' (abud s))"
proof -
  let ?c = "demo_claim ''a'' True 0" and ?s0 = "\<lparr>abud = full_budget, calls = Map.empty\<rparr>"
  let ?s1 = "?s0\<lparr>calls := [0 \<mapsto> Trying ?c]\<rparr>"
  let ?b = "snd (appendWaiterLocked full_budget)"
  let ?s2 = "?s1\<lparr>abud := ?b, calls := [0 \<mapsto> Waiting ?c 0 ErrEgressSlotsExhausted]\<rparr>"
  have new: "NewEgressSlotBudget 1 0 = Some full_budget"
    by (simp add: full_budget_def NewEgressSlotBudget_def)
  have t: "tryAcquire ?c full_budget = (Inl (0, ErrEgressSlotsExhausted), ?b)"
    by (simp add: tryAcquire_def full_budget_def NewEgressSlotBudget_def demo_claim_def claim_owner_of_def
        holdForLocked_def hold_of_def zero_hold_def admission_def egressUnits_def wait_for_def
        appendWaiterLocked_def Let_def)
  have "acquire_step ?s0 ?s1" using acquire_step.Call [of ?s0 0 ?c] by simp
  moreover have "acquire_step ?s1 ?s2"
    using acquire_step.Try_wait [of ?s1 0 ?c 0 ErrEgressSlotsExhausted ?b] t by simp
  ultimately have run: "acquire_step\<^sup>*\<^sup>* ?s0 ?s2" by simp
  have call: "calls ?s2 0 = Some (Waiting ?c 0 ErrEgressSlotsExhausted)" by simp
  with acquire_no_lost_wakeup [OF new run, of 0] show ?thesis by blast
qed

text \<open>
  A granted lease sits on a card with the fewest sessions among those below the NVENC
  limit, the card counts one session more, and a request is refused for want of a card exactly when
  every card is at the limit.
\<close>

theorem acquire_least_loaded_card:
  assumes "tryAcquire claim b = (Inr l, b')" and "0 < devices b"
  shows "\<exists>d. device l = Some d \<and> d < length (perCard b) \<and> perCard b ! d < nvencSessionsPerCard
    \<and> (\<forall>i < length (perCard b). perCard b ! i < nvencSessionsPerCard \<longrightarrow> perCard b ! d \<le> perCard b ! i)
    \<and> perCard b' = (perCard b)[d := perCard b ! d + 1]
    \<and> (leastLoadedLocked b = None \<longleftrightarrow> (\<forall>i < length (perCard b). \<not> perCard b ! i < nvencSessionsPerCard))"
proof -
  obtain dev ow delta heldUnits where c: "commit_acquire claim ow delta heldUnits dev b = (l, b')"
    and d: "case dev of None \<Rightarrow> \<not> devices b > 0 | Some d \<Rightarrow> devices b > 0 \<and> leastLoadedLocked b = Some d"
    using tryAcquire_cases [of claim b] assms(1) by (auto simp: wait_for_def split: prod.splits)
  then obtain i where i: "dev = Some i" "leastLoadedLocked b = Some i" using assms(2) by (auto split: option.splits)
  note f = commit_acquire_fields(1,8) [OF c]
  show ?thesis
    using i f cards.pick_sound [OF i(2)] cards.pick_least [OF i(2)] cards.pick_None_iff [of b] by auto
qed

theorem acquire_least_loaded_card_witness:
  "\<exists>l b'. tryAcquire (demo_claim ''a'' False 0) demo_budget = (Inr l, b') \<and> device l = Some 0"
proof -
  have d: "0 < devices demo_budget" "perCard demo_budget = [0, 0]"
    by (simp_all add: demo_budget_def NewEgressSlotBudget_def numeral_eq_Suc)
  obtain l b' where t: "tryAcquire (demo_claim ''a'' False 0) demo_budget = (Inr l, b')" and l: "device l = Some 0"
    by (simp add: demo_budget_def NewEgressSlotBudget_def tryAcquire_def demo_claim_def claim_owner_of_def
        holdForLocked_def hold_of_def zero_hold_def admission_def higherTierVacancyLocked_def i64_id
        egressUnits_def Let_def leastLoadedLocked_def nvencSessionsPerCard_def commit_acquire_def upt_rec
        numeral_eq_Suc)
  with acquire_least_loaded_card [OF t d(1)] show ?thesis by auto
qed

end
