(* ===== verification/H264.thy ===== *)
theory H264
  imports Prelude "HOL-Library.Log_Nat"
begin

text \<open>
  The H.264 side of the media pipeline (\<^verbatim>\<open>internal/media/h264.go\<close>): the bit reader of the
  sequence parameter set, Exp-Golomb codes, the picture dimensions, emulation prevention, the
  Annex-B splitter, the access unit reader and the parameter set bootstrap. Bytes and the
  \<open>uint32\<close> values of the parser are words, so their arithmetic wraps as in Go. Reference
  encoders written from the H.264 specification state what the parser has to invert.
\<close>

unbundle bit_operations_syntax

type_synonym byte = "8 word"
type_synonym uint32 = "32 word"
type_synonym uint16 = "16 word"

datatype h264Error =
    ErrUnexpectedEOF
  | ErrExpGolomb
  | ErrInvalidSPS
  | ErrInvalidCrop
  | ErrInvalidDimensions
  | ErrAccessUnitTooLarge
  | ErrEOF

subsection \<open>The bit reader\<close>

record h264BitReader =
  rd_data :: "byte list"
  rd_offset :: nat

text \<open>
  A reading method returns its value with the reader it leaves, or an error; every caller gives up
  on the first error, so the reader after an error is never used. \<open>andThen\<close> is the source's
  \<open>x, err := ...; if err != nil { return err }\<close>.
\<close>

type_synonym 'a reading = "h264BitReader \<Rightarrow> h264Error + 'a \<times> h264BitReader"

definition andThen :: "'a reading \<Rightarrow> ('a \<Rightarrow> 'b reading) \<Rightarrow> 'b reading" where
  "andThen p f r = (case p r of Inl e \<Rightarrow> Inl e | Inr (x, r') \<Rightarrow> f x r')"

definition yield :: "'a \<Rightarrow> 'a reading" where
  "yield x r = Inr (x, r)"

definition failing :: "h264Error \<Rightarrow> 'a reading" where
  "failing e r = Inl e"

definition bit_at :: "byte list \<Rightarrow> nat \<Rightarrow> byte" where
  "bit_at d off = drop_bit (7 - off mod 8) (d ! (off div 8)) AND 1"

fun readBits_loop :: "byte list \<Rightarrow> nat \<Rightarrow> nat \<Rightarrow> uint32 \<Rightarrow> uint32" where
  "readBits_loop d off 0 value = value"
| "readBits_loop d off (Suc cnt) value =
     readBits_loop d (Suc off) cnt (push_bit 1 value OR ucast (bit_at d off))"

definition readBits :: "nat \<Rightarrow> uint32 reading" where
  "readBits cnt r =
     (if cnt > 32 \<or> rd_offset r + cnt > length (rd_data r) * 8 then Inl ErrUnexpectedEOF
      else Inr (readBits_loop (rd_data r) (rd_offset r) cnt 0, r\<lparr>rd_offset := rd_offset r + cnt\<rparr>))"

text \<open>
  The loop over the leading zeros of \<open>readUE\<close>; it stops at the first one bit, at the end of the
  data or after the 32nd zero, hence after at most 32 rounds.
\<close>

function readUE_zeros :: "nat \<Rightarrow> nat reading" where
  "readUE_zeros zeros r =
     (case readBits 1 r of
        Inl e \<Rightarrow> Inl e
      | Inr (b, r') \<Rightarrow>
          if b \<noteq> 0 then Inr (zeros, r')
          else if zeros + 1 > 31 then Inl ErrExpGolomb
          else readUE_zeros (zeros + 1) r')"
  by pat_completeness auto
termination
  by (relation "measure (\<lambda>(zeros, r). 32 - zeros)") auto

declare readUE_zeros.simps [simp del]

definition readUE :: "uint32 reading" where
  "readUE = andThen (readUE_zeros 0) (\<lambda>zeros.
     andThen (readBits zeros) (\<lambda>suffix. yield ((push_bit zeros 1 - 1) + suffix)))"

definition readSE :: "uint32 reading" where
  "readSE = andThen readUE (\<lambda>value.
     yield (if value AND 1 = 0 then - (value div 2) else (value + 1) div 2))"

text \<open>\<open>int32\<close> remainder, which has the sign of the dividend.\<close>

definition srem32 :: "uint32 \<Rightarrow> int \<Rightarrow> uint32" where
  "srem32 a b = word_of_int (sint a - b * go_quot (sint a) b)"

fun skipScalingList :: "nat \<Rightarrow> uint32 \<Rightarrow> uint32 \<Rightarrow> unit reading" where
  "skipScalingList 0 lastScale nextScale = yield ()"
| "skipScalingList (Suc n) lastScale nextScale =
     andThen (if nextScale \<noteq> 0 then andThen readSE (\<lambda>delta. yield (srem32 (lastScale + delta + 256) 256))
              else yield nextScale)
       (\<lambda>nextScale. skipScalingList n (if nextScale \<noteq> 0 then nextScale else lastScale) nextScale)"

subsection \<open>Sequence parameter set\<close>

definition h264ExtendedProfile :: "uint32 \<Rightarrow> bool" where
  "h264ExtendedProfile profile \<longleftrightarrow>
     profile \<in> set [44, 83, 86, 100, 110, 118, 122, 128, 134, 135, 138, 139, 244]"

fun removeH264EmulationPrevention_from :: "nat \<Rightarrow> byte list \<Rightarrow> byte list" where
  "removeH264EmulationPrevention_from zeros [] = []"
| "removeH264EmulationPrevention_from zeros (value # rest) =
     (if zeros \<ge> 2 \<and> value = 3 then removeH264EmulationPrevention_from 0 rest
      else value # removeH264EmulationPrevention_from (if value = 0 then zeros + 1 else 0) rest)"

definition removeH264EmulationPrevention :: "byte list \<Rightarrow> byte list" where
  "removeH264EmulationPrevention d = removeH264EmulationPrevention_from 0 d"

text \<open>The scaling lists, one presence flag each; list \<open>index\<close> has 16 entries below 6, else 64.\<close>

fun skipScalingLists :: "nat list \<Rightarrow> unit reading" where
  "skipScalingLists [] = yield ()"
| "skipScalingLists (index # indices) =
     andThen (readBits 1) (\<lambda>present.
     andThen (if present \<noteq> 0 then skipScalingList (if index \<ge> 6 then 64 else 16) 8 8 else yield ())
       (\<lambda>_. skipScalingLists indices))"

fun skipSEs :: "nat \<Rightarrow> unit reading" where
  "skipSEs 0 = yield ()"
| "skipSEs (Suc n) = andThen readSE (\<lambda>_. skipSEs n)"

definition sps_chroma :: "uint32 \<Rightarrow> uint32 reading" where
  "sps_chroma profileID =
     (if h264ExtendedProfile profileID then
        andThen readUE (\<lambda>chromaFormatIDC.
        andThen (if chromaFormatIDC = 3 then andThen (readBits 1) (\<lambda>_. yield ()) else yield ()) (\<lambda>_.
        andThen readUE (\<lambda>_.
        andThen readUE (\<lambda>_.
        andThen (readBits 1) (\<lambda>_.
        andThen (readBits 1) (\<lambda>scaling.
        andThen (if scaling \<noteq> 0 then skipScalingLists [0..<(if chromaFormatIDC = 3 then 12 else 8)] else yield ())
          (\<lambda>_. yield chromaFormatIDC)))))))
      else yield 1)"

definition sps_pic_order :: "unit reading" where
  "sps_pic_order =
     andThen readUE (\<lambda>picOrderCntType.
       if picOrderCntType = 0 then andThen readUE (\<lambda>_. yield ())
       else if picOrderCntType = 1 then
         andThen (readBits 1) (\<lambda>_. andThen readSE (\<lambda>_. andThen readSE (\<lambda>_.
         andThen readUE (\<lambda>cnt. skipSEs (unat cnt)))))
       else yield ())"

definition sps_crop :: "(uint32 \<times> uint32 \<times> uint32 \<times> uint32) reading" where
  "sps_crop =
     andThen (readBits 1) (\<lambda>cropping.
       if cropping \<noteq> 0 then
         andThen readUE (\<lambda>cropLeft. andThen readUE (\<lambda>cropRight.
         andThen readUE (\<lambda>cropTop. andThen readUE (\<lambda>cropBottom.
           yield (cropLeft, cropRight, cropTop, cropBottom)))))
       else yield (0, 0, 0, 0))"

text \<open>The arithmetic on \<open>uint32\<close> at the end of \<open>h264SPSDimensions\<close>.\<close>

definition sps_size ::
  "uint32 \<Rightarrow> uint32 \<Rightarrow> uint32 \<Rightarrow> uint32 \<Rightarrow> uint32 \<times> uint32 \<times> uint32 \<times> uint32 \<Rightarrow> h264Error + uint16 \<times> uint16" where
  "sps_size chromaFormatIDC picWidthInMbsMinus1 picHeightInMapUnitsMinus1 frameMbsOnlyFlag crop =
     (case crop of (cropLeft, cropRight, cropTop, cropBottom) \<Rightarrow>
      let width = (picWidthInMbsMinus1 + 1) * 16;
          height = (picHeightInMapUnitsMinus1 + 1) * 16 * (2 - frameMbsOnlyFlag);
          subWidthC = (if chromaFormatIDC = 3 then 1 else 2);
          subHeightC = (if chromaFormatIDC = 2 \<or> chromaFormatIDC = 3 then 1 else 2);
          cropUnitX = (if chromaFormatIDC \<noteq> 0 then subWidthC else 1);
          cropUnitY = (if chromaFormatIDC \<noteq> 0 then subHeightC * (2 - frameMbsOnlyFlag) else 2 - frameMbsOnlyFlag)
      in if cropLeft + cropRight \<ge> width div cropUnitX \<or> cropTop + cropBottom \<ge> height div cropUnitY
         then Inl ErrInvalidCrop
         else let width = width - (cropLeft + cropRight) * cropUnitX;
                  height = height - (cropTop + cropBottom) * cropUnitY
              in if width = 0 \<or> height = 0 \<or> width > 65535 \<or> height > 65535 then Inl ErrInvalidDimensions
                 else Inr (ucast width, ucast height))"

definition sps_fields :: "(h264Error + uint16 \<times> uint16) reading" where
  "sps_fields =
     andThen (readBits 8) (\<lambda>profileID.
     andThen (readBits 8) (\<lambda>_.
     andThen (readBits 8) (\<lambda>_.
     andThen readUE (\<lambda>_.
     andThen (sps_chroma profileID) (\<lambda>chromaFormatIDC.
     andThen readUE (\<lambda>_.
     andThen sps_pic_order (\<lambda>_.
     andThen readUE (\<lambda>_.
     andThen (readBits 1) (\<lambda>_.
     andThen readUE (\<lambda>picWidthInMbsMinus1.
     andThen readUE (\<lambda>picHeightInMapUnitsMinus1.
     andThen (readBits 1) (\<lambda>frameMbsOnlyFlag.
     andThen (if frameMbsOnlyFlag = 0 then andThen (readBits 1) (\<lambda>_. yield ()) else yield ()) (\<lambda>_.
     andThen (readBits 1) (\<lambda>_.
     andThen sps_crop (\<lambda>crop.
       yield (sps_size chromaFormatIDC picWidthInMbsMinus1 picHeightInMapUnitsMinus1 frameMbsOnlyFlag crop))))))))))))))))"

definition h264SPSDimensions :: "byte list \<Rightarrow> h264Error + uint16 \<times> uint16" where
  "h264SPSDimensions nalu =
     (if length nalu < 4 \<or> nalu ! 0 AND 0x1f \<noteq> 7 then Inl ErrInvalidSPS
      else case sps_fields \<lparr>rd_data = removeH264EmulationPrevention (tl nalu), rd_offset = 0\<rparr> of
        Inl e \<Rightarrow> Inl e
      | Inr (sz, _) \<Rightarrow> sz)"

subsection \<open>Annex-B streams\<close>

definition start_code_size :: "byte list \<Rightarrow> nat \<Rightarrow> nat option" where
  "start_code_size d index =
     (if d ! index \<noteq> 0 \<or> d ! (index + 1) \<noteq> 0 then None
      else if d ! (index + 2) = 1 then Some 3
      else if index + 4 \<le> length d \<and> d ! (index + 2) = 0 \<and> d ! (index + 3) = 1 then Some 4
      else None)"

text \<open>\<open>None\<close> is the source's \<open>-1, 0\<close>.\<close>

function annexBStartCodeAt :: "byte list \<Rightarrow> nat \<Rightarrow> (nat \<times> nat) option" where
  "annexBStartCodeAt d index =
     (if index + 3 \<le> length d then
        (case start_code_size d index of
           None \<Rightarrow> annexBStartCodeAt d (index + 1)
         | Some sz \<Rightarrow> Some (index, sz))
      else None)"
  by pat_completeness auto
termination
  by (relation "measure (\<lambda>(d, index). length d - index)") auto

declare annexBStartCodeAt.simps [simp del]

lemma start_code_size_pos: "start_code_size d i = Some n \<Longrightarrow> 0 < n"
  by (auto simp: start_code_size_def split: if_splits)

lemma annexBStartCodeAt_ge:
  "annexBStartCodeAt d off = Some (i, n) \<Longrightarrow> off \<le> i \<and> 0 < n \<and> i + 3 \<le> length d"
proof (induction d off rule: annexBStartCodeAt.induct)
  case (1 d off)
  from "1.prems" show ?case
    unfolding annexBStartCodeAt.simps [of d off]
    by (auto split: if_splits option.splits dest: "1.IH" start_code_size_pos)
qed

definition next_start :: "byte list \<Rightarrow> nat \<Rightarrow> nat" where
  "next_start d off = (case annexBStartCodeAt d off of None \<Rightarrow> length d | Some (i, _) \<Rightarrow> i)"

function splitAnnexBNALUs_from :: "byte list \<Rightarrow> nat \<Rightarrow> byte list list" where
  "splitAnnexBNALUs_from d offset =
     (case annexBStartCodeAt d offset of
        None \<Rightarrow> []
      | Some (start, sz) \<Rightarrow>
          let nxt = next_start d (start + sz) in
          (if start + sz < nxt then [take (nxt - (start + sz)) (drop (start + sz) d)] else [])
          @ (if nxt = length d then [] else splitAnnexBNALUs_from d nxt))"
  by pat_completeness auto
termination
proof (relation "measure (\<lambda>(d, offset). length d - offset)", goal_cases)
  case (2 d offset p start sz nxt)
  then obtain n where "annexBStartCodeAt d (start + sz) = Some (nxt, n)"
    by (auto simp: next_start_def split: option.splits)
  with annexBStartCodeAt_ge [of d offset start sz] annexBStartCodeAt_ge [of d "start + sz" nxt n] 2
  show ?case by auto
qed auto

declare splitAnnexBNALUs_from.simps [simp del]

definition splitAnnexBNALUs :: "byte list \<Rightarrow> byte list list" where
  "splitAnnexBNALUs d = splitAnnexBNALUs_from d 0"

definition h264AnnexBStartCode :: "byte list" where
  "h264AnnexBStartCode = [0, 0, 0, 1]"

subsection \<open>Access units of the encoder\<close>

definition maxEncodedFrameSize :: nat where
  "maxEncodedFrameSize = 20 * 2 ^ 20"

text \<open>\<open>au_input\<close> is what the encoder's pipe will still deliver before its end.\<close>

record h264AccessUnitReader =
  au_input :: "byte list"
  au_buffer :: "byte list"
  scanOffset :: nat
  sawAUD :: bool

text \<open>
  The inner loop of \<open>Read\<close>: \<open>Inl start\<close> when a second access unit delimiter begins at \<open>start\<close>,
  \<open>Inr\<close> the scan position when more bytes are needed.
\<close>

function scan_aud :: "byte list \<Rightarrow> nat \<Rightarrow> bool \<Rightarrow> nat + nat \<times> bool" where
  "scan_aud buf off saw =
     (case annexBStartCodeAt buf off of
        None \<Rightarrow> Inr (length buf - 3, saw)
      | Some (start, sz) \<Rightarrow>
          if start + sz \<ge> length buf then Inr (start, saw)
          else if buf ! (start + sz) AND 0x1f = 9 \<and> saw then Inl start
          else scan_aud buf (start + sz + 1) (saw \<or> buf ! (start + sz) AND 0x1f = 9))"
  by pat_completeness auto
termination
  by (relation "measure (\<lambda>(buf, off, saw). length buf - off)") (auto dest: annexBStartCodeAt_ge)

declare scan_aud.simps [simp del]

function Read :: "h264AccessUnitReader \<Rightarrow> (h264Error + byte list) \<times> h264AccessUnitReader" where
  "Read r =
     (case scan_aud (au_buffer r) (scanOffset r) (sawAUD r) of
        Inl start \<Rightarrow>
          (if start > maxEncodedFrameSize then (Inl ErrAccessUnitTooLarge, r)
           else (Inr (take start (au_buffer r)),
                 r\<lparr>au_buffer := drop start (au_buffer r), scanOffset := 0, sawAUD := False\<rparr>))
      | Inr (off, saw) \<Rightarrow>
          let r = r\<lparr>scanOffset := off, sawAUD := saw\<rparr> in
          if length (au_buffer r) > maxEncodedFrameSize + 5 then (Inl ErrAccessUnitTooLarge, r)
          else case au_input r of
            [] \<Rightarrow>
              (if au_buffer r = [] then (Inl ErrEOF, r)
               else if length (au_buffer r) > maxEncodedFrameSize then (Inl ErrAccessUnitTooLarge, r)
               else (Inr (au_buffer r), r\<lparr>au_buffer := [], scanOffset := 0, sawAUD := False\<rparr>))
          | value # rest \<Rightarrow> Read (r\<lparr>au_input := rest, au_buffer := au_buffer r @ [value]\<rparr>))"
  by pat_completeness auto
termination
  by (relation "measure (\<lambda>r. length (au_input r))") auto

declare Read.simps [simp del]

subsection \<open>Parameter set bootstrap\<close>

record h264Bootstrap =
  bs_sps :: "byte list"
  bs_pps :: "byte list"
  bs_width :: uint16
  bs_height :: uint16

definition nal_type :: "byte list \<Rightarrow> byte" where
  "nal_type nalu = nalu ! 0 AND 0x1f"

record nal_flags =
  hasVCL :: bool
  hasIDR :: bool
  hasSPS :: bool
  hasPPS :: bool

definition scan_nalu :: "byte list \<Rightarrow> nal_flags \<times> h264Bootstrap \<Rightarrow> nal_flags \<times> h264Bootstrap" where
  "scan_nalu nalu st = (case st of (f, b) \<Rightarrow>
     if nalu = [] then (f, b)
     else if nal_type nalu = 7 then
       (f\<lparr>hasSPS := True\<rparr>,
        case h264SPSDimensions nalu of
          Inr (w, h) \<Rightarrow> b\<lparr>bs_sps := nalu, bs_width := w, bs_height := h\<rparr>
        | Inl _ \<Rightarrow> b\<lparr>bs_sps := nalu\<rparr>)
     else if nal_type nalu = 8 then (f\<lparr>hasPPS := True\<rparr>, b\<lparr>bs_pps := nalu\<rparr>)
     else if nal_type nalu \<in> {1, 2, 3, 4, 5} then
       (f\<lparr>hasVCL := True, hasIDR := hasIDR f \<or> nal_type nalu = 5\<rparr>, b)
     else (f, b))"

definition no_flags :: nal_flags where
  "no_flags = \<lparr>hasVCL = False, hasIDR = False, hasSPS = False, hasPPS = False\<rparr>"

definition prepare ::
  "byte list \<Rightarrow> h264Bootstrap \<Rightarrow> (byte list \<times> bool \<times> uint16 \<times> uint16) \<times> h264Bootstrap" where
  "prepare d b =
     (let nalus = splitAnnexBNALUs d in
      if nalus = [] then (([], False, bs_width b, bs_height b), b)
      else case fold scan_nalu nalus (no_flags, b) of (f, b) \<Rightarrow>
        if \<not> hasVCL f then (([], False, bs_width b, bs_height b), b)
        else let d' = (if hasIDR f \<and> (\<not> hasSPS f \<or> \<not> hasPPS f) \<and> bs_sps b \<noteq> [] \<and> bs_pps b \<noteq> []
                       then h264AnnexBStartCode @ bs_sps b @ h264AnnexBStartCode @ bs_pps b @ d else d)
             in ((d', hasIDR f, bs_width b, bs_height b), b))"

text \<open>
  \<open>waitH264IDR\<close>: the access units before the first decodable IDR are dropped (and counted by the
  keyframe wait); \<open>None\<close> when the input ends without one. The result carries the number dropped.
\<close>

fun waitH264IDR :: "byte list list \<Rightarrow> nat \<Rightarrow> h264Bootstrap
    \<Rightarrow> (byte list \<times> uint16 \<times> uint16) option \<times> nat \<times> byte list list \<times> h264Bootstrap" where
  "waitH264IDR [] dropped b = (None, dropped, [], b)"
| "waitH264IDR (item # input) dropped b =
     (case prepare item b of ((d, idr, w, h), b') \<Rightarrow>
        if d = [] \<or> \<not> idr \<or> w = 0 \<or> h = 0 then waitH264IDR input (dropped + 1) b'
        else (Some (d, w, h), dropped, input, b'))"

definition h264ReturnLevelFor :: "uint16 \<Rightarrow> uint16 \<Rightarrow> string" where
  "h264ReturnLevelFor width height = (if unat width * unat height > 1280 * 720 then ''4.0'' else ''3.1'')"

subsection \<open>Reading a stream of bits\<close>

text \<open>The bits of the data, most significant first, and those a reader has still to read.\<close>

definition byte_bits :: "byte \<Rightarrow> bool list" where
  "byte_bits b = map (bit b) [7, 6, 5, 4, 3, 2, 1, 0]"

definition bits_of :: "byte list \<Rightarrow> bool list" where
  "bits_of d = concat (map byte_bits d)"

definition remaining :: "h264BitReader \<Rightarrow> bool list" where
  "remaining r = drop (rd_offset r) (bits_of (rd_data r))"

definition word_of_bits :: "bool list \<Rightarrow> uint32" where
  "word_of_bits bs = fold (\<lambda>b v. push_bit 1 v OR of_bool b) bs 0"

lemma length_bits_of [simp]: "length (bits_of d) = length d * 8"
  by (induction d) (simp_all add: bits_of_def byte_bits_def)

lemma byte_bits_nth: "i < 8 \<Longrightarrow> byte_bits b ! i = bit b (7 - i)"
  by (auto simp: byte_bits_def less_Suc_eq numeral_eq_Suc)

lemma bits_of_nth: "i < length d * 8 \<Longrightarrow> bits_of d ! i = bit (d ! (i div 8)) (7 - i mod 8)"
proof (induction d arbitrary: i)
  case (Cons b d)
  show ?case
  proof (cases "i < 8")
    case True
    then show ?thesis by (simp add: bits_of_def nth_append byte_bits_nth) (simp add: byte_bits_def)
  next
    case False
    then obtain j where j: "i = j + 8" by (metis add.commute le_iff_add not_less)
    have "bits_of (b # d) ! i = bits_of d ! j"
      by (simp add: bits_of_def nth_append j byte_bits_def)
    with Cons j show ?thesis by simp
  qed
qed simp

lemma bit_at_eq: "off < length d * 8 \<Longrightarrow> bit_at d off = of_bool (bits_of d ! off)"
  by (auto simp: bit_at_def bits_of_nth and_one_eq bit_iff_odd_drop_bit odd_iff_mod_2_eq_one)

lemma readBits_loop_eq:
  "off + n \<le> length d * 8 \<Longrightarrow>
   readBits_loop d off n v = fold (\<lambda>b v. push_bit 1 v OR of_bool b) (take n (drop off (bits_of d))) v"
proof (induction n arbitrary: off v)
  case (Suc n)
  then have "drop off (bits_of d) = bits_of d ! off # drop (Suc off) (bits_of d)"
    by (intro Cons_nth_drop_Suc [symmetric]) simp
  with Suc show ?case by (simp add: bit_at_eq)
qed simp

lemma readBits_eq:
  "n \<le> 32 \<Longrightarrow> n \<le> length (remaining r) \<Longrightarrow> rd_offset r \<le> length (rd_data r) * 8 \<Longrightarrow>
   readBits n r = Inr (word_of_bits (take n (remaining r)), r\<lparr>rd_offset := rd_offset r + n\<rparr>)"
  by (simp add: readBits_def remaining_def readBits_loop_eq word_of_bits_def)

text \<open>
  \<open>reads p bs x\<close>: wherever the bits \<open>bs\<close> come next, \<open>p\<close> consumes exactly them and returns \<open>x\<close>.
\<close>

definition reads :: "'a reading \<Rightarrow> bool list \<Rightarrow> 'a \<Rightarrow> bool" where
  "reads p bs x \<longleftrightarrow> (\<forall>r rest. rd_offset r \<le> length (rd_data r) * 8 \<longrightarrow> remaining r = bs @ rest \<longrightarrow>
     (\<exists>r'. p r = Inr (x, r') \<and> rd_offset r' \<le> length (rd_data r') * 8 \<and> remaining r' = rest))"

lemma reads_yield: "reads (yield x) [] x"
  by (simp add: reads_def yield_def)

lemma reads_andThen: "reads p bs x \<Longrightarrow> reads (f x) cs y \<Longrightarrow> reads (andThen p f) (bs @ cs) y"
  unfolding reads_def andThen_def by fastforce

lemma reads_bits: "length bs = n \<Longrightarrow> n \<le> 32 \<Longrightarrow> reads (readBits n) bs (word_of_bits bs)"
  unfolding reads_def
proof (intro allI impI)
  fix r rest
  assume n: "length bs = n" "n \<le> 32" and off: "rd_offset r \<le> length (rd_data r) * 8"
    and rem: "remaining r = bs @ rest"
  have "rd_offset r + n \<le> length (rd_data r) * 8"
    using arg_cong [OF rem, of length] n(1) off by (simp add: remaining_def)
  moreover have "remaining (r\<lparr>rd_offset := rd_offset r + n\<rparr>) = drop n (remaining r)"
    by (simp add: remaining_def add.commute)
  ultimately show "\<exists>r'. readBits n r = Inr (word_of_bits bs, r') \<and> rd_offset r' \<le> length (rd_data r') * 8
      \<and> remaining r' = rest"
    using readBits_eq [OF n(2) _ off] rem n by simp
qed

lemmas reads_bit = reads_bits [of "[b]" 1 for b, simplified]

lemma word_of_bits_single: "word_of_bits [b] = of_bool b"
  by (simp add: word_of_bits_def)

subsection \<open>Exp-Golomb codes of the specification\<close>

fun nat_bits :: "nat \<Rightarrow> nat \<Rightarrow> bool list" where
  "nat_bits 0 s = []"
| "nat_bits (Suc k) s = nat_bits k (s div 2) @ [odd s]"

text \<open>\<open>ue(v)\<close>: as many zeros as \<open>v + 1\<close> has bits after its leading one, then \<open>v + 1\<close> in binary.\<close>

definition ue_code :: "nat \<Rightarrow> bool list" where
  "ue_code v = (let k = floorlog 2 (v + 1) - 1 in replicate k False @ [True] @ nat_bits k (v + 1 - 2 ^ k))"

text \<open>\<open>se(v)\<close>: positive values take the odd codes, the others the even ones.\<close>

definition se_code :: "int \<Rightarrow> bool list" where
  "se_code v = ue_code (nat (if v > 0 then 2 * v - 1 else - 2 * v))"

lemma length_nat_bits [simp]: "length (nat_bits k s) = k"
  by (induction k arbitrary: s) simp_all

lemma push_or_bit: "push_bit 1 (v :: uint32) OR of_bool b = 2 * v + of_bool b"
  by (cases b) (simp_all add: push_bit_eq_mult or_one_eq)

lemma fold_bits_of_nat:
  "fold (\<lambda>b (v :: uint32). push_bit 1 v OR of_bool b) bs (of_nat a)
   = of_nat (fold (\<lambda>b v. 2 * v + of_bool b) bs a)"
proof (induction bs arbitrary: a)
  case (Cons b bs)
  have "push_bit 1 (of_nat a :: uint32) OR of_bool b = of_nat (2 * a + of_bool b)"
    by (simp only: push_or_bit) simp
  with Cons [of "2 * a + of_bool b"] show ?case by (simp only: fold_simps)
qed simp

lemma fold_nat_bits: "s < 2 ^ k \<Longrightarrow> fold (\<lambda>b v. 2 * v + of_bool b) (nat_bits k s) a = a * 2 ^ k + s"
proof (induction k arbitrary: s)
  case (Suc k)
  then have "s div 2 < 2 ^ k" by (simp add: less_mult_imp_div_less mult.commute)
  with Suc.IH [of "s div 2"] show ?case by (simp add: algebra_simps)
qed simp

lemma word_of_nat_bits: "s < 2 ^ k \<Longrightarrow> word_of_bits (nat_bits k s) = of_nat s"
  using fold_bits_of_nat [of "nat_bits k s" 0] fold_nat_bits [of s k 0] by (simp add: word_of_bits_def)

lemma readBits1_eq:
  assumes "rd_offset r \<le> length (rd_data r) * 8" and "remaining r = b # rest"
  shows "\<exists>r'. readBits 1 r = Inr (of_bool b, r') \<and> rd_offset r' \<le> length (rd_data r') * 8 \<and> remaining r' = rest"
  using reads_bit [of b] assms unfolding reads_def word_of_bits_single by simp

lemma reads_zeros: "zeros + k \<le> 31 \<Longrightarrow> reads (readUE_zeros zeros) (replicate k False @ [True]) (zeros + k)"
proof (induction k arbitrary: zeros)
  case 0
  show ?case unfolding reads_def
  proof (intro allI impI)
    fix r rest assume "rd_offset r \<le> length (rd_data r) * 8" "remaining r = (replicate 0 False @ [True]) @ rest"
    from readBits1_eq [OF this(1), of True rest] this(2)
    show "\<exists>r'. readUE_zeros zeros r = Inr (zeros + 0, r') \<and> rd_offset r' \<le> length (rd_data r') * 8 \<and> remaining r' = rest"
      by (auto simp: readUE_zeros.simps [of zeros r])
  qed
next
  case (Suc k)
  show ?case unfolding reads_def
  proof (intro allI impI)
    fix r rest
    assume r: "rd_offset r \<le> length (rd_data r) * 8" "remaining r = (replicate (Suc k) False @ [True]) @ rest"
    then obtain r' where r': "readBits 1 r = Inr (0, r')" "rd_offset r' \<le> length (rd_data r') * 8"
      "remaining r' = (replicate k False @ [True]) @ rest"
      using readBits1_eq [OF r(1), of False "replicate k False @ True # rest"] by auto
    from Suc.IH [of "zeros + 1"] Suc.prems r'(2,3)
    show "\<exists>r'. readUE_zeros zeros r = Inr (zeros + Suc k, r') \<and> rd_offset r' \<le> length (rd_data r') * 8 \<and> remaining r' = rest"
      using r'(1) by (auto simp: readUE_zeros.simps [of zeros r] reads_def)
  qed
qed

lemma ue_code_split:
  assumes "v + 1 < 2 ^ 32"
  obtains k s where "ue_code v = replicate k False @ [True] @ nat_bits k s" "k \<le> 31" "s < 2 ^ k" "v + 1 = 2 ^ k + s"
proof -
  define k where "k = floorlog 2 (v + 1) - 1"
  have pos: "floorlog 2 (v + 1) \<noteq> 0" by (simp add: floorlog_eq_zero_iff)
  then have k1: "k + 1 = floorlog 2 (v + 1)" by (simp add: k_def)
  have b: "2 ^ k \<le> v + 1" "v + 1 < 2 ^ (k + 1)"
    using floorlog_bounds [of "v + 1" 2] unfolding k1 by (simp_all add: k_def)
  have "k < 32" using b(1) assms by (metis le_less_trans nat_power_less_imp_less zero_less_numeral)
  then show ?thesis
    using that [of k "v + 1 - 2 ^ k"] b by (simp add: ue_code_def Let_def k_def)
qed

lemma reads_UE:
  assumes "v + 1 < 2 ^ 32"
  shows "reads readUE (ue_code v) (of_nat v)"
proof -
  obtain k s where c: "ue_code v = replicate k False @ [True] @ nat_bits k s" "k \<le> 31" "s < 2 ^ k" "v + 1 = 2 ^ k + s"
    using ue_code_split [OF assms] .
  have "(push_bit k 1 - 1) + of_nat s = (of_nat (2 ^ k + s) - 1 :: uint32)"
    by (simp add: push_bit_eq_mult)
  also have "\<dots> = of_nat v" unfolding c(4) [symmetric] by simp
  finally have v: "(push_bit k 1 - 1) + of_nat s = (of_nat v :: uint32)" .
  have "reads readUE ((replicate k False @ [True]) @ nat_bits k s @ []) (of_nat v)"
    unfolding readUE_def
    by (rule reads_andThen [OF _ reads_andThen])
      (use reads_zeros [of 0 k] reads_bits [of "nat_bits k s" k] word_of_nat_bits [OF c(3)] c(2) reads_yield v
        in \<open>auto simp: reads_yield\<close>)
  then show ?thesis by (simp add: c(1))
qed

lemma reads_map: "reads p bs x \<Longrightarrow> y = f x \<Longrightarrow> reads (andThen p (\<lambda>x. yield (f x))) bs y"
  using reads_andThen [of p bs x "\<lambda>x. yield (f x)" "[]" y] reads_yield [of "f x"] by auto

lemma of_nat_div2: "n < 2 ^ 32 \<Longrightarrow> (of_nat n :: uint32) div 2 = of_nat (n div 2)"
  by (simp add: word_unat_eq_iff unat_div_distrib unat_of_nat)

lemma odd_word_of_nat: "odd (of_nat n :: uint32) \<longleftrightarrow> odd n"
  by transfer simp

lemma reads_SE:
  assumes "- (2 ^ 31) < v" and "v < 2 ^ 31"
  shows "\<exists>w. reads readSE (se_code v) w \<and> sint w = v"
proof -
  define u where "u = nat (if v > 0 then 2 * v - 1 else - 2 * v)"
  define w where "w = (if (of_nat u :: uint32) AND 1 = 0 then - ((of_nat u :: uint32) div 2) else (of_nat u + 1) div 2)"
  have u: "u + 1 < 2 ^ 32" using assms by (auto simp: u_def)
  have par: "(of_nat u :: uint32) AND 1 = 0 \<longleftrightarrow> even u"
    using odd_word_of_nat [of u] unfolding and_one_eq even_iff_mod_2_eq_zero [symmetric] by blast
  have "reads readSE (se_code v) w"
    unfolding readSE_def se_code_def u_def [symmetric] by (rule reads_map [OF reads_UE [OF u]]) (simp add: w_def)
  moreover have "w = word_of_int v"
  proof (cases "v > 0")
    case True
    define n where "n = nat (v - 1)"
    have "v = int n + 1" "u = 2 * n + 1" using True by (auto simp: n_def u_def)
    then have odd: "odd u" and v: "v = int ((u + 1) div 2)" by auto
    have "(of_nat u + 1 :: uint32) div 2 = of_nat ((u + 1) div 2)"
      using of_nat_div2 [of "u + 1"] u by (simp add: add.commute)
    with odd par show ?thesis by (simp add: w_def v)
  next
    case False
    define n where "n = nat (- v)"
    have "v = - int n" "u = 2 * n" using False by (auto simp: n_def u_def)
    then have ev: "even u" and v: "v = - int (u div 2)" by auto
    have "(of_nat u :: uint32) div 2 = of_nat (u div 2)" using of_nat_div2 [of u] u by simp
    with ev par show ?thesis by (simp add: w_def v)
  qed
  moreover have "sint (word_of_int v :: uint32) = v"
    using assms by (simp add: signed_of_int signed_take_bit_int_eq_self)
  ultimately show ?thesis by auto
qed

subsection \<open>Emulation prevention\<close>

text \<open>The encoder's side: a byte 3 before any byte up to 3 that follows two zeros.\<close>

fun add_emulation_prevention :: "nat \<Rightarrow> byte list \<Rightarrow> byte list" where
  "add_emulation_prevention zeros [] = []"
| "add_emulation_prevention zeros (b # bs) =
     (if zeros \<ge> 2 \<and> b \<le> 3 then 3 # b # add_emulation_prevention (if b = 0 then 1 else 0) bs
      else b # add_emulation_prevention (if b = 0 then zeros + 1 else 0) bs)"

lemma remove_add_emulation:
  "removeH264EmulationPrevention_from zeros (add_emulation_prevention zeros bs) = bs"
  by (induction zeros bs rule: add_emulation_prevention.induct) auto

lemma length_add_emulation: "length bs \<le> length (add_emulation_prevention zeros bs)"
  by (induction zeros bs rule: add_emulation_prevention.induct) auto

subsection \<open>Sequence parameter sets of the specification\<close>

text \<open>
  The fields of a sequence parameter set whose profile has no chroma extension, with picture order
  count type 0 and progressive frames, the form that WebRTC senders use.
\<close>

record sps_spec =
  sp_profile :: byte
  sp_constraints :: byte
  sp_level :: byte
  sp_id :: nat
  sp_log2_frame_num :: nat
  sp_log2_poc_lsb :: nat
  sp_ref_frames :: nat
  sp_gaps :: bool
  sp_width_mbs :: nat
  sp_height_mbs :: nat
  sp_direct :: bool
  sp_crop :: "(nat \<times> nat \<times> nat \<times> nat) option"

definition crop_code :: "(nat \<times> nat \<times> nat \<times> nat) option \<Rightarrow> bool list" where
  "crop_code c = (case c of
     None \<Rightarrow> [False]
   | Some (l, r, t, b) \<Rightarrow> [True] @ ue_code l @ ue_code r @ ue_code t @ ue_code b)"

definition sps_code :: "sps_spec \<Rightarrow> bool list" where
  "sps_code s =
     byte_bits (sp_profile s) @ byte_bits (sp_constraints s) @ byte_bits (sp_level s) @ ue_code (sp_id s) @
     ue_code (sp_log2_frame_num s) @ ue_code 0 @ ue_code (sp_log2_poc_lsb s) @ ue_code (sp_ref_frames s) @
     [sp_gaps s] @ ue_code (sp_width_mbs s - 1) @ ue_code (sp_height_mbs s - 1) @ [True] @ [sp_direct s] @
     crop_code (sp_crop s)"

definition crop_sums :: "(nat \<times> nat \<times> nat \<times> nat) option \<Rightarrow> nat \<times> nat" where
  "crop_sums c = (case c of None \<Rightarrow> (0, 0) | Some (l, r, t, b) \<Rightarrow> (l + r, t + b))"

definition sps_valid :: "sps_spec \<Rightarrow> bool" where
  "sps_valid s \<longleftrightarrow> \<not> h264ExtendedProfile (ucast (sp_profile s))
     \<and> sp_id s < 32 \<and> sp_log2_frame_num s \<le> 12 \<and> sp_log2_poc_lsb s \<le> 12 \<and> sp_ref_frames s \<le> 16
     \<and> 0 < sp_width_mbs s \<and> sp_width_mbs s < 4096 \<and> 0 < sp_height_mbs s \<and> sp_height_mbs s < 4096
     \<and> 2 * fst (crop_sums (sp_crop s)) < 16 * sp_width_mbs s
     \<and> 2 * snd (crop_sums (sp_crop s)) < 16 * sp_height_mbs s"

lemma nat_bits_nth: "i < k \<Longrightarrow> nat_bits k s ! i = bit s (k - 1 - i)"
proof (induction k arbitrary: s)
  case (Suc k)
  show ?case
  proof (cases "i < k")
    case True
    then obtain j where "k - i = Suc j" "k - 1 - i = j" by (cases "k - i") auto
    with Suc.IH [OF True, of "s div 2"] True show ?thesis by (simp add: nth_append bit_Suc)
  next
    case False
    with Suc.prems show ?thesis by (simp add: nth_append bit_0)
  qed
qed simp

lemma byte_bits_eq: "byte_bits b = nat_bits 8 (unat b)"
proof (rule nth_equalityI)
  show len: "length (byte_bits b) = length (nat_bits 8 (unat b))" by (simp add: byte_bits_def)
  fix i assume "i < length (byte_bits b)"
  then have "i < 8" using len by simp
  then show "byte_bits b ! i = nat_bits 8 (unat b) ! i"
    by (simp add: byte_bits_nth nat_bits_nth bit_unsigned_iff)
qed

lemma unat_byte: "unat (b :: byte) < 2 ^ 8"
  using unsigned_less [of b] by simp

lemma word_of_byte_bits: "word_of_bits (byte_bits b) = ucast b"
  using word_of_nat_bits [OF unat_byte, of b] by (simp add: byte_bits_eq)

lemma reads_byte: "reads (readBits 8) (byte_bits b) (ucast b)"
  using reads_bits [of "byte_bits b" 8] by (simp add: word_of_byte_bits) (simp add: byte_bits_def)

lemma reads_skip: "reads p bs x \<Longrightarrow> reads q cs y \<Longrightarrow> reads (andThen p (\<lambda>_. q)) (bs @ cs) y"
  by (rule reads_andThen)

lemma reads_flag: "reads (readBits 1) [b] (of_bool b)"
  using reads_bit [of b] by (simp add: word_of_bits_single)

definition crop_words :: "(nat \<times> nat \<times> nat \<times> nat) option \<Rightarrow> uint32 \<times> uint32 \<times> uint32 \<times> uint32" where
  "crop_words c = (case c of None \<Rightarrow> (0, 0, 0, 0) | Some (l, r, t, b) \<Rightarrow> (of_nat l, of_nat r, of_nat t, of_nat b))"

lemma reads_crop:
  assumes "fst (crop_sums c) < 2 ^ 31" and "snd (crop_sums c) < 2 ^ 31"
  shows "reads sps_crop (crop_code c) (crop_words c)"
proof (cases c)
  case None
  then show ?thesis
    using reads_andThen [OF reads_flag [of False] , of "\<lambda>cropping. if cropping \<noteq> 0 then _ cropping else yield (0, 0, 0, 0)"]
      reads_yield [of "(0, 0, 0, 0) :: uint32 \<times> uint32 \<times> uint32 \<times> uint32"]
    unfolding sps_crop_def crop_code_def crop_words_def by fastforce
next
  case (Some x)
  obtain l r t b where x: "x = (l, r, t, b)" by (cases x)
  have le: "l + 1 < 2 ^ 32" "r + 1 < 2 ^ 32" "t + 1 < 2 ^ 32" "b + 1 < 2 ^ 32"
    using assms Some x by (auto simp: crop_sums_def)
  have "reads sps_crop ([True] @ ue_code l @ ue_code r @ ue_code t @ ue_code b)
      (of_nat l, of_nat r, of_nat t, of_nat b)"
    unfolding sps_crop_def
    by (rule reads_andThen [OF reads_flag], simp only: of_bool_eq one_neq_zero not_False_eq_True if_True simp_thms,
        rule reads_andThen [OF reads_UE [OF le(1)]], rule reads_andThen [OF reads_UE [OF le(2)]],
        rule reads_andThen [OF reads_UE [OF le(3)]], rule reads_map [OF reads_UE [OF le(4)]], rule refl)
  then show ?thesis by (simp add: Some x crop_code_def crop_words_def)
qed

lemma word_of_nat_bounds:
  "0 < n \<Longrightarrow> n \<le> 65535 \<Longrightarrow> (of_nat n :: uint32) \<noteq> 0 \<and> \<not> (of_nat n :: uint32) > 65535"
  using word_of_nat_less_iff [of 65535 n, where 'a = 32]
  by (auto simp: word_of_nat_eq_0_iff take_bit_nat_eq_self dest: nat_dvd_not_less)

lemma sps_size_progressive:
  "sps_size 1 pw ph 1 (l, r, t, b) =
     (if l + r \<ge> (pw + 1) * 16 div 2 \<or> t + b \<ge> (ph + 1) * 16 div 2 then Inl ErrInvalidCrop
      else if (pw + 1) * 16 - (l + r) * 2 = 0 \<or> (ph + 1) * 16 - (t + b) * 2 = 0
           \<or> (pw + 1) * 16 - (l + r) * 2 > 65535 \<or> (ph + 1) * 16 - (t + b) * 2 > 65535
      then Inl ErrInvalidDimensions
      else Inr (ucast ((pw + 1) * 16 - (l + r) * 2), ucast ((ph + 1) * 16 - (t + b) * 2)))"
  by (simp add: sps_size_def Let_def)

lemma sps_size_spec:
  assumes w: "0 < w" "w < 4096" and h: "0 < h" "h < 4096"
    and cx: "2 * fst (crop_sums c) < 16 * w" and cy: "2 * snd (crop_sums c) < 16 * h"
  shows "sps_size 1 (of_nat (w - 1)) (of_nat (h - 1)) 1 (crop_words c) =
    Inr (of_nat (16 * w - 2 * fst (crop_sums c)), of_nat (16 * h - 2 * snd (crop_sums c)))"
proof -
  obtain l r t b where c: "crop_words c = (of_nat l, of_nat r, of_nat t, of_nat b)"
    and s: "fst (crop_sums c) = l + r" "snd (crop_sums c) = t + b"
    by (cases c) (fastforce simp: crop_words_def crop_sums_def)+
  have W: "((of_nat (w - 1) :: uint32) + 1) * 16 = of_nat (16 * w)"
    and H: "((of_nat (h - 1) :: uint32) + 1) * 16 = of_nat (16 * h)"
    using w h by (simp_all add: of_nat_diff)
  have D: "(of_nat (16 * w) :: uint32) div 2 = of_nat (8 * w)" "(of_nat (16 * h) :: uint32) div 2 = of_nat (8 * h)"
    using of_nat_div2 [of "16 * w"] of_nat_div2 [of "16 * h"] w h by simp_all
  have S: "(of_nat l :: uint32) + of_nat r = of_nat (l + r)" "(of_nat t :: uint32) + of_nat b = of_nat (t + b)"
    by simp_all
  have le: "\<not> (of_nat (8 * w) :: uint32) \<le> of_nat (l + r)" "\<not> (of_nat (8 * h) :: uint32) \<le> of_nat (t + b)"
    using w h cx cy s by (simp_all add: word_of_nat_less_eq_iff take_bit_nat_eq_self del: of_nat_add of_nat_mult)
  have R: "(of_nat (16 * w) :: uint32) - of_nat (l + r) * 2 = of_nat (16 * w - 2 * (l + r))"
    "(of_nat (16 * h) :: uint32) - of_nat (t + b) * 2 = of_nat (16 * h - 2 * (t + b))"
    using cx cy s by (simp_all add: of_nat_diff)
  have N: "(of_nat (16 * w - 2 * (l + r)) :: uint32) \<noteq> 0 \<and> \<not> (of_nat (16 * w - 2 * (l + r)) :: uint32) > 65535"
    "(of_nat (16 * h - 2 * (t + b)) :: uint32) \<noteq> 0 \<and> \<not> (of_nat (16 * h - 2 * (t + b)) :: uint32) > 65535"
    using w h cx cy s word_of_nat_bounds [of "16 * w - 2 * (l + r)"] word_of_nat_bounds [of "16 * h - 2 * (t + b)"]
    by simp_all
  have U: "ucast (of_nat (16 * w - 2 * (l + r)) :: uint32) = (of_nat (16 * w - 2 * (l + r)) :: uint16)"
    "ucast (of_nat (16 * h - 2 * (t + b)) :: uint32) = (of_nat (16 * h - 2 * (t + b)) :: uint16)"
    using w h by (simp_all add: unsigned_of_nat take_bit_nat_eq_self)
  show ?thesis
    unfolding c s sps_size_progressive W H S D R U by (simp only: le N simp_thms if_False)
qed

lemma reads_sps_fields:
  assumes v: "sps_valid s"
  shows "reads sps_fields (sps_code s)
    (Inr (of_nat (16 * sp_width_mbs s - 2 * fst (crop_sums (sp_crop s))),
          of_nat (16 * sp_height_mbs s - 2 * snd (crop_sums (sp_crop s)))))"
proof -
  have small: "sp_id s + 1 < 2 ^ 32" "sp_log2_frame_num s + 1 < 2 ^ 32" "sp_log2_poc_lsb s + 1 < 2 ^ 32"
    "sp_ref_frames s + 1 < 2 ^ 32" "sp_width_mbs s - 1 + 1 < 2 ^ 32" "sp_height_mbs s - 1 + 1 < 2 ^ 32"
    using v by (auto simp: sps_valid_def)
  have chroma: "reads (sps_chroma (ucast (sp_profile s))) [] 1"
    using v reads_yield [of 1] by (simp add: sps_chroma_def sps_valid_def)
  have poc: "reads sps_pic_order (ue_code 0 @ ue_code (sp_log2_poc_lsb s)) ()"
    unfolding sps_pic_order_def
    by (rule reads_andThen [OF reads_UE]) (simp, simp, rule reads_map [OF reads_UE [OF small(3)]], simp)
  have crop: "reads sps_crop (crop_code (sp_crop s)) (crop_words (sp_crop s))"
    using v by (intro reads_crop) (auto simp: sps_valid_def)
  have res: "sps_size 1 (of_nat (sp_width_mbs s - 1)) (of_nat (sp_height_mbs s - 1)) 1 (crop_words (sp_crop s)) =
    Inr (of_nat (16 * sp_width_mbs s - 2 * fst (crop_sums (sp_crop s))),
         of_nat (16 * sp_height_mbs s - 2 * snd (crop_sums (sp_crop s))))"
    using v by (intro sps_size_spec) (auto simp: sps_valid_def)
  have tail: "reads (andThen (if (1 :: uint32) = 0 then andThen (readBits 1) (\<lambda>_. yield ()) else yield ()) (\<lambda>_.
     andThen (readBits 1) (\<lambda>_. andThen sps_crop (\<lambda>crop.
       yield (sps_size 1 (of_nat (sp_width_mbs s - 1)) (of_nat (sp_height_mbs s - 1)) 1 crop)))))
     ([] @ [sp_direct s] @ crop_code (sp_crop s))
     (Inr (of_nat (16 * sp_width_mbs s - 2 * fst (crop_sums (sp_crop s))),
           of_nat (16 * sp_height_mbs s - 2 * snd (crop_sums (sp_crop s)))))"
    by (rule reads_skip, simp add: reads_yield, rule reads_skip [OF reads_flag], rule reads_map [OF crop], rule res [symmetric])
  have "reads sps_fields (byte_bits (sp_profile s) @ byte_bits (sp_constraints s) @ byte_bits (sp_level s) @
     ue_code (sp_id s) @ [] @ ue_code (sp_log2_frame_num s) @ (ue_code 0 @ ue_code (sp_log2_poc_lsb s)) @
     ue_code (sp_ref_frames s) @ [sp_gaps s] @ ue_code (sp_width_mbs s - 1) @ ue_code (sp_height_mbs s - 1) @
     [True] @ [] @ [sp_direct s] @ crop_code (sp_crop s))
     (Inr (of_nat (16 * sp_width_mbs s - 2 * fst (crop_sums (sp_crop s))),
           of_nat (16 * sp_height_mbs s - 2 * snd (crop_sums (sp_crop s)))))"
    unfolding sps_fields_def
    by (rule reads_andThen [OF reads_byte], rule reads_skip [OF reads_byte], rule reads_skip [OF reads_byte],
        rule reads_skip [OF reads_UE [OF small(1)]], rule reads_andThen [OF chroma],
        rule reads_skip [OF reads_UE [OF small(2)]], rule reads_skip [OF poc],
        rule reads_skip [OF reads_UE [OF small(4)]], rule reads_skip [OF reads_flag],
        rule reads_andThen [OF reads_UE [OF small(5)]], rule reads_andThen [OF reads_UE [OF small(6)]],
        rule reads_andThen [OF reads_flag], use tail in simp)
  then show ?thesis by (simp add: sps_code_def)
qed

subsection \<open>Splitting what an Annex-B writer joined\<close>

definition annexb :: "byte list list \<Rightarrow> byte list" where
  "annexb nalus = concat (map (\<lambda>n. h264AnnexBStartCode @ n) nalus)"

definition no_start :: "byte list \<Rightarrow> bool" where
  "no_start n \<longleftrightarrow> (\<forall>i. i + 2 < length n \<longrightarrow> \<not> (n ! i = 0 \<and> n ! (i + 1) = 0 \<and> n ! (i + 2) = 1))"

lemma start_code_shift: "start_code_size (pre @ d) (length pre + i) = start_code_size d i"
  unfolding start_code_size_def by (simp add: nth_append add.assoc)

lemma annexB_shift:
  "annexBStartCodeAt (pre @ d) (length pre + off) =
     map_option (\<lambda>(i, n). (length pre + i, n)) (annexBStartCodeAt d off)"
proof (induction d off rule: annexBStartCodeAt.induct)
  case (1 d off)
  then show ?case
    unfolding annexBStartCodeAt.simps [of "pre @ d" "length pre + off"] annexBStartCodeAt.simps [of d off]
    by (simp add: start_code_shift add.assoc split: option.split)
qed

lemma annexB_skip:
  "off \<le> i \<Longrightarrow> i + 3 \<le> length d \<Longrightarrow> (\<And>j. off \<le> j \<Longrightarrow> j < i \<Longrightarrow> start_code_size d j = None) \<Longrightarrow>
   annexBStartCodeAt d off = annexBStartCodeAt d i"
proof (induction "i - off" arbitrary: off)
  case (Suc k)
  then have "annexBStartCodeAt d off = annexBStartCodeAt d (off + 1)"
    by (subst annexBStartCodeAt.simps) simp
  also have "\<dots> = annexBStartCodeAt d i" using Suc by (intro Suc.hyps(1)) auto
  finally show ?case .
qed simp

lemma no_start_before:
  assumes "no_start n" and "j < length n"
  shows "start_code_size (n @ h264AnnexBStartCode @ rest) j = None"
proof -
  let ?d = "n @ h264AnnexBStartCode @ rest"
  have code: "?d ! (length n + k) = h264AnnexBStartCode ! k" if "k < 4" for k
    using that by (simp add: nth_append) (simp add: h264AnnexBStartCode_def nth_append)
  have nx: "?d ! i = n ! i" if "i < length n" for i using that by (simp add: nth_append)
  have three: "\<not> (?d ! i = 0 \<and> ?d ! (i + 1) = 0 \<and> ?d ! (i + 2) = 1)" if "i \<le> length n" for i
  proof (cases "i + 2 < length n")
    case True
    with assms(1) nx show ?thesis by (auto simp: no_start_def)
  next
    case False
    define k where "k = i + 2 - length n"
    have "i + 2 = length n + k" "k < 3" using False that by (auto simp: k_def)
    then show ?thesis using code [of k] by (auto simp: h264AnnexBStartCode_def less_Suc_eq numeral_eq_Suc)
  qed
  show ?thesis
    using three [of j] three [of "j + 1"] assms(2) by (auto simp: start_code_size_def add.assoc numeral_3_eq_3)
qed

lemma annexB_code: "annexBStartCodeAt (h264AnnexBStartCode @ rest) 0 = Some (0, 4)"
  by (subst annexBStartCodeAt.simps) (simp add: start_code_size_def h264AnnexBStartCode_def)

lemma annexB_next:
  assumes "no_start n"
  shows "annexBStartCodeAt (n @ h264AnnexBStartCode @ rest) 0 = Some (length n, 4)"
proof -
  have "annexBStartCodeAt (n @ h264AnnexBStartCode @ rest) 0 = annexBStartCodeAt (n @ h264AnnexBStartCode @ rest) (length n + 0)"
    by (rule trans [OF annexB_skip [of 0 "length n"]])
      (use no_start_before [OF assms] in \<open>auto simp: h264AnnexBStartCode_def\<close>)
  then show ?thesis unfolding annexB_shift annexB_code by simp
qed

lemma annexB_none:
  assumes "no_start n"
  shows "annexBStartCodeAt n off = None"
  using assms
proof (induction n off rule: annexBStartCodeAt.induct)
  case (1 n off)
  have "start_code_size n off = None" if "off + 3 \<le> length n"
    using "1.prems" [unfolded no_start_def, rule_format, of off] that
      "1.prems" [unfolded no_start_def, rule_format, of "off + 1"]
    by (auto simp: start_code_size_def add.assoc numeral_3_eq_3)
  with "1.IH" "1.prems" show ?case by (subst annexBStartCodeAt.simps) simp
qed

lemma annexb_Cons: "annexb (n # ns) = h264AnnexBStartCode @ n @ annexb ns"
  by (simp add: annexb_def)

lemma length_start_code [simp]: "length h264AnnexBStartCode = 4"
  by (simp add: h264AnnexBStartCode_def)

text \<open>From the start code of the first unit on, the splitter finds exactly the units that were joined.\<close>

lemma next_start_annexb:
  assumes "no_start n"
  shows "next_start (pre @ h264AnnexBStartCode @ n @ annexb ns) (length pre + 4) = length pre + 4 + length n"
proof -
  let ?p = "pre @ h264AnnexBStartCode"
  have "annexBStartCodeAt (?p @ n @ annexb ns) (length ?p + 0) =
      (case ns of [] \<Rightarrow> None | _ \<Rightarrow> Some (length ?p + length n, 4))"
    unfolding annexB_shift
    by (cases ns) (use annexB_none [OF assms] annexB_next [OF assms] in \<open>simp_all add: annexb_Cons annexb_def\<close>)
  then show ?thesis by (cases ns) (simp_all add: next_start_def annexb_def)
qed

lemma split_annexb:
  "list_all (\<lambda>n. n \<noteq> [] \<and> no_start n) (n # ns) \<Longrightarrow>
   splitAnnexBNALUs_from (pre @ annexb (n # ns)) (length pre) = n # ns"
proof (induction ns arbitrary: n pre)
  case Nil
  have "annexBStartCodeAt (pre @ h264AnnexBStartCode @ n) (length pre + 0) = Some (length pre, 4)"
    unfolding annexB_shift annexB_code by simp
  with Nil next_start_annexb [of n pre "[]"] show ?case
    by (subst splitAnnexBNALUs_from.simps) (simp add: annexb_def Let_def)
next
  case (Cons m ms)
  let ?d = "pre @ h264AnnexBStartCode @ n @ annexb (m # ms)"
  have "annexBStartCodeAt ?d (length pre + 0) = Some (length pre, 4)"
    unfolding annexB_shift annexB_code by simp
  moreover have "next_start ?d (length pre + 4) = length pre + 4 + length n"
    using Cons.prems by (intro next_start_annexb) simp
  moreover have "splitAnnexBNALUs_from ?d (length pre + 4 + length n) = m # ms"
    using Cons.IH [of m "pre @ h264AnnexBStartCode @ n"] Cons.prems by (simp add: add.assoc)
  moreover have "length pre + 4 + length n \<noteq> length ?d" by (simp add: annexb_Cons)
  ultimately show ?case
    using Cons.prems by (subst splitAnnexBNALUs_from.simps) (simp add: annexb_Cons [of n] Let_def)
qed

lemma splitAnnexBNALUs_annexb:
  "list_all (\<lambda>n. n \<noteq> [] \<and> no_start n) ns \<Longrightarrow> splitAnnexBNALUs (annexb ns) = ns"
proof (cases ns)
  case Nil
  then show ?thesis
    by (simp add: splitAnnexBNALUs_def annexb_def splitAnnexBNALUs_from.simps annexBStartCodeAt.simps)
next
  case (Cons m ms)
  assume "list_all (\<lambda>n. n \<noteq> [] \<and> no_start n) ns"
  with split_annexb [of m ms "[]"] Cons show ?thesis by (simp add: splitAnnexBNALUs_def)
qed

subsection \<open>The access unit reader keeps every byte\<close>

lemma annexB_size: "annexBStartCodeAt d off = Some (i, n) \<Longrightarrow> 3 \<le> n"
proof (induction d off rule: annexBStartCodeAt.induct)
  case (1 d off)
  from "1.prems" show ?case
    unfolding annexBStartCodeAt.simps [of d off]
    by (auto simp: start_code_size_def split: if_splits option.splits dest: "1.IH")
qed

lemma scan_aud_start:
  "scan_aud buf off saw = Inl start \<Longrightarrow> start + 3 < length buf \<and> off \<le> start"
proof (induction buf off saw rule: scan_aud.induct)
  case (1 buf off saw)
  show ?case
  proof (cases "annexBStartCodeAt buf off")
    case None
    with "1.prems" show ?thesis by (simp add: scan_aud.simps [of buf off])
  next
    case (Some p)
    obtain i n where p: "p = (i, n)" by (cases p)
    have n: "3 \<le> n" "off \<le> i"
      using Some p annexB_size [of buf off i n] annexBStartCodeAt_ge [of buf off i n] by auto
    with "1.prems" "1.IH" [OF Some p [symmetric]] Some p show ?thesis
      by (auto simp: scan_aud.simps [of buf off] split: if_splits)
  qed
qed

lemma Read_conserves:
  "Read r = (res, r') \<Longrightarrow>
   (case res of Inr au \<Rightarrow> au | Inl _ \<Rightarrow> []) @ au_buffer r' @ au_input r' = au_buffer r @ au_input r
   \<and> (case res of Inr au \<Rightarrow> length au \<le> maxEncodedFrameSize | Inl _ \<Rightarrow> True)"
proof (induction r arbitrary: res r' rule: Read.induct)
  case (1 r)
  show ?case
  proof (cases "scan_aud (au_buffer r) (scanOffset r) (sawAUD r)")
    case (Inl start)
    with "1.prems" show ?thesis by (auto simp: Read.simps [of r] split: if_splits)
  next
    case (Inr p)
    obtain off saw where p: "p = (off, saw)" by (cases p)
    from "1.prems" "1.IH" [OF Inr p [symmetric] refl] Inr p show ?thesis
      by (cases "au_input r") (auto simp: Read.simps [of r] Let_def split: if_splits)
  qed
qed

subsection \<open>The bootstrap and its parameter sets\<close>

definition nalu_ok :: "byte list \<Rightarrow> bool" where
  "nalu_ok n \<longleftrightarrow> n \<noteq> [] \<and> no_start n"

text \<open>What the bootstrap stores: nothing yet, or a well-formed unit of the right type.\<close>

definition bootstrap_ok :: "h264Bootstrap \<Rightarrow> bool" where
  "bootstrap_ok b \<longleftrightarrow> (bs_sps b = [] \<or> nalu_ok (bs_sps b) \<and> nal_type (bs_sps b) = 7)
     \<and> (bs_pps b = [] \<or> nalu_ok (bs_pps b) \<and> nal_type (bs_pps b) = 8)"

lemma scan_nalu_ok: "bootstrap_ok b \<Longrightarrow> nalu_ok n \<Longrightarrow> bootstrap_ok (snd (scan_nalu n (f, b)))"
  by (auto simp: scan_nalu_def bootstrap_ok_def split: sum.split prod.split)

lemma fold_scan_ok:
  "bootstrap_ok b \<Longrightarrow> list_all nalu_ok ns \<Longrightarrow> bootstrap_ok (snd (fold scan_nalu ns (f, b)))"
proof (induction ns arbitrary: f b)
  case (Cons n ns)
  obtain f' b' where s: "scan_nalu n (f, b) = (f', b')" by fastforce
  with scan_nalu_ok [of b n f] Cons show ?case by simp
qed simp

lemma fold_scan_flags:
  assumes "list_all nalu_ok ns" and "fold scan_nalu ns (f, b) = (f', b')"
  shows "(hasSPS f' \<longleftrightarrow> hasSPS f \<or> (\<exists>n\<in>set ns. nal_type n = 7))
    \<and> (hasPPS f' \<longleftrightarrow> hasPPS f \<or> (\<exists>n\<in>set ns. nal_type n = 8))
    \<and> (hasIDR f' \<longleftrightarrow> hasIDR f \<or> (\<exists>n\<in>set ns. nal_type n = 5))
    \<and> (hasVCL f' \<longleftrightarrow> hasVCL f \<or> (\<exists>n\<in>set ns. nal_type n \<in> {1, 2, 3, 4, 5}))"
  using assms
proof (induction ns arbitrary: f b)
  case (Cons n ns)
  obtain g c where s: "scan_nalu n (f, b) = (g, c)" by fastforce
  have "(hasSPS g \<longleftrightarrow> hasSPS f \<or> nal_type n = 7) \<and> (hasPPS g \<longleftrightarrow> hasPPS f \<or> nal_type n = 8)
    \<and> (hasIDR g \<longleftrightarrow> hasIDR f \<or> nal_type n = 5) \<and> (hasVCL g \<longleftrightarrow> hasVCL f \<or> nal_type n \<in> {1, 2, 3, 4, 5})"
    using s Cons.prems(1) by (auto simp: scan_nalu_def nalu_ok_def split: if_splits)
  moreover have "fold scan_nalu ns (g, c) = (f', b')" using Cons.prems(2) s by simp
  ultimately show ?case using Cons.IH [of g c] Cons.prems(1) by auto
qed simp

lemma prepare_annexb:
  assumes ns: "list_all nalu_ok ns" "ns \<noteq> []" and f: "fold scan_nalu ns (no_flags, b) = (f, b')"
  shows "prepare (annexb ns) b =
    (if \<not> hasVCL f then (([], False, bs_width b', bs_height b'), b')
     else ((annexb ((if hasIDR f \<and> (\<not> hasSPS f \<or> \<not> hasPPS f) \<and> bs_sps b' \<noteq> [] \<and> bs_pps b' \<noteq> []
                     then [bs_sps b', bs_pps b'] else []) @ ns), hasIDR f, bs_width b', bs_height b'), b'))"
proof -
  have "splitAnnexBNALUs (annexb ns) = ns"
    using ns by (intro splitAnnexBNALUs_annexb) (simp add: nalu_ok_def list_all_iff)
  with ns f show ?thesis by (auto simp: prepare_def Let_def annexb_def)
qed

subsection \<open>Properties\<close>


text \<open>A 64 by 48 picture: baseline profile, four by three macroblocks, no crop.\<close>

definition demo_sps :: sps_spec where
  "demo_sps = \<lparr>sp_profile = 66, sp_constraints = 0, sp_level = 30, sp_id = 0, sp_log2_frame_num = 0,
     sp_log2_poc_lsb = 0, sp_ref_frames = 1, sp_gaps = False, sp_width_mbs = 4, sp_height_mbs = 3,
     sp_direct = True, sp_crop = None\<rparr>"


text \<open>
  The Exp-Golomb readers invert the codes of the specification over their whole range:
  \<open>readUE\<close> for every value whose code has at most 31 leading zeros, \<open>readSE\<close> for every signed value
  of magnitude below 2 to the 31. Each consumes exactly the code.
\<close>

theorem exp_golomb_roundtrip:
  assumes "rd_offset r \<le> 8 * length (rd_data r)"
  shows "(remaining r = ue_code n @ rest \<and> n \<le> 2 ^ 32 - 2 \<longrightarrow>
      (\<exists>r'. readUE r = Inr (of_nat n, r') \<and> remaining r' = rest))
    \<and> (remaining r = se_code z @ rest \<and> \<bar>z\<bar> < 2 ^ 31 \<longrightarrow>
      (\<exists>w r'. readSE r = Inr (w, r') \<and> sint w = z \<and> remaining r' = rest))"
proof (intro conjI impI; elim conjE)
  assume "remaining r = ue_code n @ rest" and "n \<le> 2 ^ 32 - 2"
  with reads_UE [of n] assms show "\<exists>r'. readUE r = Inr (of_nat n, r') \<and> remaining r' = rest"
    unfolding reads_def by (auto simp: mult.commute)
next
  assume "remaining r = se_code z @ rest" and z: "\<bar>z\<bar> < 2 ^ 31"
  moreover obtain w where "reads readSE (se_code z) w" "sint w = z" using reads_SE [of z] z by (auto simp: abs_less_iff)
  ultimately show "\<exists>w r'. readSE r = Inr (w, r') \<and> sint w = z \<and> remaining r' = rest"
    using assms unfolding reads_def by (fastforce simp: mult.commute)
qed

theorem exp_golomb_roundtrip_witness:
  "\<exists>r'. readUE \<lparr>rd_data = [0x28], rd_offset = 0\<rparr> = Inr (4, r') \<and> remaining r' = [False, False, False]"
proof -
  have "remaining \<lparr>rd_data = [0x28], rd_offset = 0\<rparr> = ue_code 4 @ [False, False, False]" by code_simp
  with exp_golomb_roundtrip [of "\<lparr>rd_data = [0x28], rd_offset = 0\<rparr>" 4 "[False, False, False]"] show ?thesis by simp
qed

text \<open>
  Splitting inverts joining: units that are not empty and contain no start code come
  back unchanged and in order when they are joined with four-byte start codes.
\<close>

theorem annexb_split_roundtrip:
  assumes "list_all nalu_ok nalus"
  shows "splitAnnexBNALUs (annexb nalus) = nalus"
  using assms splitAnnexBNALUs_annexb [of nalus] by (simp add: nalu_ok_def list_all_iff)

theorem annexb_split_roundtrip_witness:
  "splitAnnexBNALUs (annexb [[0x67, 1], [0x68], [0x65, 0, 0]]) = [[0x67, 1], [0x68], [0x65, 0, 0]]"
proof (rule annexb_split_roundtrip)
  show "list_all nalu_ok [[0x67, 1], [0x68], [0x65, 0, 0]]"
    by (auto simp: nalu_ok_def no_start_def less_Suc_eq numeral_eq_Suc)
qed

text \<open>
  Property C38. The access unit reader neither drops nor invents a byte: what a call returns, what it
  keeps in its buffer and what is still to come are together what was there before, also when it
  reports an error, and a returned unit is within the size limit.
\<close>

theorem access_unit_reader_conserves:
  "case Read r of (res, r') \<Rightarrow>
     (case res of Inr au \<Rightarrow> au | Inl _ \<Rightarrow> []) @ au_buffer r' @ au_input r' = au_buffer r @ au_input r
     \<and> (case res of Inr au \<Rightarrow> length au \<le> 20971520 | Inl _ \<Rightarrow> True)"
  using Read_conserves [of r "fst (Read r)" "snd (Read r)"]
  by (auto simp: maxEncodedFrameSize_def split: prod.split sum.split)

text \<open>
  Once a sequence and a picture parameter set have been seen, every access unit with an
  IDR picture that the bootstrap lets through carries both, taken from the unit itself or put in
  front of it; its own units follow unchanged; and units without a picture are held back.
\<close>

theorem bootstrap_prefixes_parameter_sets:
  assumes "bootstrap_ok b" and "list_all nalu_ok nalus" and "nalus \<noteq> []"
    and "prepare (annexb nalus) b = ((d, idr, w, h), b')" and "bs_sps b' \<noteq> []" and "bs_pps b' \<noteq> []"
  shows "bootstrap_ok b'
    \<and> (d = [] \<longleftrightarrow> (\<forall>n\<in>set nalus. nal_type n \<notin> {1, 2, 3, 4, 5}))
    \<and> (idr \<longrightarrow> (\<exists>prefix. splitAnnexBNALUs d = prefix @ nalus
         \<and> {7, 8} \<subseteq> nal_type ` set (splitAnnexBNALUs d)))"
proof -
  obtain f c where f: "fold scan_nalu nalus (no_flags, b) = (f, c)" by fastforce
  note p = prepare_annexb [OF assms(2,3) f, unfolded assms(4)]
  have c: "c = b'" using p by (auto split: if_splits)
  have ok: "bootstrap_ok b'" using fold_scan_ok [OF assms(1,2), of no_flags] f c by simp
  note flags = fold_scan_flags [OF assms(2) f]
  let ?pre = "if hasIDR f \<and> (\<not> hasSPS f \<or> \<not> hasPPS f) then [bs_sps b', bs_pps b'] else []"
  have d: "if hasVCL f then d = annexb (?pre @ nalus) \<and> idr = hasIDR f else d = [] \<and> \<not> idr"
    using p assms(5,6) c by (auto split: if_splits)
  have "list_all nalu_ok (?pre @ nalus)" using assms(2,5,6) ok by (auto simp: bootstrap_ok_def)
  then have split: "splitAnnexBNALUs (annexb (?pre @ nalus)) = ?pre @ nalus"
    using splitAnnexBNALUs_annexb by (simp add: nalu_ok_def list_all_iff)
  have types: "nal_type (bs_sps b') = 7" "nal_type (bs_pps b') = 8"
    using ok assms(5,6) by (auto simp: bootstrap_ok_def)
  have "d = [] \<longleftrightarrow> \<not> hasVCL f" using d assms(3) by (cases nalus) (auto simp: annexb_def h264AnnexBStartCode_def)
  moreover have "\<exists>prefix. splitAnnexBNALUs d = prefix @ nalus \<and> {7, 8} \<subseteq> nal_type ` set (splitAnnexBNALUs d)" if "idr"
  proof -
    have "d = annexb (?pre @ nalus)" "hasIDR f" using d that by (auto split: if_splits)
    then show ?thesis
      using split types flags by (auto simp: no_flags_def image_iff)
  qed
  ultimately show ?thesis using ok flags by (auto simp: no_flags_def)
qed

theorem bootstrap_prefixes_parameter_sets_witness:
  "\<exists>d. prepare (annexb [[0x65, 0xAA]]) \<lparr>bs_sps = [0x67, 1], bs_pps = [0x68, 1], bs_width = 64, bs_height = 48\<rparr> =
     ((d, True, 64, 48), \<lparr>bs_sps = [0x67, 1], bs_pps = [0x68, 1], bs_width = 64, bs_height = 48\<rparr>)
     \<and> {7, 8} \<subseteq> nal_type ` set (splitAnnexBNALUs d)"
proof -
  let ?b = "\<lparr>bs_sps = [0x67, 1], bs_pps = [0x68, 1], bs_width = 64, bs_height = 48\<rparr> :: h264Bootstrap"
  have ok: "bootstrap_ok ?b" "list_all nalu_ok [[0x65, 0xAA]]" "[[0x65, 0xAA]] \<noteq> ([] :: byte list list)"
    by (simp_all add: bootstrap_ok_def nalu_ok_def no_start_def nal_type_def)
  have f: "fold scan_nalu [[0x65, 0xAA]] (no_flags, ?b) = (no_flags\<lparr>hasVCL := True, hasIDR := True\<rparr>, ?b)"
    by (simp add: scan_nalu_def nal_type_def no_flags_def)
  have p: "\<exists>d. prepare (annexb [[0x65, 0xAA]]) ?b = ((d, True, 64, 48), ?b)"
    using prepare_annexb [OF ok(2,3) f] by simp
  then obtain d where d: "prepare (annexb [[0x65, 0xAA]]) ?b = ((d, True, 64, 48), ?b)" ..
  with bootstrap_prefixes_parameter_sets [OF ok d] show ?thesis by simp
qed

subsection \<open>Two inputs outside the specification\<close>

text \<open>
  The crop check adds on \<open>uint32\<close>: offsets whose sum wraps to zero pass it and leave the picture
  uncropped, although each alone is larger than the picture.
\<close>

lemma sps_crop_sum_wraps: "sps_size 1 39 29 1 (0xFFFFFFFE, 2, 0, 0) = Inr (640, 480)"
  by (simp add: sps_size_def Let_def)

text \<open>
  An IDR whose sequence parameter set is known but for which no picture parameter set ever arrived
  is handed to the decoder as it is.
\<close>

lemma idr_without_pps_passes:
  assumes "nalu_ok n" and "nal_type n = 5" and "bs_pps b = []"
  shows "prepare (annexb [n]) b = ((annexb [n], True, bs_width b, bs_height b), b)"
proof -
  have "fold scan_nalu [n] (no_flags, b) = (no_flags\<lparr>hasVCL := True, hasIDR := True\<rparr>, b)"
    using assms(1,2) by (simp add: scan_nalu_def nalu_ok_def no_flags_def)
  from prepare_annexb [OF _ _ this] assms show ?thesis by simp
qed

end
