(* ===== verification/AiPool.thy ===== *)
theory AiPool
  imports Prelude
begin

text \<open>
  The pool of AI workers (\<^verbatim>\<open>internal/ai/pool.go\<close>, \<^verbatim>\<open>internal/ai/vod.go\<close>): which worker a session's
  stream goes to, which workers are out of service, the reservation of idle GPUs for video on
  demand, and the broadcasts of a reference face to every worker. Every method holds the pool's
  mutex, so each is one atomic change. A \<open>*Client\<close> is its number and address, a \<open>*VODLease\<close> its
  number in \<open>vodLeases\<close>. The workers themselves are outside the program: what their calls answer
  is an argument.
\<close>

subsection \<open>State\<close>

record Client =
  cl_id :: nat
  Address :: string

record VODLease =
  vl_Target :: string
  vl_GPU :: string
  interrupted :: bool

record Pool =
  clients :: "Client list"
  active :: "int list"
  nextIndex :: nat
  unready :: "string set"
  faceSwap :: "string set"
  draining :: "string set"
  vod :: "string \<rightharpoonup> nat"
  vodGPUs :: "string \<Rightarrow> string"
  vodLeases :: "VODLease list"
  observer :: bool
  observed :: "(string \<times> int) list"
  fresh :: nat

datatype poolError =
    ErrNoTargets
  | ErrDial string
  | ErrUnknownTarget string
  | ErrNoBlurTarget
  | ErrDuplicateTarget string
  | ErrStillActive string int
  | ErrLastTarget

text \<open>\<open>dial\<close> stands for \<open>New\<close>, which prepares a connection and rejects a malformed address.\<close>

definition NewPool :: "(string \<Rightarrow> bool) \<Rightarrow> string list \<Rightarrow> poolError + Pool" where
  "NewPool dial targets =
     (if targets = [] then Err ErrNoTargets
      else case find (\<lambda>t. \<not> dial t) targets of
        Some t \<Rightarrow> Err (ErrDial t)
      | None \<Rightarrow> Ok \<lparr>clients = map (\<lambda>i. \<lparr>cl_id = i, Address = targets ! i\<rparr>) [0..<length targets],
          active = replicate (length targets) 0, nextIndex = 0, unready = {}, faceSwap = {}, draining = {},
          vod = Map.empty, vodGPUs = (\<lambda>_. ''''), vodLeases = [], observer = False, observed = [],
          fresh = length targets\<rparr>)"

subsection \<open>Looking up targets\<close>

definition address_of :: "Pool \<Rightarrow> nat \<Rightarrow> string" where
  "address_of p i = Address (clients p ! i)"

fun index_from :: "nat \<Rightarrow> Client list \<Rightarrow> string \<Rightarrow> nat option" where
  "index_from i [] target = None"
| "index_from i (c # cs) target = (if Address c = target then Some i else index_from (Suc i) cs target)"

definition indexLocked :: "Pool \<Rightarrow> string \<Rightarrow> nat option" where
  "indexLocked p target = index_from 0 (clients p) target"

definition hasTargetLocked :: "Pool \<Rightarrow> string \<Rightarrow> bool" where
  "hasTargetLocked p target \<longleftrightarrow> indexLocked p target \<noteq> None"

definition servesLocked :: "Pool \<Rightarrow> string \<Rightarrow> bool \<Rightarrow> bool" where
  "servesLocked p target fs \<longleftrightarrow> faceSwap p = {} \<or> (target \<in> faceSwap p) = fs"

definition hasReadyTargetLocked :: "Pool \<Rightarrow> string \<Rightarrow> bool \<Rightarrow> bool" where
  "hasReadyTargetLocked p except fs \<longleftrightarrow>
     list_ex (\<lambda>c. Address c \<noteq> except \<and> servesLocked p (Address c) fs
       \<and> Address c \<notin> draining p \<and> Address c \<notin> unready p) (clients p)"

definition hasAssignableTargetLocked :: "Pool \<Rightarrow> bool \<Rightarrow> bool" where
  "hasAssignableTargetLocked p fs \<longleftrightarrow>
     list_ex (\<lambda>c. servesLocked p (Address c) fs \<and> Address c \<notin> draining p) (clients p)"

definition TargetReady :: "Pool \<Rightarrow> string \<Rightarrow> bool" where
  "TargetReady p target \<longleftrightarrow> target \<notin> unready p"

definition HasReadyTargetOtherThan :: "Pool \<Rightarrow> string \<Rightarrow> bool" where
  "HasReadyTargetOtherThan p target \<longleftrightarrow> hasReadyTargetLocked p target (target \<in> faceSwap p)"

definition HasReadyTarget :: "Pool \<Rightarrow> bool \<Rightarrow> bool" where
  "HasReadyTarget p fs \<longleftrightarrow> hasReadyTargetLocked p '''' fs"

definition Target :: "Pool \<Rightarrow> string \<Rightarrow> Client option" where
  "Target p address = map_option (\<lambda>i. clients p ! i) (indexLocked p address)"

definition ServesFaceSwap :: "Pool \<Rightarrow> string \<Rightarrow> bool" where
  "ServesFaceSwap p address \<longleftrightarrow> address \<in> faceSwap p"

record TargetStatus =
  ts_Address :: string
  ts_Ready :: bool
  ts_Draining :: bool
  ts_FaceSwap :: bool
  ts_Active :: int

definition Targets :: "Pool \<Rightarrow> TargetStatus list" where
  "Targets p = map (\<lambda>i. let address = address_of p i in
     \<lparr>ts_Address = address, ts_Ready = address \<notin> unready p, ts_Draining = address \<in> draining p,
      ts_FaceSwap = address \<in> faceSwap p, ts_Active = active p ! i\<rparr>) [0..<length (clients p)]"

definition activeStreams :: "Pool \<Rightarrow> string \<Rightarrow> int" where
  "activeStreams p address =
     (case find (\<lambda>t. ts_Address t = address) (Targets p) of None \<Rightarrow> 0 | Some t \<Rightarrow> ts_Active t)"

subsection \<open>Video on demand leases\<close>

definition interrupt :: "nat \<Rightarrow> Pool \<Rightarrow> Pool" where
  "interrupt l p = p\<lparr>vodLeases := (vodLeases p)[l := (vodLeases p ! l)\<lparr>interrupted := True\<rparr>]\<rparr>"

text \<open>Interrupting every lease of the map; \<open>close\<close> runs once per lease, so the order is immaterial.\<close>

definition interrupt_all :: "Pool \<Rightarrow> Pool" where
  "interrupt_all p = p\<lparr>vodLeases := map (\<lambda>l. if l \<in> ran (vod p)
     then (vodLeases p ! l)\<lparr>interrupted := True\<rparr> else vodLeases p ! l) [0..<length (vodLeases p)]\<rparr>"

definition preemptVODLocked :: "string \<Rightarrow> Pool \<Rightarrow> Pool" where
  "preemptVODLocked target p =
     (if vodGPUs p target = '''' then interrupt_all p
      else case vod p (vodGPUs p target) of None \<Rightarrow> p | Some l \<Rightarrow> interrupt l p)"

definition vod_candidate ::
  "Pool \<Rightarrow> (string \<Rightarrow> string) \<Rightarrow> (string \<rightharpoonup> int) \<Rightarrow> int \<Rightarrow> string list \<Rightarrow> nat \<Rightarrow> bool" where
  "vod_candidate p mapping freeMiB minFree excludedTargets i \<longleftrightarrow>
     (let address = address_of p i; gpu = mapping address in
      address \<notin> set excludedTargets \<and> gpu \<noteq> ''''
      \<and> (case freeMiB gpu of None \<Rightarrow> False | Some free \<Rightarrow> \<not> free < minFree)
      \<and> vod p gpu = None \<and> \<not> active p ! i > 0 \<and> address \<notin> unready p \<and> address \<notin> draining p
      \<and> address \<notin> faceSwap p
      \<and> \<not> list_ex (\<lambda>k. mapping (address_of p k) = gpu \<and> active p ! k > 0) [0..<length (clients p)])"

definition ReserveVOD ::
  "(string \<Rightarrow> string) \<Rightarrow> (string \<rightharpoonup> int) \<Rightarrow> int \<Rightarrow> int \<Rightarrow> string list \<Rightarrow> Pool \<Rightarrow> nat option \<times> Pool" where
  "ReserveVOD mapping freeMiB minFree limit excludedTargets p =
     (if list_ex (\<lambda>c. mapping (Address c) = '''') (clients p) then (None, p)
      else if int (card (dom (vod p))) \<ge> limit then (None, p)
      else case find (vod_candidate p mapping freeMiB minFree excludedTargets) [0..<length (clients p)] of
        None \<Rightarrow> (None, p)
      | Some i \<Rightarrow>
          let l = length (vodLeases p); gpu = mapping (address_of p i) in
          (Some l, p\<lparr>vodLeases := vodLeases p @ [\<lparr>vl_Target = address_of p i, vl_GPU = gpu, interrupted = False\<rparr>],
             vod := (vod p)(gpu \<mapsto> l), vodGPUs := mapping\<rparr>))"

definition VODLease_Release :: "nat \<Rightarrow> Pool \<Rightarrow> Pool" where
  "VODLease_Release l p =
     (let gpu = vl_GPU (vodLeases p ! l) in
      if vod p gpu = Some l then p\<lparr>vod := (vod p)(gpu := None)\<rparr> else p)"

subsection \<open>Assigning streams\<close>

definition adjust :: "nat \<Rightarrow> int \<Rightarrow> Pool \<Rightarrow> Pool" where
  "adjust index delta p =
     (let n = active p ! index + delta in
      p\<lparr>active := (active p)[index := n],
        observed := (if observer p then observed p @ [(address_of p index, n)] else observed p)\<rparr>)"

text \<open>An assignment is the client with the flag of its \<open>sync.Once\<close>.\<close>

record assignment =
  as_client :: Client
  as_released :: bool

definition claimLocked :: "nat \<Rightarrow> Pool \<Rightarrow> assignment \<times> Pool" where
  "claimLocked index p =
     (let client = clients p ! index in
      (\<lparr>as_client = client, as_released = False\<rparr>, adjust index 1 (preemptVODLocked (Address client) p)))"

definition release_assignment :: "assignment \<Rightarrow> Pool \<Rightarrow> assignment \<times> Pool" where
  "release_assignment a p =
     (if as_released a then (a, p)
      else (a\<lparr>as_released := True\<rparr>,
        case indexLocked p (Address (as_client a)) of
          None \<Rightarrow> p
        | Some current \<Rightarrow> if clients p ! current = as_client a then adjust current (- 1) p else p))"

definition acquire_ok :: "Pool \<Rightarrow> bool \<Rightarrow> nat \<Rightarrow> bool" where
  "acquire_ok p fs i \<longleftrightarrow>
     servesLocked p (address_of p i) fs
     \<and> \<not> (hasAssignableTargetLocked p fs \<and> address_of p i \<in> draining p)
     \<and> \<not> (hasReadyTargetLocked p '''' fs \<and> address_of p i \<in> unready p)"

definition acquire_pick :: "bool \<Rightarrow> Pool \<Rightarrow> nat option" where
  "acquire_pick fs p =
     scan_least (acquire_ok p fs) (\<lambda>i. active p ! i)
       (map (\<lambda>offset. (nextIndex p + offset) mod length (clients p)) [0..<length (clients p)]) None"

text \<open>
  With no target for the mode the loop leaves \<open>best = -1\<close> and \<open>p.clients[-1]\<close> panics: \<open>None\<close>.
\<close>

definition Acquire :: "bool \<Rightarrow> Pool \<Rightarrow> (assignment \<times> Pool) option" where
  "Acquire fs p =
     (case acquire_pick fs p of
        None \<Rightarrow> None
      | Some best \<Rightarrow> Some (claimLocked best (p\<lparr>nextIndex := (best + 1) mod length (clients p)\<rparr>)))"

fun move_scan :: "Pool \<Rightarrow> bool \<Rightarrow> string \<Rightarrow> string \<Rightarrow> nat list \<Rightarrow> nat option \<Rightarrow> nat option" where
  "move_scan p fs except prefer [] best = best"
| "move_scan p fs except prefer (i # is) best =
     (let address = address_of p i in
      if address = except \<or> \<not> servesLocked p address fs \<or> address \<in> draining p \<or> address \<in> unready p
      then move_scan p fs except prefer is best
      else if address = prefer then Some i
      else move_scan p fs except prefer is
        (case best of None \<Rightarrow> Some i | Some j \<Rightarrow> if active p ! i < active p ! j then Some i else Some j))"

definition AcquireMoveTarget :: "bool \<Rightarrow> string \<Rightarrow> string \<Rightarrow> Pool \<Rightarrow> (assignment \<times> Pool) option" where
  "AcquireMoveTarget fs except prefer p =
     (case move_scan p fs except prefer [0..<length (clients p)] None of
        None \<Rightarrow> None
      | Some best \<Rightarrow> Some (claimLocked best p))"

subsection \<open>Changing the pool\<close>

definition SetFaceSwapTargets :: "string list \<Rightarrow> Pool \<Rightarrow> (poolError + unit) \<times> Pool" where
  "SetFaceSwapTargets targets p =
     (case find (\<lambda>t. \<not> hasTargetLocked p t) targets of
        Some t \<Rightarrow> (Err (ErrUnknownTarget t), p)
      | None \<Rightarrow>
          if card (set targets) > 0 \<and> card (set targets) = length (clients p) then (Err ErrNoBlurTarget, p)
          else (Ok (), p\<lparr>faceSwap := set targets\<rparr>))"

definition SetStreamObserver :: "bool \<Rightarrow> Pool \<Rightarrow> Pool" where
  "SetStreamObserver obs p =
     (if \<not> obs then p\<lparr>observer := False\<rparr>
      else p\<lparr>observer := True, observed := observed p @ map (\<lambda>i. (address_of p i, active p ! i)) [0..<length (clients p)]\<rparr>)"

definition SetTargetReady :: "string \<Rightarrow> bool \<Rightarrow> Pool \<Rightarrow> bool \<times> Pool" where
  "SetTargetReady target ready p =
     (if \<not> hasTargetLocked p target \<or> (target \<in> unready p) = (\<not> ready) then (False, p)
      else (True, if ready then p\<lparr>unready := unready p - {target}\<rparr>
                  else preemptVODLocked target (p\<lparr>unready := insert target (unready p)\<rparr>)))"

definition AddTarget :: "(string \<Rightarrow> bool) \<Rightarrow> string \<Rightarrow> bool \<Rightarrow> Pool \<Rightarrow> (poolError + Client) \<times> Pool" where
  "AddTarget dial address fs p =
     (if \<not> dial address then (Err (ErrDial address), p)
      else if hasTargetLocked p address then (Err (ErrDuplicateTarget address), p)
      else let c = \<lparr>cl_id = fresh p, Address = address\<rparr> in
        (Ok c, p\<lparr>clients := clients p @ [c], active := active p @ [0], fresh := Suc (fresh p),
           draining := insert address (draining p),
           faceSwap := (if fs \<and> faceSwap p \<noteq> {} then insert address (faceSwap p) else faceSwap p),
           observed := (if observer p then observed p @ [(address, 0)] else observed p)\<rparr>))"

definition drop_at :: "nat \<Rightarrow> 'a list \<Rightarrow> 'a list" where
  "drop_at i xs = take i xs @ drop (Suc i) xs"

definition RemoveTarget :: "string \<Rightarrow> Pool \<Rightarrow> (poolError + unit) \<times> Pool" where
  "RemoveTarget address p =
     (case indexLocked p address of
        None \<Rightarrow> (Err (ErrUnknownTarget address), p)
      | Some index \<Rightarrow>
          if active p ! index > 0 then (Err (ErrStillActive address (active p ! index)), p)
          else if length (clients p) = 1 then (Err ErrLastTarget, p)
          else let p' = preemptVODLocked address p in
            (Ok (), p'\<lparr>clients := drop_at index (clients p), active := drop_at index (active p),
               nextIndex := (if nextIndex p \<ge> length (clients p) - 1 then 0 else nextIndex p),
               draining := draining p - {address}, unready := unready p - {address},
               faceSwap := faceSwap p - {address}\<rparr>))"

definition SetDraining :: "string \<Rightarrow> bool \<Rightarrow> Pool \<Rightarrow> (poolError + unit) \<times> Pool" where
  "SetDraining address drain p =
     (if \<not> hasTargetLocked p address then (Err (ErrUnknownTarget address), p)
      else if \<not> drain then (Ok (), p\<lparr>draining := draining p - {address}\<rparr>)
      else (Ok (), preemptVODLocked address (p\<lparr>draining := insert address (draining p)\<rparr>)))"

subsection \<open>Faces on every worker\<close>

datatype rpcError = NotFound | FailedPrecondition | OtherRpc string

definition ignoreNotFound :: "rpcError option \<Rightarrow> rpcError option" where
  "ignoreNotFound e = (if e = Some NotFound then None else e)"

record WhitelistResponse =
  wr_EntryId :: string
  wr_StatusMessage :: string

record WhitelistResult =
  Response :: "WhitelistResponse option"
  EntryIDs :: "string \<rightharpoonup> string"

text \<open>
  \<open>broadcast\<close> collects one outcome per worker in the order they arrive. The result of the workers
  that answered is returned also when others failed.
\<close>

fun broadcast_step ::
  "WhitelistResult \<times> (string \<times> rpcError) list \<Rightarrow> string \<times> (rpcError + WhitelistResponse)
    \<Rightarrow> WhitelistResult \<times> (string \<times> rpcError) list" where
  "broadcast_step (res, errs) (address, Inl e) = (res, errs @ [(address, e)])"
| "broadcast_step (res, errs) (address, Inr response) =
     (let res' = (if wr_EntryId response \<noteq> '''' then res\<lparr>EntryIDs := (EntryIDs res)(address \<mapsto> wr_EntryId response)\<rparr> else res);
          res'' = (if Response res' = None \<or> wr_StatusMessage response = ''failed''
                   then res'\<lparr>Response := Some response\<rparr> else res')
      in (res'', errs))"

definition broadcast ::
  "(string \<times> (rpcError + WhitelistResponse)) list \<Rightarrow> WhitelistResult \<times> (string \<times> rpcError) list option" where
  "broadcast outcomes =
     (case foldl broadcast_step (\<lparr>Response = None, EntryIDs = Map.empty\<rparr>, []) outcomes of
        (res, errs) \<Rightarrow> (res, if errs \<noteq> [] then Some errs else None))"

definition runOnWorkers :: "(Client \<Rightarrow> rpcError option) \<Rightarrow> Pool \<Rightarrow> (string \<times> rpcError) list option" where
  "runOnWorkers op p =
     (let errs = concat (map (\<lambda>c. case op c of None \<Rightarrow> [] | Some e \<Rightarrow> [(Address c, e)]) (clients p))
      in if errs \<noteq> [] then Some errs else None)"

text \<open>The delete requests one round sends, with the workers' answers as an argument.\<close>

definition entry_of :: "(string \<rightharpoonup> string) \<Rightarrow> string \<Rightarrow> string" where
  "entry_of ids address = (case ids address of None \<Rightarrow> '''' | Some e \<Rightarrow> e)"

definition delete_requests :: "(string \<rightharpoonup> string) \<Rightarrow> Pool \<Rightarrow> (string \<times> string) list" where
  "delete_requests ids p =
     map (\<lambda>c. (Address c, entry_of ids (Address c)))
       (filter (\<lambda>c. entry_of ids (Address c) \<noteq> '''') (clients p))"

definition DeleteWhitelistEntries ::
  "(string \<Rightarrow> string \<Rightarrow> rpcError option) \<Rightarrow> (string \<rightharpoonup> string) \<Rightarrow> Pool \<Rightarrow> (string \<times> rpcError) list option" where
  "DeleteWhitelistEntries delete_rpc ids p =
     runOnWorkers (\<lambda>c. let entryID = entry_of ids (Address c) in
       if entryID = '''' then None else ignoreNotFound (delete_rpc (Address c) entryID)) p"

definition whitelistDeleteAttempts :: nat where
  "whitelistDeleteAttempts = 3"

text \<open>
  \<open>retryWhitelistDelete\<close>: \<open>del n\<close> is the outcome of attempt \<open>n\<close>, \<open>cancelled n\<close> that the context ends
  in the pause before it. The result is the error left (\<open>Inr\<close> for the context's own) and the number
  of attempts made.
\<close>

function retry_from :: "(nat \<Rightarrow> 'e option) \<Rightarrow> (nat \<Rightarrow> bool) \<Rightarrow> nat \<Rightarrow> 'e option \<Rightarrow> ('e + unit) option \<times> nat" where
  "retry_from del cancelled attempt err =
     (if attempt < whitelistDeleteAttempts then
        if attempt > 0 \<and> cancelled attempt then (Some (Inr ()), attempt)
        else (case del attempt of
                None \<Rightarrow> (None, Suc attempt)
              | Some e \<Rightarrow> retry_from del cancelled (Suc attempt) (Some e))
      else (map_option Inl err, attempt))"
  by pat_completeness auto
termination
  by (relation "measure (\<lambda>(_, _, attempt, _). whitelistDeleteAttempts - attempt)") auto

declare retry_from.simps [simp del]

definition retryWhitelistDelete :: "(nat \<Rightarrow> 'e option) \<Rightarrow> (nat \<Rightarrow> bool) \<Rightarrow> ('e + unit) option \<times> nat" where
  "retryWhitelistDelete del cancelled = retry_from del cancelled 0 None"

text \<open>
  \<open>AddWhitelist\<close> with its rollback: the second component lists the rounds of delete requests it
  sent. \<open>delete_rpc n\<close> answers the deletes of round \<open>n\<close>.
\<close>

definition AddWhitelist ::
  "(string \<times> (rpcError + WhitelistResponse)) list \<Rightarrow> (nat \<Rightarrow> string \<Rightarrow> string \<Rightarrow> rpcError option) \<Rightarrow> (nat \<Rightarrow> bool)
    \<Rightarrow> Pool \<Rightarrow> ((string \<times> rpcError) list + WhitelistResult) \<times> (string \<times> string) list list" where
  "AddWhitelist outcomes delete_rpc cancelled p =
     (case broadcast outcomes of
        (res, None) \<Rightarrow> (Inr res, [])
      | (res, Some errs) \<Rightarrow>
          (Inl errs,
           if EntryIDs res \<noteq> Map.empty
           then replicate (snd (retryWhitelistDelete (\<lambda>n. DeleteWhitelistEntries (delete_rpc n) (EntryIDs res) p) cancelled))
                  (delete_requests (EntryIDs res) p)
           else []))"

text \<open>One worker's part of \<open>WhitelistEntryIDs\<close>: it stops at the first error that is not NotFound.\<close>

fun worker_entries :: "(string \<Rightarrow> rpcError + string list) \<Rightarrow> string list \<Rightarrow> (string \<rightharpoonup> string list)" where
  "worker_entries status_rpc [] = Map.empty"
| "worker_entries status_rpc (sid # sids) =
     (case status_rpc sid of
        Inl e \<Rightarrow> if e \<noteq> NotFound then Map.empty else (worker_entries status_rpc sids)(sid \<mapsto> [])
      | Inr ids \<Rightarrow> (worker_entries status_rpc sids)(sid \<mapsto> ids))"

definition WhitelistEntryIDs ::
  "(string \<Rightarrow> string \<Rightarrow> rpcError + string list) \<Rightarrow> string list \<Rightarrow> Pool \<Rightarrow> (string \<rightharpoonup> (string \<rightharpoonup> string list))" where
  "WhitelistEntryIDs status_rpc sids p =
     foldl (\<lambda>m c. m(Address c \<mapsto> worker_entries (status_rpc (Address c)) sids)) Map.empty (clients p)"

datatype copyError = NotInPool | EmbeddingModelMismatch | CopyRpc rpcError

text \<open>
  The loop of \<open>CopyWhitelists\<close> over the source's sessions (id and entry count); exporting gives the
  session id and the entry ids, importing an error or nothing.
\<close>

fun copy_sessions ::
  "(string \<Rightarrow> rpcError + string \<times> string list) \<Rightarrow> (string \<Rightarrow> string list \<Rightarrow> rpcError option) \<Rightarrow> (string \<times> nat) list
    \<Rightarrow> (string \<rightharpoonup> string list) \<Rightarrow> (string \<rightharpoonup> string list) \<times> copyError option" where
  "copy_sessions export_rpc import_rpc [] copied = (copied, None)"
| "copy_sessions export_rpc import_rpc ((sid, entryCount) # sessions) copied =
     (if entryCount = 0 then copy_sessions export_rpc import_rpc sessions copied
      else case export_rpc sid of
        Inl e \<Rightarrow> (copied, Some (CopyRpc e))
      | Inr (exported, entries) \<Rightarrow>
          if entries = [] then copy_sessions export_rpc import_rpc sessions copied
          else case import_rpc exported entries of
            Some FailedPrecondition \<Rightarrow> (copied, Some EmbeddingModelMismatch)
          | Some e \<Rightarrow> (copied, Some (CopyRpc e))
          | None \<Rightarrow> copy_sessions export_rpc import_rpc sessions
              (copied(exported \<mapsto> (case copied exported of None \<Rightarrow> [] | Some es \<Rightarrow> es) @ entries)))"

definition CopyWhitelists ::
  "(rpcError + (string \<times> nat) list) \<Rightarrow> (string \<Rightarrow> rpcError + string \<times> string list) \<Rightarrow> (string \<Rightarrow> string list \<Rightarrow> rpcError option)
    \<Rightarrow> string \<Rightarrow> string \<Rightarrow> Pool \<Rightarrow> (string \<rightharpoonup> string list) \<times> copyError option" where
  "CopyWhitelists sessions export_rpc import_rpc from to p =
     (if Target p from = None \<or> Target p to = None then (Map.empty, Some NotInPool)
      else case sessions of
        Inl e \<Rightarrow> (Map.empty, Some (CopyRpc e))
      | Inr ss \<Rightarrow> copy_sessions export_rpc import_rpc ss Map.empty)"

subsection \<open>Replacing a worker\<close>

text \<open>
  \<open>replaceAIWorker\<close> (\<^verbatim>\<open>internal/server/ai_workers.go\<close>) with the answers of everything outside the
  pool: the new worker's preflight, the reference records, the whitelist copy and its pruning, and
  the sessions moved by each call of \<open>SwitchSessionsOffAIWorker\<close>, which gives assignments back.
\<close>

record replace_env =
  re_dial :: "string \<Rightarrow> bool"
  re_preflight :: bool
  re_copyRecords :: bool
  re_copied :: "copyError + nat"
  re_pruned :: "rpcError + nat"
  re_dropRecords :: bool
  re_switch :: "nat \<Rightarrow> Pool \<Rightarrow> (nat \<times> string list) \<times> Pool"

datatype replaceError =
    AIWorkerSame
  | AIWorkerNotFound
  | PoolRejected poolError
  | PreflightFailed
  | RecordsFailed
  | CopyFailed copyError
  | PruneFailed rpcError

record aiWorkerReplacement =
  CopiedSessions :: nat
  PrunedEntries :: nat
  WhitelistSkipped :: bool
  MovedSessions :: nat
  FailedSessions :: "string list"
  Removed :: bool

definition no_replacement :: aiWorkerReplacement where
  "no_replacement = \<lparr>CopiedSessions = 0, PrunedEntries = 0, WhitelistSkipped = False, MovedSessions = 0,
     FailedSessions = [], Removed = False\<rparr>"

text \<open>\<open>abort\<close> takes the new worker out of the pool again when this call added it.\<close>

definition abort_replace :: "bool \<Rightarrow> string \<Rightarrow> Pool \<Rightarrow> Pool" where
  "abort_replace added to p = (if added then snd (RemoveTarget to p) else p)"

text \<open>The whitelist move of step 2: how many sessions and entries, or that it was skipped.\<close>

definition move_whitelists :: "replace_env \<Rightarrow> bool \<Rightarrow> replaceError + aiWorkerReplacement" where
  "move_whitelists env allowReenrollment =
     (if \<not> re_copyRecords env then Inl RecordsFailed
      else case re_copied env of
        Inr n \<Rightarrow> (case re_pruned env of
                   Inl e \<Rightarrow> Inl (PruneFailed e)
                 | Inr k \<Rightarrow> Inr (no_replacement\<lparr>CopiedSessions := n, PrunedEntries := k\<rparr>))
      | Inl e \<Rightarrow> if \<not> allowReenrollment then Inl (CopyFailed e)
                else if \<not> re_dropRecords env then Inl RecordsFailed
                else Inr (no_replacement\<lparr>WhitelistSkipped := True\<rparr>))"

text \<open>\<open>for attempt := 0; attempt < 2 && activeStreams(from) > 0; attempt++\<close>, given up on a failure.\<close>

fun switch_off :: "replace_env \<Rightarrow> string \<Rightarrow> nat list \<Rightarrow> aiWorkerReplacement \<Rightarrow> Pool \<Rightarrow> aiWorkerReplacement \<times> Pool" where
  "switch_off env from [] res p = (res, p)"
| "switch_off env from (attempt # attempts) res p =
     (if activeStreams p from > 0 then
        (case re_switch env attempt p of ((moved, failed), p') \<Rightarrow>
          let res' = res\<lparr>MovedSessions := MovedSessions res + moved, FailedSessions := failed\<rparr> in
          if failed \<noteq> [] then (res', p') else switch_off env from attempts res' p')
      else (res, p))"

definition finish_replace ::
  "replace_env \<Rightarrow> string \<Rightarrow> aiWorkerReplacement \<Rightarrow> Pool \<Rightarrow> (replaceError + aiWorkerReplacement) \<times> Pool" where
  "finish_replace env from res p =
     (case switch_off env from [0, 1] res p of (res, p) \<Rightarrow>
        if activeStreams p from > 0 then (Inr res, p)
        else case RemoveTarget from p of
          (Inl e, p) \<Rightarrow> (Inl (PoolRejected e), p)
        | (Inr _, p) \<Rightarrow> (Inr (res\<lparr>Removed := True\<rparr>), p))"

definition replaceAIWorker ::
  "replace_env \<Rightarrow> string \<Rightarrow> string \<Rightarrow> bool \<Rightarrow> Pool \<Rightarrow> (replaceError + aiWorkerReplacement) \<times> Pool" where
  "replaceAIWorker env from to allowReenrollment p =
     (if from = to then (Inl AIWorkerSame, p)
      else if Target p from = None then (Inl AIWorkerNotFound, p)
      else
        let added = (Target p to = None) in
        case (if added then AddTarget (re_dial env) to (ServesFaceSwap p from) p
              else (Inr (the (Target p to)), p)) of
          (Inl e, p) \<Rightarrow> (Inl (PoolRejected e), p)
        | (Inr _, p) \<Rightarrow>
            if \<not> re_preflight env then (Inl PreflightFailed, abort_replace added to p)
            else let p = snd (SetTargetReady to True p) in
            case move_whitelists env allowReenrollment of
              Inl e \<Rightarrow> (Inl e, abort_replace added to p)
            | Inr res \<Rightarrow>
                (case SetDraining to False p of
                   (Inl e, p) \<Rightarrow> (Inl (PoolRejected e), abort_replace added to p)
                 | (Inr _, p) \<Rightarrow>
                     (case SetDraining from True p of
                        (Inl e, p) \<Rightarrow> (Inl (PoolRejected e), p)
                      | (Inr _, p) \<Rightarrow> finish_replace env from res p)))"

subsection \<open>Lemmas on lookups and preemption\<close>

lemma index_from_Some:
  "index_from k cs t = Some i \<Longrightarrow> k \<le> i \<and> i < k + length cs \<and> Address (cs ! (i - k)) = t"
proof (induction cs arbitrary: k)
  case (Cons c cs)
  show ?case
  proof (cases "Address c = t")
    case False
    then have "Suc k \<le> i \<and> i < Suc k + length cs \<and> Address (cs ! (i - Suc k)) = t"
      using Cons.IH [of "Suc k"] Cons.prems by simp
    then show ?thesis by (auto dest!: le_Suc_ex)
  qed (use Cons.prems in simp)
qed simp

lemma index_from_None: "index_from k cs t = None \<longleftrightarrow> t \<notin> Address ` set cs"
  by (induction cs arbitrary: k) auto

lemma indexLocked_Some: "indexLocked p t = Some i \<Longrightarrow> i < length (clients p) \<and> address_of p i = t"
  by (auto simp: indexLocked_def address_of_def dest: index_from_Some)

lemma indexLocked_None: "indexLocked p t = None \<longleftrightarrow> t \<notin> Address ` set (clients p)"
  by (simp add: indexLocked_def index_from_None)

lemma hasTarget_iff: "hasTargetLocked p t \<longleftrightarrow> t \<in> Address ` set (clients p)"
  by (simp add: hasTargetLocked_def indexLocked_None)

lemma indexLocked_nth:
  assumes "distinct (map Address (clients p))" and "i < length (clients p)"
  shows "indexLocked p (address_of p i) = Some i"
proof -
  obtain j where j: "indexLocked p (address_of p i) = Some j"
    using assms(2) indexLocked_None [of p "address_of p i"] by (auto simp: address_of_def)
  from indexLocked_Some [OF this] assms have "j = i"
    by (auto simp: address_of_def distinct_conv_nth)
  with j show ?thesis by simp
qed

lemma preempt_fields [simp]:
  "clients (preemptVODLocked t p) = clients p" "active (preemptVODLocked t p) = active p"
  "nextIndex (preemptVODLocked t p) = nextIndex p" "unready (preemptVODLocked t p) = unready p"
  "faceSwap (preemptVODLocked t p) = faceSwap p" "draining (preemptVODLocked t p) = draining p"
  "vod (preemptVODLocked t p) = vod p" "vodGPUs (preemptVODLocked t p) = vodGPUs p"
  "fresh (preemptVODLocked t p) = fresh p" "observer (preemptVODLocked t p) = observer p"
  "observed (preemptVODLocked t p) = observed p"
  "length (vodLeases (preemptVODLocked t p)) = length (vodLeases p)"
  by (auto simp: preemptVODLocked_def interrupt_all_def interrupt_def split: option.split)

lemma preempt_lease:
  "l < length (vodLeases p) \<Longrightarrow>
   vl_GPU (vodLeases (preemptVODLocked t p) ! l) = vl_GPU (vodLeases p ! l)
   \<and> (interrupted (vodLeases p ! l) \<longrightarrow> interrupted (vodLeases (preemptVODLocked t p) ! l))"
  by (auto simp: preemptVODLocked_def interrupt_all_def interrupt_def nth_update_if split: option.split)

lemma preempt_interrupts:
  assumes "vod p g = Some l" and "l < length (vodLeases p)" and "vodGPUs p t = g \<or> vodGPUs p t = ''''"
  shows "interrupted (vodLeases (preemptVODLocked t p) ! l)"
proof (cases "vodGPUs p t = ''''")
  case True
  have "l \<in> ran (vod p)" using assms(1) by (rule ranI)
  with True assms(2) show ?thesis by (simp add: preemptVODLocked_def interrupt_all_def)
next
  case False
  with assms show ?thesis by (simp add: preemptVODLocked_def interrupt_def)
qed

lemma adjust_fields [simp]:
  "clients (adjust i d p) = clients p" "nextIndex (adjust i d p) = nextIndex p" "unready (adjust i d p) = unready p"
  "faceSwap (adjust i d p) = faceSwap p" "draining (adjust i d p) = draining p" "vod (adjust i d p) = vod p"
  "vodGPUs (adjust i d p) = vodGPUs p" "vodLeases (adjust i d p) = vodLeases p" "fresh (adjust i d p) = fresh p"
  "active (adjust i d p) = (active p)[i := active p ! i + d]"
  by (simp_all add: adjust_def Let_def)

lemma address_of_cong [simp]:
  "address_of (preemptVODLocked t p) = address_of p" "address_of (adjust i d p) = address_of p"
  "address_of (p\<lparr>nextIndex := n\<rparr>) = address_of p" "address_of (p\<lparr>unready := u\<rparr>) = address_of p"
  "address_of (p\<lparr>draining := dr\<rparr>) = address_of p" "address_of (p\<lparr>faceSwap := fs\<rparr>) = address_of p"
  by (auto simp: address_of_def fun_eq_iff)

subsection \<open>The pool and the assignments it has given out\<close>

record pool_sys =
  pool :: Pool
  assignments :: "assignment list"

definition live_on :: "Client \<Rightarrow> pool_sys \<Rightarrow> int" where
  "live_on c s = int (length (filter (\<lambda>a. \<not> as_released a \<and> as_client a = c) (assignments s)))"

definition targets_ok :: "Pool \<Rightarrow> bool" where
  "targets_ok p \<longleftrightarrow> clients p \<noteq> [] \<and> distinct (map Address (clients p)) \<and> length (active p) = length (clients p)
     \<and> nextIndex p < length (clients p)
     \<and> faceSwap p \<union> draining p \<union> unready p \<subseteq> Address ` set (clients p)"

definition counts_ok :: "pool_sys \<Rightarrow> bool" where
  "counts_ok s \<longleftrightarrow> (\<forall>i < length (clients (pool s)). active (pool s) ! i = live_on (clients (pool s) ! i) s)
     \<and> (\<forall>a\<in>set (assignments s). \<not> as_released a \<longrightarrow> as_client a \<in> set (clients (pool s)))"

text \<open>
  A lease in the map is filed under its GPU, and as long as it has not been interrupted no worker of
  that GPU has a live stream. \<open>mapping\<close> is the deployment's assignment of workers to GPUs.
\<close>

definition vod_ok :: "(string \<Rightarrow> string) \<Rightarrow> Pool \<Rightarrow> bool" where
  "vod_ok mapping p \<longleftrightarrow> (\<forall>g l. vod p g = Some l \<longrightarrow>
     l < length (vodLeases p) \<and> vl_GPU (vodLeases p ! l) = g \<and> g \<noteq> '''' \<and> vodGPUs p = mapping
     \<and> (\<not> interrupted (vodLeases p ! l) \<longrightarrow>
          (\<forall>i < length (clients p). mapping (address_of p i) = g \<longrightarrow> active p ! i \<le> 0)))"

definition pool_inv :: "(string \<Rightarrow> string) \<Rightarrow> pool_sys \<Rightarrow> bool" where
  "pool_inv mapping s \<longleftrightarrow> targets_ok (pool s) \<and> counts_ok s \<and> vod_ok mapping (pool s)"

lemma live_on_nonneg: "0 \<le> live_on c s"
  by (simp add: live_on_def)

lemma live_on_pool [simp]: "live_on c (s\<lparr>pool := p\<rparr>) = live_on c s"
  by (simp add: live_on_def)

lemma vod_ok_change:
  assumes ok: "vod_ok mapping p"
    and v: "\<And>g l. vod p' g = Some l \<Longrightarrow> vod p g = Some l" and g: "vodGPUs p' = vodGPUs p"
    and len: "length (vodLeases p) \<le> length (vodLeases p')"
    and lease: "\<And>l. l < length (vodLeases p) \<Longrightarrow> vl_GPU (vodLeases p' ! l) = vl_GPU (vodLeases p ! l)
       \<and> (interrupted (vodLeases p ! l) \<longrightarrow> interrupted (vodLeases p' ! l))"
    and act: "\<And>g l i. vod p' g = Some l \<Longrightarrow> \<not> interrupted (vodLeases p' ! l) \<Longrightarrow> i < length (clients p') \<Longrightarrow>
       mapping (address_of p' i) = g \<Longrightarrow> active p' ! i \<le> 0 \<or>
       (\<exists>j < length (clients p). address_of p j = address_of p' i \<and> active p' ! i \<le> active p ! j)"
  shows "vod_ok mapping p'"
  unfolding vod_ok_def
proof (intro allI impI conjI)
  fix g l assume l': "vod p' g = Some l"
  note b = ok [unfolded vod_ok_def, rule_format, OF v [OF l']]
  from b len lease [of l] g
  show "l < length (vodLeases p')" "vl_GPU (vodLeases p' ! l) = g" "g \<noteq> ''''" "vodGPUs p' = mapping" by auto
  fix i assume i: "\<not> interrupted (vodLeases p' ! l)" "i < length (clients p')" "mapping (address_of p' i) = g"
  with b lease [of l] have "\<forall>j < length (clients p). mapping (address_of p j) = g \<longrightarrow> active p ! j \<le> 0" by auto
  with act [OF l' i] i(3) show "active p' ! i \<le> 0" by force
qed

lemma vod_ok_preempt: "vod_ok mapping p \<Longrightarrow> vod_ok mapping (preemptVODLocked t p)"
  by (erule vod_ok_change) (auto simp: preempt_lease)

text \<open>A live stream may start on a worker once the leases of its GPU have been interrupted.\<close>

lemma vod_ok_claim:
  assumes v: "vod_ok mapping p" and i: "i < length (clients p)" and t: "address_of p i = t"
  shows "vod_ok mapping (adjust i 1 (preemptVODLocked t p))"
proof (rule vod_ok_change [OF v])
  fix g l j
  assume g: "vod (adjust i 1 (preemptVODLocked t p)) g = Some l"
    and l: "\<not> interrupted (vodLeases (adjust i 1 (preemptVODLocked t p)) ! l)"
    and j: "j < length (clients (adjust i 1 (preemptVODLocked t p)))"
    and m: "mapping (address_of (adjust i 1 (preemptVODLocked t p)) j) = g"
  have "vod p g = Some l" using g by simp
  moreover note v [unfolded vod_ok_def, rule_format, OF this]
  ultimately have "j \<noteq> i" using l m t preempt_interrupts [of p g l t] by auto
  with j show "active (adjust i 1 (preemptVODLocked t p)) ! j \<le> 0 \<or>
     (\<exists>k < length (clients p). address_of p k = address_of (adjust i 1 (preemptVODLocked t p)) j
        \<and> active (adjust i 1 (preemptVODLocked t p)) ! j \<le> active p ! k)" by auto
qed (auto simp: preempt_lease)

subsection \<open>Every operation keeps the invariant\<close>

lemma address_mem: "i < length (clients p) \<Longrightarrow> address_of p i \<in> Address ` set (clients p)"
  by (simp add: address_of_def)

lemma claimLocked_inv:
  assumes inv: "pool_inv m s" and i: "i < length (clients (pool s))" and n: "n < length (clients (pool s))"
    and c: "claimLocked i ((pool s)\<lparr>nextIndex := n\<rparr>) = (a, p')"
  shows "pool_inv m (s\<lparr>pool := p', assignments := assignments s @ [a]\<rparr>)"
proof -
  let ?p = "(pool s)\<lparr>nextIndex := n\<rparr>"
  have a: "a = \<lparr>as_client = clients (pool s) ! i, as_released = False\<rparr>"
    and p': "p' = adjust i 1 (preemptVODLocked (address_of ?p i) ?p)"
    using c by (auto simp: claimLocked_def Let_def address_of_def)
  have t: "targets_ok (pool s)" and k: "counts_ok s" and v: "vod_ok m ?p"
    using inv by (auto simp: pool_inv_def vod_ok_def)
  have eq: "clients (pool s) ! i = clients (pool s) ! j \<longleftrightarrow> i = j" if "j < length (clients (pool s))" for j
    using nth_eq_iff_index_eq [of "clients (pool s)" i j] t i that by (auto simp: targets_ok_def distinct_map)
  have "counts_ok (s\<lparr>pool := p', assignments := assignments s @ [a]\<rparr>)"
    using k i t eq unfolding counts_ok_def by (auto simp: p' a live_on_def nth_update_if targets_ok_def)
  moreover have "targets_ok p'" using t n by (simp add: targets_ok_def p')
  moreover have "vod_ok m p'" unfolding p' by (rule vod_ok_claim [OF v]) (use i in auto)
  ultimately show ?thesis by (simp add: pool_inv_def)
qed

lemma acquire_pick_range: "acquire_pick fs p = Some i \<Longrightarrow> i < length (clients p) \<and> acquire_ok p fs i"
proof -
  assume "acquire_pick fs p = Some i"
  from scan_least_result [OF this [unfolded acquire_pick_def]]
  have "acquire_ok p fs i" "\<exists>k < length (clients p). i = (nextIndex p + k) mod length (clients p)" by auto
  then show ?thesis by (metis length_greater_0_conv less_nat_zero_code list.size(3) mod_less_divisor)
qed

lemma Acquire_inv:
  assumes "pool_inv m s" and "Acquire fs (pool s) = Some (a, p')"
  shows "pool_inv m (s\<lparr>pool := p', assignments := assignments s @ [a]\<rparr>)"
proof -
  obtain i where i: "acquire_pick fs (pool s) = Some i"
    "claimLocked i ((pool s)\<lparr>nextIndex := (i + 1) mod length (clients (pool s))\<rparr>) = (a, p')"
    using assms(2) by (auto simp: Acquire_def split: option.splits)
  have "(i + 1) mod length (clients (pool s)) < length (clients (pool s))"
    using acquire_pick_range [OF i(1)] by (intro mod_less_divisor) auto
  with claimLocked_inv [OF assms(1) _ _ i(2)] acquire_pick_range [OF i(1)] show ?thesis by blast
qed

definition move_ok :: "Pool \<Rightarrow> bool \<Rightarrow> string \<Rightarrow> nat \<Rightarrow> bool" where
  "move_ok p fs except i \<longleftrightarrow> address_of p i \<noteq> except \<and> servesLocked p (address_of p i) fs
     \<and> address_of p i \<notin> draining p \<and> address_of p i \<notin> unready p"

lemma move_scan_result:
  assumes "move_scan p fs except prefer is best = r" and "\<forall>j. best = Some j \<longrightarrow> move_ok p fs except j"
  shows "case r of
      None \<Rightarrow> best = None \<and> (\<forall>i\<in>set is. \<not> move_ok p fs except i)
    | Some i \<Rightarrow> move_ok p fs except i \<and> (i \<in> set is \<or> best = Some i)
        \<and> (address_of p i = prefer \<or>
           (\<forall>k\<in>set is. move_ok p fs except k \<longrightarrow> address_of p k \<noteq> prefer \<and> active p ! i \<le> active p ! k)
           \<and> (\<forall>j. best = Some j \<longrightarrow> active p ! i \<le> active p ! j))"
  using assms
proof (induction "is" arbitrary: best)
  case Nil
  then show ?case by (auto split: option.splits)
next
  case (Cons i "is")
  show ?case
  proof (cases "move_ok p fs except i \<and> address_of p i \<noteq> prefer")
    case False
    show ?thesis
    proof (cases "move_ok p fs except i")
      case True
      with False Cons.prems(1) show ?thesis by (auto simp: move_ok_def Let_def)
    next
      case no: False
      then have "move_scan p fs except prefer is best = r"
        using Cons.prems(1) by (auto simp: move_ok_def Let_def split: if_splits)
      from Cons.IH [OF this Cons.prems(2)] no show ?thesis by (auto split: option.splits)
    qed
  next
    case True
    define b where "b = (case best of None \<Rightarrow> Some i | Some j \<Rightarrow> if active p ! i < active p ! j then Some i else Some j)"
    have r: "move_scan p fs except prefer is b = r"
      using Cons.prems(1) True by (simp add: move_ok_def Let_def b_def)
    have bok: "\<forall>j. b = Some j \<longrightarrow> move_ok p fs except j"
      using True Cons.prems(2) by (auto simp: b_def split: option.splits if_splits)
    show ?thesis
      using Cons.IH [OF r bok] True
      by (cases best; cases r) (auto simp: b_def split: if_splits)
  qed
qed

lemmas move_scan_all = move_scan_result [where best = None, simplified]

lemma AcquireMoveTarget_inv:
  assumes "pool_inv m s" and "AcquireMoveTarget fs except prefer (pool s) = Some (a, p')"
  shows "pool_inv m (s\<lparr>pool := p', assignments := assignments s @ [a]\<rparr>)"
proof -
  obtain i where i: "move_scan (pool s) fs except prefer [0..<length (clients (pool s))] None = Some i"
    "claimLocked i (pool s) = (a, p')"
    using assms(2) by (auto simp: AcquireMoveTarget_def split: option.splits)
  have n: "nextIndex (pool s) < length (clients (pool s))" using assms(1) by (simp add: pool_inv_def targets_ok_def)
  have "i < length (clients (pool s))" using move_scan_all [OF i(1)] by auto
  moreover have "(pool s)\<lparr>nextIndex := nextIndex (pool s)\<rparr> = pool s" by simp
  ultimately show ?thesis using claimLocked_inv [OF assms(1) _ n, of i a p'] i(2) by simp
qed

lemma release_assignment_inv:
  assumes inv: "pool_inv m s" and k: "k < length (assignments s)"
    and r: "release_assignment (assignments s ! k) (pool s) = (a, p')"
  shows "pool_inv m (s\<lparr>pool := p', assignments := (assignments s)[k := a]\<rparr>)"
proof (cases "as_released (assignments s ! k)")
  case True
  with r k inv show ?thesis by (auto simp: release_assignment_def)
next
  case False
  let ?c = "as_client (assignments s ! k)" and ?p = "pool s"
  have t: "targets_ok ?p" and n: "counts_ok s" and v: "vod_ok m ?p" using inv by (simp_all add: pool_inv_def)
  have "?c \<in> set (clients ?p)" using n False k by (simp add: counts_ok_def)
  then obtain i where i: "i < length (clients ?p)" "clients ?p ! i = ?c" by (auto simp: in_set_conv_nth)
  then have "indexLocked ?p (Address ?c) = Some i"
    using indexLocked_nth [of ?p i] t by (simp add: targets_ok_def address_of_def)
  with r False i have a: "a = (assignments s ! k)\<lparr>as_released := True\<rparr>" and p': "p' = adjust i (- 1) ?p"
    by (auto simp: release_assignment_def)
  have eq: "?c = clients ?p ! j \<longleftrightarrow> i = j" if "j < length (clients ?p)" for j
    using nth_eq_iff_index_eq [of "clients ?p" i j] t i that by (auto simp: targets_ok_def distinct_map)
  have live: "live_on c (s\<lparr>pool := p', assignments := (assignments s)[k := a]\<rparr>) = live_on c s - (if ?c = c then 1 else 0)" for c
    using length_filter_update [OF k, of "\<lambda>a. \<not> as_released a \<and> as_client a = c" a] False
    by (auto simp: live_on_def a)
  have set: "set ((assignments s)[k := a]) \<subseteq> insert a (set (assignments s))" by (rule set_update_subset_insert)
  have "counts_ok (s\<lparr>pool := p', assignments := (assignments s)[k := a]\<rparr>)"
    unfolding counts_ok_def live using n i t eq set by (auto simp: counts_ok_def p' nth_update_if targets_ok_def a)
  moreover have "targets_ok p'" using t by (simp add: targets_ok_def p')
  moreover have "vod_ok m p'"
    unfolding p' using t i by (intro vod_ok_change [OF v]) (auto simp: nth_update_if targets_ok_def)
  ultimately show ?thesis by (simp add: pool_inv_def)
qed

text \<open>Operations that change only flags of the pool.\<close>

lemma flags_inv:
  assumes inv: "pool_inv m s" and p: "clients p' = clients (pool s)" "active p' = active (pool s)"
      "nextIndex p' = nextIndex (pool s)" "vod p' = vod (pool s)" "vodGPUs p' = vodGPUs (pool s)"
      "length (vodLeases p') = length (vodLeases (pool s))"
    and l: "\<And>l. l < length (vodLeases (pool s)) \<Longrightarrow> vl_GPU (vodLeases p' ! l) = vl_GPU (vodLeases (pool s) ! l)
       \<and> (interrupted (vodLeases (pool s) ! l) \<longrightarrow> interrupted (vodLeases p' ! l))"
    and f: "faceSwap p' \<union> draining p' \<union> unready p' \<subseteq> Address ` set (clients (pool s))"
  shows "pool_inv m (s\<lparr>pool := p'\<rparr>)"
proof -
  have "vod_ok m p'"
    using inv p l by (intro vod_ok_change [of m "pool s" p']) (auto simp: pool_inv_def address_of_def)
  with inv p f show ?thesis by (simp add: pool_inv_def targets_ok_def counts_ok_def)
qed

lemma targets_flags: "pool_inv m s \<Longrightarrow> faceSwap (pool s) \<union> draining (pool s) \<union> unready (pool s) \<subseteq> Address ` set (clients (pool s))"
  by (simp add: pool_inv_def targets_ok_def)

lemma SetTargetReady_inv: "pool_inv m s \<Longrightarrow> pool_inv m (s\<lparr>pool := snd (SetTargetReady t r (pool s))\<rparr>)"
  using targets_flags [of m s] preempt_lease [of _ "(pool s)\<lparr>unready := insert t (unready (pool s))\<rparr>" t]
  by (cases "SetTargetReady t r (pool s)")
    (auto simp: SetTargetReady_def hasTarget_iff intro!: flags_inv split: if_splits)

lemma SetDraining_inv: "pool_inv m s \<Longrightarrow> pool_inv m (s\<lparr>pool := snd (SetDraining t d (pool s))\<rparr>)"
  using targets_flags [of m s] preempt_lease [of _ "(pool s)\<lparr>draining := insert t (draining (pool s))\<rparr>" t]
  by (auto simp: SetDraining_def hasTarget_iff intro!: flags_inv)

lemma SetFaceSwapTargets_inv:
  assumes "pool_inv m s"
  shows "pool_inv m (s\<lparr>pool := snd (SetFaceSwapTargets ts (pool s))\<rparr>)"
proof (cases "find (\<lambda>t. \<not> hasTargetLocked (pool s) t) ts")
  case None
  then have "set ts \<subseteq> Address ` set (clients (pool s))" by (auto simp: find_None_iff hasTarget_iff)
  with None assms targets_flags [OF assms] show ?thesis
    by (auto simp: SetFaceSwapTargets_def intro!: flags_inv)
qed (use assms in \<open>simp add: SetFaceSwapTargets_def\<close>)

lemma AddTarget_inv:
  assumes inv: "pool_inv m s"
  shows "pool_inv m (s\<lparr>pool := snd (AddTarget dial t fs (pool s))\<rparr>)"
proof (cases "dial t \<and> \<not> hasTargetLocked (pool s) t")
  case False
  with inv show ?thesis by (auto simp: AddTarget_def)
next
  case True
  let ?p = "pool s" and ?p' = "snd (AddTarget dial t fs (pool s))"
  define c where "c = \<lparr>cl_id = fresh ?p, Address = t\<rparr>"
  have p': "clients ?p' = clients ?p @ [c]" "active ?p' = active ?p @ [0]" "nextIndex ?p' = nextIndex ?p"
    "draining ?p' = insert t (draining ?p)" "unready ?p' = unready ?p" "vod ?p' = vod ?p" "vodGPUs ?p' = vodGPUs ?p"
    "vodLeases ?p' = vodLeases ?p" "faceSwap ?p' \<subseteq> insert t (faceSwap ?p)"
    using True by (auto simp: AddTarget_def Let_def c_def)
  have new: "t \<notin> Address ` set (clients ?p)" using True by (simp add: hasTarget_iff)
  have t: "targets_ok ?p" and n: "counts_ok s" and v: "vod_ok m ?p" using inv by (simp_all add: pool_inv_def)
  have "c \<notin> set (clients ?p)" using new by (auto simp: c_def image_iff)
  then have "live_on c s = 0"
    using n by (auto simp: live_on_def counts_ok_def filter_empty_conv)
  then have "counts_ok (s\<lparr>pool := ?p'\<rparr>)"
    using n t by (auto simp: counts_ok_def p' nth_append targets_ok_def less_Suc_eq)
  moreover have "faceSwap ?p' \<subseteq> insert t (Address ` set (clients ?p))" using p'(9) t unfolding targets_ok_def by blast
  then have "targets_ok ?p'" using t new by (simp add: targets_ok_def p'(1-5) c_def) blast
  moreover have "vod_ok m ?p'"
    using t by (intro vod_ok_change [OF v])
      (auto simp: p' address_of_def nth_append targets_ok_def less_Suc_eq)
  ultimately show ?thesis by (simp add: pool_inv_def)
qed

lemma length_drop_at [simp]: "i < length xs \<Longrightarrow> length (drop_at i xs) = length xs - 1"
  by (simp add: drop_at_def)

lemma nth_drop_at: "i < length xs \<Longrightarrow> j < length xs - 1 \<Longrightarrow> drop_at i xs ! j = xs ! (if j < i then j else Suc j)"
  by (auto simp: drop_at_def nth_append min_def)

lemma set_drop_at_subset: "set (drop_at i xs) \<subseteq> set xs"
  by (auto simp: drop_at_def dest: in_set_takeD in_set_dropD)

lemma map_drop_at: "map f (drop_at i xs) = drop_at i (map f xs)"
  by (simp add: drop_at_def take_map drop_map)

lemma set_drop_at:
  assumes "distinct xs" and "i < length xs"
  shows "set (drop_at i xs) = set xs - {xs ! i}"
proof -
  have xs: "xs = take i xs @ xs ! i # drop (Suc i) xs" using assms(2) by (rule id_take_nth_drop)
  with assms(1) have "distinct (take i xs @ xs ! i # drop (Suc i) xs)" by metis
  then have "set (take i xs @ xs ! i # drop (Suc i) xs) - {xs ! i} = set (drop_at i xs)"
    by (auto simp: drop_at_def)
  with xs show ?thesis by metis
qed

lemma distinct_drop_at: "distinct xs \<Longrightarrow> distinct (drop_at i xs)"
  by (simp add: drop_at_def set_take_disj_set_drop_if_distinct)

lemma RemoveTarget_inv:
  assumes inv: "pool_inv m s"
  shows "pool_inv m (s\<lparr>pool := snd (RemoveTarget t (pool s))\<rparr>)"
proof (cases "snd (RemoveTarget t (pool s)) = pool s")
  case True
  with inv show ?thesis by simp
next
  case False
  let ?p = "pool s" and ?p' = "snd (RemoveTarget t (pool s))"
  obtain i where i: "indexLocked ?p t = Some i" "\<not> active ?p ! i > 0" "length (clients ?p) \<noteq> 1"
    using False by (auto simp: RemoveTarget_def split: option.splits if_splits)
  have p': "clients ?p' = drop_at i (clients ?p)" "active ?p' = drop_at i (active ?p)"
    "nextIndex ?p' = (if nextIndex ?p \<ge> length (clients ?p) - 1 then 0 else nextIndex ?p)"
    "draining ?p' = draining ?p - {t}" "unready ?p' = unready ?p - {t}" "faceSwap ?p' = faceSwap ?p - {t}"
    "vod ?p' = vod ?p" "vodGPUs ?p' = vodGPUs ?p" "vodLeases ?p' = vodLeases (preemptVODLocked t ?p)"
    using i by (simp_all add: RemoveTarget_def Let_def)
  have r: "i < length (clients ?p)" "Address (clients ?p ! i) = t" using indexLocked_Some [OF i(1)] by (auto simp: address_of_def)
  have tg: "targets_ok ?p" and n: "counts_ok s" and v: "vod_ok m ?p" using inv by (simp_all add: pool_inv_def)
  have len: "1 < length (clients ?p)" using i(3) r(1) by linarith
  have d: "distinct (map Address (clients ?p))" and la: "length (active ?p) = length (clients ?p)"
    using tg by (simp_all add: targets_ok_def)
  have addrs: "Address ` set (drop_at i (clients ?p)) = Address ` set (clients ?p) - {t}"
    using set_drop_at [OF d] r by (simp add: map_drop_at [symmetric] image_set [symmetric] del: image_set flip: set_map)
  have "live_on (clients ?p ! i) s \<le> 0" using n r i(2) by (simp add: counts_ok_def)
  then have none: "as_client a \<noteq> clients ?p ! i" if "a \<in> set (assignments s)" "\<not> as_released a" for a
    using that length_filter_member [of a "assignments s" "\<lambda>a. \<not> as_released a \<and> as_client a = clients ?p ! i"]
    by (auto simp: live_on_def)
  have "set (drop_at i (clients ?p)) = set (clients ?p) - {clients ?p ! i}"
    using set_drop_at [of "clients ?p" i] d r by (simp add: distinct_map)
  then have "counts_ok (s\<lparr>pool := ?p'\<rparr>)"
    using n none r la by (auto simp: counts_ok_def p' nth_drop_at)
  moreover have "drop_at i (clients ?p) \<noteq> []" using len r(1) length_drop_at [of i "clients ?p"] by fastforce
  then have "targets_ok ?p'"
    using tg len r la addrs distinct_drop_at [OF d, of i]
    by (auto simp: targets_ok_def p' map_drop_at [symmetric])
  moreover have "vod_ok m ?p'"
  proof (rule vod_ok_change [OF v])
    fix g l j assume "j < length (clients ?p')"
    then have "j < length (clients ?p) - 1" using p' r by simp
    then have "(if j < i then j else Suc j) < length (clients ?p)" "address_of ?p (if j < i then j else Suc j) = address_of ?p' j"
      "active ?p' ! j \<le> active ?p ! (if j < i then j else Suc j)"
      using r la by (auto simp: address_of_def p' nth_drop_at)
    then show "active ?p' ! j \<le> 0 \<or> (\<exists>k < length (clients ?p). address_of ?p k = address_of ?p' j \<and> active ?p' ! j \<le> active ?p ! k)"
      by blast
  qed (use preempt_lease [of _ ?p t] in \<open>auto simp: p'\<close>)
  ultimately show ?thesis by (simp add: pool_inv_def)
qed

lemma vod_candidate_free:
  assumes "vod_candidate p mapping freeMiB minFree ex i" and "k < length (clients p)"
    and "mapping (address_of p k) = mapping (address_of p i)"
  shows "active p ! k \<le> 0"
  using assms by (fastforce simp: vod_candidate_def Let_def list_ex_iff)

lemma ReserveVOD_Some:
  assumes "ReserveVOD mapping freeMiB minFree limit ex p = (Some l, p')"
  obtains i where "i < length (clients p)" "vod_candidate p mapping freeMiB minFree ex i" "l = length (vodLeases p)"
    "p' = p\<lparr>vodLeases := vodLeases p @ [\<lparr>vl_Target = address_of p i, vl_GPU = mapping (address_of p i), interrupted = False\<rparr>],
       vod := (vod p)(mapping (address_of p i) \<mapsto> l), vodGPUs := mapping\<rparr>"
    "int (card (dom (vod p))) < limit"
  using assms that
  by (auto simp: ReserveVOD_def Let_def find_Some_iff split: if_splits option.splits)

lemma ReserveVOD_inv:
  assumes inv: "pool_inv mapping s"
  shows "pool_inv mapping (s\<lparr>pool := snd (ReserveVOD mapping freeMiB minFree limit ex (pool s))\<rparr>)"
proof (cases "fst (ReserveVOD mapping freeMiB minFree limit ex (pool s))")
  case None
  then have "snd (ReserveVOD mapping freeMiB minFree limit ex (pool s)) = pool s"
    by (auto simp: ReserveVOD_def Let_def split: option.splits if_splits)
  with inv show ?thesis by simp
next
  case (Some l)
  let ?p = "pool s"
  obtain p' where r: "ReserveVOD mapping freeMiB minFree limit ex ?p = (Some l, p')" using Some by (metis prod.collapse)
  then obtain i where i: "i < length (clients ?p)" "vod_candidate ?p mapping freeMiB minFree ex i" "l = length (vodLeases ?p)"
    and p': "p' = ?p\<lparr>vodLeases := vodLeases ?p @ [\<lparr>vl_Target = address_of ?p i, vl_GPU = mapping (address_of ?p i), interrupted = False\<rparr>],
       vod := (vod ?p)(mapping (address_of ?p i) \<mapsto> l), vodGPUs := mapping\<rparr>"
    by (rule ReserveVOD_Some)
  have addr: "address_of p' = address_of ?p" by (simp add: p' address_of_def fun_eq_iff)
  have g: "mapping (address_of ?p i) \<noteq> ''''" using i(2) by (simp add: vod_candidate_def Let_def)
  have v: "vod_ok mapping ?p" using inv by (simp add: pool_inv_def)
  have "vod_ok mapping p'"
    unfolding vod_ok_def addr
  proof (intro allI impI)
    fix g' l' assume l': "vod p' g' = Some l'"
    show "l' < length (vodLeases p') \<and> vl_GPU (vodLeases p' ! l') = g' \<and> g' \<noteq> '''' \<and> vodGPUs p' = mapping
      \<and> (\<not> interrupted (vodLeases p' ! l') \<longrightarrow>
          (\<forall>j < length (clients p'). mapping (address_of ?p j) = g' \<longrightarrow> active p' ! j \<le> 0))"
    proof (cases "g' = mapping (address_of ?p i)")
      case True
      then have "l' = length (vodLeases ?p)" using l' i(3) by (simp add: p')
      with True i g vod_candidate_free [OF i(2)] show ?thesis by (simp add: p' nth_append)
    next
      case False
      then have "vod ?p g' = Some l'" using l' by (simp add: p')
      from v [unfolded vod_ok_def, rule_format, OF this] show ?thesis by (simp add: p' nth_append)
    qed
  qed
  with inv show ?thesis by (simp add: r pool_inv_def targets_ok_def counts_ok_def p')
qed

lemma VODLease_Release_inv: "pool_inv mapping s \<Longrightarrow> pool_inv mapping (s\<lparr>pool := VODLease_Release l (pool s)\<rparr>)"
proof -
  assume inv: "pool_inv mapping s"
  let ?p' = "(pool s)\<lparr>vod := (vod (pool s))(vl_GPU (vodLeases (pool s) ! l) := None)\<rparr>"
  have "vod_ok mapping ?p'"
    using inv by (auto simp: pool_inv_def vod_ok_def address_of_def)
  then have "pool_inv mapping (s\<lparr>pool := ?p'\<rparr>)"
    using inv by (simp add: pool_inv_def targets_ok_def counts_ok_def)
  with inv show ?thesis by (simp add: VODLease_Release_def Let_def)
qed

subsection \<open>Runs of the pool\<close>

datatype pool_event =
    AcquireEvent bool
  | MoveEvent bool string string
  | ReleaseEvent nat
  | ReadyEvent string bool
  | AddEvent string bool
  | RemoveEvent string
  | DrainEvent string bool
  | FaceSwapEvent "string list"
  | ReserveEvent "string \<rightharpoonup> int" int int "string list"
  | VodReleaseEvent nat

definition assign :: "(assignment \<times> Pool) option \<Rightarrow> pool_sys \<Rightarrow> pool_sys" where
  "assign r s = (case r of None \<Rightarrow> s | Some (a, p) \<Rightarrow> s\<lparr>pool := p, assignments := assignments s @ [a]\<rparr>)"

fun pool_step :: "(string \<Rightarrow> string) \<Rightarrow> (string \<Rightarrow> bool) \<Rightarrow> pool_sys \<Rightarrow> pool_event \<Rightarrow> pool_sys" where
  "pool_step mapping dial s (AcquireEvent fs) = assign (Acquire fs (pool s)) s"
| "pool_step mapping dial s (MoveEvent fs except prefer) = assign (AcquireMoveTarget fs except prefer (pool s)) s"
| "pool_step mapping dial s (ReleaseEvent k) =
     (if k < length (assignments s)
      then (case release_assignment (assignments s ! k) (pool s) of (a, p) \<Rightarrow> s\<lparr>pool := p, assignments := (assignments s)[k := a]\<rparr>)
      else s)"
| "pool_step mapping dial s (ReadyEvent t r) = s\<lparr>pool := snd (SetTargetReady t r (pool s))\<rparr>"
| "pool_step mapping dial s (AddEvent t fs) = s\<lparr>pool := snd (AddTarget dial t fs (pool s))\<rparr>"
| "pool_step mapping dial s (RemoveEvent t) = s\<lparr>pool := snd (RemoveTarget t (pool s))\<rparr>"
| "pool_step mapping dial s (DrainEvent t d) = s\<lparr>pool := snd (SetDraining t d (pool s))\<rparr>"
| "pool_step mapping dial s (FaceSwapEvent ts) = s\<lparr>pool := snd (SetFaceSwapTargets ts (pool s))\<rparr>"
| "pool_step mapping dial s (ReserveEvent freeMiB minFree limit ex) =
     s\<lparr>pool := snd (ReserveVOD mapping freeMiB minFree limit ex (pool s))\<rparr>"
| "pool_step mapping dial s (VodReleaseEvent l) = s\<lparr>pool := VODLease_Release l (pool s)\<rparr>"

lemma pool_step_inv: "pool_inv mapping s \<Longrightarrow> pool_inv mapping (pool_step mapping dial s e)"
  by (cases e)
    (auto simp: assign_def Acquire_inv AcquireMoveTarget_inv release_assignment_inv SetTargetReady_inv AddTarget_inv
      RemoveTarget_inv SetDraining_inv SetFaceSwapTargets_inv ReserveVOD_inv VODLease_Release_inv
      split: option.split prod.split)

interpretation workers: guarded_state "pool_step mapping dial" "pool_inv mapping" "\<lambda>_. True" for mapping dial
  by unfold_locales (rule pool_step_inv)

lemma acquire_indices:
  assumes "j < length (clients p)"
  shows "j \<in> set (map (\<lambda>offset. (nextIndex p + offset) mod length (clients p)) [0..<length (clients p)])"
proof -
  let ?n = "length (clients p)"
  define k where "k = (j + (?n - nextIndex p mod ?n)) mod ?n"
  have "(nextIndex p + k) mod ?n = (nextIndex p mod ?n + (j + (?n - nextIndex p mod ?n))) mod ?n"
    unfolding k_def by (simp add: mod_simps)
  also have "\<dots> = j"
  proof -
    have "nextIndex p mod ?n < ?n" using assms by (intro mod_less_divisor) linarith
    then have "nextIndex p mod ?n + (j + (?n - nextIndex p mod ?n)) = j + ?n" by linarith
    with assms show ?thesis by simp
  qed
  finally have "(nextIndex p + k) mod ?n = j" .
  moreover have "k < ?n" unfolding k_def using assms by (intro mod_less_divisor) linarith
  ultimately show ?thesis by (force simp: image_iff)
qed

text \<open>The worker of a new session is a placement over the pool's clients.\<close>

interpretation assign: placement "acquire_pick fs" "\<lambda>p. length (clients p)" "\<lambda>p. acquire_ok p fs" "\<lambda>p i. active p ! i" for fs
proof
  fix p i j
  assume p: "acquire_pick fs p = Some i"
  then show "i < length (clients p) \<and> acquire_ok p fs i" by (rule acquire_pick_range)
  assume j: "j < length (clients p)" "acquire_ok p fs j"
  from scan_least_result [OF p [unfolded acquire_pick_def]] acquire_indices [of j p] j
  show "active p ! i \<le> active p ! j" by auto
next
  fix p i
  assume i: "i < length (clients p)" "acquire_ok p fs i"
  with acquire_indices [of i p] show "acquire_pick fs p \<noteq> None"
    unfolding acquire_pick_def scan_least_None by blast
qed

subsection \<open>Properties\<close>

lemma NewPool_inv:
  assumes "NewPool dial targets = Inr p" and "distinct targets"
  shows "pool_inv mapping \<lparr>pool = p, assignments = []\<rparr>"
proof -
  have p: "clients p = map (\<lambda>i. \<lparr>cl_id = i, Address = targets ! i\<rparr>) [0..<length targets]"
    "active p = replicate (length targets) 0" "nextIndex p = 0" "unready p = {}" "faceSwap p = {}" "draining p = {}"
    "vod p = Map.empty" "targets \<noteq> []"
    using assms(1) by (auto simp: NewPool_def split: if_splits option.splits)
  have "map Address (clients p) = targets" by (simp add: p comp_def map_nth)
  with assms(2) p show ?thesis
    by (simp add: pool_inv_def targets_ok_def counts_ok_def vod_ok_def live_on_def)
qed

text \<open>
  Property C3. Whatever the order of calls, the active count of every worker is the number of
  assignments on it that have not been released, no such assignment is on a worker that left the
  pool, and a lease for video on demand that has not been told to stop never shares its GPU with a
  live stream.
\<close>

theorem pool_counts_live_streams:
  assumes "NewPool dial targets = Inr p0" and "distinct targets"
    and s_def: "s = foldl (pool_step mapping dial) \<lparr>pool = p0, assignments = []\<rparr> es"
  shows "(\<forall>i < length (clients (pool s)). active (pool s) ! i = live_on (clients (pool s) ! i) s)
    \<and> (\<forall>a\<in>set (assignments s). \<not> as_released a \<longrightarrow> as_client a \<in> set (clients (pool s)))
    \<and> (\<forall>g l i. vod (pool s) g = Some l \<and> \<not> interrupted (vodLeases (pool s) ! l)
         \<and> i < length (clients (pool s)) \<and> mapping (address_of (pool s) i) = g
         \<longrightarrow> live_on (clients (pool s) ! i) s = 0)"
proof -
  have inv: "pool_inv mapping s"
    unfolding s_def by (rule workers.run_inv [OF NewPool_inv [OF assms(1,2)]]) (simp add: list_all_iff)
  then have k: "counts_ok s" and v: "vod_ok mapping (pool s)" by (simp_all add: pool_inv_def)
  have "live_on (clients (pool s) ! i) s = 0"
    if "vod (pool s) g = Some l" "\<not> interrupted (vodLeases (pool s) ! l)" "i < length (clients (pool s))"
      "mapping (address_of (pool s) i) = g" for g l i
  proof -
    have "active (pool s) ! i \<le> 0" using v that unfolding vod_ok_def by blast
    with k that(3) live_on_nonneg [of "clients (pool s) ! i" s] show ?thesis by (simp add: counts_ok_def)
  qed
  with k show ?thesis unfolding counts_ok_def by blast
qed

definition demo_pool :: Pool where
  "demo_pool = (case NewPool (\<lambda>_. True) [''a'', ''b''] of Inr p \<Rightarrow> p)"

lemma demo_pool_new: "NewPool (\<lambda>_. True) [''a'', ''b''] = Inr demo_pool"
  by (simp add: demo_pool_def NewPool_def)

theorem pool_counts_live_streams_witness:
  "active (pool (foldl (pool_step (\<lambda>t. ''gpu'' @ t) (\<lambda>_. True)) \<lparr>pool = demo_pool, assignments = []\<rparr>
     [AcquireEvent False, AcquireEvent True, ReleaseEvent 0])) ! 0
   = live_on \<lparr>cl_id = 0, Address = ''a''\<rparr> (foldl (pool_step (\<lambda>t. ''gpu'' @ t) (\<lambda>_. True)) \<lparr>pool = demo_pool, assignments = []\<rparr>
     [AcquireEvent False, AcquireEvent True, ReleaseEvent 0])"
proof -
  let ?s = "foldl (pool_step (\<lambda>t. ''gpu'' @ t) (\<lambda>_. True)) \<lparr>pool = demo_pool, assignments = []\<rparr>
     [AcquireEvent False, AcquireEvent True, ReleaseEvent 0]"
  have c: "clients (pool ?s) = [\<lparr>cl_id = 0, Address = ''a''\<rparr>, \<lparr>cl_id = 1, Address = ''b''\<rparr>]"
    by (simp add: demo_pool_def NewPool_def assign_def Acquire_def acquire_pick_def acquire_ok_def claimLocked_def
        servesLocked_def address_of_def Let_def release_assignment_def indexLocked_def hasReadyTargetLocked_def
        hasAssignableTargetLocked_def upt_rec numeral_eq_Suc)
  show ?thesis
    using pool_counts_live_streams [OF demo_pool_new _ refl, of "\<lambda>t. ''gpu'' @ t"
        "[AcquireEvent False, AcquireEvent True, ReleaseEvent 0]"] c by simp
qed

text \<open>
  A new session gets a worker exactly when some worker serves its mode, and then one
  that serves the mode, that is ready and open whenever any such worker is, and that no other
  worker the rule admits undercuts in live streams; its count goes up by one.
\<close>

theorem acquire_places_least_loaded:
  "(Acquire fs p = None \<longleftrightarrow> (\<forall>c\<in>set (clients p). \<not> servesLocked p (Address c) fs))
    \<and> (\<forall>a p'. Acquire fs p = Some (a, p') \<longrightarrow>
        (\<exists>i < length (clients p). as_client a = clients p ! i \<and> servesLocked p (address_of p i) fs
          \<and> (hasReadyTargetLocked p '''' fs \<longrightarrow> address_of p i \<notin> unready p \<and> address_of p i \<notin> draining p)
          \<and> (hasAssignableTargetLocked p fs \<longrightarrow> address_of p i \<notin> draining p)
          \<and> (\<forall>j < length (clients p). acquire_ok p fs j \<longrightarrow> active p ! i \<le> active p ! j)
          \<and> active p' = (active p)[i := active p ! i + 1]))"
proof (intro conjI allI impI)
  have assignable: "hasAssignableTargetLocked p fs" if "hasReadyTargetLocked p '''' fs"
    using that by (auto simp: hasReadyTargetLocked_def hasAssignableTargetLocked_def list_ex_iff)
  have "acquire_pick fs p = None \<longleftrightarrow> (\<forall>c\<in>set (clients p). \<not> servesLocked p (Address c) fs)"
    unfolding assign.pick_None_iff acquire_ok_def hasReadyTargetLocked_def hasAssignableTargetLocked_def
    by (simp add: all_set_conv_all_nth list_ex_length address_of_def) metis
  then show "Acquire fs p = None \<longleftrightarrow> (\<forall>c\<in>set (clients p). \<not> servesLocked p (Address c) fs)"
    by (cases "acquire_pick fs p") (simp_all add: Acquire_def)
  fix a p' assume "Acquire fs p = Some (a, p')"
  then obtain i where i: "acquire_pick fs p = Some i"
    and c: "claimLocked i (p\<lparr>nextIndex := (i + 1) mod length (clients p)\<rparr>) = (a, p')"
    by (auto simp: Acquire_def split: option.splits)
  show "\<exists>i < length (clients p). as_client a = clients p ! i \<and> servesLocked p (address_of p i) fs
          \<and> (hasReadyTargetLocked p '''' fs \<longrightarrow> address_of p i \<notin> unready p \<and> address_of p i \<notin> draining p)
          \<and> (hasAssignableTargetLocked p fs \<longrightarrow> address_of p i \<notin> draining p)
          \<and> (\<forall>j < length (clients p). acquire_ok p fs j \<longrightarrow> active p ! i \<le> active p ! j)
          \<and> active p' = (active p)[i := active p ! i + 1]"
    using assign.pick_sound [OF i] assign.pick_least [OF i] c assignable
    by (intro exI [of _ i]) (auto simp: acquire_ok_def claimLocked_def Let_def)
qed

theorem acquire_places_least_loaded_witness:
  "\<exists>a p'. Acquire False demo_pool = Some (a, p') \<and> as_client a \<in> set (clients demo_pool)"
proof -
  have "\<not> (\<forall>c\<in>set (clients demo_pool). \<not> servesLocked demo_pool (Address c) False)"
    by (auto simp: demo_pool_def NewPool_def servesLocked_def)
  then obtain a p' where "Acquire False demo_pool = Some (a, p')"
    using acquire_places_least_loaded [of False demo_pool] by (metis not_None_eq surj_pair)
  with acquire_places_least_loaded [of False demo_pool] show ?thesis by (metis nth_mem)
qed

text \<open>
  A session is moved only to a worker other than its own that serves its mode, is open
  and ready; to the preferred one if it qualifies, else to one with the fewest live streams among
  those that do; and it stays where it is exactly when none qualifies.
\<close>

theorem move_target_qualifies:
  "(AcquireMoveTarget fs except prefer p = None \<longleftrightarrow> (\<forall>i < length (clients p). \<not> move_ok p fs except i))
   \<and> (\<forall>a p'. AcquireMoveTarget fs except prefer p = Some (a, p') \<longrightarrow>
       (\<exists>i < length (clients p). as_client a = clients p ! i \<and> move_ok p fs except i
         \<and> active p' = (active p)[i := active p ! i + 1]
         \<and> (address_of p i = prefer \<or>
            (\<forall>j < length (clients p). move_ok p fs except j \<longrightarrow> address_of p j \<noteq> prefer \<and> active p ! i \<le> active p ! j))))"
proof (intro conjI allI impI)
  have r: "case move_scan p fs except prefer [0..<length (clients p)] None of
      None \<Rightarrow> \<forall>i < length (clients p). \<not> move_ok p fs except i
    | Some i \<Rightarrow> move_ok p fs except i \<and> i < length (clients p) \<and> (address_of p i = prefer \<or>
        (\<forall>k < length (clients p). move_ok p fs except k \<longrightarrow> address_of p k \<noteq> prefer \<and> active p ! i \<le> active p ! k))"
    using move_scan_result [of p fs "except" "prefer" "[0..<length (clients p)]" None] by (auto split: option.splits)
  show "AcquireMoveTarget fs except prefer p = None \<longleftrightarrow> (\<forall>i < length (clients p). \<not> move_ok p fs except i)"
    using r by (auto simp: AcquireMoveTarget_def split: option.splits)
  fix a p' assume "AcquireMoveTarget fs except prefer p = Some (a, p')"
  then obtain i where i: "move_scan p fs except prefer [0..<length (clients p)] None = Some i" "claimLocked i p = (a, p')"
    by (auto simp: AcquireMoveTarget_def split: option.splits)
  with r show "\<exists>i < length (clients p). as_client a = clients p ! i \<and> move_ok p fs except i
         \<and> active p' = (active p)[i := active p ! i + 1]
         \<and> (address_of p i = prefer \<or>
            (\<forall>j < length (clients p). move_ok p fs except j \<longrightarrow> address_of p j \<noteq> prefer \<and> active p ! i \<le> active p ! j))"
    by (intro exI [of _ i]) (auto simp: claimLocked_def Let_def)
qed

theorem move_target_qualifies_witness:
  "\<exists>a p'. AcquireMoveTarget False ''a'' '''' demo_pool = Some (a, p') \<and> Address (as_client a) = ''b''"
proof -
  have m: "move_ok demo_pool False ''a'' 1" "length (clients demo_pool) = 2" "\<not> move_ok demo_pool False ''a'' 0"
    "Address (clients demo_pool ! 1) = ''b''"
    by (simp_all add: demo_pool_def NewPool_def move_ok_def servesLocked_def address_of_def)
  then obtain a p' where a: "AcquireMoveTarget False ''a'' '''' demo_pool = Some (a, p')"
    using move_target_qualifies [of False "''a''" "''''" demo_pool]
    by (metis not_None_eq one_less_numeral_iff semiring_norm(76) surj_pair)
  then obtain i where "i < 2" "as_client a = clients demo_pool ! i" "move_ok demo_pool False ''a'' i"
    using move_target_qualifies [of False "''a''" "''''" demo_pool] m(2) by auto
  with m have "as_client a = clients demo_pool ! 1" by (auto simp: less_2_cases_iff)
  with a m(4) show ?thesis by auto
qed

text \<open>
  Taking out the last worker of the blur mode is not refused, as \<open>SetFaceSwapTargets\<close> refuses to
  reserve every worker; the next blur session then indexes the client list at minus one.
\<close>

lemma remove_last_blur_worker_panics:
  "\<exists>es. Acquire False (pool (foldl (pool_step mapping dial) \<lparr>pool = demo_pool, assignments = []\<rparr> es)) = None"
proof (intro exI)
  show "Acquire False (pool (foldl (pool_step mapping dial) \<lparr>pool = demo_pool, assignments = []\<rparr>
      [FaceSwapEvent [''b''], RemoveEvent ''a''])) = None"
    by (simp add: demo_pool_def NewPool_def SetFaceSwapTargets_def hasTargetLocked_def indexLocked_def RemoveTarget_def
        Let_def drop_at_def Acquire_def acquire_pick_def acquire_ok_def servesLocked_def address_of_def
        preemptVODLocked_def interrupt_all_def)
qed

subsection \<open>An aborted replacement and a failed registration leave nothing behind\<close>

lemma add_then_remove:
  assumes t: "targets_ok p" and a: "AddTarget dial to fs p = (Inr c, p1)"
    and p2: "p2 = snd (SetTargetReady to True p1)"
  shows "let p' = snd (RemoveTarget to p2) in clients p' = clients p \<and> active p' = active p \<and> draining p' = draining p
    \<and> faceSwap p' = faceSwap p \<and> unready p' = unready p \<and> nextIndex p' = nextIndex p"
proof -
  have new: "to \<notin> Address ` set (clients p)" and
    p1: "clients p1 = clients p @ [c]" "active p1 = active p @ [0]" "draining p1 = insert to (draining p)"
      "unready p1 = unready p" "nextIndex p1 = nextIndex p" "Address c = to"
      "faceSwap p1 = faceSwap p \<or> faceSwap p1 = insert to (faceSwap p)"
    using a by (auto simp: AddTarget_def Let_def hasTarget_iff split: if_splits)
  have fresh: "to \<notin> faceSwap p" "to \<notin> draining p" "to \<notin> unready p" and len: "length (active p) = length (clients p)"
    and ne: "clients p \<noteq> []" and nx: "nextIndex p < length (clients p)"
    using t new by (auto simp: targets_ok_def)
  have p2': "p2 = p1" using p1 fresh by (simp add: p2 SetTargetReady_def)
  have d: "distinct (map Address (clients p1))" using t new p1 by (simp add: targets_ok_def)
  have "indexLocked p1 to = Some (length (clients p))"
    using indexLocked_nth [OF d, of "length (clients p)"] p1 by (simp add: address_of_def)
  then have "snd (RemoveTarget to p2) = (preemptVODLocked to p1)\<lparr>clients := clients p, active := active p,
      nextIndex := nextIndex p, draining := draining p, unready := unready p, faceSwap := faceSwap p1 - {to}\<rparr>"
    using p1 len ne nx fresh by (simp add: p2' RemoveTarget_def Let_def drop_at_def nth_append)
  then show ?thesis using p1(7) fresh(1) by (auto simp: Let_def)
qed

lemma finish_replace_error:
  assumes "finish_replace env from res p = (Inl e, p')"
  shows "e \<in> range PoolRejected"
proof -
  obtain res' q where q: "switch_off env from [0, 1] res p = (res', q)" by fastforce
  obtain x q' where x: "RemoveTarget from q = (x, q')" by fastforce
  show ?thesis
    using assms unfolding finish_replace_def q prod.case x
    by (cases "activeStreams q from > 0"; cases x) auto
qed



text \<open>The entries the workers accepted in a broadcast.\<close>

definition accepted :: "(string \<times> (rpcError + WhitelistResponse)) list \<Rightarrow> (string \<times> string) set" where
  "accepted outcomes = {(a, e). \<exists>resp. (a, Inr resp) \<in> set outcomes \<and> wr_EntryId resp = e \<and> e \<noteq> ''''}"

lemma broadcast_fold_ids:
  "distinct (map fst os) \<Longrightarrow> (\<And>a. a \<in> fst ` set os \<Longrightarrow> EntryIDs res a = None) \<Longrightarrow>
   EntryIDs (fst (foldl broadcast_step (res, errs) os)) a = Some e \<longleftrightarrow>
   EntryIDs res a = Some e \<or> (a, e) \<in> accepted os"
proof (induction os arbitrary: res errs)
  case Nil
  then show ?case by (simp add: accepted_def)
next
  case (Cons x os)
  obtain b r where x: "x = (b, r)" by (cases x)
  obtain res' errs' where s: "broadcast_step (res, errs) (b, r) = (res', errs')" by fastforce
  have ids: "EntryIDs res' = (case r of Inr resp \<Rightarrow> if wr_EntryId resp \<noteq> '''' then (EntryIDs res)(b \<mapsto> wr_EntryId resp) else EntryIDs res
      | Inl _ \<Rightarrow> EntryIDs res)"
  proof -
    have "EntryIDs res' = EntryIDs (fst (broadcast_step (res, errs) (b, r)))" by (simp only: s fst_conv)
    then show ?thesis by (cases r) (simp_all add: Let_def)
  qed
  have b: "b \<notin> fst ` set os" "EntryIDs res b = None" using Cons.prems x by auto
  have "EntryIDs (fst (foldl broadcast_step (res', errs') os)) a = Some e \<longleftrightarrow> EntryIDs res' a = Some e \<or> (a, e) \<in> accepted os"
    using Cons.prems x b by (intro Cons.IH) (auto simp: ids split: sum.splits)
  moreover have "(b, e) \<notin> accepted os" for e using b by (force simp: accepted_def)
  moreover have "(a, e) \<in> accepted (x # os) \<longleftrightarrow> (a, e) \<in> accepted os
      \<or> (a = b \<and> (case r of Inr resp \<Rightarrow> wr_EntryId resp = e \<and> e \<noteq> '''' | Inl _ \<Rightarrow> False))"
    by (cases r) (auto simp: accepted_def x)
  moreover have "foldl broadcast_step (res, errs) (x # os) = foldl broadcast_step (res', errs') os"
    by (simp only: foldl.simps x s)
  ultimately show ?case
    using b by (cases r; cases "a = b") (auto simp: ids)
qed

lemma broadcast_ids:
  "distinct (map fst os) \<Longrightarrow> EntryIDs (fst (broadcast os)) a = Some e \<longleftrightarrow> (a, e) \<in> accepted os"
  using broadcast_fold_ids [of os "\<lparr>Response = None, EntryIDs = Map.empty\<rparr>" "[]" a e]
  by (cases "foldl broadcast_step (\<lparr>Response = None, EntryIDs = Map.empty\<rparr>, []) os") (simp add: broadcast_def)

lemma broadcast_fold_error:
  "snd (foldl broadcast_step (res, errs) os) \<noteq> [] \<Longrightarrow> errs \<noteq> [] \<or> (\<exists>a e. (a, Inl e) \<in> set os)"
proof (induction os arbitrary: res errs)
  case (Cons x os)
  obtain res' errs' where s: "broadcast_step (res, errs) x = (res', errs')" by fastforce
  have "errs' = errs \<or> (\<exists>a e. x = (a, Inl e))"
    using s by (cases x; cases "snd x") (auto simp: Let_def)
  moreover have "errs' \<noteq> [] \<or> (\<exists>a e. (a, Inl e) \<in> set os)" using Cons.IH [of res' errs'] Cons.prems s by simp
  ultimately show ?case by auto
qed simp

lemma broadcast_error: "snd (broadcast os) = Some errs \<Longrightarrow> \<exists>a e. (a, Inl e) \<in> set os"
  using broadcast_fold_error [of "\<lparr>Response = None, EntryIDs = Map.empty\<rparr>" "[]" os]
  by (cases "foldl broadcast_step (\<lparr>Response = None, EntryIDs = Map.empty\<rparr>, []) os")
    (auto simp: broadcast_def split: if_splits)

lemma retry_from_bounds:
  "retry_from del cancelled n err = (r, k) \<Longrightarrow> n \<le> 3 \<Longrightarrow>
   n \<le> k \<and> k \<le> 3 \<and> (n < 3 \<longrightarrow> \<not> (0 < n \<and> cancelled n) \<longrightarrow> n < k)
   \<and> (k < 3 \<longrightarrow> cancelled k \<or> n < k \<and> del (k - 1) = None)"
proof (induction del cancelled n err rule: retry_from.induct)
  case (1 del cancelled n err)
  show ?case
  proof (cases "n < 3 \<and> \<not> (0 < n \<and> cancelled n)")
    case False
    with "1.prems" show ?thesis
      by (auto simp: retry_from.simps [of del cancelled n err] whitelistDeleteAttempts_def split: if_splits)
  next
    case True
    show ?thesis
    proof (cases "del n")
      case None
      with True "1.prems" show ?thesis
        by (auto simp: retry_from.simps [of del cancelled n err] whitelistDeleteAttempts_def)
    next
      case (Some x)
      have "retry_from del cancelled (Suc n) (Some x) = (r, k)"
        using True Some "1.prems"
        by (auto simp: retry_from.simps [of del cancelled n err] whitelistDeleteAttempts_def split: if_splits)
      with "1.IH" [OF _ _ Some] True
      have "Suc n \<le> k \<and> k \<le> 3 \<and> (k < 3 \<longrightarrow> cancelled k \<or> Suc n < k \<and> del (k - 1) = None)"
        by (auto simp: whitelistDeleteAttempts_def)
      then show ?thesis using True by auto
    qed
  qed
qed

text \<open>
  Property C18. When registering a face fails on some worker, the workers that accepted it are told
  to delete it, each with the entry id it issued itself and nobody else: at least one round of
  deletes goes out, at most three, and the rounds stop before the third only when a round succeeded
  or the rollback's own context ended.
\<close>

theorem failed_whitelist_add_rolls_back:
  assumes "AddWhitelist outcomes delete_rpc cancelled p = (Inl errs, rounds)"
    and "distinct (map fst outcomes)" and "set (map fst outcomes) = Address ` set (clients p)"
    and "accepted outcomes \<noteq> {}"
  shows "1 \<le> length rounds \<and> length rounds \<le> 3
    \<and> (\<forall>round\<in>set rounds. set round = accepted outcomes)
    \<and> (length rounds < 3 \<longrightarrow> cancelled (length rounds)
         \<or> DeleteWhitelistEntries (delete_rpc (length rounds - 1)) (EntryIDs (fst (broadcast outcomes))) p = None)
    \<and> (\<exists>a resp. (a, Inl resp) \<in> set outcomes)"
proof -
  obtain res e where b: "broadcast outcomes = (res, e)" by fastforce
  have e: "e = Some errs" using assms(1) by (cases e) (auto simp: AddWhitelist_def b)
  have ids: "EntryIDs res a = Some x \<longleftrightarrow> (a, x) \<in> accepted outcomes" for a x
    using broadcast_ids [OF assms(2), of a x] b by simp
  then have ne: "EntryIDs res \<noteq> Map.empty" using assms(4) by fastforce
  define k where "k = snd (retryWhitelistDelete (\<lambda>n. DeleteWhitelistEntries (delete_rpc n) (EntryIDs res) p) cancelled)"
  have rounds: "rounds = replicate k (delete_requests (EntryIDs res) p)"
    using assms(1) ne by (simp add: AddWhitelist_def b e k_def)
  obtain r where "retry_from (\<lambda>n. DeleteWhitelistEntries (delete_rpc n) (EntryIDs res) p) cancelled 0 None = (r, k)"
    by (metis k_def retryWhitelistDelete_def prod.collapse)
  from retry_from_bounds [OF this]
  have k: "1 \<le> k" "k \<le> 3" "k < 3 \<longrightarrow> cancelled k \<or> DeleteWhitelistEntries (delete_rpc (k - 1)) (EntryIDs res) p = None"
    by auto
  have "(a, x) \<in> set (delete_requests (EntryIDs res) p) \<longleftrightarrow> (a, x) \<in> accepted outcomes" for a x
  proof -
    have mem: "a \<in> Address ` set (clients p)" if "(a, x) \<in> accepted outcomes"
      using that assms(3) by (force simp: accepted_def)
    have nz: "x \<noteq> ''''" if "(a, x) \<in> accepted outcomes" using that by (auto simp: accepted_def)
    have "(a, x) \<in> set (delete_requests (EntryIDs res) p) \<longleftrightarrow>
        a \<in> Address ` set (clients p) \<and> entry_of (EntryIDs res) a = x \<and> x \<noteq> ''''"
      by (auto simp: delete_requests_def image_iff)
    then show ?thesis using ids [of a x] mem nz by (auto simp: entry_of_def split: option.splits)
  qed
  then have "set (delete_requests (EntryIDs res) p) = accepted outcomes" by auto
  moreover have "\<exists>a resp. (a, Inl resp) \<in> set outcomes"
    using broadcast_error [of outcomes errs] b e by simp
  ultimately show ?thesis using k by (simp add: rounds b)
qed

theorem failed_whitelist_add_rolls_back_witness:
  "\<exists>errs. AddWhitelist [(''a'', Inr \<lparr>wr_EntryId = ''e1'', wr_StatusMessage = ''success''\<rparr>), (''b'', Inl (OtherRpc ''down''))]
     (\<lambda>_ _ _. None) (\<lambda>_. False) demo_pool = (Inl errs, [[(''a'', ''e1'')]])"
proof -
  let ?o = "[(''a'', Inr \<lparr>wr_EntryId = ''e1'', wr_StatusMessage = ''success''\<rparr>), (''b'', Inl (OtherRpc ''down''))]"
  have r: "AddWhitelist ?o (\<lambda>_ _ _. None) (\<lambda>_. False) demo_pool = (Inl [(''b'', OtherRpc ''down'')], [[(''a'', ''e1'')]])"
    by (simp add: AddWhitelist_def broadcast_def retryWhitelistDelete_def retry_from.simps DeleteWhitelistEntries_def
        runOnWorkers_def entry_of_def ignoreNotFound_def delete_requests_def demo_pool_def NewPool_def Let_def
        whitelistDeleteAttempts_def)
  have "1 \<le> length [[(''a'', ''e1'')]]"
    using failed_whitelist_add_rolls_back [OF r] by simp
  with r show ?thesis by blast
qed

end
