(* ===== verification/BroadcastSettings.thy ===== *)
theory BroadcastSettings
  imports Prelude
begin

text \<open>
  What a user enters for one broadcast (\<^verbatim>\<open>internal/session/broadcast.go\<close>,
  \<^verbatim>\<open>chzzk_broadcast.go\<close>, \<^verbatim>\<open>face_swap_notice.go\<close> and the pure part of \<^verbatim>\<open>resolution.go\<close>): the
  settings, their validation, the notice that a face swap broadcast carries, and the output
  resolution. Text that the code counts or scans by rune is a list of code points; names that it
  only compares are strings.
\<close>

type_synonym runes = "nat list"

abbreviation MaxYouTubeTitleLength :: nat where "MaxYouTubeTitleLength \<equiv> 100"
abbreviation MaxYouTubeDescriptionLength :: nat where "MaxYouTubeDescriptionLength \<equiv> 5000"
abbreviation MaxYouTubeThumbnailBytes :: nat where "MaxYouTubeThumbnailBytes \<equiv> 2097152"
abbreviation MaxChzzkTitleLength :: nat where "MaxChzzkTitleLength \<equiv> 100"
abbreviation MaxChzzkTags :: nat where "MaxChzzkTags \<equiv> 5"
abbreviation MaxChzzkTagLength :: nat where "MaxChzzkTagLength \<equiv> 15"

definition broadcastPrivacyValues :: "string list" where
  "broadcastPrivacyValues = [''public'', ''unlisted'', ''private'']"

definition thumbnailMIMETypes :: "string list" where
  "thumbnailMIMETypes = [''image/jpeg'', ''image/png'']"

definition chzzkCategoryTypes :: "string list" where
  "chzzkCategoryTypes = [''GAME'', ''SPORTS'', ''ETC'']"

record YouTubeThumbnail =
  thumb_MIME :: string
  thumb_Data :: "nat list"

record YouTubeBroadcastSettings =
  yt_Title :: runes
  yt_Description :: runes
  yt_Privacy :: string
  yt_MadeForKids :: "bool option"
  yt_CategoryID :: runes
  yt_Thumbnail :: "YouTubeThumbnail option"
  yt_UpdatedAt :: instant

record ChzzkBroadcastSettings =
  cz_Title :: runes
  cz_CategoryType :: string
  cz_CategoryID :: runes
  cz_Tags :: "runes list"
  cz_UpdatedAt :: instant

record InvalidBroadcastSettingsError =
  Field :: string
  Reason :: string

definition invalid :: "string \<Rightarrow> string \<Rightarrow> InvalidBroadcastSettingsError option" where
  "invalid f r = Some \<lparr>Field = f, Reason = r\<rparr>"

subsection \<open>Validation\<close>

text \<open>\<open>strings.IndexFunc(value, f) < 0\<close> says that no rune satisfies \<open>f\<close>.\<close>

definition isDigits :: "runes \<Rightarrow> bool" where
  "isDigits value = (value \<noteq> [] \<and> \<not> list_ex (\<lambda>r. r < 48 \<or> r > 57) value)"

definition validate_thumbnail :: "YouTubeThumbnail option \<Rightarrow> InvalidBroadcastSettingsError option" where
  "validate_thumbnail t = (case t of None \<Rightarrow> None
    | Some t \<Rightarrow>
        if thumb_MIME t \<notin> set thumbnailMIMETypes then invalid ''thumbnail.mime'' ''must be image/jpeg or image/png''
        else if length (thumb_Data t) = 0 then invalid ''thumbnail.data'' ''must not be empty''
        else if length (thumb_Data t) > MaxYouTubeThumbnailBytes
          then invalid ''thumbnail.data'' (''must be at most '' @ itoa MaxYouTubeThumbnailBytes @ '' bytes'')
        else None)"

definition YouTube_Validate :: "YouTubeBroadcastSettings \<Rightarrow> InvalidBroadcastSettingsError option" where
  "YouTube_Validate b =
    (if length (yt_Title b) > MaxYouTubeTitleLength
       then invalid ''title'' (''must be at most '' @ itoa MaxYouTubeTitleLength @ '' characters'')
     else if list_ex (\<lambda>r. r = 60 \<or> r = 62) (yt_Title b) then invalid ''title'' ''must not contain < or >''
     else if length (yt_Description b) > MaxYouTubeDescriptionLength
       then invalid ''description'' (''must be at most '' @ itoa MaxYouTubeDescriptionLength @ '' characters'')
     else if yt_Privacy b \<noteq> '''' \<and> yt_Privacy b \<notin> set broadcastPrivacyValues
       then invalid ''privacy'' ''must be one of public, unlisted, private''
     else if yt_CategoryID b \<noteq> [] \<and> \<not> isDigits (yt_CategoryID b)
       then invalid ''category_id'' ''must be a numeric YouTube category id''
     else validate_thumbnail (yt_Thumbnail b))"

text \<open>
  The rune classes of package \<open>unicode\<close> are arguments: \<open>sp\<close> for \<open>IsSpace\<close>, \<open>lt\<close> for \<open>IsLetter\<close>
  and \<open>dg\<close> for \<open>IsDigit\<close>.
\<close>

fun validate_tag_runes ::
  "(nat \<Rightarrow> bool) \<Rightarrow> (nat \<Rightarrow> bool) \<Rightarrow> (nat \<Rightarrow> bool) \<Rightarrow> string \<Rightarrow> runes \<Rightarrow> InvalidBroadcastSettingsError option" where
  "validate_tag_runes sp lt dg f [] = None"
| "validate_tag_runes sp lt dg f (r # rs) =
    (if sp r then invalid f ''must not contain whitespace''
     else if \<not> lt r \<and> \<not> dg r then invalid f ''must contain only letters and digits''
     else validate_tag_runes sp lt dg f rs)"

fun validate_tags ::
  "(nat \<Rightarrow> bool) \<Rightarrow> (nat \<Rightarrow> bool) \<Rightarrow> (nat \<Rightarrow> bool) \<Rightarrow> nat \<Rightarrow> runes list \<Rightarrow> InvalidBroadcastSettingsError option" where
  "validate_tags sp lt dg i [] = None"
| "validate_tags sp lt dg i (tag # tags) =
    (let f = ''tags['' @ itoa i @ '']'' in
     if tag = [] then invalid f ''must not be empty''
     else if length tag > MaxChzzkTagLength
       then invalid f (''must be at most '' @ itoa MaxChzzkTagLength @ '' characters'')
     else case validate_tag_runes sp lt dg f tag of
         Some e \<Rightarrow> Some e
       | None \<Rightarrow> validate_tags sp lt dg (Suc i) tags)"

definition Chzzk_Validate ::
  "(nat \<Rightarrow> bool) \<Rightarrow> (nat \<Rightarrow> bool) \<Rightarrow> (nat \<Rightarrow> bool) \<Rightarrow> ChzzkBroadcastSettings \<Rightarrow> InvalidBroadcastSettingsError option" where
  "Chzzk_Validate sp lt dg b =
    (if length (cz_Title b) > MaxChzzkTitleLength
       then invalid ''title'' (''must be at most '' @ itoa MaxChzzkTitleLength @ '' characters'')
     else if cz_CategoryType b \<noteq> '''' \<and> cz_CategoryType b \<notin> set chzzkCategoryTypes
       then invalid ''category_type'' ''must be one of GAME, SPORTS, ETC''
     else if cz_CategoryType b = '''' \<and> cz_CategoryID b \<noteq> []
       then invalid ''category_type'' ''category_type and category_id must be set together''
     else if cz_CategoryType b \<noteq> '''' \<and> cz_CategoryID b = []
       then invalid ''category_id'' ''category_type and category_id must be set together''
     else if length (cz_Tags b) > MaxChzzkTags
       then invalid ''tags'' (''must be at most '' @ itoa MaxChzzkTags @ '' tags'')
     else validate_tags sp lt dg 0 (cz_Tags b))"

subsection \<open>The notice of face swap broadcasts\<close>

definition FaceSwapDescriptionNotice :: runes where
  "FaceSwapDescriptionNotice =
    [8251, 32, 51060, 32, 48169, 49569, 50640, 45716, 32, 65, 73, 47484, 32, 51060, 50857, 54620, 32,
     50620, 44404, 32, 54633, 49457, 51060, 32, 54252, 54632, 46104, 50612, 32, 51080, 49845, 45768,
     45796, 46]"

definition faceSwapNoticeSeparator :: runes where
  "faceSwapNoticeSeparator = [10, 10]"

definition PlatformDescription :: "string \<Rightarrow> runes \<Rightarrow> runes" where
  "PlatformDescription faceAnonymization description =
    (if faceAnonymization \<noteq> ''face_swap'' then description
     else if description = [] then FaceSwapDescriptionNotice
     else FaceSwapDescriptionNotice @ faceSwapNoticeSeparator @ description)"

text \<open>\<open>strings.CutPrefix\<close> and \<open>strings.TrimPrefix\<close>.\<close>

fun cut_prefix :: "'a list \<Rightarrow> 'a list \<Rightarrow> 'a list option" where
  "cut_prefix xs [] = Some xs"
| "cut_prefix [] (p # ps) = None"
| "cut_prefix (x # xs) (p # ps) = (if x = p then cut_prefix xs ps else None)"

definition trim_prefix :: "'a list \<Rightarrow> 'a list \<Rightarrow> 'a list" where
  "trim_prefix xs ps = (case cut_prefix xs ps of None \<Rightarrow> xs | Some rest \<Rightarrow> rest)"

definition StripFaceSwapNotice :: "runes \<Rightarrow> runes" where
  "StripFaceSwapNotice description =
    (case cut_prefix description FaceSwapDescriptionNotice of
       None \<Rightarrow> description
     | Some rest \<Rightarrow> trim_prefix rest faceSwapNoticeSeparator)"

definition validateDescriptionFor :: "string \<Rightarrow> runes \<Rightarrow> InvalidBroadcastSettingsError option" where
  "validateDescriptionFor faceAnonymization description =
    (if faceAnonymization \<noteq> ''face_swap'' then None
     else let lim = MaxYouTubeDescriptionLength - length (FaceSwapDescriptionNotice @ faceSwapNoticeSeparator) in
       if length description > lim
         then invalid ''description'' (''must be at most '' @ itoa lim @ '' characters for face swap sessions'')
       else None)"

definition ValidateFor :: "string \<Rightarrow> YouTubeBroadcastSettings \<Rightarrow> InvalidBroadcastSettingsError option" where
  "ValidateFor faceAnonymization b = (case YouTube_Validate b of
      Some e \<Rightarrow> Some e
    | None \<Rightarrow> validateDescriptionFor faceAnonymization (yt_Description b))"

subsection \<open>Responses\<close>

record YouTubeThumbnailResponse =
  tr_MIME :: string
  tr_Bytes :: nat

record YouTubeBroadcastResponse =
  yr_Title :: runes
  yr_Description :: runes
  yr_Privacy :: string
  yr_MadeForKids :: "bool option"
  yr_CategoryID :: runes
  yr_Thumbnail :: "YouTubeThumbnailResponse option"
  yr_UpdatedAt :: instant

definition YouTube_response :: "YouTubeBroadcastSettings \<Rightarrow> YouTubeBroadcastResponse" where
  "YouTube_response b = \<lparr>yr_Title = yt_Title b, yr_Description = yt_Description b, yr_Privacy = yt_Privacy b,
     yr_MadeForKids = yt_MadeForKids b, yr_CategoryID = yt_CategoryID b,
     yr_Thumbnail = map_option (\<lambda>t. \<lparr>tr_MIME = thumb_MIME t, tr_Bytes = length (thumb_Data t)\<rparr>) (yt_Thumbnail b),
     yr_UpdatedAt = yt_UpdatedAt b\<rparr>"

subsection \<open>Output resolution\<close>

abbreviation Resolution720p :: string where "Resolution720p \<equiv> ''720p''"
abbreviation ResolutionFHD :: string where "ResolutionFHD \<equiv> ''fhd''"
abbreviation fhdPinLongEdge :: int where "fhdPinLongEdge \<equiv> 1920"

definition normalizeResolution :: "string \<Rightarrow> string option" where
  "normalizeResolution v =
    (if v = '''' \<or> v = Resolution720p then Some Resolution720p
     else if v = ResolutionFHD then Some ResolutionFHD else None)"

definition pinLongEdgeFor :: "string \<Rightarrow> int \<Rightarrow> int" where
  "pinLongEdgeFor resolution globalPin =
    (if globalPin = 0 then 0 else if resolution = ResolutionFHD then fhdPinLongEdge else globalPin)"

subsection \<open>What validation accepts\<close>

lemma validate_tag_runes_None:
  "validate_tag_runes sp lt dg f rs = None \<longleftrightarrow> (\<forall>r\<in>set rs. \<not> sp r \<and> (lt r \<or> dg r))"
  by (induction rs) (auto simp: invalid_def)

lemma validate_tag_runes_Some:
  "validate_tag_runes sp lt dg f rs = Some e \<Longrightarrow> Field e = f \<and> (\<exists>r\<in>set rs. sp r \<or> \<not> lt r \<and> \<not> dg r)"
  by (induction rs) (auto simp: invalid_def split: if_splits)

lemma validate_tags_None:
  "validate_tags sp lt dg i tags = None \<longleftrightarrow>
    (\<forall>t\<in>set tags. t \<noteq> [] \<and> length t \<le> MaxChzzkTagLength \<and> (\<forall>r\<in>set t. \<not> sp r \<and> (lt r \<or> dg r)))"
  by (induction tags arbitrary: i)
    (auto simp: invalid_def validate_tag_runes_None Let_def dest: validate_tag_runes_Some split: option.splits)

lemma validate_tags_Cons:
  "validate_tags sp lt dg i (t # ts) =
    (case validate_tags sp lt dg i [t] of Some e \<Rightarrow> Some e | None \<Rightarrow> validate_tags sp lt dg (Suc i) ts)"
  by (auto simp: invalid_def Let_def split: option.splits)

lemma validate_tags_single_Field:
  "validate_tags sp lt dg i [t] = Some e \<Longrightarrow> Field e = ''tags['' @ itoa i @ '']''"
  by (auto simp: invalid_def Let_def dest: validate_tag_runes_Some split: option.splits if_splits)

lemma validate_tags_index: "(validate_tags sp lt dg i ts = None) = (validate_tags sp lt dg j ts = None)"
  unfolding validate_tags_None ..

text \<open>The error names the first bad tag by its index.\<close>

lemma validate_tags_Some:
  assumes "validate_tags sp lt dg i tags = Some e"
  shows "\<exists>k < length tags. Field e = ''tags['' @ itoa (i + k) @ '']''
    \<and> validate_tags sp lt dg 0 (take k tags) = None \<and> validate_tags sp lt dg 0 [tags ! k] \<noteq> None"
  using assms
proof (induction tags arbitrary: i)
  case Nil
  then show ?case by simp
next
  case (Cons t tags)
  show ?case
  proof (cases "validate_tags sp lt dg 0 [t]")
    case None
    then have "validate_tags sp lt dg (Suc i) tags = Some e"
      using Cons.prems validate_tags_index [of sp lt dg i "[t]" 0]
      by (auto simp: validate_tags_Cons [of sp lt dg i t tags] simp del: validate_tags.simps split: option.splits)
    from Cons.IH [OF this] obtain k where k: "k < length tags" "Field e = ''tags['' @ itoa (Suc i + k) @ '']''"
      "validate_tags sp lt dg 0 (take k tags) = None" "validate_tags sp lt dg 0 [tags ! k] \<noteq> None" by blast
    have "validate_tags sp lt dg 0 (take (Suc k) (t # tags)) = None"
      using None k(3) unfolding validate_tags_None by simp
    with k show ?thesis by (intro exI [of _ "Suc k"]) simp
  next
    case (Some x)
    then have "validate_tags sp lt dg i [t] = Some e"
      using Cons.prems validate_tags_index [of sp lt dg i "[t]" 0]
      by (auto simp: validate_tags_Cons [of sp lt dg i t tags] simp del: validate_tags.simps split: option.splits)
    from validate_tags_single_Field [OF this] Some show ?thesis
      by (intro exI [of _ 0]) (simp del: validate_tags.simps(2))
  qed
qed

lemma validate_thumbnail_None:
  "validate_thumbnail t = None \<longleftrightarrow>
    (\<forall>u. t = Some u \<longrightarrow> thumb_MIME u \<in> {''image/jpeg'', ''image/png''}
      \<and> 0 < length (thumb_Data u) \<and> length (thumb_Data u) \<le> MaxYouTubeThumbnailBytes)"
  by (auto simp: validate_thumbnail_def invalid_def thumbnailMIMETypes_def split: option.splits if_splits)

lemma YouTube_Validate_None:
  "YouTube_Validate b = None \<longleftrightarrow>
    length (yt_Title b) \<le> MaxYouTubeTitleLength \<and> 60 \<notin> set (yt_Title b) \<and> 62 \<notin> set (yt_Title b)
    \<and> length (yt_Description b) \<le> MaxYouTubeDescriptionLength
    \<and> yt_Privacy b \<in> {'''', ''public'', ''unlisted'', ''private''}
    \<and> (\<forall>r\<in>set (yt_CategoryID b). 48 \<le> r \<and> r \<le> 57)
    \<and> validate_thumbnail (yt_Thumbnail b) = None"
proof -
  have "isDigits c \<longleftrightarrow> c \<noteq> [] \<and> (\<forall>r\<in>set c. 48 \<le> r \<and> r \<le> 57)" for c
    by (auto simp: isDigits_def list_ex_iff not_less)
  then show ?thesis
    by (auto simp: YouTube_Validate_def invalid_def broadcastPrivacyValues_def list_ex_iff)
qed

lemma cut_prefix_append [simp]: "cut_prefix (ps @ xs) ps = Some xs"
  by (induction ps) auto

lemma cut_prefix_self [simp]: "cut_prefix ps ps = Some []"
  using cut_prefix_append [of ps "[]"] by simp

lemma trim_prefix_append [simp]: "trim_prefix (ps @ xs) ps = xs"
  by (simp add: trim_prefix_def)

lemma notice_lengths: "length FaceSwapDescriptionNotice = 34" "length faceSwapNoticeSeparator = 2"
  by (simp_all add: FaceSwapDescriptionNotice_def faceSwapNoticeSeparator_def)

lemma Strip_PlatformDescription: "StripFaceSwapNotice (PlatformDescription ''face_swap'' d) = d"
  by (simp add: StripFaceSwapNotice_def PlatformDescription_def trim_prefix_def faceSwapNoticeSeparator_def)

lemma validateDescriptionFor_None:
  "validateDescriptionFor m d = None \<longleftrightarrow>
    (m = ''face_swap'' \<longrightarrow> length (FaceSwapDescriptionNotice @ faceSwapNoticeSeparator @ d) \<le> MaxYouTubeDescriptionLength)"
  by (auto simp: validateDescriptionFor_def invalid_def notice_lengths Let_def)

text \<open>
  Property C40. Settings that \<open>ValidateFor\<close> accepts for a session's way of hiding faces are sent to
  YouTube within every one of its limits: title length and characters, privacy value, numeric
  category, thumbnail type and size, and the description as sent, with the face swap notice in
  front. A face swap session refuses an otherwise valid description only when the description with
  its notice would be too long, and cutting the notice from what was sent gives the user's own text
  back.
\<close>

theorem validated_settings_fit_platform:
  "(ValidateFor m b = None \<longleftrightarrow>
      length (yt_Description b) \<le> 5000
      \<and> (m = ''face_swap'' \<longrightarrow>
          length (FaceSwapDescriptionNotice @ faceSwapNoticeSeparator @ yt_Description b) \<le> 5000)
      \<and> length (yt_Title b) \<le> 100 \<and> 60 \<notin> set (yt_Title b) \<and> 62 \<notin> set (yt_Title b)
      \<and> yt_Privacy b \<in> {'''', ''public'', ''unlisted'', ''private''}
      \<and> (\<forall>r\<in>set (yt_CategoryID b). 48 \<le> r \<and> r \<le> 57)
      \<and> (\<forall>u. yt_Thumbnail b = Some u \<longrightarrow> thumb_MIME u \<in> {''image/jpeg'', ''image/png''}
            \<and> length (thumb_Data u) \<in> {1..2097152}))
    \<and> (ValidateFor m b = None \<longrightarrow> length (PlatformDescription m (yt_Description b)) \<le> 5000)
    \<and> StripFaceSwapNotice (PlatformDescription ''face_swap'' d) = d"
proof (intro conjI impI)
  have n: "(0 < length l \<and> length l \<le> 2097152) = (length l \<in> {1..2097152})" for l :: "nat list"
    by (simp add: Suc_le_eq)
  have v: "ValidateFor m b = None \<longleftrightarrow> YouTube_Validate b = None \<and> validateDescriptionFor m (yt_Description b) = None"
    by (auto simp: ValidateFor_def split: option.splits)
  show "ValidateFor m b = None \<longleftrightarrow>
      length (yt_Description b) \<le> 5000
      \<and> (m = ''face_swap'' \<longrightarrow>
          length (FaceSwapDescriptionNotice @ faceSwapNoticeSeparator @ yt_Description b) \<le> 5000)
      \<and> length (yt_Title b) \<le> 100 \<and> 60 \<notin> set (yt_Title b) \<and> 62 \<notin> set (yt_Title b)
      \<and> yt_Privacy b \<in> {'''', ''public'', ''unlisted'', ''private''}
      \<and> (\<forall>r\<in>set (yt_CategoryID b). 48 \<le> r \<and> r \<le> 57)
      \<and> (\<forall>u. yt_Thumbnail b = Some u \<longrightarrow> thumb_MIME u \<in> {''image/jpeg'', ''image/png''}
            \<and> length (thumb_Data u) \<in> {1..2097152})"
    unfolding v YouTube_Validate_None validate_thumbnail_None validateDescriptionFor_None n
    by (simp only: conj_ac)
  assume "ValidateFor m b = None"
  then show "length (PlatformDescription m (yt_Description b)) \<le> 5000"
    unfolding v YouTube_Validate_None validateDescriptionFor_None
    by (auto simp: PlatformDescription_def notice_lengths)
qed (rule Strip_PlatformDescription)

definition demo_settings :: YouTubeBroadcastSettings where
  "demo_settings = \<lparr>yt_Title = [72, 105], yt_Description = [65, 66], yt_Privacy = ''unlisted'',
     yt_MadeForKids = Some False, yt_CategoryID = [50, 48],
     yt_Thumbnail = Some \<lparr>thumb_MIME = ''image/png'', thumb_Data = [137, 80]\<rparr>, yt_UpdatedAt = 0\<rparr>"

theorem validated_settings_fit_platform_witness:
  "ValidateFor ''face_swap'' demo_settings = None
    \<and> length (PlatformDescription ''face_swap'' (yt_Description demo_settings)) \<le> 5000
    \<and> ValidateFor ''face_swap'' (demo_settings\<lparr>yt_Description := replicate 4965 65\<rparr>) \<noteq> None"
proof -
  have "YouTube_Validate demo_settings = None"
    unfolding YouTube_Validate_None validate_thumbnail_None by (simp add: demo_settings_def)
  moreover have "validateDescriptionFor ''face_swap'' (yt_Description demo_settings) = None"
    unfolding validateDescriptionFor_None by (simp add: demo_settings_def notice_lengths)
  ultimately have a: "ValidateFor ''face_swap'' demo_settings = None"
    by (simp add: ValidateFor_def)
  have "ValidateFor ''face_swap'' (demo_settings\<lparr>yt_Description := replicate 4965 65\<rparr>) \<noteq> None"
    using validated_settings_fit_platform [of "''face_swap''" "demo_settings\<lparr>yt_Description := replicate 4965 65\<rparr>"]
    by (simp add: notice_lengths)
  with a validated_settings_fit_platform [of "''face_swap''" demo_settings "[]"] show ?thesis by blast
qed

text \<open>
  Chzzk settings are accepted exactly when the title has at most 100 runes, category
  type and id are both empty or both set with a known type, and there are at most five tags, each
  of 1 to 15 letters and digits. A refused tag list of at most five is reported at its first bad
  tag. The rune classes are whatever package \<open>unicode\<close> says they are.
\<close>

theorem chzzk_settings_accepted_iff:
  "(Chzzk_Validate sp lt dg b = None \<longleftrightarrow>
      length (cz_Title b) \<le> 100
      \<and> cz_CategoryType b \<in> {'''', ''GAME'', ''SPORTS'', ''ETC''}
      \<and> (cz_CategoryType b = '''' \<longleftrightarrow> cz_CategoryID b = [])
      \<and> length (cz_Tags b) \<le> 5
      \<and> (\<forall>t\<in>set (cz_Tags b). length t \<in> {1..15} \<and> (\<forall>r\<in>set t. \<not> sp r \<and> (lt r \<or> dg r))))
    \<and> (Chzzk_Validate sp lt dg (b\<lparr>cz_Tags := []\<rparr>) = None \<and> length (cz_Tags b) \<le> 5
        \<and> Chzzk_Validate sp lt dg b = Some e \<longrightarrow>
      (\<exists>k < length (cz_Tags b). Field e = ''tags['' @ itoa k @ '']''
        \<and> Chzzk_Validate sp lt dg (b\<lparr>cz_Tags := take k (cz_Tags b)\<rparr>) = None
        \<and> Chzzk_Validate sp lt dg (b\<lparr>cz_Tags := [cz_Tags b ! k]\<rparr>) \<noteq> None))"
proof (intro conjI impI)
  have "(t \<noteq> [] \<and> length t \<le> 15) = (length t \<in> {1..15})" for t :: runes
    by (cases t) auto
  then show "Chzzk_Validate sp lt dg b = None \<longleftrightarrow>
      length (cz_Title b) \<le> 100
      \<and> cz_CategoryType b \<in> {'''', ''GAME'', ''SPORTS'', ''ETC''}
      \<and> (cz_CategoryType b = '''' \<longleftrightarrow> cz_CategoryID b = [])
      \<and> length (cz_Tags b) \<le> 5
      \<and> (\<forall>t\<in>set (cz_Tags b). length t \<in> {1..15} \<and> (\<forall>r\<in>set t. \<not> sp r \<and> (lt r \<or> dg r)))"
    by (auto simp: Chzzk_Validate_def invalid_def chzzkCategoryTypes_def validate_tags_None)
next
  assume prems: "Chzzk_Validate sp lt dg (b\<lparr>cz_Tags := []\<rparr>) = None \<and> length (cz_Tags b) \<le> 5
        \<and> Chzzk_Validate sp lt dg b = Some e"
  then have n: "length (cz_Tags b) \<le> 5" by simp
  have tags: "Chzzk_Validate sp lt dg (b\<lparr>cz_Tags := ts\<rparr>) = validate_tags sp lt dg 0 ts" if "length ts \<le> 5" for ts
    using prems that by (auto simp: Chzzk_Validate_def invalid_def split: if_splits)
  from tags [OF n] prems have "validate_tags sp lt dg 0 (cz_Tags b) = Some e" by simp
  from validate_tags_Some [OF this] obtain k where "k < length (cz_Tags b)" "Field e = ''tags['' @ itoa k @ '']''"
    "validate_tags sp lt dg 0 (take k (cz_Tags b)) = None" "validate_tags sp lt dg 0 [cz_Tags b ! k] \<noteq> None" by auto
  then show "\<exists>k < length (cz_Tags b). Field e = ''tags['' @ itoa k @ '']''
        \<and> Chzzk_Validate sp lt dg (b\<lparr>cz_Tags := take k (cz_Tags b)\<rparr>) = None
        \<and> Chzzk_Validate sp lt dg (b\<lparr>cz_Tags := [cz_Tags b ! k]\<rparr>) \<noteq> None"
    using n tags [of "take k (cz_Tags b)"] tags [of "[cz_Tags b ! k]"]
    by (intro exI [of _ k]) (simp del: validate_tags.simps)
qed

definition ascii_space :: "nat \<Rightarrow> bool" where "ascii_space r = (r \<in> {9, 10, 11, 12, 13, 32})"
definition ascii_letter :: "nat \<Rightarrow> bool" where "ascii_letter r = (65 \<le> r \<and> r \<le> 90 \<or> 97 \<le> r \<and> r \<le> 122)"
definition ascii_digit :: "nat \<Rightarrow> bool" where "ascii_digit r = (48 \<le> r \<and> r \<le> 57)"

definition demo_chzzk :: ChzzkBroadcastSettings where
  "demo_chzzk = \<lparr>cz_Title = [72], cz_CategoryType = ''GAME'', cz_CategoryID = [65], cz_Tags = [[65, 49], [66, 32]],
     cz_UpdatedAt = 0\<rparr>"

theorem chzzk_settings_accepted_iff_witness:
  "Chzzk_Validate ascii_space ascii_letter ascii_digit (demo_chzzk\<lparr>cz_Tags := []\<rparr>) = None
    \<and> (\<exists>k < length (cz_Tags demo_chzzk). ''tags[1]'' = ''tags['' @ itoa k @ '']''
        \<and> Chzzk_Validate ascii_space ascii_letter ascii_digit (demo_chzzk\<lparr>cz_Tags := take k (cz_Tags demo_chzzk)\<rparr>) = None)"
proof -
  have ok: "Chzzk_Validate ascii_space ascii_letter ascii_digit (demo_chzzk\<lparr>cz_Tags := []\<rparr>) = None"
    unfolding demo_chzzk_def by code_simp
  have n: "length (cz_Tags demo_chzzk) \<le> 5"
    unfolding demo_chzzk_def by code_simp
  have e: "Chzzk_Validate ascii_space ascii_letter ascii_digit demo_chzzk =
      Some \<lparr>Field = ''tags[1]'', Reason = ''must not contain whitespace''\<rparr>"
    unfolding demo_chzzk_def by code_simp
  from chzzk_settings_accepted_iff [of ascii_space ascii_letter ascii_digit demo_chzzk] ok n e show ?thesis
    by fastforce
qed

end
