(* ===== verification/EgressStatus.thy ===== *)
theory EgressStatus
  imports Prelude "HOL-Library.Sublist"
begin

text \<open>
  The status of one RTMP egress (\<^verbatim>\<open>internal/media/egress.go\<close>): the phase table that every change
  of phase goes through, the snapshot the API reports, the mute state of the attached audio stream,
  the reconnect budget, and the removal of the stream key from error texts. Every method below holds
  \<open>statusMu\<close> while it runs, except \<open>Pause\<close> and \<open>Resume\<close>, which take it twice.
\<close>

subsection \<open>The phase table\<close>

datatype EgressPhase =
    EgressPhaseIdle
  | EgressPhaseStreaming
  | EgressPhasePaused
  | EgressPhaseReconfiguring
  | EgressPhasePausedReconfiguring
  | EgressPhaseReconnecting
  | EgressPhasePausedReconnecting
  | EgressPhaseStopped

datatype egressTransitionEvent =
    egressTransitionProfileReady
  | egressTransitionPause
  | egressTransitionResume
  | egressTransitionReconnect
  | egressTransitionReconfigure
  | egressTransitionStop
  | egressTransitionStartPaused

definition nextEgressPhase :: "EgressPhase \<Rightarrow> egressTransitionEvent \<Rightarrow> EgressPhase \<times> bool" where
  "nextEgressPhase current event = (case event of
     egressTransitionProfileReady \<Rightarrow>
       (if current \<in> {EgressPhaseIdle, EgressPhaseReconfiguring, EgressPhaseReconnecting} then (EgressPhaseStreaming, True)
        else if current \<in> {EgressPhasePausedReconfiguring, EgressPhasePausedReconnecting} then (EgressPhasePaused, True)
        else (current, False))
   | egressTransitionPause \<Rightarrow>
       (if current = EgressPhaseStreaming then (EgressPhasePaused, True)
        else if current = EgressPhaseReconfiguring then (EgressPhasePausedReconfiguring, True)
        else (current, False))
   | egressTransitionResume \<Rightarrow>
       (if current = EgressPhasePaused then (EgressPhaseStreaming, True) else (current, False))
   | egressTransitionReconnect \<Rightarrow>
       (if current \<in> {EgressPhaseIdle, EgressPhaseStreaming, EgressPhaseReconfiguring, EgressPhaseReconnecting}
          then (EgressPhaseReconnecting, True)
        else if current \<in> {EgressPhasePaused, EgressPhasePausedReconfiguring, EgressPhasePausedReconnecting}
          then (EgressPhasePausedReconnecting, True)
        else (current, False))
   | egressTransitionReconfigure \<Rightarrow>
       (if current = EgressPhaseStreaming then (EgressPhaseReconfiguring, True)
        else if current = EgressPhasePaused then (EgressPhasePausedReconfiguring, True)
        else (current, False))
   | egressTransitionStartPaused \<Rightarrow>
       (if current = EgressPhaseIdle then (EgressPhasePausedReconfiguring, True) else (current, False))
   | egressTransitionStop \<Rightarrow> (EgressPhaseStopped, True))"

definition userPausePhase :: "EgressPhase \<Rightarrow> bool" where
  "userPausePhase phase =
    (phase \<in> {EgressPhasePaused, EgressPhasePausedReconfiguring, EgressPhasePausedReconnecting})"

subsection \<open>Stream keys in texts\<close>

text \<open>\<open>strings.LastIndex(url, "/")\<close> splits a URL before and after its last slash.\<close>

definition after_last_slash :: "string \<Rightarrow> string" where
  "after_last_slash url = rev (takeWhile (\<lambda>c. c \<noteq> CHR ''/'') (rev url))"

definition upto_last_slash :: "string \<Rightarrow> string" where
  "upto_last_slash url = rev (dropWhile (\<lambda>c. c \<noteq> CHR ''/'') (rev url))"

definition streamKeyOf :: "string \<Rightarrow> string" where
  "streamKeyOf url = (if CHR ''/'' \<in> set url then after_last_slash url else '''')"

definition maskStreamKey :: "string \<Rightarrow> string" where
  "maskStreamKey url =
    (if CHR ''/'' \<notin> set url \<or> after_last_slash url = '''' then url else upto_last_slash url @ ''****'')"

text \<open>
  \<open>strings.ReplaceAll\<close>: occurrences from the left, not overlapping. An empty \<open>old\<close> is not replaced
  here; the code calls it with the output URL and with a key of at least eight bytes.
\<close>

function ReplaceAll :: "string \<Rightarrow> string \<Rightarrow> string \<Rightarrow> string" where
  "ReplaceAll [] old new = []"
| "ReplaceAll (c # cs) old new =
    (if old = '''' then c # cs
     else if prefix old (c # cs) then new @ ReplaceAll (drop (length old) (c # cs)) old new
     else c # ReplaceAll cs old new)"
  by pat_completeness auto
termination
  by (relation "measure (\<lambda>(s, old, new). length s)") auto

abbreviation minMaskedStreamKey :: nat where "minMaskedStreamKey \<equiv> 8"

definition sanitizeError :: "string \<Rightarrow> string \<Rightarrow> string" where
  "sanitizeError outputURL cause =
    (let message = ReplaceAll cause outputURL (maskStreamKey outputURL);
         key = streamKeyOf outputURL in
     if length key \<ge> minMaskedStreamKey then ReplaceAll message key ''****'' else message)"

subsection \<open>The reconnect budget\<close>

record reconnectPolicy =
  maxAttempts :: nat
  maxElapsed :: duration
  minBackoff :: duration
  maxBackoff :: duration

definition defaultReconnectPolicy :: reconnectPolicy where
  "defaultReconnectPolicy = \<lparr>maxAttempts = 6, maxElapsed = 90 * Second, minBackoff = Second, maxBackoff = 30 * Second\<rparr>"

text \<open>\<open>firstFailed = None\<close> is the zero time.\<close>

record reconnectBudget =
  budget_policy :: reconnectPolicy
  firstFailed :: "instant option"
  attempts :: nat

definition newReconnectBudget :: "reconnectPolicy \<Rightarrow> reconnectBudget" where
  "newReconnectBudget p = \<lparr>budget_policy = p, firstFailed = None, attempts = 0\<rparr>"

definition noteFailure :: "instant \<Rightarrow> reconnectBudget \<Rightarrow> reconnectBudget" where
  "noteFailure now b = (if firstFailed b = None then b\<lparr>firstFailed := Some now\<rparr> else b)"

definition deadline :: "reconnectBudget \<Rightarrow> instant option" where
  "deadline b = map_option (\<lambda>f. f + maxElapsed (budget_policy b)) (firstFailed b)"

definition spent :: "instant \<Rightarrow> reconnectBudget \<Rightarrow> bool" where
  "spent now b = (case deadline b of None \<Rightarrow> True
    | Some d \<Rightarrow> attempts b \<ge> maxAttempts (budget_policy b) \<or> \<not> now < d)"

text \<open>The doubling loop of \<open>nextDelay\<close>, with \<open>n\<close> rounds to go.\<close>

fun backoff_loop :: "nat \<Rightarrow> duration \<Rightarrow> duration \<Rightarrow> duration" where
  "backoff_loop 0 mx delay = delay"
| "backoff_loop (Suc n) mx delay = (let delay = delay * 2 in if delay \<ge> mx then mx else backoff_loop n mx delay)"

definition nextDelay :: "instant \<Rightarrow> reconnectBudget \<Rightarrow> duration option" where
  "nextDelay now b =
    (if spent now b then None
     else let delay = backoff_loop (attempts b) (maxBackoff (budget_policy b)) (minBackoff (budget_policy b));
              remaining = the (deadline b) - now in
          Some (if remaining < delay then remaining else delay))"

definition beginAttempt :: "instant \<Rightarrow> reconnectBudget \<Rightarrow> bool \<times> reconnectBudget" where
  "beginAttempt now b = (if spent now b then (False, b) else (True, b\<lparr>attempts := Suc (attempts b)\<rparr>))"

definition budget_reset :: "reconnectBudget \<Rightarrow> reconnectBudget" where
  "budget_reset b = b\<lparr>firstFailed := None, attempts := 0\<rparr>"

subsection \<open>The status snapshot and its changes\<close>

record EgressStatus =
  Phase :: EgressPhase
  StartedAt :: "instant option"
  StoppedAt :: "instant option"
  UpdatedAt :: instant
  LastError :: "string option"
  StopReason :: "string option"
  ReconnectAttempts :: nat
  Width :: nat
  Height :: nat
  FPS :: int
  PausedAt :: "instant option"
  InputRecovering :: bool

abbreviation EgressStopReasonReconnectExhausted :: string where
  "EgressStopReasonReconnectExhausted \<equiv> ''rtmp_reconnect_exhausted''"
abbreviation EgressStopReasonReconnectInputTimeout :: string where
  "EgressStopReasonReconnectInputTimeout \<equiv> ''reconnect_input_timeout''"

record egressTransition =
  event :: egressTransitionEvent
  tr_width :: nat
  tr_height :: nat
  tr_fps :: int
  cause :: "string option"
  reason :: string
  reconnectAttempts :: nat

definition plain_transition :: "egressTransitionEvent \<Rightarrow> egressTransition" where
  "plain_transition ev = \<lparr>event = ev, tr_width = 0, tr_height = 0, tr_fps = 0, cause = None, reason = '''',
     reconnectAttempts = 0\<rparr>"

text \<open>
  The egress as \<open>statusMu\<close> guards it. \<open>mute\<close> is the mute flag of the attached audio stream, \<open>None\<close>
  when no stream is attached (then \<open>SetMuted\<close> finds nothing); \<open>slate\<close> is the size of the cached
  slate.
\<close>

record egress_core =
  outputURL :: string
  status :: EgressStatus
  inputStalled :: bool
  mute :: "bool option"
  slate :: "(nat \<times> nat) option"

definition new_status :: "instant \<Rightarrow> EgressStatus" where
  "new_status now = \<lparr>Phase = EgressPhaseIdle, StartedAt = None, StoppedAt = None, UpdatedAt = now, LastError = None,
     StopReason = None, ReconnectAttempts = 0, Width = 0, Height = 0, FPS = 0, PausedAt = None, InputRecovering = False\<rparr>"

definition new_core :: "instant \<Rightarrow> string \<Rightarrow> egress_core" where
  "new_core now url = \<lparr>outputURL = url, status = new_status now, inputStalled = False, mute = None, slate = None\<rparr>"

definition note_error :: "string \<Rightarrow> string option \<Rightarrow> EgressStatus \<Rightarrow> EgressStatus" where
  "note_error url c st = (case c of None \<Rightarrow> st | Some m \<Rightarrow> st\<lparr>LastError := Some (sanitizeError url m)\<rparr>)"

definition record_change :: "string \<Rightarrow> instant \<Rightarrow> egressTransition \<Rightarrow> EgressStatus \<Rightarrow> EgressStatus" where
  "record_change url now ch st = (case event ch of
     egressTransitionProfileReady \<Rightarrow>
       st\<lparr>Width := tr_width ch, Height := tr_height ch, FPS := tr_fps ch,
          StartedAt := (if StartedAt st = None then Some now else StartedAt st)\<rparr>
   | egressTransitionPause \<Rightarrow> st\<lparr>PausedAt := Some now\<rparr>
   | egressTransitionStartPaused \<Rightarrow> st\<lparr>PausedAt := Some now\<rparr>
   | egressTransitionReconnect \<Rightarrow> note_error url (cause ch) (st\<lparr>ReconnectAttempts := reconnectAttempts ch\<rparr>)
   | egressTransitionStop \<Rightarrow>
       note_error url (cause ch)
         (st\<lparr>StoppedAt := (if StoppedAt st = None then Some now else StoppedAt st),
             StopReason := (if reason ch \<noteq> '''' \<and> StopReason st = None then Some (reason ch) else StopReason st)\<rparr>)
   | _ \<Rightarrow> st)"

definition transition :: "instant \<Rightarrow> egressTransition \<Rightarrow> egress_core \<Rightarrow> bool \<times> egress_core" where
  "transition now ch e =
    (let current = Phase (status e); (nxt, allowed) = nextEgressPhase current (event ch) in
     if \<not> allowed then (False, e)
     else if current = EgressPhaseStopped \<and> event ch = egressTransitionStop then (False, e)
     else (True, e\<lparr>status := record_change (outputURL e) now ch ((status e)\<lparr>Phase := nxt, UpdatedAt := now\<rparr>)\<rparr>))"

definition audioShouldMuteLocked :: "egress_core \<Rightarrow> bool" where
  "audioShouldMuteLocked e = (InputRecovering (status e) \<or> userPausePhase (Phase (status e)) \<or> inputStalled e)"

definition applyAudioMuteLocked :: "egress_core \<Rightarrow> egress_core" where
  "applyAudioMuteLocked e = e\<lparr>mute := map_option (\<lambda>_. audioShouldMuteLocked e) (mute e)\<rparr>"

definition attachAudio :: "egress_core \<Rightarrow> egress_core" where
  "attachAudio e = e\<lparr>mute := Some (audioShouldMuteLocked e)\<rparr>"

definition Detach :: "egress_core \<Rightarrow> egress_core" where
  "Detach e = e\<lparr>mute := None\<rparr>"

definition clearCancellationSlate :: "egress_core \<Rightarrow> egress_core" where
  "clearCancellationSlate e = e\<lparr>slate := None\<rparr>"

definition setStreaming :: "instant \<Rightarrow> nat \<Rightarrow> nat \<Rightarrow> int \<Rightarrow> egress_core \<Rightarrow> egress_core" where
  "setStreaming now w h fps e =
    snd (transition now ((plain_transition egressTransitionProfileReady)\<lparr>tr_width := w, tr_height := h, tr_fps := fps\<rparr>) e)"

text \<open>\<open>Pause\<close> and \<open>Resume\<close> run their two critical sections without another call in between.\<close>

definition Pause :: "instant \<Rightarrow> egress_core \<Rightarrow> bool \<times> egress_core" where
  "Pause now e = (let (ok, e) = transition now (plain_transition egressTransitionPause) e in
     if ok then (True, applyAudioMuteLocked e) else (False, e))"

definition Resume :: "instant \<Rightarrow> egress_core \<Rightarrow> bool \<times> egress_core" where
  "Resume now e = (let (ok, e) = transition now (plain_transition egressTransitionResume) e in
     if ok then (True, applyAudioMuteLocked e) else (False, e))"

definition StartPaused :: "instant \<Rightarrow> egress_core \<Rightarrow> bool \<times> egress_core" where
  "StartPaused now e = transition now (plain_transition egressTransitionStartPaused) e"

definition BeginInputRecovery :: "instant \<Rightarrow> egress_core \<Rightarrow> bool \<times> egress_core" where
  "BeginInputRecovery now e =
    (if Phase (status e) = EgressPhaseStopped \<or> InputRecovering (status e) then (False, e)
     else (True, applyAudioMuteLocked (e\<lparr>status := (status e)\<lparr>InputRecovering := True, UpdatedAt := now\<rparr>\<rparr>)))"

definition EndInputRecovery :: "instant \<Rightarrow> egress_core \<Rightarrow> bool \<times> egress_core" where
  "EndInputRecovery now e =
    (if \<not> InputRecovering (status e) then (False, e)
     else (True, applyAudioMuteLocked (e\<lparr>status := (status e)\<lparr>InputRecovering := False, UpdatedAt := now\<rparr>\<rparr>)))"

definition beginInputStall :: "egress_core \<Rightarrow> egress_core" where
  "beginInputStall e = applyAudioMuteLocked (e\<lparr>inputStalled := True\<rparr>)"

definition endInputStall :: "egress_core \<Rightarrow> egress_core" where
  "endInputStall e = applyAudioMuteLocked (e\<lparr>inputStalled := False\<rparr>)"

definition Stop :: "instant \<Rightarrow> egress_core \<Rightarrow> egress_core" where
  "Stop now e = clearCancellationSlate (snd (transition now (plain_transition egressTransitionStop) e))"

definition StopWithReason :: "instant \<Rightarrow> string \<Rightarrow> egress_core \<Rightarrow> egress_core" where
  "StopWithReason now r e =
    clearCancellationSlate (snd (transition now ((plain_transition egressTransitionStop)\<lparr>reason := r\<rparr>) e))"

text \<open>The Prometheus counters of \<open>StopWithError\<close> are left out.\<close>

definition StopWithError :: "instant \<Rightarrow> string \<Rightarrow> string \<Rightarrow> egress_core \<Rightarrow> bool \<times> egress_core" where
  "StopWithError now r c e =
    (let (ok, e) = transition now ((plain_transition egressTransitionStop)\<lparr>reason := r, cause := Some c\<rparr>) e in
     if ok then (True, clearCancellationSlate e) else (False, e))"

definition noteReconnect :: "instant \<Rightarrow> string \<Rightarrow> nat \<Rightarrow> egress_core \<Rightarrow> egress_core" where
  "noteReconnect now c n e =
    snd (transition now ((plain_transition egressTransitionReconnect)\<lparr>cause := Some c, reconnectAttempts := n\<rparr>) e)"

definition setReconnectAttempts :: "instant \<Rightarrow> nat \<Rightarrow> egress_core \<Rightarrow> egress_core" where
  "setReconnectAttempts now n e =
    (if Phase (status e) = EgressPhaseStopped then e
     else e\<lparr>status := (status e)\<lparr>ReconnectAttempts := n, UpdatedAt := now\<rparr>\<rparr>)"

definition resetReconnectStatus :: "instant \<Rightarrow> egress_core \<Rightarrow> egress_core" where
  "resetReconnectStatus now e =
    (if Phase (status e) = EgressPhaseStopped then e
     else e\<lparr>status := (status e)\<lparr>ReconnectAttempts := 0, LastError := None, UpdatedAt := now\<rparr>\<rparr>)"

definition beginReconfiguring :: "instant \<Rightarrow> egress_core \<Rightarrow> egress_core" where
  "beginReconfiguring now e = clearCancellationSlate (snd (transition now (plain_transition egressTransitionReconfigure) e))"

definition shouldWriteCancellationSlate :: "egress_core \<Rightarrow> bool" where
  "shouldWriteCancellationSlate e = (Phase (status e) = EgressPhasePaused \<or> InputRecovering (status e))"

text \<open>
  \<open>waitForReconnect\<close> with the answers of its surroundings: \<open>now\<close> and \<open>later\<close> are the clock before
  and after the wait, \<open>waited\<close> is what \<open>waitBackoff\<close> returned, \<open>cancelled1\<close> and \<open>cancelled2\<close> whether
  the context was already cancelled at the two points that ask.
\<close>

definition waitForReconnect ::
  "instant \<Rightarrow> instant \<Rightarrow> bool \<Rightarrow> bool \<Rightarrow> bool \<Rightarrow> string \<Rightarrow> reconnectBudget \<Rightarrow> egress_core \<Rightarrow> bool \<times> reconnectBudget \<times> egress_core" where
  "waitForReconnect now later waited cancelled1 cancelled2 c b e =
    (let b = noteFailure now b; e = noteReconnect now c (attempts b) e in
     case nextDelay now b of
       None \<Rightarrow> (False, b, if cancelled1 then e else snd (StopWithError now EgressStopReasonReconnectExhausted c e))
     | Some _ \<Rightarrow>
         if \<not> waited then (False, b, e)
         else let (ok, b) = beginAttempt later b in
           if \<not> ok then (False, b, if cancelled2 then e else snd (StopWithError later EgressStopReasonReconnectExhausted c e))
           else (True, b, setReconnectAttempts later (attempts b) e))"

subsection \<open>Every change of an egress as one event\<close>

text \<open>
  \<open>Pause\<close> and \<open>Resume\<close> release \<open>statusMu\<close> between the change of phase and the mute call, so each is
  two events; \<open>pending\<close> counts the callers in between. \<open>StartPaused\<close> runs before the egress does and
  belongs to the initial states.
\<close>

record egress_sys =
  core :: egress_core
  pending :: nat

datatype egress_event =
    EvPause instant
  | EvResume instant
  | EvApplyMute
  | EvProfileReady instant nat nat int
  | EvReconnect instant string nat
  | EvReconfigure instant
  | EvStop instant string "string option"
  | EvBeginRecovery instant
  | EvEndRecovery instant
  | EvBeginStall
  | EvEndStall
  | EvAttach
  | EvDetach
  | EvAttempts instant nat
  | EvStable instant

definition begin_two_step :: "bool \<times> egress_core \<Rightarrow> egress_sys \<Rightarrow> egress_sys" where
  "begin_two_step r s = s\<lparr>core := snd r, pending := pending s + (if fst r then 1 else 0)\<rparr>"

fun egress_step :: "egress_sys \<Rightarrow> egress_event \<Rightarrow> egress_sys" where
  "egress_step s (EvPause now) = begin_two_step (transition now (plain_transition egressTransitionPause) (core s)) s"
| "egress_step s (EvResume now) = begin_two_step (transition now (plain_transition egressTransitionResume) (core s)) s"
| "egress_step s EvApplyMute =
    (if pending s = 0 then s else s\<lparr>core := applyAudioMuteLocked (core s), pending := pending s - 1\<rparr>)"
| "egress_step s (EvProfileReady now w h fps) = s\<lparr>core := setStreaming now w h fps (core s)\<rparr>"
| "egress_step s (EvReconnect now c n) = s\<lparr>core := noteReconnect now c n (core s)\<rparr>"
| "egress_step s (EvReconfigure now) = s\<lparr>core := beginReconfiguring now (core s)\<rparr>"
| "egress_step s (EvStop now r c) = s\<lparr>core := (case c of
      Some c \<Rightarrow> snd (StopWithError now r c (core s))
    | None \<Rightarrow> if r = '''' then Stop now (core s) else StopWithReason now r (core s))\<rparr>"
| "egress_step s (EvBeginRecovery now) = s\<lparr>core := snd (BeginInputRecovery now (core s))\<rparr>"
| "egress_step s (EvEndRecovery now) = s\<lparr>core := snd (EndInputRecovery now (core s))\<rparr>"
| "egress_step s EvBeginStall = s\<lparr>core := beginInputStall (core s)\<rparr>"
| "egress_step s EvEndStall = s\<lparr>core := endInputStall (core s)\<rparr>"
| "egress_step s EvAttach = s\<lparr>core := attachAudio (core s)\<rparr>"
| "egress_step s EvDetach = s\<lparr>core := Detach (core s)\<rparr>"
| "egress_step s (EvAttempts now n) = s\<lparr>core := setReconnectAttempts now n (core s)\<rparr>"
| "egress_step s (EvStable now) = s\<lparr>core := resetReconnectStatus now (core s)\<rparr>"

definition run_egress :: "egress_sys \<Rightarrow> egress_event list \<Rightarrow> egress_sys" where
  "run_egress = foldl egress_step"

definition fresh_egress :: "instant \<Rightarrow> string \<Rightarrow> bool \<Rightarrow> egress_sys" where
  "fresh_egress now url startPaused =
    \<lparr>core = (if startPaused then snd (StartPaused now (new_core now url)) else new_core now url), pending = 0\<rparr>"

subsection \<open>Facts on single changes\<close>

lemmas core_defs = setStreaming_def noteReconnect_def beginReconfiguring_def Stop_def StopWithReason_def
  StopWithError_def BeginInputRecovery_def EndInputRecovery_def beginInputStall_def endInputStall_def
  attachAudio_def Detach_def setReconnectAttempts_def resetReconnectStatus_def clearCancellationSlate_def
  applyAudioMuteLocked_def begin_two_step_def

lemma record_change_frame [simp]:
  "Phase (record_change url now ch st) = Phase st"
  "InputRecovering (record_change url now ch st) = InputRecovering st"
  by (auto simp: record_change_def note_error_def split: egressTransitionEvent.splits option.splits)

lemma transition_alt:
  "transition now ch e =
    (if snd (nextEgressPhase (Phase (status e)) (event ch)) \<and> Phase (status e) \<noteq> EgressPhaseStopped
     then (True, e\<lparr>status := record_change (outputURL e) now ch
       ((status e)\<lparr>Phase := fst (nextEgressPhase (Phase (status e)) (event ch)), UpdatedAt := now\<rparr>)\<rparr>)
     else (False, e))"
  by (cases "event ch")
    (auto simp: transition_def Let_def nextEgressPhase_def split: prod.splits)

lemma transition_frame [simp]:
  "inputStalled (snd (transition now ch e)) = inputStalled e"
  "mute (snd (transition now ch e)) = mute e"
  "outputURL (snd (transition now ch e)) = outputURL e"
  "InputRecovering (status (snd (transition now ch e))) = InputRecovering (status e)"
  by (simp_all add: transition_alt)

lemma transition_Phase:
  "Phase (status (snd (transition now ch e))) = fst (nextEgressPhase (Phase (status e)) (event ch))"
  by (auto simp: transition_alt nextEgressPhase_def split: egressTransitionEvent.splits)

lemma transition_stopped:
  "Phase (status e) = EgressPhaseStopped \<Longrightarrow> transition now ch e = (False, e)"
  by (simp add: transition_alt)

lemma next_keeps_pause:
  "ev \<notin> {egressTransitionPause, egressTransitionResume, egressTransitionStartPaused, egressTransitionStop} \<Longrightarrow>
    userPausePhase (fst (nextEgressPhase p ev)) = userPausePhase p"
  by (cases ev; cases p) (simp_all add: nextEgressPhase_def userPausePhase_def)

lemma plain_transition_event [simp]: "event (plain_transition ev) = ev"
  by (simp add: plain_transition_def)

subsection \<open>Muting follows the intent\<close>

definition mute_ok :: "egress_sys \<Rightarrow> bool" where
  "mute_ok s = (pending s = 0 \<longrightarrow> Phase (status (core s)) \<noteq> EgressPhaseStopped \<longrightarrow>
     mute (core s) \<noteq> None \<longrightarrow> mute (core s) = Some (audioShouldMuteLocked (core s)))"

lemma quiet_transition_mute_ok:
  assumes "mute_ok s" and "event ch \<in> {egressTransitionProfileReady, egressTransitionReconnect, egressTransitionReconfigure}"
  shows "mute_ok (s\<lparr>core := snd (transition now ch (core s))\<rparr>)"
proof -
  have "userPausePhase (Phase (status (snd (transition now ch (core s))))) = userPausePhase (Phase (status (core s)))"
    using assms(2) next_keeps_pause [of "event ch"] by (auto simp: transition_Phase)
  moreover have "Phase (status (core s)) = EgressPhaseStopped \<Longrightarrow>
      Phase (status (snd (transition now ch (core s)))) = EgressPhaseStopped"
    by (simp add: transition_stopped)
  ultimately show ?thesis
    using assms(1) by (auto simp: mute_ok_def audioShouldMuteLocked_def)
qed

lemma stop_mute_ok: "event ch = egressTransitionStop \<Longrightarrow> mute_ok (s\<lparr>core := snd (transition now ch e)\<rparr>)"
  by (simp add: mute_ok_def transition_Phase nextEgressPhase_def)

lemma slate_mute_ok [simp]: "mute_ok (s\<lparr>core := e\<lparr>slate := x\<rparr>\<rparr>) = mute_ok (s\<lparr>core := e\<rparr>)"
  by (simp add: mute_ok_def audioShouldMuteLocked_def)

lemma two_step_mute_ok:
  assumes "mute_ok s"
  shows "mute_ok (begin_two_step (transition now ch (core s)) s)"
  using assms by (auto simp: mute_ok_def begin_two_step_def transition_alt audioShouldMuteLocked_def)

lemma egress_step_mute_ok:
  assumes "mute_ok s"
  shows "mute_ok (egress_step s ev)"
proof (cases ev)
  case (EvStop now r c)
  then show ?thesis
    using stop_mute_ok [of "(plain_transition egressTransitionStop)\<lparr>reason := r, cause := c\<rparr>" now "core s" s]
      stop_mute_ok [of "(plain_transition egressTransitionStop)\<lparr>reason := r\<rparr>" now "core s" s]
      stop_mute_ok [of "plain_transition egressTransitionStop" now "core s" s]
    by (auto simp: core_defs split: option.splits prod.splits)
next
  case (EvProfileReady now w h fps)
  with quiet_transition_mute_ok [OF assms] show ?thesis by (simp add: setStreaming_def)
next
  case (EvReconnect now c n)
  with quiet_transition_mute_ok [OF assms] show ?thesis by (simp add: noteReconnect_def)
next
  case (EvReconfigure now)
  with quiet_transition_mute_ok [OF assms] show ?thesis
    by (simp add: beginReconfiguring_def clearCancellationSlate_def)
qed (use assms two_step_mute_ok in \<open>auto simp: core_defs mute_ok_def audioShouldMuteLocked_def split: if_splits\<close>)

interpretation egress_mute: guarded_state egress_step mute_ok "\<lambda>_. True"
  by unfold_locales (rule egress_step_mute_ok)

subsection \<open>A stopped egress stays as it stopped\<close>

definition frozen_view :: "EgressStatus \<Rightarrow> EgressPhase \<times> instant option \<times> string option \<times> string option \<times> nat \<times> instant option" where
  "frozen_view st = (Phase st, StoppedAt st, StopReason st, LastError st, ReconnectAttempts st, StartedAt st)"

lemma stopped_step:
  assumes "Phase (status (core s)) = EgressPhaseStopped"
  shows "frozen_view (status (core (egress_step s ev))) = frozen_view (status (core s))"
  using assms
  by (cases ev) (auto simp: core_defs transition_stopped frozen_view_def split: option.splits prod.splits)

lemma stopped_run:
  assumes "Phase (status (core s)) = EgressPhaseStopped"
  shows "frozen_view (status (core (run_egress s evs))) = frozen_view (status (core s))"
  using assms unfolding run_egress_def
proof (induction evs arbitrary: s)
  case (Cons ev evs)
  have "frozen_view (status (core (egress_step s ev))) = frozen_view (status (core s))"
    using Cons.prems by (rule stopped_step)
  moreover from this have "Phase (status (core (egress_step s ev))) = EgressPhaseStopped"
    using Cons.prems by (simp add: frozen_view_def)
  ultimately show ?case using Cons.IH by simp
qed simp

lemma step_keeps_pause:
  assumes "\<forall>t r c. ev \<noteq> EvPause t \<and> ev \<noteq> EvResume t \<and> ev \<noteq> EvStop t r c"
  shows "userPausePhase (Phase (status (core (egress_step s ev)))) = userPausePhase (Phase (status (core s)))"
  using assms by (cases ev) (auto simp: core_defs transition_Phase next_keeps_pause)

lemma step_stops:
  "Phase (status (core (egress_step s (EvStop t r c)))) = EgressPhaseStopped"
  by (simp add: core_defs transition_alt nextEgressPhase_def plain_transition_def split: option.splits)

text \<open>
  Property C10. Whatever the callers and the writer of one egress do, in any order and with any
  interleaving of the two halves of \<open>Pause\<close> and \<open>Resume\<close>: once no such call is half done, the audio
  stream attached to an egress that has not stopped is muted exactly while the user has paused it,
  the input is being recovered or the input has stalled. Nothing but \<open>Pause\<close>, \<open>Resume\<close> and a stop
  changes whether the user has paused it, in particular no reconnect and no change of resolution.
  After a stop the phase, the time and the reason of the stop, the last error and the attempts never
  change again.
\<close>

theorem egress_keeps_pause_and_stop:
  "(let s = run_egress (fresh_egress t0 url sp) evs in
      (pending s = 0 \<and> Phase (status (core s)) \<noteq> EgressPhaseStopped \<and> mute (core s) \<noteq> None \<longrightarrow>
        mute (core s) = Some (InputRecovering (status (core s)) \<or> userPausePhase (Phase (status (core s)))
          \<or> inputStalled (core s)))
      \<and> ((\<forall>t r c. ev \<noteq> EvPause t \<and> ev \<noteq> EvResume t \<and> ev \<noteq> EvStop t r c) \<longrightarrow>
          userPausePhase (Phase (status (core (egress_step s ev)))) = userPausePhase (Phase (status (core s))))
      \<and> (let z = egress_step s (EvStop t r c) in
          Phase (status (core z)) = EgressPhaseStopped
          \<and> frozen_view (status (core (run_egress z evs2))) = frozen_view (status (core z))))"
proof -
  have "mute_ok (fresh_egress t0 url sp)"
    by (simp add: mute_ok_def fresh_egress_def StartPaused_def new_core_def)
  then have "mute_ok (run_egress (fresh_egress t0 url sp) evs)"
    unfolding run_egress_def by (rule egress_mute.run_inv) (simp add: list_all_iff)
  then show ?thesis
    unfolding Let_def using step_keeps_pause step_stops stopped_run [OF step_stops]
    by (auto simp: mute_ok_def audioShouldMuteLocked_def)
qed

theorem egress_keeps_pause_and_stop_witness:
  "mute (core (run_egress (fresh_egress 0 ''rtmp://h/a/key12345'' False)
     [EvAttach, EvProfileReady 1 1280 720 30, EvPause 2, EvReconnect 3 ''e'' 0, EvApplyMute])) = Some True"
proof -
  let ?s = "run_egress (fresh_egress 0 ''rtmp://h/a/key12345'' False)
     [EvAttach, EvProfileReady 1 1280 720 30, EvPause 2, EvReconnect 3 ''e'' 0, EvApplyMute]"
  have "pending ?s = 0 \<and> Phase (status (core ?s)) = EgressPhasePausedReconnecting \<and> mute (core ?s) \<noteq> None"
    by code_simp
  then show ?thesis
    using egress_keeps_pause_and_stop [of 0 "''rtmp://h/a/key12345''" False
        "[EvAttach, EvProfileReady 1 1280 720 30, EvPause 2, EvReconnect 3 ''e'' 0, EvApplyMute]"]
    by (simp add: Let_def userPausePhase_def)
qed

subsection \<open>The reconnect budget is kept\<close>

lemma backoff_loop_closed:
  assumes "0 < d" and "d \<le> mx"
  shows "backoff_loop n mx d = min mx (d * 2 ^ n)"
  using assms
proof (induction n arbitrary: d)
  case (Suc n)
  show ?case
  proof (cases "d * 2 \<ge> mx")
    case True
    have "d * 2 * 1 \<le> d * 2 * (2 ^ n :: int)"
      using Suc.prems by (intro mult_left_mono) auto
    with True show ?thesis by (simp add: Let_def mult.assoc)
  next
    case False
    with Suc.IH [of "d * 2"] Suc.prems show ?thesis by (simp add: Let_def mult.assoc)
  qed
qed simp

definition policy_ok :: "reconnectPolicy \<Rightarrow> bool" where
  "policy_ok p = (0 < minBackoff p \<and> minBackoff p \<le> maxBackoff p)"

lemma nextDelay_bounds:
  assumes "policy_ok (budget_policy b)" and "nextDelay now b = Some d"
  shows "\<exists>f. firstFailed b = Some f \<and> 0 < d \<and> now + d \<le> f + maxElapsed (budget_policy b)
    \<and> d \<le> min (maxBackoff (budget_policy b)) (minBackoff (budget_policy b) * 2 ^ attempts b)
    \<and> attempts b < maxAttempts (budget_policy b)"
proof -
  let ?p = "budget_policy b"
  have ns: "\<not> spent now b" using assms(2) by (auto simp: nextDelay_def split: if_splits)
  then obtain f where f: "firstFailed b = Some f" and lt: "now < f + maxElapsed ?p" "attempts b < maxAttempts ?p"
    by (auto simp: spent_def deadline_def split: option.splits)
  have "backoff_loop (attempts b) (maxBackoff ?p) (minBackoff ?p) = min (maxBackoff ?p) (minBackoff ?p * 2 ^ attempts b)"
    using assms(1) by (intro backoff_loop_closed) (auto simp: policy_ok_def)
  moreover have "0 < min (maxBackoff ?p) (minBackoff ?p * 2 ^ attempts b)"
    using assms(1) by (auto simp: policy_ok_def)
  ultimately show ?thesis
    using ns f lt assms(2) by (auto simp: nextDelay_def deadline_def Let_def split: if_splits)
qed

text \<open>
  One failure after another with no stable generation in between: each element holds the clock
  before and after the wait, the answers of \<open>waitForReconnect\<close>'s surroundings and the error. The
  loop of \<open>Run\<close> goes on while the answer is true.
\<close>

type_synonym failure_round = "instant \<times> instant \<times> bool \<times> bool \<times> bool \<times> string"

fun failures :: "failure_round list \<Rightarrow> reconnectBudget \<Rightarrow> egress_core \<Rightarrow> nat \<times> reconnectBudget \<times> egress_core" where
  "failures [] b e = (0, b, e)"
| "failures ((now, later, waited, c1, c2, err) # fs) b e =
    (let (ok, b, e) = waitForReconnect now later waited c1 c2 err b e in
     if ok then let (n, b, e) = failures fs b e in (Suc n, b, e) else (0, b, e))"

lemma noteFailure_facts [simp]:
  "attempts (noteFailure now b) = attempts b" "budget_policy (noteFailure now b) = budget_policy b"
  "firstFailed (noteFailure now b) = Some (case firstFailed b of None \<Rightarrow> now | Some f \<Rightarrow> f)"
  by (auto simp: noteFailure_def split: option.splits)

lemma waitForReconnect_True:
  assumes "waitForReconnect now later waited c1 c2 err b e = (True, b', e')"
  shows "budget_policy b' = budget_policy b \<and> attempts b' = Suc (attempts b)
    \<and> attempts b' \<le> maxAttempts (budget_policy b)
    \<and> firstFailed b' = Some (case firstFailed b of None \<Rightarrow> now | Some f \<Rightarrow> f)
    \<and> later < the (firstFailed b') + maxElapsed (budget_policy b)"
  using assms
  by (auto simp: waitForReconnect_def beginAttempt_def spent_def deadline_def Let_def split: option.splits if_splits)

lemma stop_error_Phase: "Phase (status (snd (StopWithError now r c e))) = EgressPhaseStopped"
  by (simp add: StopWithError_def clearCancellationSlate_def transition_alt nextEgressPhase_def plain_transition_def)

lemma waitForReconnect_False:
  assumes "waitForReconnect now later waited c1 c2 err b e = (False, b', e')" and "waited" "\<not> c1" "\<not> c2"
  shows "Phase (status e') = EgressPhaseStopped"
  using assms stop_error_Phase
  by (auto simp: waitForReconnect_def Let_def split: option.splits if_splits prod.splits)

lemma failures_bound:
  assumes "failures fs b e = (n, b', e')"
  shows "n \<le> maxAttempts (budget_policy b) - attempts b"
  using assms
proof (induction fs b e arbitrary: n b' e' rule: failures.induct)
  case (2 now later waited c1 c2 err fs b e)
  obtain ok b1 e1 where w: "waitForReconnect now later waited c1 c2 err b e = (ok, b1, e1)"
    by (cases "waitForReconnect now later waited c1 c2 err b e") auto
  show ?case
  proof (cases ok)
    case True
    obtain m b2 e2 where r: "failures fs b1 e1 = (m, b2, e2)" by (cases "failures fs b1 e1") auto
    from "2.IH" [OF w [symmetric] refl refl True r] waitForReconnect_True w True "2.prems" r
    show ?thesis by fastforce
  qed (use "2.prems" w in auto)
qed simp

lemma failures_first:
  assumes "failures fs b e = (n, b', e')" and "firstFailed b = Some f" and "0 < n"
  shows "firstFailed b' = Some f \<and> fst (snd (fs ! (n - 1))) < f + maxElapsed (budget_policy b)"
  using assms
proof (induction fs b e arbitrary: n b' e' rule: failures.induct)
  case (2 now later waited c1 c2 err fs b e)
  obtain ok b1 e1 where w: "waitForReconnect now later waited c1 c2 err b e = (ok, b1, e1)"
    by (cases "waitForReconnect now later waited c1 c2 err b e") auto
  with "2.prems" have True: ok by (auto split: if_splits)
  obtain m b2 e2 where r: "failures fs b1 e1 = (m, b2, e2)" by (cases "failures fs b1 e1") auto
  have n: "n = Suc m" "b' = b2" using "2.prems" w True r by auto
  have t: "firstFailed b1 = Some f" "budget_policy b1 = budget_policy b" "later < f + maxElapsed (budget_policy b)"
    using waitForReconnect_True [of now later waited c1 c2 err b e b1 e1] w True "2.prems"(2) by auto
  show ?case
  proof (cases m)
    case 0
    have "firstFailed b2 = Some f"
    proof (cases fs)
      case Nil
      with r t show ?thesis by simp
    next
      case (Cons x xs)
      obtain now' later' waited' c1' c2' err' where x: "x = (now', later', waited', c1', c2', err')" by (cases x) auto
      from r Cons x 0 have "\<exists>e3. waitForReconnect now' later' waited' c1' c2' err' b1 e1 = (False, b2, e3)"
        by (auto split: prod.splits if_splits)
      with t show ?thesis
        by (auto simp: waitForReconnect_def beginAttempt_def Let_def split: option.splits if_splits prod.splits)
    qed
    with 0 n t show ?thesis by simp
  next
    case (Suc k)
    from "2.IH" [OF w [symmetric] refl refl True r t(1)] Suc n t show ?thesis by simp
  qed
qed simp

lemma failures_noteFailure:
  assumes "fs \<noteq> []"
  shows "failures fs (noteFailure (fst (hd fs)) b) e = failures fs b e"
proof -
  have "noteFailure now (noteFailure now b) = noteFailure now b" for now
    by (simp add: noteFailure_def)
  then have "waitForReconnect now later waited c1 c2 err (noteFailure now b) e = waitForReconnect now later waited c1 c2 err b e"
    for now later waited c1 c2 err
    by (simp only: waitForReconnect_def noteFailure_facts)
  with assms show ?thesis by (cases fs) auto
qed

lemma failures_stop:
  assumes "failures fs b e = (n, b', e')" and "n < length fs" and "fs ! n = (now, later, True, False, False, err)"
  shows "Phase (status e') = EgressPhaseStopped"
  using assms
proof (induction fs b e arbitrary: n b' e' rule: failures.induct)
  case (2 now' later' waited c1 c2 err' fs b e)
  obtain ok b1 e1 where w: "waitForReconnect now' later' waited c1 c2 err' b e = (ok, b1, e1)"
    by (cases "waitForReconnect now' later' waited c1 c2 err' b e") auto
  show ?case
  proof (cases ok)
    case True
    obtain m b2 e2 where r: "failures fs b1 e1 = (m, b2, e2)" by (cases "failures fs b1 e1") auto
    with "2.prems" w True show ?thesis
      using "2.IH" [OF w [symmetric] refl refl True r] by auto
  next
    case False
    with "2.prems" w waitForReconnect_False show ?thesis by auto
  qed
qed simp

text \<open>
  Property C12. An egress that keeps failing is restarted at most \<open>maxAttempts\<close> times (six by
  default), the last time before \<open>maxElapsed\<close> after its first failure, whatever the clock and the
  errors do. Each wait is positive, at most the doubled backoff capped at \<open>maxBackoff\<close>, and ends by
  the deadline. Unless the egress was cancelled, giving up leaves it stopped.
\<close>

theorem reconnect_budget_is_kept:
  assumes "policy_ok p" and "failures fs (newReconnectBudget p) e = (n, b', e')"
  shows "n \<le> maxAttempts p
    \<and> (0 < n \<longrightarrow> fst (snd (fs ! (n - 1))) < fst (hd fs) + maxElapsed p)
    \<and> (\<forall>now b d. budget_policy b = p \<and> nextDelay now b = Some d \<longrightarrow>
        0 < d \<and> d \<le> min (maxBackoff p) (minBackoff p * 2 ^ attempts b)
        \<and> (\<exists>f. firstFailed b = Some f \<and> now + d \<le> f + maxElapsed p))
    \<and> (n < length fs \<and> (\<exists>now later err. fs ! n = (now, later, True, False, False, err)) \<longrightarrow>
        Phase (status e') = EgressPhaseStopped)"
proof (intro conjI impI)
  show "n \<le> maxAttempts p"
    using failures_bound [OF assms(2)] by (simp add: newReconnectBudget_def)
  show "fst (snd (fs ! (n - 1))) < fst (hd fs) + maxElapsed p" if "0 < n"
  proof -
    from that assms(2) have "fs \<noteq> []" by auto
    then have "failures fs (noteFailure (fst (hd fs)) (newReconnectBudget p)) e = (n, b', e')"
      using assms(2) failures_noteFailure by simp
    from failures_first [OF this _ that, of "fst (hd fs)"] show ?thesis
      by (simp add: newReconnectBudget_def)
  qed
  show "\<forall>now b d. budget_policy b = p \<and> nextDelay now b = Some d \<longrightarrow>
        0 < d \<and> d \<le> min (maxBackoff p) (minBackoff p * 2 ^ attempts b)
        \<and> (\<exists>f. firstFailed b = Some f \<and> now + d \<le> f + maxElapsed p)"
    using nextDelay_bounds assms(1) by blast
  show "Phase (status e') = EgressPhaseStopped"
    if "n < length fs \<and> (\<exists>now later err. fs ! n = (now, later, True, False, False, err))"
    using failures_stop [OF assms(2)] that by blast
qed

definition demo_failure :: "int \<Rightarrow> failure_round" where
  "demo_failure k = (k * 10 * Second, k * 10 * Second + Second, True, False, False, ''EOF'')"

theorem reconnect_budget_is_kept_witness:
  "\<exists>b' e'. failures [demo_failure 1, demo_failure 2, demo_failure 3]
      (newReconnectBudget (defaultReconnectPolicy\<lparr>maxAttempts := 2\<rparr>)) (new_core 0 ''h/abcdefgh'') = (2, b', e')
    \<and> Phase (status e') = EgressPhaseStopped"
proof -
  let ?b = "newReconnectBudget (defaultReconnectPolicy\<lparr>maxAttempts := 2\<rparr>)"
  have p: "policy_ok (defaultReconnectPolicy\<lparr>maxAttempts := 2\<rparr>)" by code_simp
  have "fst (failures [demo_failure 1, demo_failure 2, demo_failure 3] ?b (new_core 0 ''h/abcdefgh'')) = 2"
    by (simp add: demo_failure_def waitForReconnect_def newReconnectBudget_def defaultReconnectPolicy_def noteFailure_def
        nextDelay_def spent_def deadline_def beginAttempt_def split: prod.splits)
  then obtain b' e' where r: "failures [demo_failure 1, demo_failure 2, demo_failure 3] ?b (new_core 0 ''h/abcdefgh'')
      = (2, b', e')" by (metis prod.collapse)
  from reconnect_budget_is_kept [OF p r] have "Phase (status e') = EgressPhaseStopped"
    by (simp add: demo_failure_def)
  with r show ?thesis by blast
qed
subsection \<open>No stream key in an error text\<close>

lemma ReplaceAll_prefix:
  assumes "prefix p (ReplaceAll s old new)" and "set new \<inter> set p = {}" and "new \<noteq> []"
  shows "prefix p s"
  using assms
proof (induction s old new arbitrary: p rule: ReplaceAll.induct)
  case (2 c cs old new)
  show ?case
  proof (cases "old = [] \<or> p = []")
    case True
    with "2.prems"(1) show ?thesis by auto
  next
    case False
    show ?thesis
    proof (cases "prefix old (c # cs)")
      case True
      then have "prefix p (new @ ReplaceAll (drop (length old) (c # cs)) old new)"
        using "2.prems"(1) False by (simp del: drop_Cons)
      then have "hd p = hd new"
        using False \<open>new \<noteq> []\<close> by (cases p; cases new) auto
      moreover have "hd p \<in> set p" "hd new \<in> set new" using False \<open>new \<noteq> []\<close> by simp_all
      ultimately show ?thesis using "2.prems"(2) by auto
    next
      case no: False
      then obtain p' where p': "p = c # p'" "prefix p' (ReplaceAll cs old new)"
        using "2.prems"(1) False by (cases p) auto
      with "2.IH"(2) [of p'] no False "2.prems"(2,3) show ?thesis by simp
    qed
  qed
qed simp

lemma ReplaceAll_removes:
  assumes "old \<noteq> []" and "set new \<inter> set old = {}" and "new \<noteq> []"
  shows "\<not> sublist old (ReplaceAll s old new)"
  using assms
proof (induction s old new rule: ReplaceAll.induct)
  case (2 c cs old new)
  show ?case
  proof (cases "prefix old (c # cs)")
    case True
    let ?r = "ReplaceAll (drop (length old) (c # cs)) old new"
    have r: "\<not> sublist old ?r" using "2.IH"(1) "2.prems" True by blast
    have "\<not> sublist old (new @ ?r)"
    proof
      assume "sublist old (new @ ?r)"
      then consider "sublist old new" | "sublist old ?r"
        | xs1 xs2 where "old = xs1 @ xs2" "suffix xs1 new" "prefix xs2 ?r"
        unfolding sublist_append by blast
      then show False
      proof cases
        case 1
        then show False using "2.prems" set_mono_sublist [of old new] by (cases old) auto
      next
        case 2
        with r show False by blast
      next
        case 3
        then have "xs1 = []" using "2.prems"(2) set_mono_suffix [of xs1 new]
          by (cases xs1) auto
        with 3 r show False by (simp add: prefix_imp_sublist)
      qed
    qed
    with True "2.prems"(1) show ?thesis by (simp del: drop_Cons)
  next
    case no: False
    have "\<not> sublist old (ReplaceAll cs old new)" using "2.IH"(2) "2.prems" no by blast
    moreover have "\<not> prefix old (c # ReplaceAll cs old new)"
      using ReplaceAll_prefix [of old "c # cs" old new] no "2.prems" by auto
    ultimately show ?thesis
      using no "2.prems"(1) by (simp add: sublist_Cons_right)
  qed
qed simp

definition secret :: "string \<Rightarrow> bool" where
  "secret url = (minMaskedStreamKey \<le> length (streamKeyOf url) \<and> CHR ''*'' \<notin> set (streamKeyOf url))"

lemma sanitizeError_no_key:
  "secret url \<Longrightarrow> \<not> sublist (streamKeyOf url) (sanitizeError url c)"
  using ReplaceAll_removes [of "streamKeyOf url" "''****''"]
  unfolding secret_def sanitizeError_def Let_def by (cases "streamKeyOf url") auto

definition clean_core :: "egress_core \<Rightarrow> bool" where
  "clean_core e = (secret (outputURL e) \<longrightarrow>
     (\<forall>m. LastError (status e) = Some m \<longrightarrow> \<not> sublist (streamKeyOf (outputURL e)) m))"

definition error_clean :: "egress_sys \<Rightarrow> bool" where
  "error_clean s = clean_core (core s)"

lemma transition_clean: "clean_core e \<Longrightarrow> clean_core (snd (transition now ch e))"
  using sanitizeError_no_key [of "outputURL e"]
  by (auto simp: clean_core_def transition_alt record_change_def note_error_def split: egressTransitionEvent.splits option.splits)

lemma clean_core_frame [simp]:
  "clean_core (e\<lparr>slate := x\<rparr>) = clean_core e"
  "clean_core (e\<lparr>mute := y\<rparr>) = clean_core e"
  "clean_core (e\<lparr>inputStalled := z\<rparr>) = clean_core e"
  "clean_core (e\<lparr>status := (status e)\<lparr>InputRecovering := r, UpdatedAt := now\<rparr>\<rparr>) = clean_core e"
  "clean_core (e\<lparr>status := (status e)\<lparr>ReconnectAttempts := n, UpdatedAt := now\<rparr>\<rparr>) = clean_core e"
  "clean_core (e\<lparr>status := (status e)\<lparr>ReconnectAttempts := n, LastError := None, UpdatedAt := now\<rparr>\<rparr>)"
  by (simp_all add: clean_core_def)

lemma StopWithError_clean: "clean_core e \<Longrightarrow> clean_core (snd (StopWithError now r c e))"
  using transition_clean [of e now "(plain_transition egressTransitionStop)\<lparr>reason := r, cause := Some c\<rparr>"]
  by (cases "transition now ((plain_transition egressTransitionStop)\<lparr>reason := r, cause := Some c\<rparr>) e")
    (simp add: StopWithError_def clearCancellationSlate_def)

lemma egress_step_error_clean: "error_clean s \<Longrightarrow> error_clean (egress_step s ev)"
  unfolding error_clean_def using transition_clean [of "core s"] StopWithError_clean [of "core s"]
  by (cases ev)
    (simp_all add: begin_two_step_def setStreaming_def noteReconnect_def beginReconfiguring_def Stop_def
      StopWithReason_def BeginInputRecovery_def EndInputRecovery_def beginInputStall_def endInputStall_def
      attachAudio_def Detach_def setReconnectAttempts_def resetReconnectStatus_def clearCancellationSlate_def
      applyAudioMuteLocked_def split: option.splits)
interpretation egress_errors: guarded_state egress_step error_clean "\<lambda>_. True"
  by unfold_locales (rule egress_step_error_clean)

lemma egress_step_url: "outputURL (core (egress_step s ev)) = outputURL (core s)"
  by (cases ev) (auto simp: core_defs transition_alt split: option.splits)

text \<open>
  Property C11. The stream key never reaches the status an egress reports: when the last path
  element of the output URL is a key of at least eight characters without an asterisk, no error
  text that \<open>sanitizeError\<close> returns contains it, and in no state that any run of calls reaches does
  \<open>LastError\<close> contain it, whatever texts FFmpeg and the RTMP server send. The masked URL does not
  end in it.
\<close>

theorem no_stream_key_in_status:
  assumes "8 \<le> length (streamKeyOf url)" and "CHR ''*'' \<notin> set (streamKeyOf url)"
  shows "\<not> sublist (streamKeyOf url) (sanitizeError url c)
    \<and> \<not> suffix (streamKeyOf url) (maskStreamKey url)
    \<and> (\<forall>m. LastError (status (core (run_egress (fresh_egress t0 url sp) evs))) = Some m \<longrightarrow>
        \<not> sublist (streamKeyOf url) m)"
proof (intro conjI allI impI)
  have sec: "secret url" using assms by (simp add: secret_def)
  then show "\<not> sublist (streamKeyOf url) (sanitizeError url c)" by (rule sanitizeError_no_key)
  show "\<not> suffix (streamKeyOf url) (maskStreamKey url)"
  proof
    assume s: "suffix (streamKeyOf url) (maskStreamKey url)"
    have "streamKeyOf url \<noteq> ''''" using assms(1) by auto
    then have "maskStreamKey url = upto_last_slash url @ ''****''"
      by (auto simp: streamKeyOf_def maskStreamKey_def split: if_splits)
    with s \<open>streamKeyOf url \<noteq> ''''\<close> have "last (streamKeyOf url) = CHR ''*''"
      by (metis last_appendR list.distinct(1) suffix_def last.simps)
    with assms(2) \<open>streamKeyOf url \<noteq> ''''\<close> show False by (metis last_in_set)
  qed
  fix m assume m: "LastError (status (core (run_egress (fresh_egress t0 url sp) evs))) = Some m"
  have url: "outputURL (core (run_egress s evs)) = outputURL (core s)" for s
    unfolding run_egress_def by (induction evs arbitrary: s) (simp_all add: egress_step_url)
  have "clean_core (new_core t0 url)" by (simp add: clean_core_def new_core_def new_status_def)
  then have "error_clean (fresh_egress t0 url sp)"
    using transition_clean by (simp add: error_clean_def fresh_egress_def StartPaused_def)
  then have "error_clean (run_egress (fresh_egress t0 url sp) evs)"
    unfolding run_egress_def by (rule egress_errors.run_inv) (simp add: list_all_iff)
  moreover have "outputURL (core (fresh_egress t0 url sp)) = url"
    by (simp add: fresh_egress_def StartPaused_def new_core_def)
  ultimately show "\<not> sublist (streamKeyOf url) m"
    using m sec by (simp add: error_clean_def clean_core_def url)
qed

theorem no_stream_key_in_status_witness:
  "\<not> sublist ''abcd-efgh'' (sanitizeError ''rtmp://h/live2/abcd-efgh'' ''rtmp://h/live2/abcd-efgh: EOF'')"
  using no_stream_key_in_status [of "''rtmp://h/live2/abcd-efgh''" "''rtmp://h/live2/abcd-efgh: EOF''"]
  by (simp add: streamKeyOf_def after_last_slash_def)

end
