(* ===== verification/EgressWriter.thy ===== *)
theory EgressWriter
  imports EgressStatus
begin

text \<open>
  The writer of an RTMP egress (\<^verbatim>\<open>internal/media/egress.go\<close>): the frame queue, the measurement of
  the frame rate, the loop that feeds FFmpeg with camera frames, repeated frames and slates, the
  outer loop over processes and resolutions, and the arguments of the encoder. The loop is a function
  of the events that its \<open>select\<close> sees, in any order; changes that other goroutines make to the
  egress are events of the same sequence.
\<close>

subsection \<open>Frames and the queue\<close>

record frame =
  f_data :: "nat list"
  f_timestamp :: "32 word"
  f_gen :: nat
  f_width :: nat
  f_height :: nat

abbreviation egressQueueSize :: nat where "egressQueueSize \<equiv> 5"
abbreviation egressMeasureFrames :: nat where "egressMeasureFrames \<equiv> 30"
abbreviation egressDefaultFPS :: int where "egressDefaultFPS \<equiv> 30"
abbreviation egressStableFrames :: nat where "egressStableFrames \<equiv> 300"
abbreviation egressGapFillAfter :: duration where "egressGapFillAfter \<equiv> Second"
abbreviation egressFreezeMax :: duration where "egressFreezeMax \<equiv> 3 * Second"

text \<open>\<open>Enqueue\<close> with no reader in between its three \<open>select\<close>s: the new queue and the frames dropped.\<close>

definition Enqueue :: "frame \<Rightarrow> frame list \<Rightarrow> frame list \<times> nat" where
  "Enqueue item q =
    (if length q < egressQueueSize then (q @ [item], 0)
     else let q = drop 1 q in if length q < egressQueueSize then (q @ [item], 1) else (q, 2))"

definition isJPEG :: "nat list \<Rightarrow> bool" where
  "isJPEG d = (length d \<ge> 4 \<and> d ! 0 = 255 \<and> d ! 1 = 216 \<and> d ! (length d - 2) = 255 \<and> d ! (length d - 1) = 217)"

definition resolutionChanged :: "frame \<Rightarrow> nat \<Rightarrow> nat \<Rightarrow> bool" where
  "resolutionChanged item w h =
    (if f_width item = 0 \<or> f_height item = 0 then False else f_width item \<noteq> w \<or> f_height item \<noteq> h)"

subsection \<open>Measuring the frame rate\<close>

text \<open>
  Adjacent timestamps are subtracted as \<open>uint32\<close>. \<open>math.Round(90000 / float64(k))\<close> is the rational
  rounded half up: a quotient of two such integers that is not a half-integer is farther from one
  than a double's error.
\<close>

definition round_fps :: "nat \<Rightarrow> nat" where
  "round_fps k = (180000 + k) div (2 * k)"

fun deltas :: "frame list \<Rightarrow> nat list" where
  "deltas (a # b # fs) =
    (let delta = unat (f_timestamp b - f_timestamp a) in if delta > 0 then delta # deltas (b # fs) else deltas (b # fs))"
| "deltas _ = []"

definition measureFPS :: "frame list \<Rightarrow> int" where
  "measureFPS frames =
    (if length frames < 2 then egressDefaultFPS
     else let intervals = deltas frames in
       if intervals = [] then egressDefaultFPS
       else let shortest = sort intervals ! (length intervals div 10); fps = int (round_fps shortest) in
         if fps < 1 \<or> fps > 120 then egressDefaultFPS else fps)"

subsection \<open>Encoder arguments\<close>

text \<open>\<open>strings.TrimSpace\<close> and \<open>strings.Cut\<close> on ASCII text, and \<open>strconv.Atoi\<close>.\<close>

definition is_space :: "char \<Rightarrow> bool" where
  "is_space c = (of_char c \<in> {9, 10, 11, 12, 13, 32 :: nat})"

definition TrimSpace :: "string \<Rightarrow> string" where
  "TrimSpace s = rev (dropWhile is_space (rev (dropWhile is_space s)))"

definition Cut :: "string \<Rightarrow> char \<Rightarrow> (string \<times> string) option" where
  "Cut s c = (if c \<in> set s then Some (takeWhile (\<lambda>x. x \<noteq> c) s, tl (dropWhile (\<lambda>x. x \<noteq> c) s)) else None)"

definition is_digit :: "char \<Rightarrow> bool" where
  "is_digit c = (48 \<le> (of_char c :: nat) \<and> (of_char c :: nat) \<le> 57)"

definition Atoi :: "string \<Rightarrow> int option" where
  "Atoi s =
    (let neg = (s \<noteq> [] \<and> hd s = CHR ''-'');
         ds = (if s \<noteq> [] \<and> (hd s = CHR ''-'' \<or> hd s = CHR ''+'') then tl s else s) in
     if ds = [] \<or> \<not> list_all is_digit ds then None
     else let v = (if neg then - int (atoi ds) else int (atoi ds)) in if fits64 v then Some v else None)"

definition parse_side :: "string \<Rightarrow> nat option" where
  "parse_side s = (case Atoi s of None \<Rightarrow> None | Some v \<Rightarrow> if v \<le> 0 \<or> v > 65535 then None else Some (nat v))"

definition parseVideoSize :: "string \<Rightarrow> (nat \<times> nat) option" where
  "parseVideoSize v = (case Cut (TrimSpace v) CHR ''x'' of
      None \<Rightarrow> None
    | Some (rawWidth, rawHeight) \<Rightarrow> (case parse_side rawWidth of
        None \<Rightarrow> None
      | Some w \<Rightarrow> map_option (\<lambda>h. (w, h)) (parse_side rawHeight)))"

definition videoBitrateFor :: "string \<Rightarrow> string \<Rightarrow> nat \<Rightarrow> nat \<Rightarrow> string" where
  "videoBitrateFor bitrateOverride videoSize width height =
    (if bitrateOverride \<noteq> '''' then bitrateOverride
     else let (w, h) = (case parseVideoSize videoSize of Some s \<Rightarrow> s | None \<Rightarrow> (width, height)) in
       if w * h > 1280 * 720 then ''5000k'' else ''2500k'')"

definition zoomCropFilter :: string where
  "zoomCropFilter = ''crop=trunc(iw/1.1/2)*2:trunc(ih/1.1/2)*2''"

definition zoomFilter :: "nat \<Rightarrow> nat \<Rightarrow> string" where
  "zoomFilter w h =
    (if w = 0 \<or> h = 0 then zoomCropFilter @ '',scale=trunc(iw*1.1/2)*2:trunc(ih*1.1/2)*2''
     else zoomCropFilter @ '',scale='' @ itoa w @ '':'' @ itoa h)"

fun join :: "string list \<Rightarrow> string \<Rightarrow> string" where
  "join [] sep = ''''"
| "join [x] sep = x"
| "join (x # xs) sep = x @ sep @ join xs sep"

definition videoFilter :: "bool \<Rightarrow> string \<Rightarrow> nat \<Rightarrow> nat \<Rightarrow> string" where
  "videoFilter raw videoSize inputWidth inputHeight =
    (let stages = (case parseVideoSize videoSize of
        Some (w, h) \<Rightarrow> [zoomCropFilter,
          ''scale='' @ itoa w @ '':'' @ itoa h @ '':force_original_aspect_ratio=decrease'',
          ''pad='' @ itoa w @ '':'' @ itoa h @ '':-1:-1'']
      | None \<Rightarrow> [zoomFilter inputWidth inputHeight]) in
     join (if raw then stages else stages @ [''scale=out_range=tv'']) '','')"

definition videoEncoderArguments :: "bool \<Rightarrow> int \<Rightarrow> string \<Rightarrow> nat \<Rightarrow> string list" where
  "videoEncoderArguments nvenc nvencDevice videoBitrate fps =
    (let common = [''-pix_fmt'', ''yuv420p'', ''-profile:v'', ''main'',
           ''-b:v'', videoBitrate, ''-maxrate'', videoBitrate, ''-bufsize'', videoBitrate,
           ''-g'', itoa (fps * 2), ''-bf'', ''0'', ''-r'', itoa fps, ''-fps_mode'', ''cfr''] in
     if \<not> nvenc then [''-c:v'', ''libx264'', ''-preset'', ''veryfast'', ''-tune'', ''zerolatency''] @ common
     else [''-c:v'', ''h264_nvenc'', ''-preset'', ''p1'', ''-tune'', ''ll'', ''-rc'', ''cbr'']
       @ (if nvencDevice \<ge> 0 then [''-gpu'', itoa (nat nvencDevice)] else []) @ common)"

subsection \<open>The writer of one FFmpeg process\<close>

text \<open>
  \<open>minHeld\<close> is the least privacy generation that may be shown. The log \<open>w_out\<close> holds what was written
  to the process, newest first; it is not part of the program.
\<close>

record RTMPEgress =
  e_core :: egress_core
  e_raw :: bool
  e_minHeld :: nat
  gapFillAfter :: duration
  freezeMax :: duration

datatype written =
    Camera frame
  | Held "nat list" nat duration
  | Slate

record writer =
  w_written :: nat
  w_stable :: bool
  w_held :: "(nat list \<times> nat) option"
  w_lastInputAt :: instant
  w_stalled :: bool
  w_out :: "written list"

definition validFrame :: "RTMPEgress \<Rightarrow> frame \<Rightarrow> bool" where
  "validFrame e item =
    (if e_raw e then length (f_data item) = rawFrameSize (f_width item) (f_height item) else isJPEG (f_data item))"

text \<open>One round of the compare-and-swap loop: no other caller changes the value in between.\<close>

definition InvalidateHeldFrame :: "nat \<Rightarrow> RTMPEgress \<Rightarrow> RTMPEgress" where
  "InvalidateHeldFrame g e = (if g \<le> e_minHeld e then e else e\<lparr>e_minHeld := g\<rparr>)"

definition holdable :: "RTMPEgress \<Rightarrow> nat \<Rightarrow> bool" where
  "holdable e g = (g \<noteq> 0 \<and> g \<ge> e_minHeld e)"

definition new_writer :: "instant \<Rightarrow> RTMPEgress \<Rightarrow> writer" where
  "new_writer now e = \<lparr>w_written = 0, w_stable = False, w_held = None, w_lastInputAt = now,
     w_stalled = inputStalled (e_core e), w_out = []\<rparr>"

definition noteWritten :: "instant \<Rightarrow> RTMPEgress \<times> writer \<Rightarrow> RTMPEgress \<times> writer" where
  "noteWritten now s = (case s of (e, w) \<Rightarrow>
     let w = w\<lparr>w_written := w_written w + 1\<rparr> in
     if \<not> w_stable w \<and> w_written w \<ge> egressStableFrames
       then (e\<lparr>e_core := resetReconnectStatus now (e_core e)\<rparr>, w\<lparr>w_stable := True\<rparr>)
     else (e, w))"

datatype step_result = Going | Mismatch frame | WriteError

definition writeCamera :: "nat \<Rightarrow> nat \<Rightarrow> frame \<Rightarrow> instant \<Rightarrow> bool \<Rightarrow> RTMPEgress \<times> writer \<Rightarrow> step_result \<times> RTMPEgress \<times> writer" where
  "writeCamera width height item now ok s = (case s of (e, w) \<Rightarrow>
     if resolutionChanged item width height then (Mismatch item, e, w)
     else if \<not> validFrame e item \<or> f_gen item < e_minHeld e then (Going, e, w)
     else if \<not> ok then (WriteError, e, w)
     else let (e, w) = noteWritten now (e, w\<lparr>w_out := Camera item # w_out w\<rparr>);
              w = w\<lparr>w_held := Some (f_data item, f_gen item)\<rparr>;
              (e, w) = (if w_stalled w then (e\<lparr>e_core := endInputStall (e_core e)\<rparr>, w\<lparr>w_stalled := False\<rparr>) else (e, w)) in
          (Going, e, w\<lparr>w_lastInputAt := now\<rparr>))"

text \<open>The picture of the slate is \<open>mk\<close>; \<open>None\<close> is an error while it is drawn.\<close>

definition writeSlate :: "(nat \<Rightarrow> nat \<Rightarrow> bool \<Rightarrow> nat list option) \<Rightarrow> nat \<Rightarrow> nat \<Rightarrow> instant \<Rightarrow> bool \<Rightarrow> RTMPEgress \<times> writer \<Rightarrow> step_result \<times> RTMPEgress \<times> writer" where
  "writeSlate mk width height now ok s = (case s of (e, w) \<Rightarrow>
     if slate (e_core e) \<noteq> Some (width, height) \<and> mk width height (e_raw e) = None then (WriteError, e, w)
     else let e = e\<lparr>e_core := (e_core e)\<lparr>slate := Some (width, height)\<rparr>\<rparr> in
       if \<not> ok then (WriteError, e, w)
       else let (e, w) = noteWritten now (e, w\<lparr>w_out := Slate # w_out w\<rparr>) in (Going, e, w\<lparr>w_held := None\<rparr>))"

definition fillGap :: "(nat \<Rightarrow> nat \<Rightarrow> bool \<Rightarrow> nat list option) \<Rightarrow> nat \<Rightarrow> nat \<Rightarrow> instant \<Rightarrow> bool \<Rightarrow> RTMPEgress \<times> writer \<Rightarrow> step_result \<times> RTMPEgress \<times> writer" where
  "fillGap mk width height now ok s = (case s of (e, w) \<Rightarrow>
     let gap = now - w_lastInputAt w in
     if gap < gapFillAfter e then (Going, e, w)
     else let (e, w) = (if w_stalled w then (e, w)
                else (e\<lparr>e_core := beginInputStall (e_core e)\<rparr>, w\<lparr>w_stalled := True\<rparr>)) in
       case w_held w of
         Some (d, g) \<Rightarrow>
           if gap < freezeMax e \<and> holdable e g
           then if \<not> ok then (WriteError, e, w)
                else let (e, w) = noteWritten now (e, w\<lparr>w_out := Held d g gap # w_out w\<rparr>) in (Going, e, w)
           else writeSlate mk width height now ok (e, w)
       | None \<Rightarrow> writeSlate mk width height now ok (e, w))"

text \<open>What the loop of \<open>writeFrames\<close> sees; \<open>ok\<close> tells whether a write to the process succeeds.\<close>

datatype wevent =
    WInput frame instant bool
  | WTick instant bool
  | WCancel
  | WInvalidate nat
  | WCore egress_event

definition on_input :: "nat \<Rightarrow> nat \<Rightarrow> frame \<Rightarrow> instant \<Rightarrow> bool \<Rightarrow> RTMPEgress \<times> writer \<Rightarrow> step_result \<times> RTMPEgress \<times> writer" where
  "on_input width height item now ok s =
    (if shouldWriteCancellationSlate (e_core (fst s))
     then (if resolutionChanged item width height then Mismatch item else Going, s)
     else writeCamera width height item now ok s)"

definition on_tick :: "(nat \<Rightarrow> nat \<Rightarrow> bool \<Rightarrow> nat list option) \<Rightarrow> nat \<Rightarrow> nat \<Rightarrow> instant \<Rightarrow> bool \<Rightarrow> RTMPEgress \<times> writer \<Rightarrow> step_result \<times> RTMPEgress \<times> writer" where
  "on_tick mk width height now ok s =
    (if shouldWriteCancellationSlate (e_core (fst s)) then writeSlate mk width height now ok s
     else fillGap mk width height now ok s)"

text \<open>\<open>Waiting\<close>: the events are used up and the loop waits for more.\<close>

datatype write_result = Waiting | Cancelled | Changed frame | Broken

definition core_change :: "egress_event \<Rightarrow> egress_core \<Rightarrow> egress_core" where
  "core_change ev e = core (egress_step \<lparr>core = e, pending = 1\<rparr> ev)"

fun writeFrames_loop :: "(nat \<Rightarrow> nat \<Rightarrow> bool \<Rightarrow> nat list option) \<Rightarrow> nat \<Rightarrow> nat \<Rightarrow> wevent list \<Rightarrow> RTMPEgress \<times> writer \<Rightarrow> write_result \<times> RTMPEgress \<times> writer" where
  "writeFrames_loop mk wd ht [] s = (Waiting, s)"
| "writeFrames_loop mk wd ht (WCancel # evs) s = (Cancelled, s)"
| "writeFrames_loop mk wd ht (WInvalidate g # evs) s =
    writeFrames_loop mk wd ht evs (InvalidateHeldFrame g (fst s), snd s)"
| "writeFrames_loop mk wd ht (WCore ev # evs) s =
    writeFrames_loop mk wd ht evs ((fst s)\<lparr>e_core := core_change ev (e_core (fst s))\<rparr>, snd s)"
| "writeFrames_loop mk wd ht (WInput item now ok # evs) s =
    (case on_input wd ht item now ok s of
       (Mismatch f, s) \<Rightarrow> (Changed f, s)
     | (WriteError, s) \<Rightarrow> (Broken, s)
     | (Going, s) \<Rightarrow> writeFrames_loop mk wd ht evs s)"
| "writeFrames_loop mk wd ht (WTick now ok # evs) s =
    (case on_tick mk wd ht now ok s of
       (Mismatch f, s) \<Rightarrow> (Changed f, s)
     | (WriteError, s) \<Rightarrow> (Broken, s)
     | (Going, s) \<Rightarrow> writeFrames_loop mk wd ht evs s)"

text \<open>
  \<open>writeFrames\<close> first feeds the pending frames through the same steps as a frame from the queue, so
  they are the first events; \<open>first\<close> pairs each with its clock and the answer of the write.
\<close>

definition writeFrames :: "(nat \<Rightarrow> nat \<Rightarrow> bool \<Rightarrow> nat list option) \<Rightarrow> nat \<Rightarrow> nat \<Rightarrow> instant \<Rightarrow> (frame \<times> instant \<times> bool) list \<Rightarrow> wevent list \<Rightarrow> RTMPEgress \<Rightarrow> write_result \<times> RTMPEgress \<times> writer" where
  "writeFrames mk wd ht now first evs e =
    writeFrames_loop mk wd ht (map (\<lambda>(f, t, ok). WInput f t ok) first @ evs) (e, new_writer now e)"

subsection \<open>The outer loop\<close>

text \<open>
  \<open>collectStartupFrames\<close> over the answers of its \<open>select\<close>: a frame, the deadline or the cancelled
  context. \<open>None\<close>: it still waits. A deadline that has passed already is the first answer.
\<close>

datatype startup_answer = SFrame frame | SDeadline | SCancel

datatype startupFramesResult = startupFramesReady "frame list" | startupFramesCanceled | startupFramesTimedOut

fun collectStartupFrames :: "startup_answer list \<Rightarrow> frame list \<Rightarrow> startupFramesResult option" where
  "collectStartupFrames as startup =
    (if length startup \<ge> egressMeasureFrames then Some (startupFramesReady startup)
     else case as of
       [] \<Rightarrow> None
     | SCancel # _ \<Rightarrow> Some startupFramesCanceled
     | SDeadline # _ \<Rightarrow> Some startupFramesTimedOut
     | SFrame f # as \<Rightarrow> collectStartupFrames as (startup @ [f]))"

declare collectStartupFrames.simps [simp del]

text \<open>
  \<open>Run\<close> as the sequence of its blocking calls. \<open>r_pc\<close> says which call comes next; an answer gives what
  that call returned, with the clock and the cancellation that the code reads afterwards. \<open>RWrite\<close>
  carries the events of the process, so its result is that of \<open>writeFrames\<close>.
\<close>

datatype run_pc =
    PcCollect "frame list" "instant option"
  | PcStart nat nat int "frame list"
  | PcWrite nat nat int "frame list"
  | PcReturned

datatype run_answer =
    RCollect "startup_answer list" bool instant
  | RCancelled instant
  | RStartFails bool failure_round
  | RStarted instant
  | RWrite instant "(frame \<times> instant \<times> bool) list" "wevent list" bool instant failure_round

record run_state =
  r_e :: RTMPEgress
  r_budget :: reconnectBudget
  r_pc :: run_pc

definition newRun :: "reconnectPolicy \<Rightarrow> RTMPEgress \<Rightarrow> run_state" where
  "newRun p e = \<lparr>r_e = e, r_budget = newReconnectBudget p, r_pc = PcCollect [] None\<rparr>"

text \<open>Returning runs the deferred \<open>setStopped\<close>.\<close>

definition returned :: "instant \<Rightarrow> run_state \<Rightarrow> run_state" where
  "returned now r = r\<lparr>r_e := (r_e r)\<lparr>e_core := Stop now (e_core (r_e r))\<rparr>, r_pc := PcReturned\<rparr>"

definition reconnect :: "failure_round \<Rightarrow> nat \<Rightarrow> nat \<Rightarrow> int \<Rightarrow> run_state \<Rightarrow> run_state" where
  "reconnect fr w h fps r = (case fr of (now, later, waited, c1, c2, err) \<Rightarrow>
     case waitForReconnect now later waited c1 c2 err (r_budget r) (e_core (r_e r)) of
       (ok, b, c) \<Rightarrow>
         let r = r\<lparr>r_budget := b, r_e := (r_e r)\<lparr>e_core := c\<rparr>\<rparr> in
         if ok then r\<lparr>r_pc := PcStart w h fps []\<rparr> else returned later r)"

definition input_deadline :: "instant \<Rightarrow> reconnectPolicy \<Rightarrow> reconnectBudget \<Rightarrow> instant" where
  "input_deadline now p b = (let t = now + maxElapsed p in
     case deadline b of None \<Rightarrow> t | Some d \<Rightarrow> if d < t then d else t)"

definition step_collect :: "frame list \<Rightarrow> instant option \<Rightarrow> startup_answer list \<Rightarrow> bool \<Rightarrow> instant \<Rightarrow> run_state \<Rightarrow> run_state" where
  "step_collect seed dl as cancelled now r =
    (if cancelled then returned now r
     else if dl = None \<and> SDeadline \<in> set as then r
     else (case collectStartupFrames as seed of
         None \<Rightarrow> r
       | Some startupFramesCanceled \<Rightarrow> returned now r
       | Some startupFramesTimedOut \<Rightarrow>
           returned now (r\<lparr>r_e := (r_e r)\<lparr>e_core :=
             snd (StopWithError now EgressStopReasonReconnectInputTimeout
               ''timed out waiting for input frames while reconfiguring RTMP egress'' (e_core (r_e r)))\<rparr>\<rparr>)
       | Some (startupFramesReady st) \<Rightarrow>
           r\<lparr>r_pc := PcStart (f_width (hd st)) (f_height (hd st)) (measureFPS st) st\<rparr>))"

definition after_write :: "reconnectPolicy \<Rightarrow> nat \<Rightarrow> nat \<Rightarrow> int \<Rightarrow> write_result \<times> RTMPEgress \<times> writer \<Rightarrow> bool \<Rightarrow> instant \<Rightarrow> failure_round \<Rightarrow> run_state \<Rightarrow> run_state" where
  "after_write p w h fps res cancelled t1 fr r = (case res of (result, e, wr) \<Rightarrow>
     if result = Waiting then r
     else let b = (if w_stable wr then budget_reset (r_budget r) else r_budget r);
              r = r\<lparr>r_e := e\<lparr>e_core := Detach (e_core e)\<rparr>, r_budget := b\<rparr> in
       if cancelled \<or> result = Cancelled then returned t1 r
       else case result of
           Changed f \<Rightarrow>
             r\<lparr>r_e := (r_e r)\<lparr>e_core := beginReconfiguring t1 (e_core (r_e r))\<rparr>,
               r_pc := PcCollect [f] (Some (input_deadline t1 p b))\<rparr>
         | _ \<Rightarrow> reconnect fr w h fps r)"

definition run_step :: "(nat \<Rightarrow> nat \<Rightarrow> bool \<Rightarrow> nat list option) \<Rightarrow> reconnectPolicy \<Rightarrow> run_state \<Rightarrow> run_answer \<Rightarrow> run_state" where
  "run_step mk p r ans = (case (r_pc r, ans) of
     (PcCollect seed dl, RCollect as cancelled now) \<Rightarrow> step_collect seed dl as cancelled now r
   | (PcCollect _ _, RCancelled now) \<Rightarrow> returned now r
   | (PcStart _ _ _ _, RCancelled now) \<Rightarrow> returned now r
   | (PcStart w h fps _, RStartFails cancelled fr) \<Rightarrow>
       if cancelled then returned (fst fr) r else reconnect fr w h fps r
   | (PcStart w h fps first, RStarted now) \<Rightarrow>
       r\<lparr>r_e := (r_e r)\<lparr>e_core := setStreaming now w h fps (e_core (r_e r))\<rparr>, r_pc := PcWrite w h fps first\<rparr>
   | (PcWrite w h fps first, RWrite t0 firstAns evs cancelled t1 fr) \<Rightarrow>
       if map fst firstAns \<noteq> first then r
       else after_write p w h fps (writeFrames mk w h t0 firstAns evs (r_e r)) cancelled t1 fr r
   | _ \<Rightarrow> r)"

definition run_egress_loop :: "(nat \<Rightarrow> nat \<Rightarrow> bool \<Rightarrow> nat list option) \<Rightarrow> reconnectPolicy \<Rightarrow> RTMPEgress \<Rightarrow> run_answer list \<Rightarrow> run_state" where
  "run_egress_loop mk p e = foldl (run_step mk p) (newRun p e)"

subsection \<open>Frame rate: lemmas and the property\<close>

lemma deltas_pos: "k \<in> set (deltas fs) \<Longrightarrow> 0 < k"
  by (induction fs rule: deltas.induct) (auto simp: Let_def split: if_splits)

lemma deltas_shift: "deltas (map (\<lambda>f. f\<lparr>f_timestamp := f_timestamp f + off\<rparr>) fs) = deltas fs"
  by (induction fs rule: deltas.induct) (simp_all add: Let_def)

lemma sorted_least_nth:
  assumes "sorted xs" and "\<forall>x\<in>set xs. d \<le> x" and "m < length (filter (\<lambda>x. x = d) xs)"
  shows "xs ! m = (d :: nat)"
  using assms
proof (induction xs arbitrary: m)
  case (Cons x xs)
  show ?case
  proof (cases "x = d")
    case True
    then show ?thesis using Cons by (cases m) auto
  next
    case False
    then have "d \<notin> set xs" using Cons.prems by (metis le_antisym list.set_intros(1) sorted_simps(2))
    then have "filter (\<lambda>x. x = d) xs = []" by (induction xs) auto
    with False Cons.prems(3) show ?thesis by simp
  qed
qed simp

lemma length_filter_sort: "length (filter P (sort xs)) = length (filter P (xs :: nat list))"
  by (metis mset_filter mset_sort size_mset)

text \<open>
  The frame rate an egress measures is between 1 and 120, does not depend on where the
  32-bit RTP clock starts (and so not on where it wraps), and is robust against dropped frames: when
  every step of the clock is at least \<open>d\<close> ticks and more than a tenth of the steps are exactly \<open>d\<close>,
  it is 90000 / \<open>d\<close> rounded, however long the other steps are.
\<close>

theorem measured_fps_is_robust:
  "1 \<le> measureFPS fs \<and> measureFPS fs \<le> 120
    \<and> measureFPS (map (\<lambda>f. f\<lparr>f_timestamp := f_timestamp f + off\<rparr>) fs) = measureFPS fs
    \<and> (750 \<le> d \<and> d \<le> 180000 \<and> (\<forall>k\<in>set (deltas fs). d \<le> k)
        \<and> length (deltas fs) div 10 < length (filter (\<lambda>k. k = d) (deltas fs)) \<longrightarrow>
        measureFPS fs = int ((180000 + d) div (2 * d)))"
proof (intro conjI impI)
  show "1 \<le> measureFPS fs" "measureFPS fs \<le> 120"
    by (auto simp: measureFPS_def Let_def)
  show "measureFPS (map (\<lambda>f. f\<lparr>f_timestamp := f_timestamp f + off\<rparr>) fs) = measureFPS fs"
    by (simp add: measureFPS_def deltas_shift)
next
  assume h: "750 \<le> d \<and> d \<le> 180000 \<and> (\<forall>k\<in>set (deltas fs). d \<le> k)
        \<and> length (deltas fs) div 10 < length (filter (\<lambda>k. k = d) (deltas fs))"
  then have ne: "deltas fs \<noteq> []" by auto
  then have "\<not> length fs < 2" by (cases fs rule: deltas.cases) auto
  moreover have "sort (deltas fs) ! (length (deltas fs) div 10) = d"
    using h by (intro sorted_least_nth) (auto simp: length_filter_sort)
  moreover have "1 \<le> (180000 + d) div (2 * d)"
    using div_le_mono [of "2 * d" "180000 + d" "2 * d"] h by simp
  moreover have "(180000 + d) div (2 * d) \<le> 120"
    using div_le_mono [of "180000 + d" "240 * d + d" "2 * d"] h by simp
  ultimately show "measureFPS fs = int ((180000 + d) div (2 * d))"
    using ne by (simp add: measureFPS_def Let_def round_fps_def)
qed

definition demo_frame :: "32 word \<Rightarrow> frame" where
  "demo_frame t = \<lparr>f_data = [255, 216, 255, 217], f_timestamp = t, f_gen = 1, f_width = 1280, f_height = 720\<rparr>"

theorem measured_fps_is_robust_witness:
  "measureFPS (map demo_frame [4294966000, 1704, 4704, 16704, 19704]) = 30"
proof -
  have d: "deltas (map demo_frame [4294966000, 1704, 4704, 16704, 19704]) = [3000, 3000, 12000, 3000]"
    by (simp add: demo_frame_def Let_def)
  show ?thesis
    using measured_fps_is_robust [of "map demo_frame [4294966000, 1704, 4704, 16704, 19704]" 0 3000]
    unfolding d by simp
qed

subsection \<open>What the writer shows\<close>

fun gen_of :: "written \<Rightarrow> nat option" where
  "gen_of (Camera f) = Some (f_gen f)"
| "gen_of (Held d g gap) = Some g"
| "gen_of Slate = None"

text \<open>A repeated frame is the camera frame just before it, or a repetition of that.\<close>

fun shows_frame :: "nat list \<Rightarrow> nat \<Rightarrow> written list \<Rightarrow> bool" where
  "shows_frame d g (Camera f # out) = (f_data f = d \<and> f_gen f = g)"
| "shows_frame d g (Held d' g' gap # out) = (d' = d \<and> g' = g)"
| "shows_frame d g _ = False"

fun repeats_ok :: "written list \<Rightarrow> bool" where
  "repeats_ok [] = True"
| "repeats_ok (Held d g gap # out) = (shows_frame d g out \<and> repeats_ok out)"
| "repeats_ok (_ # out) = repeats_ok out"

definition held_ok :: "writer \<Rightarrow> bool" where
  "held_ok w = (repeats_ok (w_out w) \<and> (\<forall>d g. w_held w = Some (d, g) \<longrightarrow> shows_frame d g (w_out w)))"

definition may_show :: "RTMPEgress \<Rightarrow> written \<Rightarrow> bool" where
  "may_show e x = (case x of
      Camera f \<Rightarrow> e_minHeld e \<le> f_gen f \<and> validFrame e f \<and> \<not> shouldWriteCancellationSlate (e_core e)
    | Held d g gap \<Rightarrow> g \<noteq> 0 \<and> e_minHeld e \<le> g \<and> gapFillAfter e \<le> gap \<and> gap < freezeMax e
        \<and> \<not> shouldWriteCancellationSlate (e_core e)
    | Slate \<Rightarrow> True)"

definition same_rules :: "RTMPEgress \<Rightarrow> RTMPEgress \<Rightarrow> bool" where
  "same_rules e e' = (e_minHeld e' = e_minHeld e \<and> gapFillAfter e' = gapFillAfter e \<and> freezeMax e' = freezeMax e
     \<and> e_raw e' = e_raw e \<and> shouldWriteCancellationSlate (e_core e') = shouldWriteCancellationSlate (e_core e))"

lemma slate_rule_frame [simp]:
  "shouldWriteCancellationSlate (resetReconnectStatus now c) = shouldWriteCancellationSlate c"
  "shouldWriteCancellationSlate (beginInputStall c) = shouldWriteCancellationSlate c"
  "shouldWriteCancellationSlate (endInputStall c) = shouldWriteCancellationSlate c"
  "shouldWriteCancellationSlate (c\<lparr>slate := x\<rparr>) = shouldWriteCancellationSlate c"
  by (auto simp: shouldWriteCancellationSlate_def resetReconnectStatus_def beginInputStall_def endInputStall_def
      applyAudioMuteLocked_def)

lemma same_rules_refl [simp]: "same_rules e e"
  by (simp add: same_rules_def)

text \<open>One step adds at most one picture, one that the state allows.\<close>

definition good_step :: "RTMPEgress \<times> writer \<Rightarrow> RTMPEgress \<times> writer \<Rightarrow> bool" where
  "good_step s s' = (same_rules (fst s) (fst s') \<and> (held_ok (snd s) \<longrightarrow> held_ok (snd s'))
    \<and> (w_out (snd s') = w_out (snd s) \<or> (\<exists>x. w_out (snd s') = x # w_out (snd s) \<and> may_show (fst s) x)))"

lemma writeCamera_good:
  assumes "\<not> shouldWriteCancellationSlate (e_core e)" and "writeCamera wd ht item now ok (e, w) = (r, s')"
  shows "good_step (e, w) s'"
  using assms
  by (auto simp: writeCamera_def noteWritten_def good_step_def same_rules_def held_ok_def may_show_def Let_def
      split: if_splits)

lemma writeSlate_good:
  assumes "writeSlate mk wd ht now ok (e, w) = (r, s')"
  shows "good_step (e, w) s'"
  using assms
  by (auto simp: writeSlate_def noteWritten_def good_step_def same_rules_def held_ok_def may_show_def Let_def
      split: if_splits)

lemma good_step_stall:
  "good_step (e\<lparr>e_core := beginInputStall (e_core e)\<rparr>, w\<lparr>w_stalled := True\<rparr>) s' \<Longrightarrow> good_step (e, w) s'"
  by (auto simp: good_step_def same_rules_def held_ok_def may_show_def validFrame_def split: written.splits)

lemma fillGap_good:
  assumes "\<not> shouldWriteCancellationSlate (e_core e)" and "fillGap mk wd ht now ok (e, w) = (r, s')"
  shows "good_step (e, w) s'"
proof -
  define e1 where "e1 = (if w_stalled w then e else e\<lparr>e_core := beginInputStall (e_core e)\<rparr>)"
  define w1 where "w1 = (if w_stalled w then w else w\<lparr>w_stalled := True\<rparr>)"
  have undo: "good_step (e1, w1) t \<Longrightarrow> good_step (e, w) t" for t
    using good_step_stall [of e w t] by (auto simp: e1_def w1_def split: if_splits)
  have frame: "w_held w1 = w_held w" "w_lastInputAt w1 = w_lastInputAt w" "freezeMax e1 = freezeMax e"
    "gapFillAfter e1 = gapFillAfter e" "shouldWriteCancellationSlate (e_core e1) = shouldWriteCancellationSlate (e_core e)"
    by (simp_all add: e1_def w1_def)
  show ?thesis
  proof (cases "now - w_lastInputAt w < gapFillAfter e")
    case True
    with assms(2) show ?thesis by (auto simp: fillGap_def good_step_def)
  next
    case False
    have pair: "(if w_stalled w then (e, w) else (e\<lparr>e_core := beginInputStall (e_core e)\<rparr>, w\<lparr>w_stalled := True\<rparr>)) = (e1, w1)"
      by (simp add: e1_def w1_def)
    show ?thesis
    proof (cases "\<exists>d g. w_held w = Some (d, g) \<and> now - w_lastInputAt w < freezeMax e \<and> holdable e1 g")
      case True
      then obtain d g where "w_held w = Some (d, g)" "now - w_lastInputAt w < freezeMax e" "holdable e1 g" by blast
      then have "good_step (e1, w1) s'"
        using assms False frame unfolding fillGap_def Let_def prod.case pair
        by (auto simp: noteWritten_def good_step_def same_rules_def held_ok_def may_show_def holdable_def Let_def
            split: if_splits)
      then show ?thesis by (rule undo)
    next
      case no: False
      then have "writeSlate mk wd ht now ok (e1, w1) = (r, s')"
        using assms(2) False frame unfolding fillGap_def Let_def prod.case pair
        by (auto split: option.splits)
      then show ?thesis by (intro undo writeSlate_good)
    qed
  qed
qed

lemma on_input_good: "on_input wd ht item now ok s = (r, s') \<Longrightarrow> good_step s s'"
  using writeCamera_good [of "fst s" wd ht item now ok "snd s" r s']
  by (auto simp: on_input_def good_step_def split: if_splits)

lemma on_tick_good: "on_tick mk wd ht now ok s = (r, s') \<Longrightarrow> good_step s s'"
  using writeSlate_good [of mk wd ht now ok "fst s" "snd s" r s'] fillGap_good [of "fst s" mk wd ht now ok "snd s" r s']
  by (auto simp: on_tick_def split: if_splits)

text \<open>What a stretch of the loop adds to the log, given the state it starts in.\<close>

definition good_run :: "wevent list \<Rightarrow> RTMPEgress \<times> writer \<Rightarrow> RTMPEgress \<times> writer \<Rightarrow> bool" where
  "good_run evs s s' = (\<exists>new. w_out (snd s') = new @ w_out (snd s)
     \<and> (\<forall>x\<in>set new. \<forall>g. gen_of x = Some g \<longrightarrow> e_minHeld (fst s) \<le> g)
     \<and> (\<forall>d g gap. Held d g gap \<in> set new \<longrightarrow> g \<noteq> 0 \<and> gapFillAfter (fst s) \<le> gap \<and> gap < freezeMax (fst s))
     \<and> (shouldWriteCancellationSlate (e_core (fst s)) \<and> (\<forall>ev. WCore ev \<notin> set evs) \<longrightarrow> set new \<subseteq> {Slate})
     \<and> (held_ok (snd s) \<longrightarrow> held_ok (snd s'))
     \<and> e_minHeld (fst s) \<le> e_minHeld (fst s')
     \<and> gapFillAfter (fst s') = gapFillAfter (fst s) \<and> freezeMax (fst s') = freezeMax (fst s))"

lemma may_show_gen: "may_show e x \<Longrightarrow> gen_of x = Some g \<Longrightarrow> e_minHeld e \<le> g"
  by (cases x) (auto simp: may_show_def)

lemma may_show_slate: "may_show e x \<Longrightarrow> shouldWriteCancellationSlate (e_core e) \<Longrightarrow> x = Slate"
  by (cases x) (auto simp: may_show_def)

lemma good_run_Nil: "good_run evs s s"
  unfolding good_run_def by (intro exI [of _ "[]"]) simp

lemma good_run_quiet:
  assumes "good_run evs (e', w) s'" and "e_minHeld e \<le> e_minHeld e'" and "gapFillAfter e' = gapFillAfter e"
    and "freezeMax e' = freezeMax e"
    and "shouldWriteCancellationSlate (e_core e) \<Longrightarrow> \<exists>c. ev = WCore c \<or> shouldWriteCancellationSlate (e_core e')"
  shows "good_run (ev # evs) (e, w) s'"
proof -
  from assms(1) obtain new where n: "w_out (snd s') = new @ w_out w"
    "\<forall>x\<in>set new. \<forall>g. gen_of x = Some g \<longrightarrow> e_minHeld e' \<le> g"
    "\<forall>d g gap. Held d g gap \<in> set new \<longrightarrow> g \<noteq> 0 \<and> gapFillAfter e' \<le> gap \<and> gap < freezeMax e'"
    "shouldWriteCancellationSlate (e_core e') \<and> (\<forall>ev. WCore ev \<notin> set evs) \<longrightarrow> set new \<subseteq> {Slate}"
    "held_ok w \<longrightarrow> held_ok (snd s')" "e_minHeld e' \<le> e_minHeld (fst s')"
    "gapFillAfter (fst s') = gapFillAfter e'" "freezeMax (fst s') = freezeMax e'"
    by (auto simp: good_run_def)
  show ?thesis
    unfolding good_run_def
  proof (intro exI [of _ new] conjI)
    show "shouldWriteCancellationSlate (e_core (fst (e, w))) \<and> (\<forall>c. WCore c \<notin> set (ev # evs)) \<longrightarrow> set new \<subseteq> {Slate}"
      using assms(5) n(4) by auto
  qed (use n assms(2-4) in \<open>auto intro: order_trans\<close>)
qed

lemma good_run_step:
  assumes "good_step s s1" and "good_run evs s1 s'"
  shows "good_run (ev # evs) s s'"
proof -
  obtain new where n: "w_out (snd s') = new @ w_out (snd s1)"
    "\<forall>x\<in>set new. \<forall>g. gen_of x = Some g \<longrightarrow> e_minHeld (fst s1) \<le> g"
    "\<forall>d g gap. Held d g gap \<in> set new \<longrightarrow> g \<noteq> 0 \<and> gapFillAfter (fst s1) \<le> gap \<and> gap < freezeMax (fst s1)"
    "shouldWriteCancellationSlate (e_core (fst s1)) \<and> (\<forall>ev. WCore ev \<notin> set evs) \<longrightarrow> set new \<subseteq> {Slate}"
    "held_ok (snd s1) \<longrightarrow> held_ok (snd s')" "e_minHeld (fst s1) \<le> e_minHeld (fst s')"
    "gapFillAfter (fst s') = gapFillAfter (fst s1)" "freezeMax (fst s') = freezeMax (fst s1)"
    using assms(2) by (auto simp: good_run_def)
  from assms(1) have g: "same_rules (fst s) (fst s1)" "held_ok (snd s) \<longrightarrow> held_ok (snd s1)"
    by (auto simp: good_step_def)
  obtain xs where xs: "w_out (snd s1) = xs @ w_out (snd s)" "\<forall>x\<in>set xs. may_show (fst s) x"
    using assms(1) unfolding good_step_def by (metis append_Cons append_Nil empty_iff list.set(1) set_ConsD)
  show ?thesis
    unfolding good_run_def
  proof (intro exI [of _ "new @ xs"] conjI)
    show "\<forall>x\<in>set (new @ xs). \<forall>g. gen_of x = Some g \<longrightarrow> e_minHeld (fst s) \<le> g"
      using n(2) xs(2) g(1) may_show_gen by (auto simp: same_rules_def)
    show "\<forall>d g gap. Held d g gap \<in> set (new @ xs) \<longrightarrow> g \<noteq> 0 \<and> gapFillAfter (fst s) \<le> gap \<and> gap < freezeMax (fst s)"
      using n(3) xs(2) g(1) by (fastforce simp: same_rules_def may_show_def)
    show "shouldWriteCancellationSlate (e_core (fst s)) \<and> (\<forall>c. WCore c \<notin> set (ev # evs)) \<longrightarrow> set (new @ xs) \<subseteq> {Slate}"
      using n(4) xs(2) g(1) may_show_slate by (auto simp: same_rules_def)
  qed (use n xs(1) g in \<open>auto simp: same_rules_def\<close>)
qed

lemma writeFrames_loop_good:
  "writeFrames_loop mk wd ht evs s = (res, s') \<Longrightarrow> good_run evs s s'"
proof (induction evs arbitrary: s)
  case Nil
  then show ?case by (simp add: good_run_Nil)
next
  case (Cons ev evs)
  have one: "good_step s s' \<Longrightarrow> good_run (ev # evs) s s'" by (rule good_run_step [OF _ good_run_Nil])
  show ?case
  proof (cases ev)
    case (WInput f t ok)
    then show ?thesis
      using Cons one on_input_good [of wd ht f t ok s] good_run_step [of s _ evs s' ev]
      by (auto split: prod.splits step_result.splits)
  next
    case (WTick t ok)
    then show ?thesis
      using Cons one on_tick_good [of mk wd ht t ok s] good_run_step [of s _ evs s' ev]
      by (auto split: prod.splits step_result.splits)
  next
    case WCancel
    with Cons.prems show ?thesis by (simp add: good_run_Nil)
  next
    case (WInvalidate g)
    have "good_run (ev # evs) (fst s, snd s) s'"
      by (rule good_run_quiet [where e' = "InvalidateHeldFrame g (fst s)"])
        (use Cons WInvalidate in \<open>auto simp: InvalidateHeldFrame_def\<close>)
    then show ?thesis by simp
  next
    case (WCore c)
    have "good_run (ev # evs) (fst s, snd s) s'"
      by (rule good_run_quiet [where e' = "(fst s)\<lparr>e_core := core_change c (e_core (fst s))\<rparr>"])
        (use Cons WCore in auto)
    then show ?thesis by simp
  qed
qed

lemma writeFrames_loop_append:
  "writeFrames_loop mk wd ht evs s = (Waiting, s1) \<Longrightarrow>
    writeFrames_loop mk wd ht (evs @ evs2) s = writeFrames_loop mk wd ht evs2 s1"
proof (induction evs arbitrary: s)
  case (Cons ev evs)
  then show ?case by (cases ev) (auto split: prod.splits step_result.splits)
qed simp


definition demo_egress :: RTMPEgress where
  "demo_egress = \<lparr>e_core = new_core 0 ''rtmp://h/a/abcdefgh'', e_raw = False, e_minHeld = 0,
     gapFillAfter = egressGapFillAfter, freezeMax = egressFreezeMax\<rparr>"

definition demo_pic :: "nat \<Rightarrow> nat list option" where
  "demo_pic n = Some [255, 216, n, 255, 217]"


subsection \<open>The outer loop gives up\<close>

definition run_ok :: "reconnectPolicy \<Rightarrow> run_state \<Rightarrow> bool" where
  "run_ok p r = (budget_policy (r_budget r) = p \<and> attempts (r_budget r) \<le> maxAttempts p
     \<and> (r_pc r = PcReturned \<longrightarrow> Phase (status (e_core (r_e r))) = EgressPhaseStopped))"

lemma Stop_Phase [simp]: "Phase (status (Stop now c)) = EgressPhaseStopped"
  by (simp add: Stop_def clearCancellationSlate_def transition_Phase nextEgressPhase_def)

lemma returned_facts [simp]:
  "r_pc (returned now r) = PcReturned" "r_budget (returned now r) = r_budget r"
  "Phase (status (e_core (r_e (returned now r)))) = EgressPhaseStopped"
  by (simp_all add: returned_def)

lemma waitForReconnect_budget:
  assumes "waitForReconnect now later waited c1 c2 err b c = (ok, b', c')"
  shows "budget_policy b' = budget_policy b \<and> attempts b' = (if ok then Suc (attempts b) else attempts b)
    \<and> (ok \<longrightarrow> attempts b < maxAttempts (budget_policy b))"
  using assms
  by (auto simp: waitForReconnect_def beginAttempt_def spent_def deadline_def Let_def split: option.splits if_splits)

lemma reconnect_facts:
  "budget_policy (r_budget (reconnect fr w h fps r)) = budget_policy (r_budget r)
   \<and> (r_pc (reconnect fr w h fps r) = PcReturned \<and> attempts (r_budget (reconnect fr w h fps r)) = attempts (r_budget r)
        \<and> Phase (status (e_core (r_e (reconnect fr w h fps r)))) = EgressPhaseStopped
      \<or> r_pc (reconnect fr w h fps r) = PcStart w h fps []
        \<and> attempts (r_budget (reconnect fr w h fps r)) = Suc (attempts (r_budget r))
        \<and> attempts (r_budget r) < maxAttempts (budget_policy (r_budget r)))"
proof -
  obtain now later waited c1 c2 err where fr: "fr = (now, later, waited, c1, c2, err)" by (cases fr) auto
  obtain ok b c where w: "waitForReconnect now later waited c1 c2 err (r_budget r) (e_core (r_e r)) = (ok, b, c)"
    by (metis prod.collapse)
  from waitForReconnect_budget [OF w] show ?thesis
    by (auto simp: reconnect_def fr w Let_def)
qed

lemma reconnect_ok: "run_ok p r \<Longrightarrow> run_ok p (reconnect fr w h fps r)"
  using reconnect_facts [of fr w h fps r] by (auto simp: run_ok_def)

lemma returned_ok: "run_ok p r \<Longrightarrow> run_ok p (returned now r)"
  by (simp add: run_ok_def)

lemma after_write_ok:
  assumes "run_ok p r" and "r_pc r \<noteq> PcReturned"
  shows "run_ok p (after_write p w h fps res cancelled t1 fr r)"
proof -
  obtain result e wr where res: "res = (result, e, wr)" by (cases res) auto
  let ?r = "r\<lparr>r_e := e\<lparr>e_core := Detach (e_core e)\<rparr>,
    r_budget := (if w_stable wr then budget_reset (r_budget r) else r_budget r)\<rparr>"
  have "run_ok p ?r" using assms by (auto simp: run_ok_def budget_reset_def)
  then show ?thesis
    using assms reconnect_ok [of p ?r fr w h fps] returned_ok [of p ?r t1]
    by (cases result) (auto simp: after_write_def res Let_def run_ok_def)
qed

lemma step_collect_ok: "run_ok p r \<Longrightarrow> run_ok p (step_collect seed dl as cancelled now r)"
  by (auto simp: step_collect_def run_ok_def split: option.splits startupFramesResult.splits)

lemma run_ok_going: "run_ok p r \<Longrightarrow> pc \<noteq> PcReturned \<Longrightarrow> run_ok p (r\<lparr>r_e := e, r_pc := pc\<rparr>)"
  by (simp add: run_ok_def)

lemma run_step_ok: "run_ok p r \<Longrightarrow> run_ok p (run_step mk p r ans)"
  by (cases "r_pc r"; cases ans)
    (simp_all add: run_step_def step_collect_ok reconnect_ok returned_ok after_write_ok run_ok_going)

interpretation egress_run: guarded_state "run_step mk p" "run_ok p" "\<lambda>_. True" for mk p
  by unfold_locales (rule run_step_ok)

lemma run_step_returned: "r_pc r = PcReturned \<Longrightarrow> run_step mk p r ans = r"
  by (simp add: run_step_def)

lemma foldl_returned: "r_pc r = PcReturned \<Longrightarrow> foldl (run_step mk p) r as = r"
  by (induction as) (simp_all add: run_step_returned)

lemma refused_starts_end:
  assumes "run_ok p r" and "r_pc r = PcStart w h fps first" and "maxAttempts p - attempts (r_budget r) < length fs"
  shows "r_pc (foldl (run_step mk p) r (map (RStartFails False) fs)) = PcReturned"
  using assms
proof (induction fs arbitrary: r first)
  case (Cons fr fs)
  let ?r = "reconnect fr w h fps r"
  have s: "run_step mk p r (RStartFails False fr) = ?r" using Cons.prems(2) by (simp add: run_step_def)
  show ?case
  proof (cases "r_pc ?r = PcReturned")
    case True
    then show ?thesis by (simp add: s foldl_returned)
  next
    case False
    with reconnect_facts [of fr w h fps r] Cons.prems(1) have "r_pc ?r = PcStart w h fps []"
      "attempts (r_budget ?r) = Suc (attempts (r_budget r))" "attempts (r_budget r) < maxAttempts p"
      by (auto simp: run_ok_def)
    with Cons.IH [of ?r "[]"] reconnect_ok [OF Cons.prems(1)] Cons.prems(3) show ?thesis by (simp add: s)
  qed
qed simp

text \<open>
  Property C13. However its processes, its input and the clock behave, the loop of an egress never
  uses more restarts than its policy allows since the last stable process, and when it returns the
  egress is stopped. It does return: from any moment when it is about to start FFmpeg, more refused
  starts in a row than the policy has attempts end it.
\<close>

theorem egress_loop_gives_up:
  fixes as :: "run_answer list"
  assumes "r = run_egress_loop mk p e as"
  shows "attempts (r_budget r) \<le> maxAttempts p
    \<and> (r_pc r = PcReturned \<longrightarrow> Phase (status (e_core (r_e r))) = EgressPhaseStopped)
    \<and> (r_pc r = PcStart w h fps first \<and> maxAttempts p < length fs \<longrightarrow>
        r_pc (foldl (run_step mk p) r (map (RStartFails False) fs)) = PcReturned)"
proof -
  have "run_ok p (newRun p e)" by (simp add: run_ok_def newRun_def newReconnectBudget_def)
  then have "run_ok p r"
    unfolding assms run_egress_loop_def by (rule egress_run.run_inv) (simp add: list_all_iff)
  then show ?thesis using refused_starts_end [of p r w h fps first fs mk] by (auto simp: run_ok_def)
qed

lemma collect_all:
  "length startup + length fs = egressMeasureFrames \<Longrightarrow>
    collectStartupFrames (map SFrame fs) startup = Some (startupFramesReady (startup @ fs))"
proof (induction fs arbitrary: startup)
  case (Cons f fs)
  have "collectStartupFrames (map SFrame (f # fs)) startup = collectStartupFrames (map SFrame fs) (startup @ [f])"
    using Cons.prems by (simp add: collectStartupFrames.simps [of "SFrame f # map SFrame fs"])
  with Cons.IH [of "startup @ [f]"] Cons.prems show ?case by simp
qed (simp add: collectStartupFrames.simps)

theorem egress_loop_gives_up_witness:
  "\<exists>r. r = run_egress_loop (\<lambda>_ _ _. demo_pic 0) (defaultReconnectPolicy\<lparr>maxAttempts := 1\<rparr>) demo_egress
      [RCollect (map SFrame (replicate 30 (demo_frame 0))) False 0]
    \<and> r_pc (foldl (run_step (\<lambda>_ _ _. demo_pic 0) (defaultReconnectPolicy\<lparr>maxAttempts := 1\<rparr>)) r
        (map (RStartFails False) [demo_failure 1, demo_failure 2])) = PcReturned"
proof -
  let ?r = "run_egress_loop (\<lambda>_ _ _. demo_pic 0) (defaultReconnectPolicy\<lparr>maxAttempts := 1\<rparr>) demo_egress
      [RCollect (map SFrame (replicate 30 (demo_frame 0))) False 0]"
  have "collectStartupFrames (map SFrame (replicate 30 (demo_frame 0))) [] = Some (startupFramesReady (replicate 30 (demo_frame 0)))"
    by (subst collect_all) simp_all
  then have "\<exists>fps first. r_pc ?r = PcStart 1280 720 fps first"
    by (auto simp: run_egress_loop_def newRun_def run_step_def step_collect_def demo_frame_def simp del: map_replicate)
  then obtain fps first where "r_pc ?r = PcStart 1280 720 fps first" by blast
  with egress_loop_gives_up [OF refl, of "\<lambda>_ _ _. demo_pic 0" "defaultReconnectPolicy\<lparr>maxAttempts := 1\<rparr>" demo_egress
      "[RCollect (map SFrame (replicate 30 (demo_frame 0))) False 0]" 1280 720 fps first "[demo_failure 1, demo_failure 2]"]
  show ?thesis by (simp del: map_replicate)
qed

end
