(* ===== verification/Broadcast.thy ===== *)
theory Broadcast
  imports BroadcastSettings EgressStatus EgressSlots "HOL-Library.AList"
begin

text \<open>
  The broadcast of a session on each platform (\<^verbatim>\<open>internal/session/broadcast.go\<close>,
  \<^verbatim>\<open>chzzk_broadcast.go\<close>, \<^verbatim>\<open>resolution.go\<close> and the stream operations of \<^verbatim>\<open>manager.go\<close>): the phases
  idle, preparing, prepared, going live and live, the platform broadcast a target holds, its RTMP
  egress, stopping, pausing and withdrawing. Each method body that runs under \<open>Session.mu\<close> is one
  function of the session (in lower case with underscores); the method itself, with the lookup of the
  session, carries the name of the source. \<open>now\<close> is the clock, fresh identifiers are arguments, and
  calls out of the session (usage records, platform cleanup, the AI processor) are effects.
\<close>

subsection \<open>State\<close>

datatype BroadcastPhase =
    BroadcastPhaseIdle
  | BroadcastPhasePreparing
  | BroadcastPhasePrepared
  | BroadcastPhaseGoingLive
  | BroadcastPhaseLive

record PlatformBroadcast =
  pb_Provider :: string
  pb_BroadcastID :: string
  pb_StreamID :: string
  pb_AccountID :: nat
  pb_ChannelTitle :: string
  pb_IngestURL :: string

definition zero_broadcast :: PlatformBroadcast where
  "zero_broadcast = \<lparr>pb_Provider = '''', pb_BroadcastID = '''', pb_StreamID = '''', pb_AccountID = 0,
     pb_ChannelTitle = '''', pb_IngestURL = ''''\<rparr>"

text \<open>An egress is the number of its object and its status.\<close>

record egress =
  eg_id :: nat
  eg_core :: egress_core

record streamTarget =
  t_egress :: "egress option"
  t_cancel :: bool
  t_stopReason :: "string option"
  t_platformBroadcast :: "PlatformBroadcast option"
  t_phase :: BroadcastPhase
  t_goLiveStopRequested :: bool
  t_channel :: string
  t_usageID :: string

definition idle_target :: streamTarget where
  "idle_target = \<lparr>t_egress = None, t_cancel = False, t_stopReason = None, t_platformBroadcast = None,
     t_phase = BroadcastPhaseIdle, t_goLiveStopRequested = False, t_channel = '''', t_usageID = ''''\<rparr>"

abbreviation AIProcessingOnDevice :: string where "AIProcessingOnDevice \<equiv> ''on_device''"

record Session =
  s_ID :: string
  s_UserID :: nat
  s_Provider :: string
  s_Plan :: Plan
  s_AIProcessing :: string
  s_FaceAnonymization :: string
  s_targets :: "(string \<times> streamTarget) list"
  s_closed :: bool
  s_aiInputPaused :: bool
  s_broadcast :: "YouTubeBroadcastSettings option"
  s_chzzkBroadcast :: "ChzzkBroadcastSettings option"
  s_resolution :: string
  s_pinLongEdge :: int
  s_rawTrackID :: string
  s_videoTrack :: "string option"
  s_trackCancel :: bool
  s_directStops :: "string \<rightharpoonup> string"
  s_UpdatedAt :: instant
  s_lastActivityAt :: instant
  s_heartbeat :: instant
  s_mediaIdleReset :: instant

datatype session_error =
    ErrNotFound
  | ErrInvalidSettings InvalidBroadcastSettingsError
  | ErrBroadcastPrepared
  | ErrBroadcastLive
  | ErrBroadcastGoingLive
  | ErrBroadcastNotPrepared
  | ErrChannelInUseByOtherAccount
  | ErrStreamNotActive
  | ErrStreamActive
  | ErrStreamPaused
  | ErrStreamNotPaused
  | ErrNoVideoTrack
  | ErrInvalidResolution
  | ErrResolutionChangeWhileLive
  | ErrSlots egressError

datatype UsageEvent =
    UsageBroadcastStarted instant string string string
  | UsageBroadcastLive instant string
  | UsageBroadcastPaused instant string
  | UsageBroadcastResumed instant string
  | UsageBroadcastEnded instant string string
  | UsageResolutionChanged instant string string
  | UsageSessionEnded instant string string

datatype effect =
    Usage UsageEvent
  | CleanupBroadcast nat PlatformBroadcast BroadcastPhase
  | DirectBroadcastEnded nat string PlatformBroadcast
  | SuspendAIInput
  | ResumeAIInput

text \<open>Which of the manager's hooks are installed, and whether the session has an AI processor.\<close>

record hooks =
  hk_usage :: bool
  hk_cleanup :: bool
  hk_directEnded :: bool
  hk_processor :: bool

definition recordUsage :: "hooks \<Rightarrow> UsageEvent \<Rightarrow> effect list" where
  "recordUsage hk ev = (if hk_usage hk then [Usage ev] else [])"

definition disposeBroadcast :: "hooks \<Rightarrow> nat \<Rightarrow> PlatformBroadcast \<Rightarrow> BroadcastPhase \<Rightarrow> effect list" where
  "disposeBroadcast hk userID b ph =
    (if \<not> hk_cleanup hk \<or> ph = BroadcastPhaseIdle \<or> pb_BroadcastID b = '''' then []
     else [CleanupBroadcast userID b ph])"

subsection \<open>Targets\<close>

definition readTarget :: "string \<Rightarrow> Session \<Rightarrow> streamTarget" where
  "readTarget p s = (case map_of (s_targets s) p of Some t \<Rightarrow> t | None \<Rightarrow> idle_target)"

definition put_target :: "string \<Rightarrow> streamTarget \<Rightarrow> Session \<Rightarrow> Session" where
  "put_target p t s = s\<lparr>s_targets := AList.update p t (s_targets s)\<rparr>"

text \<open>\<open>Session.target\<close> creates the entry that is missing; the target read is \<open>readTarget p s\<close>.\<close>

definition target :: "string \<Rightarrow> Session \<Rightarrow> Session" where
  "target p s = put_target p (readTarget p s) s"

definition targetProvider :: "Session \<Rightarrow> string list \<Rightarrow> string" where
  "targetProvider s providers = (if providers \<noteq> [] \<and> hd providers \<noteq> '''' then hd providers else s_Provider s)"

definition busyTargetCountLocked :: "Session \<Rightarrow> nat" where
  "busyTargetCountLocked s = length (filter (\<lambda>(p, t). t_phase t \<noteq> BroadcastPhaseIdle) (s_targets s))"

definition PreparedTargets :: "Session \<Rightarrow> string list" where
  "PreparedTargets s =
    sort_strings (map fst (filter (\<lambda>(p, t). t_phase t = BroadcastPhasePrepared) (s_targets s)))"

definition PlatformBroadcast_of :: "string \<Rightarrow> Session \<Rightarrow> PlatformBroadcast \<times> BroadcastPhase" where
  "PlatformBroadcast_of p s = (let t = readTarget p s in
     ((case t_platformBroadcast t of None \<Rightarrow> zero_broadcast | Some b \<Rightarrow> b), t_phase t))"

definition egress_stopped :: "streamTarget \<Rightarrow> bool" where
  "egress_stopped t = (case t_egress t of None \<Rightarrow> False | Some e \<Rightarrow> Phase (status (eg_core e)) = EgressPhaseStopped)"

text \<open>The test \<^verbatim>\<open>t.egress != nil && t.stopReason == nil && t.egress.Status().Phase != stopped\<close>.\<close>

definition egress_active :: "streamTarget \<Rightarrow> bool" where
  "egress_active t = (t_egress t \<noteq> None \<and> t_stopReason t = None \<and> \<not> egress_stopped t)"

definition hasActiveTargetLocked :: "Session \<Rightarrow> bool" where
  "hasActiveTargetLocked s = list_ex (\<lambda>(p, t). t_phase t \<noteq> BroadcastPhaseIdle \<or> egress_active t) (s_targets s)"

subsection \<open>Pausing the AI input\<close>

definition egressSuspendsAIInput :: "EgressPhase \<Rightarrow> bool" where
  "egressSuspendsAIInput phase = (phase = EgressPhasePaused \<or> phase = EgressPhasePausedReconnecting)"

fun allTargetsPaused_loop :: "nat \<Rightarrow> EgressPhase list \<Rightarrow> bool" where
  "allTargetsPaused_loop paused [] = (paused > 0)"
| "allTargetsPaused_loop paused (phase # phases) =
    (if phase = EgressPhaseStopped then allTargetsPaused_loop paused phases
     else if egressSuspendsAIInput phase then allTargetsPaused_loop (paused + 1) phases
     else False)"

definition allTargetsPaused :: "EgressPhase list \<Rightarrow> bool" where
  "allTargetsPaused phases = allTargetsPaused_loop 0 phases"

fun running_phases :: "(string \<times> streamTarget) list \<Rightarrow> EgressPhase list" where
  "running_phases [] = []"
| "running_phases ((p, t) # ts) = (case t_egress t of
      None \<Rightarrow> running_phases ts
    | Some e \<Rightarrow> if t_stopReason t \<noteq> None then running_phases ts
        else Phase (status (eg_core e)) # running_phases ts)"

definition allTargetsPausedLocked :: "Session \<Rightarrow> bool" where
  "allTargetsPausedLocked s = allTargetsPaused (running_phases (s_targets s))"

definition setAIInputPaused :: "hooks \<Rightarrow> bool \<Rightarrow> Session \<Rightarrow> Session \<times> effect list" where
  "setAIInputPaused hk paused s = (s\<lparr>s_aiInputPaused := paused\<rparr>,
     if \<not> hk_processor hk then [] else if paused then [SuspendAIInput] else [ResumeAIInput])"

subsection \<open>Settings\<close>

definition settings_guard :: "BroadcastPhase \<Rightarrow> session_error option" where
  "settings_guard ph = (case ph of
      BroadcastPhasePreparing \<Rightarrow> Some ErrBroadcastPrepared
    | BroadcastPhasePrepared \<Rightarrow> Some ErrBroadcastPrepared
    | BroadcastPhaseGoingLive \<Rightarrow> Some ErrBroadcastLive
    | BroadcastPhaseLive \<Rightarrow> Some ErrBroadcastLive
    | BroadcastPhaseIdle \<Rightarrow> None)"

definition save_settings :: "instant \<Rightarrow> string \<Rightarrow> (Session \<Rightarrow> Session) \<Rightarrow> Session \<Rightarrow> (session_error + unit) \<times> Session" where
  "save_settings now p f s = (let t = readTarget p s; s = target p s in
     if s_closed s then (Err ErrNotFound, s)
     else case settings_guard (t_phase t) of
         Some e \<Rightarrow> (Err e, s)
       | None \<Rightarrow> (Ok (), (f s)\<lparr>s_UpdatedAt := now, s_lastActivityAt := now\<rparr>))"

definition set_broadcast_settings :: "instant \<Rightarrow> YouTubeBroadcastSettings \<Rightarrow> string \<Rightarrow> Session \<Rightarrow> (session_error + unit) \<times> Session" where
  "set_broadcast_settings now settings p s = (case validateDescriptionFor (s_FaceAnonymization s) (yt_Description settings) of
      Some e \<Rightarrow> (Err (ErrInvalidSettings e), s)
    | None \<Rightarrow> save_settings now p (\<lambda>s. s\<lparr>s_broadcast := Some (settings\<lparr>yt_UpdatedAt := now\<rparr>)\<rparr>) s)"

definition set_chzzk_settings :: "instant \<Rightarrow> ChzzkBroadcastSettings \<Rightarrow> string \<Rightarrow> Session \<Rightarrow> (session_error + unit) \<times> Session" where
  "set_chzzk_settings now settings p s =
    save_settings now p (\<lambda>s. s\<lparr>s_chzzkBroadcast := Some (settings\<lparr>cz_UpdatedAt := now\<rparr>)\<rparr>) s"

subsection \<open>Preparing and going live\<close>

definition begin_prepare :: "instant \<Rightarrow> string \<Rightarrow> string \<Rightarrow> Session \<Rightarrow> (session_error + nat) \<times> Session" where
  "begin_prepare now channel p s = (let t = readTarget p s; s = target p s in
     if s_closed s then (Err ErrNotFound, s)
     else if t_phase t \<in> {BroadcastPhasePreparing, BroadcastPhasePrepared} then (Err ErrBroadcastPrepared, s)
     else if t_phase t = BroadcastPhaseLive then (Err ErrBroadcastLive, s)
     else let s = (put_target p (t\<lparr>t_phase := BroadcastPhasePreparing, t_channel := channel\<rparr>) s)\<lparr>s_UpdatedAt := now\<rparr> in
       (Ok (busyTargetCountLocked s), s))"

definition reset_preparation :: "instant \<Rightarrow> string \<Rightarrow> Session \<Rightarrow> Session" where
  "reset_preparation now p s = (let t = readTarget p s; s = target p s in
     if t_phase t \<noteq> BroadcastPhasePreparing then s
     else (put_target p (t\<lparr>t_platformBroadcast := None, t_phase := BroadcastPhaseIdle\<rparr>) s)\<lparr>s_UpdatedAt := now\<rparr>)"

definition mark_prepared :: "instant \<Rightarrow> PlatformBroadcast \<Rightarrow> string \<Rightarrow> Session \<Rightarrow> (session_error + unit) \<times> Session" where
  "mark_prepared now b p s = (let t = readTarget p s; s = target p s in
     if s_closed s then (Err ErrNotFound, s)
     else if t_phase t = BroadcastPhasePrepared then (Err ErrBroadcastPrepared, s)
     else if t_phase t = BroadcastPhaseLive then (Err ErrBroadcastLive, s)
     else if t_phase t \<noteq> BroadcastPhasePreparing then (Err ErrBroadcastNotPrepared, s)
     else (Ok (), (put_target p (t\<lparr>t_platformBroadcast := Some b, t_phase := BroadcastPhasePrepared\<rparr>) s)\<lparr>s_UpdatedAt := now\<rparr>))"

definition begin_go_live :: "instant \<Rightarrow> string \<Rightarrow> Session \<Rightarrow> (session_error + unit) \<times> Session" where
  "begin_go_live now p s = (let t = readTarget p s; s = target p s in
     if s_closed s then (Err ErrNotFound, s)
     else if t_phase t = BroadcastPhaseLive then (Err ErrBroadcastLive, s)
     else if t_phase t = BroadcastPhaseGoingLive then (Err ErrBroadcastGoingLive, s)
     else if t_phase t \<noteq> BroadcastPhasePrepared then (Err ErrBroadcastNotPrepared, s)
     else (Ok (), (put_target p (t\<lparr>t_phase := BroadcastPhaseGoingLive, t_goLiveStopRequested := False\<rparr>) s)\<lparr>s_UpdatedAt := now\<rparr>))"

definition given_up :: "streamTarget \<Rightarrow> streamTarget" where
  "given_up t = t\<lparr>t_platformBroadcast := None, t_phase := BroadcastPhaseIdle, t_goLiveStopRequested := False\<rparr>"

definition broadcast_or_zero :: "streamTarget \<Rightarrow> PlatformBroadcast" where
  "broadcast_or_zero t = (case t_platformBroadcast t of None \<Rightarrow> zero_broadcast | Some b \<Rightarrow> b)"

text \<open>The result is (aborted, broadcast, error); \<open>usageID\<close> is the identifier \<open>uuid.NewString\<close> would give.\<close>

definition complete_go_live :: "hooks \<Rightarrow> instant \<Rightarrow> string \<Rightarrow> string \<Rightarrow> Session \<Rightarrow>
    (bool \<times> PlatformBroadcast \<times> session_error option) \<times> Session \<times> effect list" where
  "complete_go_live hk now usageID p s = (let t = readTarget p s; s = target p s; b = broadcast_or_zero t in
     if s_closed s \<or> t_goLiveStopRequested t \<or> (egress_stopped t \<and> t_phase t = BroadcastPhaseGoingLive)
       then ((True, b, None), (put_target p (given_up t) s)\<lparr>s_UpdatedAt := now\<rparr>, [])
     else if t_phase t \<noteq> BroadcastPhaseGoingLive then ((True, b, Some ErrBroadcastNotPrepared), s, [])
     else
       let t = t\<lparr>t_phase := BroadcastPhaseLive\<rparr>;
           direct = (s_AIProcessing s = AIProcessingOnDevice \<and> t_egress t = None \<and> t_usageID t = '''');
           t = (if direct then t\<lparr>t_usageID := usageID\<rparr> else t);
           s = (put_target p t s)\<lparr>s_UpdatedAt := now, s_heartbeat := (if direct then now else s_heartbeat s)\<rparr> in
       ((False, b, None), s,
        (if direct then recordUsage hk (UsageBroadcastStarted now (s_ID s) usageID p) else [])
        @ (if t_usageID t \<noteq> '''' then recordUsage hk (UsageBroadcastLive now (t_usageID t)) else [])))"

definition abort_go_live :: "instant \<Rightarrow> string \<Rightarrow> Session \<Rightarrow> (bool \<times> PlatformBroadcast) \<times> Session" where
  "abort_go_live now p s = (let t = readTarget p s; s = target p s; b = broadcast_or_zero t in
     if t_phase t \<noteq> BroadcastPhaseGoingLive then ((True, b), s)
     else if s_closed s \<or> t_goLiveStopRequested t
       then ((True, b), (put_target p (given_up t) s)\<lparr>s_UpdatedAt := now\<rparr>)
     else ((False, b), (put_target p (t\<lparr>t_phase := BroadcastPhasePrepared\<rparr>) s)\<lparr>s_UpdatedAt := now\<rparr>))"

subsection \<open>Taking a broadcast off a session\<close>

definition takeBroadcastLocked :: "string \<Rightarrow> Session \<Rightarrow> (PlatformBroadcast \<times> BroadcastPhase) \<times> Session" where
  "takeBroadcastLocked p s = (let t = readTarget p s; s = target p s in
     if t_phase t = BroadcastPhaseGoingLive then ((zero_broadcast, BroadcastPhaseIdle), s)
     else ((if t_platformBroadcast t \<noteq> None \<and> t_phase t \<in> {BroadcastPhasePrepared, BroadcastPhaseLive}
            then (broadcast_or_zero t, t_phase t) else (zero_broadcast, BroadcastPhaseIdle)),
       put_target p (t\<lparr>t_platformBroadcast := None, t_phase := BroadcastPhaseIdle\<rparr>) s))"

definition takeWithdrawalBroadcast :: "string \<Rightarrow> Session \<Rightarrow> (PlatformBroadcast \<times> BroadcastPhase) \<times> Session" where
  "takeWithdrawalBroadcast p s = (let t = readTarget p s; s = target p s in
     case t_platformBroadcast t of
       None \<Rightarrow> ((zero_broadcast, BroadcastPhaseIdle),
         put_target p (t\<lparr>t_phase := BroadcastPhaseIdle, t_goLiveStopRequested := False\<rparr>) s)
     | Some b \<Rightarrow>
         let ph = (if t_phase t = BroadcastPhaseGoingLive then BroadcastPhaseLive else t_phase t);
             ph = (if ph \<noteq> BroadcastPhasePrepared \<and> ph \<noteq> BroadcastPhaseLive then BroadcastPhaseIdle else ph) in
         ((b, ph), put_target p (given_up t) s))"

fun take_all :: "(string \<Rightarrow> Session \<Rightarrow> (PlatformBroadcast \<times> BroadcastPhase) \<times> Session) \<Rightarrow> string list \<Rightarrow> Session \<Rightarrow>
    (PlatformBroadcast \<times> BroadcastPhase) list \<times> Session" where
  "take_all f [] s = ([], s)"
| "take_all f (p # ps) s = (let (x, s) = f p s; (xs, s) = take_all f ps s in (x # xs, s))"

definition takeWithdrawalBroadcasts :: "Session \<Rightarrow> (PlatformBroadcast \<times> BroadcastPhase) list \<times> Session" where
  "takeWithdrawalBroadcasts s = take_all takeWithdrawalBroadcast (sort_strings (map fst (s_targets s))) s"

definition endDirectUsageLocked :: "hooks \<Rightarrow> instant \<Rightarrow> string \<Rightarrow> string \<Rightarrow> Session \<Rightarrow> Session \<times> effect list" where
  "endDirectUsageLocked hk now rsn p s = (let t = readTarget p s in
     if t_egress t \<noteq> None \<or> t_usageID t = '''' then (s, [])
     else (put_target p (t\<lparr>t_usageID := ''''\<rparr>) s,
       recordUsage hk (UsageBroadcastEnded now (t_usageID t) rsn)
       @ (case t_platformBroadcast t of
            Some b \<Rightarrow> if hk_directEnded hk \<and> pb_BroadcastID b \<noteq> '''' then [DirectBroadcastEnded (s_UserID s) (t_usageID t) b] else []
          | None \<Rightarrow> [])))"

fun end_direct_usages :: "hooks \<Rightarrow> instant \<Rightarrow> string \<Rightarrow> string list \<Rightarrow> Session \<Rightarrow> Session \<times> effect list" where
  "end_direct_usages hk now rsn [] s = (s, [])"
| "end_direct_usages hk now rsn (p # ps) s =
    (let (s, e1) = endDirectUsageLocked hk now rsn p s; (s, e2) = end_direct_usages hk now rsn ps s in (s, e1 @ e2))"

fun cleanup_targets :: "hooks \<Rightarrow> instant \<Rightarrow> string list \<Rightarrow> Session \<Rightarrow> (PlatformBroadcast \<times> BroadcastPhase) list \<times> Session \<times> effect list" where
  "cleanup_targets hk now [] s = ([], s, [])"
| "cleanup_targets hk now (p # ps) s =
    (let (s, e1) = endDirectUsageLocked hk now ''session_closed'' p s;
         (x, s) = takeBroadcastLocked p s;
         (xs, s, e2) = cleanup_targets hk now ps s in
     (x # xs, s, e1 @ e2))"

definition cleanupPlatformBroadcast :: "hooks \<Rightarrow> instant \<Rightarrow> Session \<Rightarrow> (PlatformBroadcast \<times> BroadcastPhase) list \<times> Session \<times> effect list" where
  "cleanupPlatformBroadcast hk now s = (let (xs, s, eff) = cleanup_targets hk now (map fst (s_targets s)) s in
     (xs, s, eff @ concat (map (\<lambda>(b, ph). disposeBroadcast hk (s_UserID s) b ph) xs)))"

text \<open>\<open>Session.close\<close>: every running egress is stopped; the peer connection is not modelled.\<close>

definition close_target :: "instant \<Rightarrow> streamTarget \<Rightarrow> streamTarget" where
  "close_target now t = (if \<not> t_cancel t then t
     else t\<lparr>t_egress := map_option (\<lambda>e. e\<lparr>eg_core := Stop now (eg_core e)\<rparr>) (t_egress t)\<rparr>)"

definition close :: "instant \<Rightarrow> Session \<Rightarrow> Session" where
  "close now s = (if s_closed s then s
     else s\<lparr>s_closed := True, s_targets := map (\<lambda>(p, t). (p, close_target now t)) (s_targets s), s_UpdatedAt := now\<rparr>)"

subsection \<open>Slot claims\<close>

definition egressTierFor :: "Plan \<Rightarrow> int" where
  "egressTierFor v = (if v = Spark \<or> v = Glow then 0 else if v = Beam then 1 else if v = Plasma then 2
     else EgressTierUnrestricted)"

definition egressGroupFor :: "Plan \<Rightarrow> string" where
  "egressGroupFor v = (if v = '''' then ''none'' else v)"

definition egressClaimFor :: "Session \<Rightarrow> EgressClaim" where
  "egressClaimFor s = \<lparr>Owner = s_ID s, HighRes = (s_resolution s = ResolutionFHD),
     Tier = egressTierFor (s_Plan s), Group = egressGroupFor (s_Plan s)\<rparr>"

text \<open>The methods of a budget that may be nil.\<close>

definition slots_change :: "string \<Rightarrow> bool \<Rightarrow> EgressSlotBudget option \<Rightarrow> (egressError + unit) \<times> EgressSlotBudget option" where
  "slots_change k hi sl = (case sl of None \<Rightarrow> (Ok (), None)
    | Some b \<Rightarrow> (let (r, b) = ChangeResolution k hi b in (r, Some b)))"

definition slots_release :: "EgressLease option \<Rightarrow> EgressSlotBudget option \<Rightarrow> EgressSlotBudget option" where
  "slots_release l sl = (case (l, sl) of (Some l, Some b) \<Rightarrow> Some (snd (Release l b)) | _ \<Rightarrow> sl)"

subsection \<open>Starting and ending an egress\<close>

definition startStreamPrecheck :: "string \<Rightarrow> Session \<Rightarrow> session_error option" where
  "startStreamPrecheck p s =
    (if s_closed s then Some ErrNotFound
     else if s_rawTrackID s = '''' then Some ErrNoVideoTrack
     else if egress_active (readTarget p s) then Some ErrStreamActive
     else None)"

text \<open>
  What a caller asks of \<open>StartStream\<close>: the object number and the identifier of the new generation, the
  URL, and whether it starts paused.
\<close>

record start_request =
  rq_egress :: nat
  rq_usageID :: string
  rq_url :: string
  rq_paused :: bool

definition new_egress :: "instant \<Rightarrow> start_request \<Rightarrow> egress" where
  "new_egress now rq = (let c = new_core now (rq_url rq) in
     \<lparr>eg_id = rq_egress rq, eg_core = (if rq_paused rq then snd (StartPaused now c) else c)\<rparr>)"

definition start_stream :: "hooks \<Rightarrow> instant \<Rightarrow> start_request \<Rightarrow> bool \<Rightarrow> EgressLease option \<Rightarrow> string \<Rightarrow> Session \<Rightarrow> EgressSlotBudget option \<Rightarrow>
    (session_error + unit) \<times> Session \<times> EgressSlotBudget option \<times> effect list" where
  "start_stream hk now rq claimHigh lease p s sl = (let t = readTarget p s; s = target p s; fhd = (s_resolution s = ResolutionFHD) in
     if s_closed s then (Err ErrNotFound, s, slots_release lease sl, [])
     else let (res, sl) = (if fhd \<noteq> claimHigh then slots_change (s_ID s) fhd sl else (Ok (), sl)) in
       case res of
         Inl e \<Rightarrow> (Err (ErrSlots e), s, slots_release lease sl, [])
       | Inr _ \<Rightarrow>
           if s_rawTrackID s = '''' then (Err ErrNoVideoTrack, s, slots_release lease sl, [])
           else if egress_active t then (Err ErrStreamActive, s, slots_release lease sl, [])
           else
             let (s, e1) = setAIInputPaused hk False s;
                 t = t\<lparr>t_egress := Some (new_egress now rq), t_cancel := True, t_stopReason := None, t_usageID := rq_usageID rq\<rparr>;
                 s = (put_target p t s)\<lparr>s_UpdatedAt := now, s_mediaIdleReset := now\<rparr> in
             (Ok (), s, sl,
              e1 @ recordUsage hk (UsageBroadcastStarted now (s_ID s) (rq_usageID rq) p)
              @ (if t_phase t = BroadcastPhaseLive then recordUsage hk (UsageBroadcastLive now (rq_usageID rq)) else [])
              @ (if rq_paused rq then recordUsage hk (UsageBroadcastPaused now (rq_usageID rq)) else [])))"

text \<open>\<open>syncAIInputPauseAfterProfile\<close>, once the first profile is known.\<close>

definition sync_ai_input :: "hooks \<Rightarrow> Session \<Rightarrow> Session \<times> effect list" where
  "sync_ai_input hk s = (if s_closed s then (s, []) else setAIInputPaused hk (allTargetsPausedLocked s) s)"

text \<open>
  The part of \<open>runEgress\<close> after \<open>egress.Run\<close> has returned; \<open>eid\<close> is the egress object, \<open>st\<close> its last
  status.
\<close>

definition end_reason :: "EgressStatus \<Rightarrow> nat \<Rightarrow> streamTarget \<Rightarrow> bool \<Rightarrow> string" where
  "end_reason st eid t closed = (case StopReason st of
      Some r \<Rightarrow> r
    | None \<Rightarrow> (case (map_option eg_id (t_egress t) = Some eid, t_stopReason t) of
        (True, Some r) \<Rightarrow> r
      | _ \<Rightarrow> if closed then ''session_closed'' else ''user_requested''))"

definition run_egress_end :: "hooks \<Rightarrow> instant \<Rightarrow> nat \<Rightarrow> EgressStatus \<Rightarrow> string \<Rightarrow> string \<Rightarrow> Session \<Rightarrow>
    (PlatformBroadcast \<times> BroadcastPhase) \<times> Session \<times> effect list" where
  "run_egress_end hk now eid st usageID p s = (let t = readTarget p s; s = target p s;
       e1 = recordUsage hk (UsageBroadcastEnded (case StoppedAt st of Some a \<Rightarrow> a | None \<Rightarrow> now) usageID (end_reason st eid t (s_closed s)));
       t = (if t_usageID t = usageID then t\<lparr>t_usageID := ''''\<rparr> else t);
       s = put_target p t s in
     if map_option eg_id (t_egress t) \<noteq> Some eid then ((zero_broadcast, BroadcastPhaseIdle), s, e1)
     else
       let t = t\<lparr>t_cancel := False\<rparr>;
           s = put_target p t s;
           (s, e2) = (if \<not> s_closed s then setAIInputPaused hk (allTargetsPausedLocked s) s else (s, []));
           ((b, ph), s) = (if t_stopReason t = None then takeBroadcastLocked p s
                           else ((zero_broadcast, BroadcastPhaseIdle), s)) in
       ((b, ph), s\<lparr>s_UpdatedAt := now\<rparr>, e1 @ e2 @ disposeBroadcast hk (s_UserID s) b ph))"

subsection \<open>Stopping, pausing and resuming\<close>

definition on_device :: "Session \<Rightarrow> bool" where
  "on_device s = (s_AIProcessing s = AIProcessingOnDevice)"

definition release_prepared :: "hooks \<Rightarrow> instant \<Rightarrow> string \<Rightarrow> string \<Rightarrow> Session \<Rightarrow>
    (session_error + (PlatformBroadcast \<times> BroadcastPhase)) \<times> Session \<times> effect list" where
  "release_prepared hk now rsn p s = (let t = readTarget p s;
       s = (if on_device s \<and> t_phase t = BroadcastPhaseLive \<and> rsn \<noteq> ''user_requested''
            then s\<lparr>s_directStops := (s_directStops s)(p \<mapsto> rsn)\<rparr> else s);
       (s, e1) = endDirectUsageLocked hk now rsn p s;
       (x, s) = takeBroadcastLocked p s in
     (Ok x, s\<lparr>s_UpdatedAt := now\<rparr>, e1))"

definition stop_stream :: "hooks \<Rightarrow> instant \<Rightarrow> string \<Rightarrow> string \<Rightarrow> Session \<Rightarrow>
    (session_error + (PlatformBroadcast \<times> BroadcastPhase)) \<times> Session \<times> effect list" where
  "stop_stream hk now rsn p s = (let t = readTarget p s; s = target p s in
     case t_egress t of
       Some e \<Rightarrow>
         if t_stopReason t \<noteq> None \<or> egress_stopped t
         then if t_phase t = BroadcastPhasePrepared then release_prepared hk now rsn p s
              else (Err ErrStreamNotActive, s, [])
         else
           let t = t\<lparr>t_egress := Some (e\<lparr>eg_core := Stop now (eg_core e)\<rparr>), t_stopReason := Some rsn\<rparr>;
               s = put_target p t s;
               (s, e1) = setAIInputPaused hk (allTargetsPausedLocked s) s in
           if t_phase t = BroadcastPhaseGoingLive
           then (Ok (zero_broadcast, BroadcastPhaseIdle),
                 (put_target p (t\<lparr>t_goLiveStopRequested := True\<rparr>) s)\<lparr>s_UpdatedAt := now\<rparr>, e1)
           else let (x, s) = takeBroadcastLocked p s in (Ok x, s\<lparr>s_UpdatedAt := now\<rparr>, e1)
     | None \<Rightarrow>
         if on_device s \<and> t_phase t = BroadcastPhaseGoingLive
         then (Ok (zero_broadcast, BroadcastPhaseIdle),
               (put_target p (t\<lparr>t_goLiveStopRequested := True\<rparr>) s)\<lparr>s_UpdatedAt := now\<rparr>, [])
         else if t_phase t = BroadcastPhasePrepared \<or> t_phase t = BroadcastPhaseLive
         then release_prepared hk now rsn p s
         else (Err ErrStreamNotActive, s, []))"

text \<open>
  \<open>pauseEgress\<close> reads the status, calls \<open>Pause\<close> and reads the status again when that failed; \<open>evs\<close> is
  what other goroutines do to the egress between the first two.
\<close>

definition interfere :: "egress_event list \<Rightarrow> egress_core \<Rightarrow> egress_core" where
  "interfere evs c = core (run_egress \<lparr>core = c, pending = 0\<rparr> evs)"

definition pauseEgress :: "instant \<Rightarrow> egress_event list \<Rightarrow> egress_core \<Rightarrow> session_error option \<times> egress_core" where
  "pauseEgress now evs c =
    (if Phase (status c) = EgressPhaseStopped then (Some ErrStreamNotActive, c)
     else if userPausePhase (Phase (status c)) then (Some ErrStreamPaused, c)
     else if Phase (status c) \<notin> {EgressPhaseStreaming, EgressPhaseReconfiguring} then (Some ErrStreamNotActive, c)
     else let (ok, c) = Pause now (interfere evs c) in
       if ok then (None, c)
       else (Some (if userPausePhase (Phase (status c)) then ErrStreamPaused else ErrStreamNotActive), c))"

definition resumeEgress :: "instant \<Rightarrow> egress_event list \<Rightarrow> egress_core \<Rightarrow> session_error option \<times> egress_core" where
  "resumeEgress now evs c =
    (if Phase (status c) = EgressPhaseStopped then (Some ErrStreamNotActive, c)
     else if Phase (status c) \<noteq> EgressPhasePaused then (Some ErrStreamNotPaused, c)
     else let (ok, c) = Resume now (interfere evs c) in
       if ok then (None, c)
       else (Some (if Phase (status c) = EgressPhaseStopped then ErrStreamNotActive else ErrStreamNotPaused), c))"

definition pause_stream :: "hooks \<Rightarrow> instant \<Rightarrow> egress_event list \<Rightarrow> string \<Rightarrow> Session \<Rightarrow> (session_error + unit) \<times> Session \<times> effect list" where
  "pause_stream hk now evs p s = (let t = readTarget p s; s = target p s in
     case t_egress t of
       None \<Rightarrow> (Err ErrStreamNotActive, s, [])
     | Some e \<Rightarrow>
         if t_stopReason t \<noteq> None then (Err ErrStreamNotActive, s, [])
         else let (er, c) = pauseEgress now evs (eg_core e);
                  s = put_target p (t\<lparr>t_egress := Some (e\<lparr>eg_core := c\<rparr>)\<rparr>) s in
           case er of
             Some er \<Rightarrow> (Err er, s, [])
           | None \<Rightarrow> let (s, e2) = setAIInputPaused hk (allTargetsPausedLocked s) s in
               (Ok (), s\<lparr>s_UpdatedAt := now\<rparr>, recordUsage hk (UsageBroadcastPaused now (t_usageID t)) @ e2))"

definition resume_stream :: "hooks \<Rightarrow> instant \<Rightarrow> egress_event list \<Rightarrow> string \<Rightarrow> Session \<Rightarrow> (session_error + unit) \<times> Session \<times> effect list" where
  "resume_stream hk now evs p s = (let t = readTarget p s; s = target p s in
     case t_egress t of
       None \<Rightarrow> (Err ErrStreamNotActive, s, [])
     | Some e \<Rightarrow>
         if t_stopReason t \<noteq> None then (Err ErrStreamNotActive, s, [])
         else let (er, c) = resumeEgress now evs (eg_core e);
                  s = put_target p (t\<lparr>t_egress := Some (e\<lparr>eg_core := c\<rparr>)\<rparr>) s in
           case er of
             Some er \<Rightarrow> (Err er, s, [])
           | None \<Rightarrow> let (s, e2) = setAIInputPaused hk False s in
               (Ok (), s\<lparr>s_mediaIdleReset := now, s_UpdatedAt := now\<rparr>, recordUsage hk (UsageBroadcastResumed now (t_usageID t)) @ e2))"

subsection \<open>Changing the resolution\<close>

text \<open>The last result tells whether the video pipeline is restarted.\<close>

definition change_resolution :: "hooks \<Rightarrow> instant \<Rightarrow> int \<Rightarrow> string \<Rightarrow> Session \<Rightarrow> EgressSlotBudget option \<Rightarrow>
    (session_error + bool) \<times> Session \<times> EgressSlotBudget option \<times> effect list" where
  "change_resolution hk now globalPin resolution s sl =
    (if s_closed s then (Err ErrNotFound, s, sl, [])
     else if s_resolution s = resolution then (Ok False, s, sl, [])
     else if hasActiveTargetLocked s then (Err ErrResolutionChangeWhileLive, s, sl, [])
     else case slots_change (s_ID s) (resolution = ResolutionFHD) sl of
         (Inl e, sl) \<Rightarrow> (Err (ErrSlots e), s, sl, [])
       | (Inr _, sl) \<Rightarrow>
           let pin = pinLongEdgeFor resolution globalPin;
               restart = (pin \<noteq> pinLongEdgeFor (s_resolution s) globalPin \<and> s_videoTrack s = Some (s_rawTrackID s) \<and> s_trackCancel s) in
           (Ok restart, s\<lparr>s_resolution := resolution, s_pinLongEdge := pin,
              s_trackCancel := (if restart then False else s_trackCancel s), s_UpdatedAt := now\<rparr>, sl,
            recordUsage hk (UsageResolutionChanged now (s_ID s) resolution)))"

subsection \<open>The manager\<close>

text \<open>\<open>m_sessions\<close> is the map of live sessions; \<open>List\<close> sorts them, which no caller here depends on.\<close>

record Manager =
  m_sessions :: "(string \<times> Session) list"
  m_slots :: "EgressSlotBudget option"
  m_hooks :: hooks
  m_pin :: int
  m_log :: "effect list"

definition Get :: "Manager \<Rightarrow> string \<Rightarrow> Session option" where
  "Get m i = map_of (m_sessions m) i"

definition put_session :: "string \<Rightarrow> Session \<Rightarrow> Manager \<Rightarrow> Manager" where
  "put_session i s m = m\<lparr>m_sessions := AList.update i s (m_sessions m)\<rparr>"

definition on_session :: "Manager \<Rightarrow> string \<Rightarrow> (Session \<Rightarrow> (session_error + 'r) \<times> Session \<times> effect list) \<Rightarrow> (session_error + 'r) \<times> Manager" where
  "on_session m i f = (case Get m i of
      None \<Rightarrow> (Err ErrNotFound, m)
    | Some s \<Rightarrow> (let (r, s, eff) = f s in (r, (put_session i s m)\<lparr>m_log := m_log m @ eff\<rparr>)))"

definition quiet :: "(Session \<Rightarrow> 'r \<times> Session) \<Rightarrow> Session \<Rightarrow> 'r \<times> Session \<times> effect list" where
  "quiet f s = (let (r, s) = f s in (r, s, []))"

definition SetBroadcastSettings :: "instant \<Rightarrow> string \<Rightarrow> YouTubeBroadcastSettings \<Rightarrow> string list \<Rightarrow> Manager \<Rightarrow> (session_error + unit) \<times> Manager" where
  "SetBroadcastSettings now i settings ps m = (case YouTube_Validate settings of
      Some e \<Rightarrow> (Err (ErrInvalidSettings e), m)
    | None \<Rightarrow> on_session m i (\<lambda>s. quiet (set_broadcast_settings now settings (targetProvider s ps)) s))"

definition SetChzzkBroadcastSettings :: "(nat \<Rightarrow> bool) \<Rightarrow> (nat \<Rightarrow> bool) \<Rightarrow> (nat \<Rightarrow> bool) \<Rightarrow>
    instant \<Rightarrow> string \<Rightarrow> ChzzkBroadcastSettings \<Rightarrow> string list \<Rightarrow> Manager \<Rightarrow> (session_error + unit) \<times> Manager" where
  "SetChzzkBroadcastSettings sp lt dg now i settings ps m = (case Chzzk_Validate sp lt dg settings of
      Some e \<Rightarrow> (Err (ErrInvalidSettings e), m)
    | None \<Rightarrow> on_session m i (\<lambda>s. quiet (set_chzzk_settings now settings (targetProvider s ps)) s))"

definition channelInUseByOtherUser :: "Manager \<Rightarrow> nat \<Rightarrow> string \<Rightarrow> string \<Rightarrow> bool" where
  "channelInUseByOtherUser m userID provider channel =
    list_ex (\<lambda>(i, other). s_UserID other \<noteq> userID
      \<and> (case map_of (s_targets other) provider of None \<Rightarrow> False
         | Some t \<Rightarrow> t_phase t \<noteq> BroadcastPhaseIdle \<and> t_channel t = channel)) (m_sessions m)"

definition BeginBroadcastPrepareOnChannel :: "instant \<Rightarrow> string \<Rightarrow> string \<Rightarrow> string list \<Rightarrow> Manager \<Rightarrow> (session_error + nat) \<times> Manager" where
  "BeginBroadcastPrepareOnChannel now i channel ps m = (case Get m i of
      None \<Rightarrow> (Err ErrNotFound, m)
    | Some s \<Rightarrow>
        let provider = targetProvider s ps in
        if channel \<noteq> '''' \<and> provider \<noteq> ''youtube'' \<and> channelInUseByOtherUser m (s_UserID s) provider channel
        then (Err ErrChannelInUseByOtherAccount, m)
        else on_session m i (quiet (begin_prepare now channel provider)))"

definition ProviderInUse :: "Manager \<Rightarrow> (Session \<Rightarrow> bool) \<Rightarrow> nat \<Rightarrow> string \<Rightarrow> nat \<Rightarrow> bool" where
  "ProviderInUse m switching userID provider accountID =
    list_ex (\<lambda>(i, s). s_UserID s = userID
      \<and> (switching s \<or> (case map_of (s_targets s) provider of None \<Rightarrow> False
          | Some t \<Rightarrow> t_phase t \<noteq> BroadcastPhaseIdle
              \<and> \<not> (accountID \<noteq> 0 \<and> (case t_platformBroadcast t of None \<Rightarrow> False
                    | Some b \<Rightarrow> pb_AccountID b \<noteq> 0 \<and> pb_AccountID b \<noteq> accountID))))) (m_sessions m)"

definition ChangeBroadcastResolution :: "instant \<Rightarrow> string \<Rightarrow> string \<Rightarrow> Manager \<Rightarrow> (session_error + bool) \<times> Manager" where
  "ChangeBroadcastResolution now i v m = (case normalizeResolution v of
      None \<Rightarrow> (Err ErrInvalidResolution, m)
    | Some resolution \<Rightarrow> (case Get m i of
        None \<Rightarrow> (Err ErrNotFound, m)
      | Some s \<Rightarrow> (let (r, s, sl, eff) = change_resolution (m_hooks m) now (m_pin m) resolution s (m_slots m) in
          (r, (put_session i s m)\<lparr>m_slots := sl, m_log := m_log m @ eff\<rparr>))))"

definition CheckBroadcastUnits :: "string \<Rightarrow> string \<Rightarrow> int \<Rightarrow> Manager \<Rightarrow> session_error option" where
  "CheckBroadcastUnits i v n m = (case normalizeResolution v of
      None \<Rightarrow> Some ErrInvalidResolution
    | Some resolution \<Rightarrow> (case Get m i of
        None \<Rightarrow> Some ErrNotFound
      | Some s \<Rightarrow> (case m_slots m of
          None \<Rightarrow> None
        | Some b \<Rightarrow> map_option ErrSlots (CheckClaim ((egressClaimFor s)\<lparr>HighRes := (resolution = ResolutionFHD)\<rparr>) n b))))"

text \<open>\<open>acquired\<close> is the answer of \<open>AcquireClaim\<close> for the claim of the session and the budget it left.\<close>

definition StartStream :: "instant \<Rightarrow> string \<Rightarrow> start_request \<Rightarrow> string list \<Rightarrow>
    (egressError + EgressLease option) \<times> EgressSlotBudget option \<Rightarrow> Manager \<Rightarrow> (session_error + unit) \<times> Manager" where
  "StartStream now i rq ps acquired m = (case Get m i of
      None \<Rightarrow> (Err ErrNotFound, m)
    | Some s \<Rightarrow> (let p = targetProvider s ps in case startStreamPrecheck p s of
        Some e \<Rightarrow> (Err e, m)
      | None \<Rightarrow> (case acquired of
          (Inl e, sl) \<Rightarrow> (Err (ErrSlots e), m\<lparr>m_slots := sl\<rparr>)
        | (Inr lease, sl) \<Rightarrow>
            (let (r, s, sl, eff) = start_stream (m_hooks m) now rq (HighRes (egressClaimFor s)) lease p s sl in
             (r, (put_session i s m)\<lparr>m_slots := sl, m_log := m_log m @ eff\<rparr>)))))"

definition StopStreamWithReason :: "instant \<Rightarrow> string \<Rightarrow> string \<Rightarrow> string list \<Rightarrow> Manager \<Rightarrow>
    (session_error + (PlatformBroadcast \<times> BroadcastPhase)) \<times> Manager" where
  "StopStreamWithReason now i rsn ps m = on_session m i (\<lambda>s. stop_stream (m_hooks m) now rsn (targetProvider s ps) s)"

definition PauseStream :: "instant \<Rightarrow> egress_event list \<Rightarrow> string \<Rightarrow> string list \<Rightarrow> Manager \<Rightarrow> (session_error + unit) \<times> Manager" where
  "PauseStream now evs i ps m = on_session m i (\<lambda>s. pause_stream (m_hooks m) now evs (targetProvider s ps) s)"

definition ResumeStream :: "instant \<Rightarrow> egress_event list \<Rightarrow> string \<Rightarrow> string list \<Rightarrow> Manager \<Rightarrow> (session_error + unit) \<times> Manager" where
  "ResumeStream now evs i ps m = on_session m i (\<lambda>s. resume_stream (m_hooks m) now evs (targetProvider s ps) s)"

text \<open>
  \<open>Delete\<close>, for a session that is not the uncommitted half of a handover; the server's own cleanup
  hook is left out.
\<close>

definition Delete :: "instant \<Rightarrow> string \<Rightarrow> string \<Rightarrow> Manager \<Rightarrow> (session_error + Session) \<times> Manager" where
  "Delete now i rsn m = (case Get m i of
      None \<Rightarrow> (Err ErrNotFound, m)
    | Some s \<Rightarrow> (let m = m\<lparr>m_sessions := AList.delete i (m_sessions m), m_slots := map_option (ReleaseHold i) (m_slots m)\<rparr>;
                    (xs, s, eff) = cleanupPlatformBroadcast (m_hooks m) now s in
        (Ok (close now s), m\<lparr>m_log := m_log m @ eff @ recordUsage (m_hooks m) (UsageSessionEnded now (s_ID s) rsn)\<rparr>)))"

subsection \<open>Reading after writing\<close>

lemma readTarget_frame [simp]:
  "readTarget q (s\<lparr>s_UpdatedAt := x1\<rparr>) = readTarget q s"
  "readTarget q (s\<lparr>s_lastActivityAt := x2\<rparr>) = readTarget q s"
  "readTarget q (s\<lparr>s_aiInputPaused := x3\<rparr>) = readTarget q s"
  "readTarget q (s\<lparr>s_heartbeat := x4\<rparr>) = readTarget q s"
  "readTarget q (s\<lparr>s_mediaIdleReset := x5\<rparr>) = readTarget q s"
  "readTarget q (s\<lparr>s_directStops := x6\<rparr>) = readTarget q s"
  "readTarget q (s\<lparr>s_broadcast := x7\<rparr>) = readTarget q s"
  "readTarget q (s\<lparr>s_chzzkBroadcast := x8\<rparr>) = readTarget q s"
  "readTarget q (s\<lparr>s_closed := x9\<rparr>) = readTarget q s"
  by (simp_all add: readTarget_def)

lemma readTarget_put [simp]: "readTarget q (put_target p t s) = (if q = p then t else readTarget q s)"
  by (simp add: readTarget_def put_target_def AList.update_conv')

lemma readTarget_target [simp]: "readTarget q (target p s) = readTarget q s"
  by (simp add: target_def)

lemma put_frame [simp]:
  "s_closed (put_target p t s) = s_closed s" "s_UserID (put_target p t s) = s_UserID s"
  "s_AIProcessing (put_target p t s) = s_AIProcessing s" "s_aiInputPaused (put_target p t s) = s_aiInputPaused s"
  "s_ID (put_target p t s) = s_ID s" "s_heartbeat (put_target p t s) = s_heartbeat s"
  "s_broadcast (put_target p t s) = s_broadcast s" "s_chzzkBroadcast (put_target p t s) = s_chzzkBroadcast s"
  "s_FaceAnonymization (put_target p t s) = s_FaceAnonymization s"
  "s_targets (put_target p t s) = AList.update p t (s_targets s)"
  by (simp_all add: put_target_def)

lemma target_frame [simp]:
  "s_closed (target p s) = s_closed s" "s_UserID (target p s) = s_UserID s"
  "s_AIProcessing (target p s) = s_AIProcessing s" "s_aiInputPaused (target p s) = s_aiInputPaused s"
  "s_ID (target p s) = s_ID s" "s_heartbeat (target p s) = s_heartbeat s"
  "s_broadcast (target p s) = s_broadcast s" "s_chzzkBroadcast (target p s) = s_chzzkBroadcast s"
  "s_FaceAnonymization (target p s) = s_FaceAnonymization s"
  by (simp_all add: target_def)

subsection \<open>The broadcasts a session holds\<close>

definition opt_mset :: "'a option \<Rightarrow> 'a multiset" where
  "opt_mset x = (case x of None \<Rightarrow> {#} | Some a \<Rightarrow> {#a#})"

lemma opt_mset_simps [simp]: "opt_mset None = {#}" "opt_mset (Some a) = {#a#}"
  by (simp_all add: opt_mset_def)

fun held_of :: "(string \<times> streamTarget) list \<Rightarrow> PlatformBroadcast multiset" where
  "held_of [] = {#}"
| "held_of ((p, t) # ts) = opt_mset (t_platformBroadcast t) + held_of ts"

abbreviation held :: "Session \<Rightarrow> PlatformBroadcast multiset" where
  "held s \<equiv> held_of (s_targets s)"

lemma held_of_update:
  assumes "distinct (map fst ts)"
  shows "held_of (AList.update p t ts) + opt_mset (t_platformBroadcast (case map_of ts p of Some t \<Rightarrow> t | None \<Rightarrow> idle_target))
    = held_of ts + opt_mset (t_platformBroadcast t)"
  using assms
proof (induction ts)
  case Nil
  then show ?case by (simp add: idle_target_def)
next
  case (Cons x ts)
  obtain q u where x: "x = (q, u)" by (cases x)
  show ?case
  proof (cases "q = p")
    case True
    then show ?thesis by (simp add: x)
  next
    case False
    with Cons show ?thesis by (simp add: x)
  qed
qed

text \<open>
  A change of one target: what can be read changes at \<open>p\<close> only, and the broadcasts held change by
  those of that target.
\<close>

definition moved :: "string \<Rightarrow> streamTarget \<Rightarrow> Session \<Rightarrow> Session \<Rightarrow> bool" where
  "moved p t s s' = ((\<forall>q. readTarget q s' = (if q = p then t else readTarget q s))
     \<and> (distinct (map fst (s_targets s)) \<longrightarrow> distinct (map fst (s_targets s'))
         \<and> held s' + opt_mset (t_platformBroadcast (readTarget p s)) = held s + opt_mset (t_platformBroadcast t))
     \<and> s_closed s' = s_closed s \<and> s_UserID s' = s_UserID s)"

lemma moved_put: "moved p t s (put_target p t s)"
  using held_of_update [of "s_targets s" p t]
  by (auto simp: moved_def put_target_def readTarget_def AList.update_conv' distinct_update)

lemma mset_exchange:
  fixes h0 :: "'a multiset"
  assumes "h1 + o0 = h0 + ot" and "h2 + ot = h1 + ou"
  shows "h2 + o0 = h0 + ou"
proof -
  have "(h2 + o0) + ot = (h2 + ot) + o0" by (simp add: ac_simps)
  also have "\<dots> = (h1 + o0) + ou" unfolding assms(2) by (simp add: ac_simps)
  also have "\<dots> = (h0 + ou) + ot" unfolding assms(1) by (simp add: ac_simps)
  finally show ?thesis by simp
qed

lemma moved_trans:
  assumes "moved p t s s1" and "moved p u s1 s2"
  shows "moved p u s s2"
proof -
  have "distinct (map fst (s_targets s2)) \<and>
      held s2 + opt_mset (t_platformBroadcast (readTarget p s)) = held s + opt_mset (t_platformBroadcast u)"
    if "distinct (map fst (s_targets s))"
    using assms that mset_exchange [of "held s1" _ "held s" "opt_mset (t_platformBroadcast t)" "held s2"]
    by (auto simp: moved_def)
  with assms show ?thesis by (auto simp: moved_def)
qed

lemma moved_then_put: "moved p t s s1 \<Longrightarrow> moved p u s (put_target p u s1)"
  using moved_trans moved_put by blast

lemma moved_target: "moved p (readTarget p s) s (target p s)"
  unfolding target_def by (rule moved_put)

lemma moved_target_put: "moved p u s (put_target p u (target p s))"
  using moved_target moved_then_put by blast

lemma moved_refl: "moved p (readTarget p s) s s"
  by (simp add: moved_def)

lemma moved_frame [simp]:
  "moved p t s (s'\<lparr>s_UpdatedAt := x1\<rparr>) = moved p t s s'"
  "moved p t s (s'\<lparr>s_lastActivityAt := x2\<rparr>) = moved p t s s'"
  "moved p t s (s'\<lparr>s_aiInputPaused := x3\<rparr>) = moved p t s s'"
  "moved p t s (s'\<lparr>s_heartbeat := x4\<rparr>) = moved p t s s'"
  "moved p t s (s'\<lparr>s_mediaIdleReset := x5\<rparr>) = moved p t s s'"
  "moved p t s (s'\<lparr>s_directStops := x6\<rparr>) = moved p t s s'"
  "moved p t s (s'\<lparr>s_broadcast := x7\<rparr>) = moved p t s s'"
  "moved p t s (s'\<lparr>s_chzzkBroadcast := x8\<rparr>) = moved p t s s'"
  "moved p t (s\<lparr>s_directStops := x6\<rparr>) s' = moved p t s s'"
  "moved p t (s\<lparr>s_aiInputPaused := x3\<rparr>) s' = moved p t s s'"
  by (simp_all add: moved_def)

subsection \<open>What each operation does to its target\<close>

lemmas moved_intros = moved_refl moved_target moved_target_put moved_put

lemma save_settings_moved:
  assumes "\<And>t s1. moved p t s s1 \<Longrightarrow> moved p t s (f s1)" and "save_settings now p f s = (r, s')"
  shows "moved p (readTarget p s) s s'"
  using assms(2) assms(1) [OF moved_target]
  by (auto simp: save_settings_def Let_def moved_target split: if_splits option.splits)

lemma settings_moved:
  "set_broadcast_settings now st p s = (r, s') \<Longrightarrow> moved p (readTarget p s) s s'"
  "set_chzzk_settings now cz p s = (r, s') \<Longrightarrow> moved p (readTarget p s) s s'"
  by (auto simp: set_broadcast_settings_def set_chzzk_settings_def moved_refl
      intro: save_settings_moved [rotated] split: option.splits)

lemma begin_prepare_moved:
  "begin_prepare now ch p s = (r, s') \<Longrightarrow>
    moved p (if isl r then readTarget p s else (readTarget p s)\<lparr>t_phase := BroadcastPhasePreparing, t_channel := ch\<rparr>) s s'
    \<and> (\<not> isl r \<longrightarrow> \<not> s_closed s \<and> t_phase (readTarget p s) \<in> {BroadcastPhaseIdle, BroadcastPhaseGoingLive})"
  by (cases "t_phase (readTarget p s)")
    (auto simp: begin_prepare_def Let_def moved_intros split: if_splits)

lemma reset_preparation_moved:
  "moved p (if t_phase (readTarget p s) = BroadcastPhasePreparing
      then (readTarget p s)\<lparr>t_platformBroadcast := None, t_phase := BroadcastPhaseIdle\<rparr> else readTarget p s)
    s (reset_preparation now p s)"
  by (auto simp: reset_preparation_def Let_def moved_intros)

lemma mark_prepared_moved:
  "mark_prepared now b p s = (r, s') \<Longrightarrow>
    moved p (if isl r then readTarget p s
      else (readTarget p s)\<lparr>t_platformBroadcast := Some b, t_phase := BroadcastPhasePrepared\<rparr>) s s'
    \<and> (\<not> isl r \<longrightarrow> \<not> s_closed s \<and> t_phase (readTarget p s) = BroadcastPhasePreparing)"
  by (auto simp: mark_prepared_def Let_def moved_intros split: if_splits)

lemma begin_go_live_moved:
  "begin_go_live now p s = (r, s') \<Longrightarrow>
    moved p (if isl r then readTarget p s
      else (readTarget p s)\<lparr>t_phase := BroadcastPhaseGoingLive, t_goLiveStopRequested := False\<rparr>) s s'
    \<and> (\<not> isl r \<longrightarrow> \<not> s_closed s \<and> t_phase (readTarget p s) = BroadcastPhasePrepared)"
  by (auto simp: begin_go_live_def Let_def moved_intros split: if_splits)

text \<open>Completing and aborting, when the target is going live or the session is closed.\<close>

definition stop_pending :: "string \<Rightarrow> Session \<Rightarrow> bool" where
  "stop_pending p s = (s_closed s \<or> t_goLiveStopRequested (readTarget p s)
     \<or> (egress_stopped (readTarget p s) \<and> t_phase (readTarget p s) = BroadcastPhaseGoingLive))"

lemma complete_go_live_moved:
  assumes "complete_go_live hk now u p s = ((aborted, b, er), s', eff)"
    and "s_closed s \<or> t_phase (readTarget p s) = BroadcastPhaseGoingLive"
  shows "aborted = stop_pending p s \<and> er = None \<and> b = broadcast_or_zero (readTarget p s)
    \<and> (\<exists>x. moved p (if aborted then given_up (readTarget p s)
        else (readTarget p s)\<lparr>t_phase := BroadcastPhaseLive, t_usageID := x\<rparr>) s s')"
proof (cases "stop_pending p s")
  case True
  with assms(1) show ?thesis
    by (auto simp: complete_go_live_def stop_pending_def Let_def moved_intros)
next
  case False
  with assms(2) have live: "t_phase (readTarget p s) = BroadcastPhaseGoingLive" "\<not> s_closed s"
    by (auto simp: stop_pending_def)
  define direct where "direct = (s_AIProcessing s = AIProcessingOnDevice \<and> t_egress (readTarget p s) = None \<and> t_usageID (readTarget p s) = '''')"
  define t where "t = (readTarget p s)\<lparr>t_phase := BroadcastPhaseLive, t_usageID := (if direct then u else t_usageID (readTarget p s))\<rparr>"
  have "(if direct then (readTarget p s)\<lparr>t_phase := BroadcastPhaseLive, t_usageID := u\<rparr>
      else (readTarget p s)\<lparr>t_phase := BroadcastPhaseLive\<rparr>) = t"
    by (simp add: t_def)
  then have "s' = (put_target p t (target p s))\<lparr>s_UpdatedAt := now, s_heartbeat := (if direct then now else s_heartbeat s)\<rparr>
      \<and> \<not> aborted \<and> er = None \<and> b = broadcast_or_zero (readTarget p s)"
    using assms(1) False live by (auto simp: complete_go_live_def stop_pending_def Let_def direct_def)
  moreover from this have "moved p t s s'" by (simp add: moved_target_put)
  then have "\<exists>x. moved p ((readTarget p s)\<lparr>t_phase := BroadcastPhaseLive, t_usageID := x\<rparr>) s s'"
    unfolding t_def by blast
  ultimately show ?thesis using False by simp
qed

lemma abort_go_live_moved:
  assumes "abort_go_live now p s = ((stopped, b), s')"
  shows "b = broadcast_or_zero (readTarget p s)
    \<and> stopped = (t_phase (readTarget p s) \<noteq> BroadcastPhaseGoingLive \<or> s_closed s \<or> t_goLiveStopRequested (readTarget p s))
    \<and> moved p (if t_phase (readTarget p s) \<noteq> BroadcastPhaseGoingLive then readTarget p s
        else if stopped then given_up (readTarget p s)
        else (readTarget p s)\<lparr>t_phase := BroadcastPhasePrepared\<rparr>) s s'"
  using assms by (auto simp: abort_go_live_def Let_def moved_intros split: if_splits)

lemma takeBroadcastLocked_moved:
  assumes "takeBroadcastLocked p s = ((b, ph), s')"
  shows "(if t_phase (readTarget p s) = BroadcastPhaseGoingLive
      then moved p (readTarget p s) s s' \<and> b = zero_broadcast \<and> ph = BroadcastPhaseIdle
      else moved p ((readTarget p s)\<lparr>t_platformBroadcast := None, t_phase := BroadcastPhaseIdle\<rparr>) s s'
        \<and> b = (if t_phase (readTarget p s) \<in> {BroadcastPhasePrepared, BroadcastPhaseLive} then broadcast_or_zero (readTarget p s) else zero_broadcast))
    \<and> s_aiInputPaused s' = s_aiInputPaused s"
  using assms by (auto simp: takeBroadcastLocked_def Let_def moved_intros broadcast_or_zero_def split: if_splits option.splits)

lemma takeWithdrawalBroadcast_moved:
  assumes "takeWithdrawalBroadcast p s = ((b, ph), s')"
  shows "moved p (given_up (readTarget p s)) s s' \<and> b = broadcast_or_zero (readTarget p s)"
proof -
  have "t_platformBroadcast t = None \<Longrightarrow> t\<lparr>t_phase := BroadcastPhaseIdle, t_goLiveStopRequested := False\<rparr> = given_up t" for t
    by (cases t) (simp add: given_up_def)
  then show ?thesis
    using assms by (auto simp: takeWithdrawalBroadcast_def Let_def moved_intros broadcast_or_zero_def split: option.splits)
qed

lemma endDirectUsage_moved:
  "endDirectUsageLocked hk now rsn p s = (s', eff) \<Longrightarrow> \<exists>x. moved p ((readTarget p s)\<lparr>t_usageID := x\<rparr>) s s'
    \<and> s_aiInputPaused s' = s_aiInputPaused s"
proof -
  assume a: "endDirectUsageLocked hk now rsn p s = (s', eff)"
  show ?thesis
  proof (cases "t_egress (readTarget p s) \<noteq> None \<or> t_usageID (readTarget p s) = ''''")
    case True
    with a have "s' = s" by (simp add: endDirectUsageLocked_def Let_def)
    then show ?thesis using moved_refl [of p s] by (intro exI [of _ "t_usageID (readTarget p s)"]) simp
  next
    case False
    with a have "s' = put_target p ((readTarget p s)\<lparr>t_usageID := ''''\<rparr>) s"
      by (simp add: endDirectUsageLocked_def Let_def)
    then show ?thesis using moved_put by (intro exI [of _ "''''"]) simp
  qed
qed

text \<open>The part of a target that concerns its broadcast.\<close>

definition bview :: "streamTarget \<Rightarrow> PlatformBroadcast option \<times> BroadcastPhase \<times> bool \<times> string" where
  "bview t = (t_platformBroadcast t, t_phase t, t_goLiveStopRequested t, t_channel t)"

definition taken :: "streamTarget \<Rightarrow> PlatformBroadcast" where
  "taken t = (if t_phase t \<in> {BroadcastPhasePrepared, BroadcastPhaseLive} then broadcast_or_zero t else zero_broadcast)"

text \<open>A step of a target either keeps its broadcast and returns none, or lets go of it and returns it.\<close>

definition kept_or_let_go :: "streamTarget \<Rightarrow> streamTarget \<Rightarrow> PlatformBroadcast \<Rightarrow> bool" where
  "kept_or_let_go t t' b =
    (bview t' = bview t \<and> b = zero_broadcast
     \<or> t_phase t \<noteq> BroadcastPhaseGoingLive
        \<and> bview t' = (None, BroadcastPhaseIdle, t_goLiveStopRequested t, t_channel t) \<and> b = taken t)"

lemma kept_or_let_go_view:
  "bview t = bview u \<Longrightarrow> kept_or_let_go u t' b \<Longrightarrow> kept_or_let_go t t' b"
  by (auto simp: kept_or_let_go_def bview_def taken_def broadcast_or_zero_def)

lemma take_let_go:
  assumes "takeBroadcastLocked p s = ((b, ph), s')"
  shows "\<exists>t'. moved p t' s s' \<and> kept_or_let_go (readTarget p s) t' b"
  using takeBroadcastLocked_moved [OF assms]
  by (auto simp: kept_or_let_go_def bview_def taken_def split: if_splits)

lemma moved_readTarget: "moved p t s s' \<Longrightarrow> readTarget p s' = t"
  by (simp add: moved_def)

lemma take_after:
  assumes "moved p t s s1" and "bview t = bview (readTarget p s)" and "takeBroadcastLocked p s1 = ((b, ph), s')"
  shows "\<exists>t'. moved p t' s s' \<and> kept_or_let_go (readTarget p s) t' b"
proof -
  from take_let_go [OF assms(3)] obtain t' where t': "moved p t' s1 s'" "kept_or_let_go (readTarget p s1) t' b" by blast
  moreover have "readTarget p s1 = t" using assms(1) by (rule moved_readTarget)
  ultimately show ?thesis
    using moved_trans [OF assms(1)] kept_or_let_go_view [OF assms(2) [symmetric]] by metis
qed

lemma bview_frame [simp]:
  "bview (t\<lparr>t_usageID := x1\<rparr>) = bview t" "bview (t\<lparr>t_cancel := x2\<rparr>) = bview t"
  "bview (t\<lparr>t_egress := x3\<rparr>) = bview t" "bview (t\<lparr>t_stopReason := x4\<rparr>) = bview t"
  by (simp_all add: bview_def)

lemma start_stream_moved:
  "start_stream hk now rq ch l p s sl = (r, s', sl', eff) \<Longrightarrow> \<exists>t'. moved p t' s s' \<and> bview t' = bview (readTarget p s)"
proof -
  assume a: "start_stream hk now rq ch l p s sl = (r, s', sl', eff)"
  define t where "t = (readTarget p s)\<lparr>t_egress := Some (new_egress now rq), t_cancel := True, t_stopReason := None, t_usageID := rq_usageID rq\<rparr>"
  have "s' = target p s \<or> s' = (put_target p t ((target p s)\<lparr>s_aiInputPaused := False\<rparr>))\<lparr>s_UpdatedAt := now, s_mediaIdleReset := now\<rparr>"
    using a by (auto simp: start_stream_def setAIInputPaused_def Let_def t_def split: if_splits sum.splits prod.splits)
  moreover have "moved p t s (put_target p t ((target p s)\<lparr>s_aiInputPaused := False\<rparr>))"
    by (rule moved_then_put [where t = "readTarget p s"]) (simp add: moved_target)
  moreover have "bview t = bview (readTarget p s)" by (simp add: t_def)
  ultimately show ?thesis using moved_target [of p s] by auto
qed

lemma end_step_moved:
  assumes "run_egress_end hk now eid st u p s = ((b, ph), s', eff)"
  shows "\<exists>t'. moved p t' s s' \<and> kept_or_let_go (readTarget p s) t' b"
proof -
  define t1 where "t1 = (if t_usageID (readTarget p s) = u then (readTarget p s)\<lparr>t_usageID := ''''\<rparr> else readTarget p s)"
  define s1 where "s1 = put_target p t1 (target p s)"
  define s2 where "s2 = put_target p (t1\<lparr>t_cancel := False\<rparr>) s1"
  define s3 where "s3 = (if \<not> s_closed s then fst (setAIInputPaused hk (allTargetsPausedLocked s2) s2) else s2)"
  have cl: "s_closed s1 = s_closed s" "s_closed s2 = s_closed s" by (simp_all add: s1_def s2_def)
  have v: "bview t1 = bview (readTarget p s)" by (simp add: t1_def)
  have m1: "moved p t1 s s1" unfolding s1_def by (rule moved_target_put)
  then have m2: "moved p (t1\<lparr>t_cancel := False\<rparr>) s s2" unfolding s2_def by (rule moved_then_put)
  then have m3: "moved p (t1\<lparr>t_cancel := False\<rparr>) s s3" by (simp add: s3_def setAIInputPaused_def)
  show ?thesis
  proof (cases "map_option eg_id (t_egress t1) = Some eid \<and> t_stopReason t1 = None")
    case True
    then obtain s4 where "takeBroadcastLocked p s3 = ((b, ph), s4)" "s' = s4\<lparr>s_UpdatedAt := now\<rparr>"
      using assms
      by (cases "s_closed s")
        (auto simp: run_egress_end_def Let_def t1_def [symmetric] s1_def [symmetric] s2_def [symmetric] s3_def cl
          split: prod.splits if_splits)
    with take_after [OF m3] v show ?thesis by auto
  next
    case False
    then have "b = zero_broadcast \<and> (s' = s1 \<or> s' = s3\<lparr>s_UpdatedAt := now\<rparr>)"
      using assms
      by (cases "s_closed s")
        (auto simp: run_egress_end_def Let_def t1_def [symmetric] s1_def [symmetric] s2_def [symmetric] s3_def cl
          split: prod.splits if_splits)
    with m1 m3 v show ?thesis by (auto simp: kept_or_let_go_def)
  qed
qed

lemma release_prepared_moved:
  assumes "release_prepared hk now rsn p s = (r, s', eff)"
  shows "\<exists>t' b ph. moved p t' s s' \<and> r = Inr (b, ph) \<and> kept_or_let_go (readTarget p s) t' b"
proof -
  define s0 where "s0 = (if on_device s \<and> t_phase (readTarget p s) = BroadcastPhaseLive \<and> rsn \<noteq> ''user_requested''
    then s\<lparr>s_directStops := (s_directStops s)(p \<mapsto> rsn)\<rparr> else s)"
  obtain s1 e1 where 1: "endDirectUsageLocked hk now rsn p s0 = (s1, e1)" by (metis prod.collapse)
  obtain b ph s2 where 2: "takeBroadcastLocked p s1 = ((b, ph), s2)" by (metis prod.collapse)
  have r: "r = Inr (b, ph)" "s' = s2\<lparr>s_UpdatedAt := now\<rparr>"
    using assms 1 2 by (auto simp: release_prepared_def s0_def Let_def split: if_splits)
  have rd: "readTarget p s0 = readTarget p s" by (simp add: s0_def)
  have "moved p t s0 x = moved p t s x" for t x by (simp add: s0_def)
  with endDirectUsage_moved [OF 1] obtain x where "moved p ((readTarget p s)\<lparr>t_usageID := x\<rparr>) s s1" by (auto simp: rd)
  from take_after [OF this _ 2] r show ?thesis by auto
qed

lemma stop_stream_moved:
  assumes "stop_stream hk now rsn p s = (r, s', eff)"
  shows "\<exists>t'. moved p t' s s' \<and>
    (case r of
       Inl _ \<Rightarrow> bview t' = bview (readTarget p s)
     | Inr (b, ph) \<Rightarrow>
         if t_phase (readTarget p s) = BroadcastPhaseGoingLive
         then b = zero_broadcast \<and> bview t' = (t_platformBroadcast (readTarget p s), BroadcastPhaseGoingLive, True, t_channel (readTarget p s))
         else kept_or_let_go (readTarget p s) t' b)"
proof -
  let ?t = "readTarget p s"
  have rel: ?thesis if "release_prepared hk now rsn p (target p s) = (r, s', eff)" "t_phase ?t \<noteq> BroadcastPhaseGoingLive"
  proof -
    from release_prepared_moved [OF that(1)] obtain t' b ph where "moved p t' (target p s) s'" "r = Inr (b, ph)"
      "kept_or_let_go ?t t' b" by auto
    with moved_trans [OF moved_target [of p s]] that(2) show ?thesis by (intro exI [of _ t']) simp
  qed
  show ?thesis
  proof (cases "t_egress ?t")
    case None
    then show ?thesis
      using assms rel moved_target [of p s] moved_target_put [of p "?t\<lparr>t_goLiveStopRequested := True\<rparr>" s]
      by (auto simp: stop_stream_def Let_def bview_def split: if_splits)
  next
    case (Some e)
    show ?thesis
    proof (cases "t_stopReason ?t \<noteq> None \<or> egress_stopped ?t")
      case True
      with Some show ?thesis
        using assms rel moved_target [of p s] by (auto simp: stop_stream_def Let_def split: if_splits)
    next
      case False
      define t1 where "t1 = ?t\<lparr>t_egress := Some (e\<lparr>eg_core := Stop now (eg_core e)\<rparr>), t_stopReason := Some rsn\<rparr>"
      define s1 where "s1 = put_target p t1 (target p s)"
      define s2 where "s2 = s1\<lparr>s_aiInputPaused := allTargetsPausedLocked s1\<rparr>"
      have "moved p t1 s s1" unfolding s1_def by (rule moved_target_put)
      then have m2: "moved p t1 s s2" by (simp add: s2_def)
      have v: "bview t1 = bview ?t" "t_phase t1 = t_phase ?t" by (simp_all add: t1_def)
      show ?thesis
      proof (cases "t_phase ?t = BroadcastPhaseGoingLive")
        case True
        then have "r = Inr (zero_broadcast, BroadcastPhaseIdle)"
          "s' = (put_target p (t1\<lparr>t_goLiveStopRequested := True\<rparr>) s2)\<lparr>s_UpdatedAt := now\<rparr>"
          using assms Some False
          by (auto simp: stop_stream_def Let_def setAIInputPaused_def t1_def s1_def s2_def)
        with moved_then_put [OF m2] True v show ?thesis
          by (intro exI [of _ "t1\<lparr>t_goLiveStopRequested := True\<rparr>"]) (simp add: bview_def)
      next
        case no: False
        obtain b ph s3 where 3: "takeBroadcastLocked p s2 = ((b, ph), s3)" by (metis prod.collapse)
        have "r = Inr (b, ph)" "s' = s3\<lparr>s_UpdatedAt := now\<rparr>"
          using assms Some False no 3
          by (auto simp: stop_stream_def Let_def setAIInputPaused_def t1_def s1_def s2_def)
        with take_after [OF m2 v(1) 3] no show ?thesis by auto
      qed
    qed
  qed
qed

lemma pause_stream_moved:
  assumes "pause_stream hk now evs p s = (r, s', eff)"
  shows "\<exists>t'. moved p t' s s' \<and> bview t' = bview (readTarget p s)"
  using assms
  by (auto simp: pause_stream_def Let_def setAIInputPaused_def split: option.splits if_splits prod.splits)
    (blast intro: moved_target moved_target_put bview_frame)+

lemma resume_stream_moved:
  assumes "resume_stream hk now evs p s = (r, s', eff)"
  shows "\<exists>t'. moved p t' s s' \<and> bview t' = bview (readTarget p s)"
  using assms
  by (auto simp: resume_stream_def Let_def setAIInputPaused_def split: option.splits if_splits prod.splits)
    (blast intro: moved_target moved_target_put bview_frame)+

end
