(* ===== verification/BroadcastRuns.thy ===== *)
theory BroadcastRuns
  imports Broadcast
begin

text \<open>
  All calls that reach one session, in any order: no broadcast created on a platform is lost, a stop
  wins over a go-live in flight, and what the operations promise of the pause of the AI input, of the
  settings and of the channels of other accounts.
\<close>

subsection \<open>Every caller of one session\<close>

text \<open>
  The calls that reach one session, as one event each. \<open>recorded\<close> are the platform broadcasts that
  \<open>MarkBroadcastPrepared\<close> has stored, \<open>handed\<close> those that an operation has returned to its caller (or
  to the cleanup hook) to be ended, \<open>goers\<close> the targets whose go-live request is on its way to the
  platform.
\<close>

record bc_sys =
  bs :: Session
  recorded :: "PlatformBroadcast multiset"
  handed :: "PlatformBroadcast multiset"
  goers :: "string set"

datatype bc_action =
    ASettings instant YouTubeBroadcastSettings string
  | AChzzkSettings instant ChzzkBroadcastSettings string
  | APrepare instant string string
  | AReset instant string
  | AMark instant PlatformBroadcast string
  | ABeginLive instant string
  | AComplete instant string string
  | AAbort instant string
  | AStart instant start_request bool "EgressLease option" "EgressSlotBudget option" string
  | AEgress egress_event string
  | AEgressEnd instant nat EgressStatus string string
  | AStop instant string string
  | APause instant "egress_event list" string
  | AResume instant "egress_event list" string
  | ASync
  | AWithdraw instant
  | ADelete instant

definition real_mset :: "PlatformBroadcast \<Rightarrow> PlatformBroadcast multiset" where
  "real_mset b = (if b = zero_broadcast then {#} else {#b#})"

definition change_egress :: "egress_event \<Rightarrow> string \<Rightarrow> Session \<Rightarrow> Session" where
  "change_egress ev p s = (let t = readTarget p s in
     case t_egress t of None \<Rightarrow> s
     | Some e \<Rightarrow> put_target p (t\<lparr>t_egress := Some (e\<lparr>eg_core := interfere [ev] (eg_core e)\<rparr>)\<rparr>) s)"

definition moved_on :: "bc_sys \<Rightarrow> Session \<Rightarrow> PlatformBroadcast multiset \<Rightarrow> bc_sys" where
  "moved_on x s out = x\<lparr>bs := s, handed := handed x + out\<rparr>"

fun bc_step :: "hooks \<Rightarrow> bc_sys \<Rightarrow> bc_action \<Rightarrow> bc_sys" where
  "bc_step hk x (ASettings now st p) = moved_on x (snd (set_broadcast_settings now st p (bs x))) {#}"
| "bc_step hk x (AChzzkSettings now st p) = moved_on x (snd (set_chzzk_settings now st p (bs x))) {#}"
| "bc_step hk x (APrepare now ch p) = moved_on x (snd (begin_prepare now ch p (bs x))) {#}"
| "bc_step hk x (AReset now p) = moved_on x (reset_preparation now p (bs x)) {#}"
| "bc_step hk x (AMark now b p) = (let (r, s) = mark_prepared now b p (bs x) in
     x\<lparr>bs := s, recorded := recorded x + (if isl r then {#} else {#b#})\<rparr>)"
| "bc_step hk x (ABeginLive now p) = (let (r, s) = begin_go_live now p (bs x) in
     x\<lparr>bs := s, goers := (if isl r then goers x else insert p (goers x))\<rparr>)"
| "bc_step hk x (AComplete now u p) = (let ((aborted, b, er), s, eff) = complete_go_live hk now u p (bs x) in
     (moved_on x s (if aborted then real_mset b else {#}))\<lparr>goers := goers x - {p}\<rparr>)"
| "bc_step hk x (AAbort now p) = (let ((stopped, b), s) = abort_go_live now p (bs x) in
     (moved_on x s (if stopped then real_mset b else {#}))\<lparr>goers := goers x - {p}\<rparr>)"
| "bc_step hk x (AStart now rq hi l sl p) = moved_on x (fst (snd (start_stream hk now rq hi l p (bs x) sl))) {#}"
| "bc_step hk x (AEgress ev p) = moved_on x (change_egress ev p (bs x)) {#}"
| "bc_step hk x (AEgressEnd now eid st u p) = (let ((b, ph), s, eff) = run_egress_end hk now eid st u p (bs x) in
     moved_on x s (real_mset b))"
| "bc_step hk x (AStop now rsn p) = (let (r, s, eff) = stop_stream hk now rsn p (bs x) in
     moved_on x s (case r of Inl _ \<Rightarrow> {#} | Inr (b, ph) \<Rightarrow> real_mset b))"
| "bc_step hk x (APause now evs p) = moved_on x (fst (snd (pause_stream hk now evs p (bs x)))) {#}"
| "bc_step hk x (AResume now evs p) = moved_on x (fst (snd (resume_stream hk now evs p (bs x)))) {#}"
| "bc_step hk x ASync = moved_on x (fst (sync_ai_input hk (bs x))) {#}"
| "bc_step hk x (AWithdraw now) = (let (s, eff) = end_direct_usages hk now ''user_withdrawal'' (map fst (s_targets (bs x))) (bs x);
      (xs, s) = takeWithdrawalBroadcasts s in
     moved_on x (close now s) (sum_list (map (real_mset \<circ> fst) xs)))"
| "bc_step hk x (ADelete now) = (let (xs, s, eff) = cleanupPlatformBroadcast hk now (bs x) in
     moved_on x (close now s) (sum_list (map (real_mset \<circ> fst) xs)))"

text \<open>
  How the server calls them: a recorded broadcast is not the zero record, only the caller whose
  \<open>BeginGoLive\<close> succeeded completes or aborts, once, and a target is not prepared anew while its
  go-live request is on its way.
\<close>

fun bc_allowed :: "bc_sys \<Rightarrow> bc_action \<Rightarrow> bool" where
  "bc_allowed x (APrepare now ch p) = (t_phase (readTarget p (bs x)) \<noteq> BroadcastPhaseGoingLive)"
| "bc_allowed x (AMark now b p) = (b \<noteq> zero_broadcast)"
| "bc_allowed x (AComplete now u p) = (p \<in> goers x)"
| "bc_allowed x (AAbort now p) = (p \<in> goers x)"
| "bc_allowed x _ = True"

definition fresh_session :: "Session \<Rightarrow> bool" where
  "fresh_session s = (s_targets s = [] \<and> \<not> s_closed s)"

inductive bc_reach :: "hooks \<Rightarrow> bc_sys \<Rightarrow> bool" for hk where
  bc_init: "fresh_session s \<Longrightarrow> bc_reach hk \<lparr>bs = s, recorded = {#}, handed = {#}, goers = {}\<rparr>"
| bc_next: "bc_reach hk x \<Longrightarrow> bc_allowed x a \<Longrightarrow> bc_reach hk (bc_step hk x a)"

subsection \<open>The invariant\<close>

fun target_ok :: "streamTarget \<Rightarrow> bool" where
  "target_ok t = (case t_phase t of
      BroadcastPhaseIdle \<Rightarrow> t_platformBroadcast t = None \<and> \<not> t_goLiveStopRequested t
    | BroadcastPhasePreparing \<Rightarrow> t_platformBroadcast t = None \<and> \<not> t_goLiveStopRequested t
    | BroadcastPhaseGoingLive \<Rightarrow> t_platformBroadcast t \<noteq> None
    | _ \<Rightarrow> t_platformBroadcast t \<noteq> None \<and> \<not> t_goLiveStopRequested t)"

declare target_ok.simps [simp del]

definition resting :: "streamTarget \<Rightarrow> bool" where
  "resting t = (t_phase t \<in> {BroadcastPhaseIdle, BroadcastPhaseGoingLive})"

definition bc_inv :: "bc_sys \<Rightarrow> bool" where
  "bc_inv x = (distinct (map fst (s_targets (bs x)))
     \<and> recorded x = handed x + held (bs x)
     \<and> (\<forall>p. target_ok (readTarget p (bs x)) \<and> t_platformBroadcast (readTarget p (bs x)) \<noteq> Some zero_broadcast)
     \<and> (s_closed (bs x) \<longrightarrow> (\<forall>p. resting (readTarget p (bs x))))
     \<and> (\<forall>p\<in>goers x. s_closed (bs x) \<or> t_phase (readTarget p (bs x)) = BroadcastPhaseGoingLive))"

lemma bview_target_ok: "bview t = bview u \<Longrightarrow> target_ok t = target_ok u"
  by (cases "t_phase u") (auto simp: bview_def target_ok.simps)

lemma inv_move:
  assumes "bc_inv x" and "moved p t (bs x) s'" and "target_ok t" and "t_platformBroadcast t \<noteq> Some zero_broadcast"
    and "s_closed (bs x) \<Longrightarrow> resting t"
    and "opt_mset (t_platformBroadcast (readTarget p (bs x))) + rc = opt_mset (t_platformBroadcast t) + out"
    and "\<forall>q\<in>G. q \<in> goers x \<and> (q = p \<longrightarrow> s_closed (bs x) \<or> t_phase t = BroadcastPhaseGoingLive)
          \<or> q = p \<and> t_phase t = BroadcastPhaseGoingLive"
  shows "bc_inv (x\<lparr>bs := s', recorded := recorded x + rc, handed := handed x + out, goers := G\<rparr>)"
proof -
  let ?o = "opt_mset (t_platformBroadcast (readTarget p (bs x)))"
  have d: "distinct (map fst (s_targets (bs x)))" and r: "recorded x = handed x + held (bs x)"
    using assms(1) by (auto simp: bc_inv_def)
  have h: "held s' + ?o = held (bs x) + opt_mset (t_platformBroadcast t)" and d': "distinct (map fst (s_targets s'))"
    using assms(2) d by (auto simp: moved_def)
  have "(recorded x + rc) + ?o = (handed x + out + held s') + ?o"
  proof -
    have "(recorded x + rc) + ?o = handed x + held (bs x) + (?o + rc)" by (simp add: r ac_simps)
    also have "\<dots> = handed x + out + (held (bs x) + opt_mset (t_platformBroadcast t))"
      unfolding assms(6) by (simp add: ac_simps)
    also have "\<dots> = (handed x + out + held s') + ?o" unfolding h [symmetric] by (simp add: ac_simps)
    finally show ?thesis .
  qed
  then have "recorded x + rc = handed x + out + held s'" by simp
  with d' assms show ?thesis by (auto simp: bc_inv_def moved_def)
qed

lemma inv_move_keep:
  assumes "bc_inv x" and "moved p t (bs x) s'" and "bview t = bview (readTarget p (bs x))"
  shows "bc_inv (moved_on x s' {#})"
proof -
  have v: "t_platformBroadcast t = t_platformBroadcast (readTarget p (bs x))" "t_phase t = t_phase (readTarget p (bs x))"
    using assms(3) by (simp_all add: bview_def)
  have "bc_inv (x\<lparr>bs := s', recorded := recorded x + {#}, handed := handed x + {#}, goers := goers x\<rparr>)"
    using assms bview_target_ok [OF assms(3)] by (intro inv_move [OF assms(1,2)]) (auto simp: bc_inv_def v resting_def)
  then show ?thesis by (simp add: moved_on_def)
qed

lemma real_mset_simps [simp]: "real_mset zero_broadcast = {#}" "b \<noteq> zero_broadcast \<Longrightarrow> real_mset b = {#b#}"
  by (simp_all add: real_mset_def)

lemma taken_mset:
  "target_ok t \<Longrightarrow> t_platformBroadcast t \<noteq> Some zero_broadcast \<Longrightarrow> t_phase t \<noteq> BroadcastPhaseGoingLive \<Longrightarrow>
    real_mset (taken t) = opt_mset (t_platformBroadcast t)"
  by (cases "t_phase t"; cases "t_platformBroadcast t") (auto simp: target_ok.simps taken_def broadcast_or_zero_def real_mset_def)

lemma given_mset:
  "t_platformBroadcast t \<noteq> Some zero_broadcast \<Longrightarrow> real_mset (broadcast_or_zero t) = opt_mset (t_platformBroadcast t)"
  by (cases "t_platformBroadcast t") (auto simp: broadcast_or_zero_def real_mset_def)

lemma inv_let_go:
  assumes "bc_inv x" and "moved p t' (bs x) s'" and "kept_or_let_go (readTarget p (bs x)) t' b"
  shows "bc_inv (moved_on x s' (real_mset b))"
proof (cases "bview t' = bview (readTarget p (bs x)) \<and> b = zero_broadcast")
  case True
  with inv_move_keep [OF assms(1,2)] show ?thesis by simp
next
  case False
  let ?t = "readTarget p (bs x)"
  have ok: "target_ok ?t" "t_platformBroadcast ?t \<noteq> Some zero_broadcast" using assms(1) by (auto simp: bc_inv_def)
  from False assms(3) have g: "t_phase ?t \<noteq> BroadcastPhaseGoingLive" "t_platformBroadcast t' = None"
    "t_phase t' = BroadcastPhaseIdle" "t_goLiveStopRequested t' = t_goLiveStopRequested ?t" "b = taken ?t"
    by (auto simp: kept_or_let_go_def bview_def)
  have "\<not> t_goLiveStopRequested ?t" using ok(1) g(1) by (auto simp: target_ok.simps split: BroadcastPhase.splits)
  then have "bc_inv (x\<lparr>bs := s', recorded := recorded x + {#}, handed := handed x + real_mset b, goers := goers x\<rparr>)"
    using assms g ok by (intro inv_move [OF assms(1,2)]) (auto simp: target_ok.simps resting_def taken_mset bc_inv_def)
  then show ?thesis by (simp add: moved_on_def)
qed

lemma inv_give_up:
  assumes "bc_inv x" and "moved p (given_up (readTarget p (bs x))) (bs x) s'" and "G = goers x - {p}"
  shows "bc_inv ((moved_on x s' (real_mset (broadcast_or_zero (readTarget p (bs x)))))\<lparr>goers := G\<rparr>)"
proof -
  let ?t = "readTarget p (bs x)"
  have z: "t_platformBroadcast ?t \<noteq> Some zero_broadcast" using assms(1) by (auto simp: bc_inv_def)
  have "bc_inv (x\<lparr>bs := s', recorded := recorded x + {#}, handed := handed x + real_mset (broadcast_or_zero ?t), goers := G\<rparr>)"
    using assms given_mset [OF z] by (intro inv_move [OF assms(1,2)]) (auto simp: given_up_def target_ok.simps resting_def)
  then show ?thesis by (simp add: moved_on_def)
qed

text \<open>Ending all broadcasts of a session, then closing it.\<close>

lemma resting_simps [simp]: "resting (given_up t)" "resting idle_target"
  by (simp_all add: resting_def given_up_def idle_target_def)

lemma resting_view: "bview t = bview u \<Longrightarrow> resting t = resting u"
  by (simp add: bview_def resting_def)

lemma let_go_resting:
  "kept_or_let_go t t' b \<Longrightarrow> resting t \<Longrightarrow> resting t'"
  by (auto simp: kept_or_let_go_def bview_def resting_def)

lemma take_resting:
  "takeBroadcastLocked p s = ((b, ph), s') \<Longrightarrow> resting (readTarget p s')"
  using takeBroadcastLocked_moved [of p s b ph s']
  by (auto simp: resting_def dest!: moved_readTarget split: if_splits)

lemma close_reads: "readTarget p (close now s) = (if s_closed s then readTarget p s else close_target now (readTarget p s))"
proof -
  have "map_of (map (\<lambda>(p, t). (p, close_target now t)) ts) p = map_option (close_target now) (map_of ts p)" for ts
    by (induction ts) auto
  then show ?thesis
    by (simp add: close_def readTarget_def close_target_def idle_target_def split: option.splits)
qed

lemma bview_close_target [simp]: "bview (close_target now t) = bview t"
  by (simp add: close_target_def)

lemma held_close [simp]: "held (close now s) = held s"
proof -
  have "held_of (map (\<lambda>(p, t). (p, close_target now t)) ts) = held_of ts" for ts
    by (induction ts) (auto simp: close_target_def)
  then show ?thesis by (simp add: close_def)
qed

lemma close_closes [simp]: "s_closed (close now s)" "map fst (s_targets (close now s)) = map fst (s_targets s)"
  by (simp_all add: close_def case_prod_beta)

lemma close_user [simp]: "s_UserID (close now s) = s_UserID s"
  by (simp add: close_def)

lemma inv_close:
  assumes "bc_inv (x\<lparr>goers := {}\<rparr>)" and "\<And>p. resting (readTarget p (bs x))"
  shows "bc_inv (x\<lparr>bs := close now (bs x)\<rparr>)"
proof -
  have v: "bview (readTarget p (close now (bs x))) = bview (readTarget p (bs x))" for p by (simp add: close_reads)
  then have "t_platformBroadcast (readTarget p (close now (bs x))) = t_platformBroadcast (readTarget p (bs x))" for p
    by (simp add: bview_def)
  with assms show ?thesis
    by (simp add: bc_inv_def resting_view [OF v] bview_target_ok [OF v])
qed

abbreviation handed_out :: "(PlatformBroadcast \<times> BroadcastPhase) list \<Rightarrow> PlatformBroadcast multiset" where
  "handed_out xs \<equiv> sum_list (map (real_mset \<circ> fst) xs)"

lemma moved_on_simps [simp]:
  "bs (moved_on x s out) = s" "goers (moved_on x s out) = goers x"
  "moved_on (moved_on x s out) s' out' = moved_on x s' (out + out')"
  "(moved_on x s out)\<lparr>bs := s'\<rparr> = moved_on x s' out"
  "(moved_on x s out)\<lparr>goers := G\<rparr> = moved_on (x\<lparr>goers := G\<rparr>) s out"
  by (simp_all add: moved_on_def ac_simps)

lemma moved_on_refl [simp]: "moved_on x (bs x) {#} = x"
  by (simp add: moved_on_def)

lemma withdraw_all:
  assumes "bc_inv x" and "goers x = {}" and "take_all takeWithdrawalBroadcast ps (bs x) = (xs, s')"
  shows "bc_inv (moved_on x s' (handed_out xs))
    \<and> (\<forall>q. q \<in> set ps \<or> resting (readTarget q (bs x)) \<longrightarrow> resting (readTarget q s'))"
  using assms
proof (induction ps arbitrary: x xs)
  case (Cons p ps)
  obtain b ph s1 where 1: "takeWithdrawalBroadcast p (bs x) = ((b, ph), s1)" by (metis prod.collapse)
  obtain ys where 2: "take_all takeWithdrawalBroadcast ps s1 = (ys, s')" "xs = (b, ph) # ys"
    using Cons.prems(3) 1 by (auto split: prod.splits)
  have m: "moved p (given_up (readTarget p (bs x))) (bs x) s1" "b = broadcast_or_zero (readTarget p (bs x))"
    using takeWithdrawalBroadcast_moved [OF 1] by simp_all
  define y where "y = moved_on x s1 (real_mset b)"
  have e: "(x::bc_sys)\<lparr>goers := {}\<rparr> = x" using Cons.prems(2) by (cases x) simp
  have "bc_inv y"
    using inv_give_up [OF Cons.prems(1) m(1) refl] by (simp add: y_def m(2) Cons.prems(2) e)
  from Cons.IH [OF this] 2 Cons.prems(2) show ?case
    using m(1) by (auto simp: y_def moved_def)
qed auto

lemma cleanup_all:
  assumes "bc_inv x" and "goers x = {}" and "cleanup_targets hk now ps (bs x) = (xs, s', eff)"
  shows "bc_inv (moved_on x s' (handed_out xs))
    \<and> (\<forall>q. q \<in> set ps \<or> resting (readTarget q (bs x)) \<longrightarrow> resting (readTarget q s'))"
  using assms
proof (induction ps arbitrary: x xs eff)
  case (Cons p ps)
  obtain s1 e1 where 1: "endDirectUsageLocked hk now ''session_closed'' p (bs x) = (s1, e1)" by (metis prod.collapse)
  obtain b ph s2 where 2: "takeBroadcastLocked p s1 = ((b, ph), s2)" by (metis prod.collapse)
  obtain ys e2 where 3: "cleanup_targets hk now ps s2 = (ys, s', e2)" "xs = (b, ph) # ys"
    using Cons.prems(3) 1 2 by (auto split: prod.splits)
  obtain u where "moved p ((readTarget p (bs x))\<lparr>t_usageID := u\<rparr>) (bs x) s1"
    using endDirectUsage_moved [OF 1] by blast
  from take_after [OF this _ 2] obtain t' where m: "moved p t' (bs x) s2" "kept_or_let_go (readTarget p (bs x)) t' b"
    by auto
  define y where "y = moved_on x s2 (real_mset b)"
  have "bc_inv y" unfolding y_def by (rule inv_let_go [OF Cons.prems(1) m])
  from Cons.IH [OF this] 3 Cons.prems(2) show ?case
    using take_resting [OF 2] m(1) by (auto simp: y_def moved_def)
qed auto

lemma inv_shut:
  assumes "bc_inv x" and "bc_inv (moved_on (x\<lparr>goers := {}\<rparr>) s' out)"
    and "\<forall>q. q \<in> set (map fst (s_targets (bs x))) \<or> resting (readTarget q (bs x)) \<longrightarrow> resting (readTarget q s')"
  shows "bc_inv (moved_on x (close now s') out)"
proof -
  have "q \<in> set (map fst (s_targets (bs x))) \<or> resting (readTarget q (bs x))" for q
    by (cases "map_of (s_targets (bs x)) q") (force simp: readTarget_def dest: map_of_SomeD)+
  with assms(3) have "resting (readTarget q s')" for q by blast
  with assms(2) show ?thesis
    using inv_close [of "moved_on x s' out" now] by simp
qed

lemma insert_str_set [simp]: "set (insert_str x xs) = insert x (set xs)"
  by (induction xs) auto

lemma sort_strings_set [simp]: "set (sort_strings xs) = set xs"
  by (induction xs) (auto simp: sort_strings_def)

lemma bc_inv_no_goers: "bc_inv x \<Longrightarrow> bc_inv (x\<lparr>goers := {}\<rparr>)"
  by (simp add: bc_inv_def)

lemma end_direct_usages_inv:
  "bc_inv x \<Longrightarrow> end_direct_usages hk now rsn ps (bs x) = (s', eff) \<Longrightarrow>
    bc_inv (moved_on x s' {#})"
proof (induction ps arbitrary: x eff)
  case (Cons p ps)
  obtain s1 e1 where 1: "endDirectUsageLocked hk now rsn p (bs x) = (s1, e1)" by (metis prod.collapse)
  obtain e2 where 2: "end_direct_usages hk now rsn ps s1 = (s', e2)" using Cons.prems(2) 1 by (auto split: prod.splits)
  obtain u where m: "moved p ((readTarget p (bs x))\<lparr>t_usageID := u\<rparr>) (bs x) s1"
    using endDirectUsage_moved [OF 1] by blast
  have "bc_inv (moved_on x s1 {#})" by (rule inv_move_keep [OF Cons.prems(1) m]) simp
  with Cons.IH [of "moved_on x s1 {#}"] 2 show ?case by auto
qed auto

lemma inv_withdraw: "bc_inv x \<Longrightarrow> bc_inv (bc_step hk x (AWithdraw now))"
proof -
  assume i: "bc_inv x"
  obtain s1 eff where 1: "end_direct_usages hk now ''user_withdrawal'' (map fst (s_targets (bs x))) (bs x) = (s1, eff)"
    by (metis prod.collapse)
  obtain xs s2 where 2: "takeWithdrawalBroadcasts s1 = (xs, s2)" by (metis prod.collapse)
  define y where "y = moved_on x s1 {#}"
  have y: "bc_inv y" using end_direct_usages_inv [OF i 1] by (simp add: y_def)
  have "bc_inv (moved_on (y\<lparr>goers := {}\<rparr>) s2 (handed_out xs))
    \<and> (\<forall>q. q \<in> set (map fst (s_targets s1)) \<or> resting (readTarget q s1) \<longrightarrow> resting (readTarget q s2))"
    using withdraw_all [OF bc_inv_no_goers [OF y], of "sort_strings (map fst (s_targets s1))" xs s2] 2
    by (simp add: takeWithdrawalBroadcasts_def y_def)
  then show ?thesis using inv_shut [OF y, of s2 "handed_out xs" now] 1 2 by (simp add: y_def)
qed

lemma inv_delete: "bc_inv x \<Longrightarrow> bc_inv (bc_step hk x (ADelete now))"
proof -
  assume i: "bc_inv x"
  obtain xs s' eff where 1: "cleanup_targets hk now (map fst (s_targets (bs x))) (bs x) = (xs, s', eff)"
    by (metis prod.collapse)
  from cleanup_all [OF bc_inv_no_goers [OF i], of hk now "map fst (s_targets (bs x))" xs s' eff] 1
  show ?thesis using inv_shut [OF i, of s' "handed_out xs" now] by (simp add: cleanupPlatformBroadcast_def)
qed

subsection \<open>Every step keeps the invariant\<close>

lemma inv_keep_step:
  "bc_inv x \<Longrightarrow> bc_inv (bc_step hk x (ASettings now st p))"
  "bc_inv x \<Longrightarrow> bc_inv (bc_step hk x (AChzzkSettings now cz p))"
  "bc_inv x \<Longrightarrow> bc_inv (bc_step hk x (AStart now rq hi l sl p))"
  "bc_inv x \<Longrightarrow> bc_inv (bc_step hk x (APause now evs p))"
  "bc_inv x \<Longrightarrow> bc_inv (bc_step hk x (AResume now evs p))"
  "bc_inv x \<Longrightarrow> bc_inv (bc_step hk x (AEgress ev p))"
  "bc_inv x \<Longrightarrow> bc_inv (bc_step hk x ASync)"
proof -
  assume i: "bc_inv x"
  have keep: "bc_inv (moved_on x s' {#})" if "\<exists>t'. moved p t' (bs x) s' \<and> bview t' = bview (readTarget p (bs x))" for s'
    using that inv_move_keep [OF i] by blast
  show "bc_inv (bc_step hk x (ASettings now st p))" "bc_inv (bc_step hk x (AChzzkSettings now cz p))"
    by (auto intro!: keep intro: settings_moved [OF prod.collapse [symmetric]])
  show "bc_inv (bc_step hk x (AStart now rq hi l sl p))"
    using start_stream_moved [of hk now rq hi l p "bs x" sl] by (auto intro!: keep simp: prod_eq_iff)
  show "bc_inv (bc_step hk x (APause now evs p))"
    using pause_stream_moved [of hk now evs p "bs x"] by (auto intro!: keep simp: prod_eq_iff)
  show "bc_inv (bc_step hk x (AResume now evs p))"
    using resume_stream_moved [of hk now evs p "bs x"] by (auto intro!: keep simp: prod_eq_iff)
  show "bc_inv (bc_step hk x (AEgress ev p))"
    using i by (auto simp: change_egress_def Let_def split: option.splits intro!: keep) (blast intro: bview_frame moved_put)
  show "bc_inv (bc_step hk x ASync)"
    using i moved_refl [of p "bs x"] by (auto simp: sync_ai_input_def setAIInputPaused_def intro!: keep)
qed

lemma inv_prepare: "bc_inv x \<Longrightarrow> bc_allowed x (APrepare now ch p) \<Longrightarrow> bc_inv (bc_step hk x (APrepare now ch p))"
proof -
  assume i: "bc_inv x" and al: "bc_allowed x (APrepare now ch p)"
  obtain r s' where 1: "begin_prepare now ch p (bs x) = (r, s')" by (metis prod.collapse)
  let ?t = "readTarget p (bs x)"
  have ok: "target_ok ?t" using i by (simp add: bc_inv_def)
  show ?thesis
  proof (cases "isl r")
    case True
    with begin_prepare_moved [OF 1] inv_move_keep [OF i] 1 show ?thesis by simp
  next
    case False
    with begin_prepare_moved [OF 1] al have m: "moved p (?t\<lparr>t_phase := BroadcastPhasePreparing, t_channel := ch\<rparr>) (bs x) s'"
      "\<not> s_closed (bs x)" "t_phase ?t = BroadcastPhaseIdle" by auto
    have "bc_inv (x\<lparr>bs := s', recorded := recorded x + {#}, handed := handed x + {#}, goers := goers x\<rparr>)"
      using ok m i by (intro inv_move [OF i m(1)]) (auto simp: target_ok.simps bc_inv_def)
    then show ?thesis using 1 by (simp add: moved_on_def)
  qed
qed

lemma inv_reset: "bc_inv x \<Longrightarrow> bc_inv (bc_step hk x (AReset now p))"
proof -
  assume i: "bc_inv x"
  let ?t = "readTarget p (bs x)"
  have ok: "target_ok ?t" using i by (simp add: bc_inv_def)
  show ?thesis
  proof (cases "t_phase ?t = BroadcastPhasePreparing")
    case False
    with reset_preparation_moved [of p "bs x" now] inv_move_keep [OF i] show ?thesis by simp
  next
    case True
    with reset_preparation_moved [of p "bs x" now]
    have m: "moved p (?t\<lparr>t_platformBroadcast := None, t_phase := BroadcastPhaseIdle\<rparr>) (bs x) (reset_preparation now p (bs x))" by simp
    have "bc_inv (x\<lparr>bs := reset_preparation now p (bs x), recorded := recorded x + {#}, handed := handed x + {#}, goers := goers x\<rparr>)"
      using ok True i by (intro inv_move [OF i m]) (auto simp: target_ok.simps resting_def bc_inv_def)
    then show ?thesis by (simp add: moved_on_def)
  qed
qed

lemma inv_mark: "bc_inv x \<Longrightarrow> b \<noteq> zero_broadcast \<Longrightarrow> bc_inv (bc_step hk x (AMark now b p))"
proof -
  assume i: "bc_inv x" and b: "b \<noteq> zero_broadcast"
  obtain r s' where 1: "mark_prepared now b p (bs x) = (r, s')" by (metis prod.collapse)
  let ?t = "readTarget p (bs x)"
  have ok: "target_ok ?t" using i by (simp add: bc_inv_def)
  show ?thesis
  proof (cases "isl r")
    case True
    with mark_prepared_moved [OF 1] inv_move_keep [OF i] 1 show ?thesis by (simp add: moved_on_def)
  next
    case False
    with mark_prepared_moved [OF 1] have m: "moved p (?t\<lparr>t_platformBroadcast := Some b, t_phase := BroadcastPhasePrepared\<rparr>) (bs x) s'"
      "\<not> s_closed (bs x)" "t_phase ?t = BroadcastPhasePreparing" by auto
    have "bc_inv (x\<lparr>bs := s', recorded := recorded x + {#b#}, handed := handed x + {#}, goers := goers x\<rparr>)"
      using ok m i b by (intro inv_move [OF i m(1)]) (auto simp: target_ok.simps bc_inv_def)
    then show ?thesis using 1 False by simp
  qed
qed

lemma inv_begin_live: "bc_inv x \<Longrightarrow> bc_inv (bc_step hk x (ABeginLive now p))"
proof -
  assume i: "bc_inv x"
  obtain r s' where 1: "begin_go_live now p (bs x) = (r, s')" by (metis prod.collapse)
  let ?t = "readTarget p (bs x)"
  have ok: "target_ok ?t" "t_platformBroadcast ?t \<noteq> Some zero_broadcast" using i by (simp_all add: bc_inv_def)
  show ?thesis
  proof (cases "isl r")
    case True
    with begin_go_live_moved [OF 1] inv_move_keep [OF i] 1 show ?thesis by (simp add: moved_on_def)
  next
    case False
    with begin_go_live_moved [OF 1] have m: "moved p (?t\<lparr>t_phase := BroadcastPhaseGoingLive, t_goLiveStopRequested := False\<rparr>) (bs x) s'"
      "\<not> s_closed (bs x)" "t_phase ?t = BroadcastPhasePrepared" by auto
    have "bc_inv (x\<lparr>bs := s', recorded := recorded x + {#}, handed := handed x + {#}, goers := insert p (goers x)\<rparr>)"
      using ok m i by (intro inv_move [OF i m(1)]) (auto simp: target_ok.simps bc_inv_def)
    then show ?thesis using 1 False by simp
  qed
qed

lemma inv_complete:
  "bc_inv x \<Longrightarrow> p \<in> goers x \<Longrightarrow> bc_inv (bc_step hk x (AComplete now u p))"
proof -
  assume i: "bc_inv x" and g: "p \<in> goers x"
  obtain ab b er s' eff where 1: "complete_go_live hk now u p (bs x) = ((ab, b, er), s', eff)" by (metis prod.collapse)
  let ?t = "readTarget p (bs x)"
  have live: "s_closed (bs x) \<or> t_phase ?t = BroadcastPhaseGoingLive" using i g by (auto simp: bc_inv_def)
  have ok: "target_ok ?t" "t_platformBroadcast ?t \<noteq> Some zero_broadcast" using i by (simp_all add: bc_inv_def)
  from complete_go_live_moved [OF 1 live] obtain z where
    m: "moved p (if ab then given_up ?t else ?t\<lparr>t_phase := BroadcastPhaseLive, t_usageID := z\<rparr>) (bs x) s'"
    and r: "ab = stop_pending p (bs x)" "b = broadcast_or_zero ?t" by auto
  show ?thesis
  proof (cases ab)
    case True
    with inv_give_up [OF i _ refl, of p s'] m 1 r show ?thesis by simp
  next
    case False
    then have n: "\<not> s_closed (bs x)" "t_phase ?t = BroadcastPhaseGoingLive" "\<not> t_goLiveStopRequested ?t"
      using r(1) live by (auto simp: stop_pending_def)
    from False m have m': "moved p (?t\<lparr>t_phase := BroadcastPhaseLive, t_usageID := z\<rparr>) (bs x) s'" by simp
    have "bc_inv (x\<lparr>bs := s', recorded := recorded x + {#}, handed := handed x + {#}, goers := goers x - {p}\<rparr>)"
      using ok n i by (intro inv_move [OF i m']) (auto simp: target_ok.simps bc_inv_def)
    then show ?thesis using 1 False by (simp add: moved_on_def)
  qed
qed

lemma inv_abort:
  "bc_inv x \<Longrightarrow> p \<in> goers x \<Longrightarrow> bc_inv (bc_step hk x (AAbort now p))"
proof -
  assume i: "bc_inv x" and g: "p \<in> goers x"
  obtain stp b s' where 1: "abort_go_live now p (bs x) = ((stp, b), s')" by (metis prod.collapse)
  let ?t = "readTarget p (bs x)"
  have ok: "target_ok ?t" "t_platformBroadcast ?t \<noteq> Some zero_broadcast" using i by (simp_all add: bc_inv_def)
  note a = abort_go_live_moved [OF 1]
  consider (away) "t_phase ?t \<noteq> BroadcastPhaseGoingLive" | (stopped) "t_phase ?t = BroadcastPhaseGoingLive" stp
    | (again) "t_phase ?t = BroadcastPhaseGoingLive" "\<not> stp" by blast
  then show ?thesis
  proof cases
    case away
    then have "s_closed (bs x)" using i g by (auto simp: bc_inv_def)
    then have "t_platformBroadcast ?t = None" using i away by (auto simp: bc_inv_def resting_def target_ok.simps split: BroadcastPhase.splits)
    then have "b = zero_broadcast" using a by (simp add: broadcast_or_zero_def)
    moreover have "bc_inv (moved_on x s' {#})" using a away inv_move_keep [OF i, of p ?t s'] by simp
    then have "bc_inv ((moved_on x s' {#})\<lparr>goers := goers x - {p}\<rparr>)" by (auto simp: bc_inv_def moved_on_def)
    ultimately show ?thesis using 1 by simp
  next
    case stopped
    with a inv_give_up [OF i _ refl, of p s'] 1 show ?thesis by simp
  next
    case again
    with a have m: "moved p (?t\<lparr>t_phase := BroadcastPhasePrepared\<rparr>) (bs x) s'" "\<not> s_closed (bs x)" "\<not> t_goLiveStopRequested ?t" by auto
    have "bc_inv (x\<lparr>bs := s', recorded := recorded x + {#}, handed := handed x + {#}, goers := goers x - {p}\<rparr>)"
      using ok m again i by (intro inv_move [OF i m(1)]) (auto simp: target_ok.simps bc_inv_def)
    then show ?thesis using 1 again by (simp add: moved_on_def)
  qed
qed

lemma inv_stop: "bc_inv x \<Longrightarrow> bc_inv (bc_step hk x (AStop now rsn p))"
proof -
  assume i: "bc_inv x"
  obtain r s' eff where 1: "stop_stream hk now rsn p (bs x) = (r, s', eff)" by (metis prod.collapse)
  let ?t = "readTarget p (bs x)"
  have ok: "target_ok ?t" "t_platformBroadcast ?t \<noteq> Some zero_broadcast" using i by (simp_all add: bc_inv_def)
  note mv = stop_stream_moved [OF 1]
  show ?thesis
  proof (cases r)
    case (Inl e)
    with mv obtain t' where "moved p t' (bs x) s'" "bview t' = bview ?t" by auto
    from inv_move_keep [OF i this] 1 Inl show ?thesis by simp
  next
    case (Inr v)
    obtain b ph where v: "v = (b, ph)" by (cases v)
    show ?thesis
    proof (cases "t_phase ?t = BroadcastPhaseGoingLive")
      case False
      with mv Inr v obtain t' where "moved p t' (bs x) s'" "kept_or_let_go ?t t' b" by auto
      from inv_let_go [OF i this] 1 Inr v show ?thesis by simp
    next
      case True
      with mv Inr v obtain t' where m: "moved p t' (bs x) s'" "b = zero_broadcast" "t_platformBroadcast t' = t_platformBroadcast ?t"
        "t_phase t' = BroadcastPhaseGoingLive" by (auto simp: bview_def)
      have "bc_inv (x\<lparr>bs := s', recorded := recorded x + {#}, handed := handed x + {#}, goers := goers x\<rparr>)"
        using ok m True i by (intro inv_move [OF i m(1)]) (auto simp: target_ok.simps resting_def bc_inv_def)
      then show ?thesis using 1 Inr v m(2) by (simp add: moved_on_def)
    qed
  qed
qed

lemma inv_egress_end: "bc_inv x \<Longrightarrow> bc_inv (bc_step hk x (AEgressEnd now eid st u p))"
proof -
  assume i: "bc_inv x"
  obtain b ph s' eff where 1: "run_egress_end hk now eid st u p (bs x) = ((b, ph), s', eff)" by (metis prod.collapse)
  with end_step_moved [OF 1] inv_let_go [OF i] show ?thesis by auto
qed

lemma bc_step_inv:
  assumes "bc_inv x" and "bc_allowed x a"
  shows "bc_inv (bc_step hk x a)"
proof (cases a)
  case (AMark now b p)
  with inv_mark [OF assms(1)] assms(2) show ?thesis by simp
next
  case (AComplete now u p)
  with inv_complete [OF assms(1)] assms(2) show ?thesis by simp
next
  case (AAbort now p)
  with inv_abort [OF assms(1)] assms(2) show ?thesis by simp
next
  case (APrepare now ch p)
  with inv_prepare [OF assms(1)] assms(2) show ?thesis by blast
qed (simp_all only: assms(1) inv_keep_step inv_reset inv_begin_live inv_egress_end inv_stop inv_withdraw inv_delete)

lemma bc_reach_inv: "bc_reach hk x \<Longrightarrow> bc_inv x"
proof (induction rule: bc_reach.induct)
  case (bc_init s)
  then show ?case by (simp add: bc_inv_def fresh_session_def readTarget_def idle_target_def target_ok.simps)
next
  case (bc_next x a)
  then show ?case by (simp add: bc_step_inv)
qed

subsection \<open>A target is going live only for the caller that will end it\<close>

abbreviation going :: "string \<Rightarrow> Session \<Rightarrow> bool" where
  "going p s \<equiv> t_phase (readTarget p s) = BroadcastPhaseGoingLive"

text \<open>The calls that neither prepare nor start or end a go-live nor withdraw.\<close>

fun plain_call :: "bc_action \<Rightarrow> bool" where
  "plain_call (APrepare now ch p) = False"
| "plain_call (ABeginLive now p) = False"
| "plain_call (AComplete now u p) = False"
| "plain_call (AAbort now p) = False"
| "plain_call (AWithdraw now) = False"
| "plain_call a = True"

text \<open>
  What the calls do to the targets, as a relation \<open>R\<close> between a target before and after: the laws are
  the changes a call can make to one target, and the calls on all targets follow. The first locale has
  the calls that neither end a go-live nor withdraw; the second adds those.
\<close>

locale target_calls =
  fixes R :: "streamTarget \<Rightarrow> streamTarget \<Rightarrow> bool"
  assumes R_view: "bview t' = bview t \<Longrightarrow> R t t'"
    and R_trans: "R t u \<Longrightarrow> R u v \<Longrightarrow> R t v"
    and R_let_go: "kept_or_let_go t t' b \<Longrightarrow> R t t'"
    and R_prepared: "t_phase t = BroadcastPhasePreparing \<Longrightarrow>
      R t (t\<lparr>t_platformBroadcast := Some pb, t_phase := BroadcastPhasePrepared\<rparr>)"
    and R_stop_request: "t_phase t = BroadcastPhaseGoingLive \<Longrightarrow>
      bview t' = (t_platformBroadcast t, BroadcastPhaseGoingLive, True, t_channel t) \<Longrightarrow> R t t'"
begin

definition calls :: "Session \<Rightarrow> Session \<Rightarrow> bool" where
  "calls s s' = ((\<forall>q. R (readTarget q s) (readTarget q s')) \<and> (s_closed s \<longrightarrow> s_closed s') \<and> s_UserID s' = s_UserID s)"

lemma calls_refl: "calls s s"
  by (simp add: calls_def R_view)

lemma calls_trans: "calls s s1 \<Longrightarrow> calls s1 s2 \<Longrightarrow> calls s s2"
  unfolding calls_def by (simp, meson R_trans)

lemma calls_moved: "moved p t s s' \<Longrightarrow> R (readTarget p s) t \<Longrightarrow> calls s s'"
  by (auto simp: moved_def calls_def R_view)

lemma calls_view: "\<exists>t'. moved p t' s s' \<and> bview t' = bview (readTarget p s) \<Longrightarrow> calls s s'"
  using calls_moved R_view by blast

lemma calls_let_go: "\<exists>t'. moved p t' s s' \<and> kept_or_let_go (readTarget p s) t' b \<Longrightarrow> calls s s'"
  using calls_moved R_let_go by blast

lemma calls_close: "calls s s' \<Longrightarrow> calls s (close now s')"
proof -
  have "calls s' (close now s')" by (simp add: calls_def close_reads R_view)
  then show "calls s s' \<Longrightarrow> calls s (close now s')" using calls_trans by blast
qed

lemma calls_usage: "endDirectUsageLocked hk now rsn p s = (s', eff) \<Longrightarrow> calls s s'"
  using endDirectUsage_moved [of hk now rsn p s s' eff] bview_frame(1) calls_view by blast

lemma calls_take: "takeBroadcastLocked p s = ((b, ph), s') \<Longrightarrow> calls s s'"
  using take_let_go calls_let_go by blast

lemma calls_usages: "end_direct_usages hk now rsn ps s = (s', eff) \<Longrightarrow> calls s s'"
  by (induction ps arbitrary: s eff)
    (auto split: prod.splits intro: calls_refl calls_trans calls_usage)

lemma calls_cleanup: "cleanup_targets hk now ps s = (xs, s', eff) \<Longrightarrow> calls s s'"
  by (induction ps arbitrary: s xs eff)
    (auto split: prod.splits intro: calls_refl, meson calls_trans calls_usage calls_take)

lemma calls_reset: "calls s (reset_preparation now p s)"
proof (rule calls_moved [OF reset_preparation_moved], cases "t_phase (readTarget p s) = BroadcastPhasePreparing")
  case True
  then show "R (readTarget p s) (if t_phase (readTarget p s) = BroadcastPhasePreparing
      then (readTarget p s)\<lparr>t_platformBroadcast := None, t_phase := BroadcastPhaseIdle\<rparr> else readTarget p s)"
    by (intro R_let_go [of _ _ zero_broadcast]) (simp add: kept_or_let_go_def bview_def taken_def)
qed (simp add: R_view)

lemma calls_mark: "calls s (snd (mark_prepared now b p s))"
proof -
  obtain r s' where 1: "mark_prepared now b p s = (r, s')" by (metis prod.collapse)
  from mark_prepared_moved [OF 1] have "calls s s'"
    by (cases "isl r") (auto intro: calls_moved R_view R_prepared)
  with 1 show ?thesis by simp
qed

lemma calls_stop: "calls s (fst (snd (stop_stream hk now rsn p s)))"
proof -
  obtain r s' eff where 1: "stop_stream hk now rsn p s = (r, s', eff)" by (metis prod.collapse)
  from stop_stream_moved [OF 1] have "calls s s'"
    by (cases r) (auto split: if_splits, (blast intro: calls_moved R_view R_stop_request R_let_go)+)
  with 1 show ?thesis by simp
qed

lemma calls_plain:
  "calls s (snd (set_broadcast_settings now st p s))" "calls s (snd (set_chzzk_settings now cz p s))"
  "calls s (fst (snd (start_stream hk now rq hi l p s sl)))" "calls s (fst (snd (pause_stream hk now evs p s)))"
  "calls s (fst (snd (resume_stream hk now evs p s)))" "calls s (change_egress ev p s)" "calls s (fst (sync_ai_input hk s))"
proof -
  show "calls s (snd (set_broadcast_settings now st p s))" "calls s (snd (set_chzzk_settings now cz p s))"
    by (auto intro: calls_moved R_view settings_moved [OF prod.collapse [symmetric]])
  show "calls s (fst (snd (start_stream hk now rq hi l p s sl)))"
    using start_stream_moved [of hk now rq hi l p s sl]
    by (cases "start_stream hk now rq hi l p s sl") (auto intro!: calls_view [of p])
  show "calls s (fst (snd (pause_stream hk now evs p s)))"
    using pause_stream_moved [of hk now evs p s]
    by (cases "pause_stream hk now evs p s") (auto intro!: calls_view [of p])
  show "calls s (fst (snd (resume_stream hk now evs p s)))"
    using resume_stream_moved [of hk now evs p s]
    by (cases "resume_stream hk now evs p s") (auto intro!: calls_view [of p])
  show "calls s (change_egress ev p s)"
    by (auto simp: calls_def change_egress_def Let_def R_view split: option.splits)
  show "calls s (fst (sync_ai_input hk s))"
    by (simp add: calls_def sync_ai_input_def setAIInputPaused_def R_view)
qed

lemma calls_step: "plain_call a \<Longrightarrow> calls (bs x) (bs (bc_step hk x a))"
proof (cases a)
  case (AEgressEnd now eid st u p)
  then show ?thesis using end_step_moved [of hk now eid st u p "bs x"]
    by (auto split: prod.splits intro!: calls_let_go [of p])
next
  case (ADelete now)
  then show ?thesis
    by (auto simp: cleanupPlatformBroadcast_def split: prod.splits intro: calls_close calls_cleanup)
qed (use calls_plain calls_reset calls_mark calls_stop in \<open>auto simp: case_prod_beta Let_def\<close>)

end

locale all_target_calls = target_calls +
  assumes R_given_up: "R t (given_up t)"
    and R_live: "t_phase t = BroadcastPhaseGoingLive \<Longrightarrow> R t (t\<lparr>t_phase := BroadcastPhaseLive\<rparr>)"
    and R_again: "t_phase t = BroadcastPhaseGoingLive \<Longrightarrow> R t (t\<lparr>t_phase := BroadcastPhasePrepared\<rparr>)"
begin

lemma calls_complete: "calls s (fst (snd (complete_go_live hk now u p s)))"
proof -
  obtain ab b er s' eff where 1: "complete_go_live hk now u p s = ((ab, b, er), s', eff)" by (metis prod.collapse)
  have "calls s s'"
  proof (cases "s_closed s \<or> going p s")
    case True
    from complete_go_live_moved [OF 1 True] obtain z where
      m: "moved p (if ab then given_up (readTarget p s) else (readTarget p s)\<lparr>t_phase := BroadcastPhaseLive, t_usageID := z\<rparr>) s s'"
      and ab: "ab = stop_pending p s" by blast
    have "R (readTarget p s) ((readTarget p s)\<lparr>t_phase := BroadcastPhaseLive, t_usageID := z\<rparr>)" if "\<not> ab"
      using that ab True R_trans [OF R_live R_view [OF bview_frame(1)]] by (auto simp: stop_pending_def)
    with m show ?thesis by (intro calls_moved [OF m]) (auto simp: R_given_up)
  next
    case False
    with 1 have "s' = (if t_goLiveStopRequested (readTarget p s)
        then (put_target p (given_up (readTarget p s)) (target p s))\<lparr>s_UpdatedAt := now\<rparr> else target p s)"
      by (auto simp: complete_go_live_def Let_def split: if_splits)
    then show ?thesis by (simp add: calls_def R_given_up R_view)
  qed
  with 1 show ?thesis by simp
qed

lemma calls_abort: "calls s (snd (abort_go_live now p s))"
proof -
  obtain stp b s' where 1: "abort_go_live now p s = ((stp, b), s')" by (metis prod.collapse)
  from abort_go_live_moved [OF 1] have "calls s s'"
    by (auto intro: calls_moved R_view R_given_up R_again split: if_splits)
  with 1 show ?thesis by simp
qed

lemma calls_withdraw_all: "take_all takeWithdrawalBroadcast ps s = (xs, s') \<Longrightarrow> calls s s'"
proof (induction ps arbitrary: s xs)
  case (Cons p ps)
  obtain b ph s1 where 1: "takeWithdrawalBroadcast p s = ((b, ph), s1)" by (metis prod.collapse)
  have "calls s s1" using takeWithdrawalBroadcast_moved [OF 1] R_given_up calls_moved by blast
  with Cons 1 show ?case by (auto split: prod.splits intro: calls_trans)
qed (simp add: calls_refl)

lemma all_calls_step:
  assumes "\<And>now ch p. a \<noteq> APrepare now ch p" and "\<And>now p. a \<noteq> ABeginLive now p"
  shows "calls (bs x) (bs (bc_step hk x a))"
proof (cases "plain_call a")
  case False
  with assms consider (c) now u p where "a = AComplete now u p" | (b) now p where "a = AAbort now p" | (w) now where "a = AWithdraw now"
    by (cases a) auto
  then show ?thesis
  proof cases
    case w
    then show ?thesis
      by (auto simp: takeWithdrawalBroadcasts_def split: prod.splits
          intro: calls_close calls_trans calls_usages calls_withdraw_all)
  qed (use calls_complete calls_abort in \<open>auto simp: case_prod_beta Let_def\<close>)
qed (rule calls_step)

end

interpretation going_live: all_target_calls "\<lambda>t t'. t_phase t' = BroadcastPhaseGoingLive \<longrightarrow> t_phase t = BroadcastPhaseGoingLive"
  by unfold_locales (auto simp: kept_or_let_go_def bview_def given_up_def)

interpretation busy: all_target_calls "\<lambda>t t'. t_phase t' \<noteq> BroadcastPhaseIdle \<longrightarrow> t_phase t \<noteq> BroadcastPhaseIdle \<and> t_channel t' = t_channel t"
  by unfold_locales (auto simp: kept_or_let_go_def bview_def given_up_def)

interpretation stopping: target_calls "\<lambda>t t'. t_phase t = BroadcastPhaseGoingLive \<and> t_goLiveStopRequested t \<longrightarrow>
    t_phase t' = BroadcastPhaseGoingLive \<and> t_goLiveStopRequested t' \<and> t_platformBroadcast t' = t_platformBroadcast t"
  by unfold_locales (auto simp: kept_or_let_go_def bview_def)

lemma no_new_going_step:
  assumes "\<And>now p. a \<noteq> ABeginLive now p" and "going q (bs (bc_step hk x a))"
  shows "going q (bs x)"
proof (cases "\<exists>now ch p. a = APrepare now ch p")
  case False
  then show ?thesis using going_live.all_calls_step [of a x hk] assms by (simp add: going_live.calls_def)
next
  case True
  then obtain now ch p where a: "a = APrepare now ch p" by blast
  obtain r s' where 1: "begin_prepare now ch p (bs x) = (r, s')" by (metis prod.collapse)
  with begin_prepare_moved [OF 1] a assms(2) show ?thesis by (auto simp: moved_def split: if_splits)
qed

lemma bc_reach_owned:
  "bc_reach hk x \<Longrightarrow> going p (bs x) \<Longrightarrow> p \<in> goers x"
proof (induction arbitrary: p rule: bc_reach.induct)
  case (bc_init s)
  then show ?case by (simp add: fresh_session_def readTarget_def idle_target_def)
next
  case (bc_next x a)
  have i: "bc_inv x" using bc_reach_inv [OF bc_next.hyps(1)] .
  have sub: "q \<in> goers x" if "\<And>now p. a \<noteq> ABeginLive now p" "going q (bs (bc_step hk x a))" for q
    using no_new_going_step [OF that] bc_next.IH by blast
  show ?case
  proof (cases a)
    case (ABeginLive now q)
    obtain r s' where 1: "begin_go_live now q (bs x) = (r, s')" by (metis prod.collapse)
    from begin_go_live_moved [OF 1] ABeginLive 1 bc_next.prems bc_next.IH show ?thesis
      by (auto simp: moved_def split: if_splits)
  next
    case (AComplete now u q)
    obtain ab b er s' eff where 1: "complete_go_live hk now u q (bs x) = ((ab, b, er), s', eff)" by (metis prod.collapse)
    have "s_closed (bs x) \<or> going q (bs x)" using i bc_next.hyps(2) AComplete by (auto simp: bc_inv_def)
    with complete_go_live_moved [OF 1] have "\<not> going q s'"
      by (auto simp: given_up_def dest!: moved_readTarget split: if_splits)
    with sub [of p] bc_next.prems AComplete 1 show ?thesis by auto
  next
    case (AAbort now q)
    obtain stp b s' where 1: "abort_go_live now q (bs x) = ((stp, b), s')" by (metis prod.collapse)
    from abort_go_live_moved [OF 1] have "\<not> going q s'"
      by (auto simp: given_up_def dest!: moved_readTarget split: if_splits)
    with sub [of p] bc_next.prems AAbort 1 show ?thesis by auto
  qed (use sub [of p] bc_next.prems in \<open>auto simp: moved_on_def split: prod.splits\<close>)
qed

lemma held_none: "\<forall>(p, t)\<in>set ts. t_platformBroadcast t = None \<Longrightarrow> held_of ts = {#}"
  by (induction ts) auto

lemma readTarget_in: "distinct (map fst (s_targets s)) \<Longrightarrow> (p, t) \<in> set (s_targets s) \<Longrightarrow> readTarget p s = t"
  by (simp add: readTarget_def)

lemma closed_lets_go:
  assumes "bc_reach hk x" and "s_closed (bs x)" and "goers x = {}"
  shows "held (bs x) = {#}"
proof -
  have i: "bc_inv x" using bc_reach_inv [OF assms(1)] .
  have "t_platformBroadcast t = None" if "(p, t) \<in> set (s_targets (bs x))" for p t
  proof -
    have t: "readTarget p (bs x) = t" using i that by (auto simp: bc_inv_def intro: readTarget_in)
    have "\<not> going p (bs x)" using bc_reach_owned [OF assms(1)] assms(3) by auto
    with i assms(2) t have "t_phase t = BroadcastPhaseIdle" "target_ok t" by (auto simp: bc_inv_def resting_def)
    then show ?thesis by (simp add: target_ok.simps)
  qed
  then show ?thesis by (intro held_none) auto
qed


fun bc_ok :: "hooks \<Rightarrow> bc_sys \<Rightarrow> bc_action list \<Rightarrow> bool" where
  "bc_ok hk x [] = True"
| "bc_ok hk x (a # as) = (bc_allowed x a \<and> bc_ok hk (bc_step hk x a) as)"

fun bc_run :: "hooks \<Rightarrow> bc_sys \<Rightarrow> bc_action list \<Rightarrow> bc_sys" where
  "bc_run hk x [] = x"
| "bc_run hk x (a # as) = bc_run hk (bc_step hk x a) as"

lemma bc_run_reach: "bc_reach hk x \<Longrightarrow> bc_ok hk x as \<Longrightarrow> bc_reach hk (bc_run hk x as)"
  by (induction as arbitrary: x) (auto intro: bc_reach.intros)

definition demo_session :: Session where
  "demo_session = \<lparr>s_ID = ''s'', s_UserID = 7, s_Provider = ''youtube'', s_Plan = ''beam'', s_AIProcessing = ''server'',
     s_FaceAnonymization = '''', s_targets = [], s_closed = False, s_aiInputPaused = False, s_broadcast = None,
     s_chzzkBroadcast = None, s_resolution = ''hd'', s_pinLongEdge = 0, s_rawTrackID = ''v'', s_videoTrack = None,
     s_trackCancel = False, s_directStops = Map.empty, s_UpdatedAt = 0, s_lastActivityAt = 0, s_heartbeat = 0,
     s_mediaIdleReset = 0\<rparr>"

definition demo_hooks :: hooks where
  "demo_hooks = \<lparr>hk_usage = True, hk_cleanup = True, hk_directEnded = True, hk_processor = True\<rparr>"

definition demo_broadcast :: PlatformBroadcast where
  "demo_broadcast = zero_broadcast\<lparr>pb_Provider := ''youtube'', pb_BroadcastID := ''b''\<rparr>"

definition demo_start :: bc_sys where
  "demo_start = \<lparr>bs = demo_session, recorded = {#}, handed = {#}, goers = {}\<rparr>"

definition demo_request :: start_request where
  "demo_request = \<lparr>rq_egress = 1, rq_usageID = ''u'', rq_url = ''rtmp://h/a/k'', rq_paused = False\<rparr>"

lemma demo_reach: "bc_reach demo_hooks demo_start"
  unfolding demo_start_def by (rule bc_init) (simp add: fresh_session_def demo_session_def)

text \<open>A go-live that is stopped in flight; the session is deleted before its owner completes it.\<close>

definition demo_live :: "bc_action list" where
  "demo_live = [APrepare 1 ''c'' ''youtube'', AMark 2 demo_broadcast ''youtube'',
     AStart 3 demo_request False None None ''youtube'', ABeginLive 4 ''youtube'']"

definition demo_stopped :: "bc_action list" where
  "demo_stopped = demo_live @ [AStop 5 ''user_requested'' ''youtube'', ADelete 6, AComplete 7 ''w'' ''youtube'']"


subsection \<open>A stop wins over a go-live in flight\<close>

lemma closed_step: "s_closed (bs x) \<Longrightarrow> s_closed (bs (bc_step hk x a))"
proof -
  assume c: "s_closed (bs x)"
  consider (p) now ch p where "a = APrepare now ch p" | (l) now p where "a = ABeginLive now p"
    | (other) "\<And>now ch p. a \<noteq> APrepare now ch p" "\<And>now p. a \<noteq> ABeginLive now p" by (cases a) auto
  then show ?thesis
  proof cases
    case p
    then show ?thesis using c by (auto simp: begin_prepare_def Let_def)
  next
    case l
    then show ?thesis using c by (auto simp: begin_go_live_def Let_def)
  next
    case other
    then show ?thesis using going_live.all_calls_step [OF other, of x hk] c by (simp add: going_live.calls_def)
  qed
qed

text \<open>\<open>p\<close> is going live with a stop requested, or the session is closed.\<close>

definition stop_accepted :: "string \<Rightarrow> PlatformBroadcast option \<Rightarrow> Session \<Rightarrow> bool" where
  "stop_accepted p b s = (s_closed s \<or> going p s \<and> t_goLiveStopRequested (readTarget p s) \<and> t_platformBroadcast (readTarget p s) = b)"

fun owner_call :: "string \<Rightarrow> bc_action \<Rightarrow> bool" where
  "owner_call p (AComplete now u q) = (q = p)"
| "owner_call p (AAbort now q) = (q = p)"
| "owner_call p a = False"

lemma stop_accepted_moved:
  "moved q t s s' \<Longrightarrow> q \<noteq> p \<Longrightarrow> stop_accepted p b s \<Longrightarrow> stop_accepted p b s'"
  by (simp add: moved_def stop_accepted_def)

lemma stop_accepted_step:
  assumes "bc_inv x" and "bc_allowed x a" and "\<not> owner_call p a" and "stop_accepted p b (bs x)"
  shows "stop_accepted p b (bs (bc_step hk x a))"
proof (cases "s_closed (bs x)")
  case True
  then show ?thesis using closed_step by (simp add: stop_accepted_def)
next
  case False
  with assms(4) have g: "going p (bs x)" "t_goLiveStopRequested (readTarget p (bs x))" by (auto simp: stop_accepted_def)
  show ?thesis
  proof (cases "plain_call a")
    case True
    then show ?thesis using stopping.calls_step [OF True, of x hk] assms(4) by (auto simp: stopping.calls_def stop_accepted_def)
  next
    case nplain: False
    then consider (p) now ch q where "a = APrepare now ch q" | (l) now q where "a = ABeginLive now q"
      | (c) now u q where "a = AComplete now u q" | (ab) now q where "a = AAbort now q" | (w) now where "a = AWithdraw now"
      by (cases a) auto
    then show ?thesis
    proof cases
      case p
      obtain r s' where 1: "begin_prepare now ch q (bs x) = (r, s')" by (metis prod.collapse)
      have "q \<noteq> p" using p assms(2) g(1) by auto
      with begin_prepare_moved [OF 1] 1 p assms(4) show ?thesis by (auto intro: stop_accepted_moved)
    next
      case l
      obtain r s' where 1: "begin_go_live now q (bs x) = (r, s')" by (metis prod.collapse)
      from begin_go_live_moved [OF 1] 1 l assms(4) g(1) show ?thesis
        by (auto simp: moved_def stop_accepted_def split: if_splits)
    next
      case c
      obtain abt pb er s' eff where 1: "complete_go_live hk now u q (bs x) = ((abt, pb, er), s', eff)" by (metis prod.collapse)
      have "s_closed (bs x) \<or> going q (bs x)" using assms(1,2) c by (auto simp: bc_inv_def)
      with complete_go_live_moved [OF 1] 1 c assms(3,4) show ?thesis by (auto intro: stop_accepted_moved)
    next
      case ab
      obtain stp pb s' where 1: "abort_go_live now q (bs x) = ((stp, pb), s')" by (metis prod.collapse)
      with abort_go_live_moved [OF 1] ab assms(3,4) show ?thesis by (auto intro: stop_accepted_moved)
    next
      case w
      then show ?thesis by (auto simp: stop_accepted_def split: prod.splits)
    qed
  qed
qed

lemma stop_accepted_run:
  assumes "bc_reach hk x" and "stop_accepted p b (bs x)" and "bc_ok hk x as" and "list_all (\<lambda>a. \<not> owner_call p a) as"
  shows "stop_accepted p b (bs (bc_run hk x as))"
  using assms
proof (induction as arbitrary: x)
  case (Cons a as)
  have "stop_accepted p b (bs (bc_step hk x a))"
    using Cons.prems by (intro stop_accepted_step [OF bc_reach_inv]) auto
  with Cons show ?case by (auto intro: bc_reach.intros)
qed simp

lemma accepted_stop_ends:
  assumes "bc_inv x" and "stop_accepted p b (bs x)"
  shows "\<exists>s' eff. complete_go_live hk now u p (bs x) = ((True, broadcast_or_zero (readTarget p (bs x)), None), s', eff)
      \<and> readTarget p s' = given_up (readTarget p (bs x)) \<and> eff = []"
    and "\<exists>s'. abort_go_live now p (bs x) = ((True, broadcast_or_zero (readTarget p (bs x))), s')
      \<and> t_phase (readTarget p s') = BroadcastPhaseIdle \<and> t_platformBroadcast (readTarget p s') = None"
proof -
  show "\<exists>s' eff. complete_go_live hk now u p (bs x) = ((True, broadcast_or_zero (readTarget p (bs x)), None), s', eff)
      \<and> readTarget p s' = given_up (readTarget p (bs x)) \<and> eff = []"
    using assms(2) by (auto simp: complete_go_live_def stop_accepted_def Let_def)
  have "t_phase (readTarget p (bs x)) = BroadcastPhaseIdle \<and> t_platformBroadcast (readTarget p (bs x)) = None" if "\<not> going p (bs x)"
    using that assms by (auto simp: stop_accepted_def bc_inv_def resting_def target_ok.simps split: BroadcastPhase.splits)
  then show "\<exists>s'. abort_go_live now p (bs x) = ((True, broadcast_or_zero (readTarget p (bs x))), s')
      \<and> t_phase (readTarget p s') = BroadcastPhaseIdle \<and> t_platformBroadcast (readTarget p s') = None"
    using assms(2) by (auto simp: abort_go_live_def stop_accepted_def Let_def given_up_def)
qed



text \<open>
  \<open>BeginBroadcastPrepareOnChannel\<close> lets a target be prepared anew while its go-live is in flight; when
  that preparation fails and is reset, the broadcast in flight is in no target and in nobody's hands.
\<close>

lemma prepare_during_go_live_loses_broadcast:
  "let x = bc_run demo_hooks demo_start (demo_live @ [APrepare 5 ''c'' ''youtube'', AReset 6 ''youtube'', AComplete 7 ''w'' ''youtube'']) in
     demo_broadcast \<in># recorded x \<and> handed x + held (bs x) = {#}"
  by code_simp

subsection \<open>The AI input follows the targets\<close>

text \<open>
  What the comment of \<open>allTargetsPaused\<close> promises: the input is cut when a running target is paused and
  no running target shows or measures video.
\<close>

definition running_target :: "streamTarget \<Rightarrow> bool" where
  "running_target t = (t_egress t \<noteq> None \<and> t_stopReason t = None \<and> \<not> egress_stopped t)"

definition suspended_target :: "streamTarget \<Rightarrow> bool" where
  "suspended_target t = (case t_egress t of None \<Rightarrow> False | Some e \<Rightarrow> egressSuspendsAIInput (Phase (status (eg_core e))))"

definition ai_input_cut :: "Session \<Rightarrow> bool" where
  "ai_input_cut s = (list_ex (\<lambda>(p, t). running_target t) (s_targets s)
     \<and> list_all (\<lambda>(p, t). running_target t \<longrightarrow> suspended_target t) (s_targets s))"

lemma allTargetsPaused_loop_iff:
  "allTargetsPaused_loop n phases = ((\<forall>ph\<in>set phases. ph = EgressPhaseStopped \<or> egressSuspendsAIInput ph)
     \<and> (n > 0 \<or> (\<exists>ph\<in>set phases. ph \<noteq> EgressPhaseStopped)))"
  by (induction phases arbitrary: n) (auto simp: egressSuspendsAIInput_def)

lemma running_phases_set:
  "set (running_phases ts) = {Phase (status (eg_core e)) |p t e. (p, t) \<in> set ts \<and> t_egress t = Some e \<and> t_stopReason t = None}"
  by (induction ts rule: running_phases.induct) (auto split: option.splits, blast+)

lemma allTargetsPausedLocked_iff: "allTargetsPausedLocked s = ai_input_cut s"
proof -
  have "ai_input_cut s = ((\<exists>ph\<in>set (running_phases (s_targets s)). ph \<noteq> EgressPhaseStopped)
      \<and> (\<forall>ph\<in>set (running_phases (s_targets s)). ph = EgressPhaseStopped \<or> egressSuspendsAIInput ph))"
    unfolding running_phases_set
    by (fastforce simp: ai_input_cut_def list_ex_iff list_all_iff running_target_def suspended_target_def egress_stopped_def
        split: option.splits)
  then show ?thesis by (auto simp: allTargetsPausedLocked_def allTargetsPaused_def allTargetsPaused_loop_iff)
qed

definition eview :: "streamTarget \<Rightarrow> egress option \<times> string option" where
  "eview t = (t_egress t, t_stopReason t)"

lemma running_phases_update:
  "map_of ts p = Some u \<Longrightarrow> eview t = eview u \<Longrightarrow> running_phases (AList.update p t ts) = running_phases ts"
  by (induction ts) (auto simp: eview_def split: option.splits if_splits)

lemma paused_put_same:
  "eview t = eview (readTarget p s) \<Longrightarrow> map_of (s_targets s) p \<noteq> None \<Longrightarrow>
    allTargetsPausedLocked (put_target p t s) = allTargetsPausedLocked s"
  by (auto simp: allTargetsPausedLocked_def running_phases_update readTarget_def)

lemma paused_frame [simp]:
  "allTargetsPausedLocked (s\<lparr>s_aiInputPaused := x1\<rparr>) = allTargetsPausedLocked s"
  "allTargetsPausedLocked (s\<lparr>s_UpdatedAt := x2\<rparr>) = allTargetsPausedLocked s"
  "allTargetsPausedLocked (s\<lparr>s_mediaIdleReset := x3\<rparr>) = allTargetsPausedLocked s"
  by (simp_all add: allTargetsPausedLocked_def)

lemma map_of_put [simp]: "map_of (s_targets (put_target p t s)) p = Some t"
  by (simp add: AList.update_conv')

lemma take_keeps_pause:
  assumes "takeBroadcastLocked p s = (v, s')" and "map_of (s_targets s) p \<noteq> None"
  shows "allTargetsPausedLocked s' = allTargetsPausedLocked s \<and> s_aiInputPaused s' = s_aiInputPaused s"
proof -
  have t: "allTargetsPausedLocked (target p s) = allTargetsPausedLocked s"
    using assms(2) by (simp add: target_def paused_put_same)
  have "allTargetsPausedLocked (put_target p ((readTarget p s)\<lparr>t_platformBroadcast := None, t_phase := BroadcastPhaseIdle\<rparr>) (target p s))
      = allTargetsPausedLocked (target p s)"
    by (intro paused_put_same) (simp_all add: eview_def target_def AList.update_conv')
  with t assms show ?thesis by (auto simp: takeBroadcastLocked_def Let_def split: if_splits)
qed

lemma in_running_phases:
  "map_of (s_targets s) p = Some t \<Longrightarrow> t_egress t = Some e \<Longrightarrow> t_stopReason t = None \<Longrightarrow>
    Phase (status (eg_core e)) \<in> set (running_phases (s_targets s))"
  by (auto simp: running_phases_set dest: map_of_SomeD)

lemma streaming_keeps_input:
  assumes "map_of (s_targets s) p = Some t" and "t_egress t = Some e" and "t_stopReason t = None"
    and "Phase (status (eg_core e)) \<notin> {EgressPhaseStopped, EgressPhasePaused, EgressPhasePausedReconnecting}"
  shows "\<not> allTargetsPausedLocked s"
  using in_running_phases [OF assms(1-3)] assms(4)
  by (auto simp: allTargetsPausedLocked_def allTargetsPaused_def allTargetsPaused_loop_iff egressSuspendsAIInput_def)

lemma resumeEgress_streams:
  assumes "resumeEgress now evs c = (None, c')"
  shows "Phase (status c') = EgressPhaseStreaming"
  using assms
  by (auto simp: resumeEgress_def Resume_def transition_def nextEgressPhase_def plain_transition_def applyAudioMuteLocked_def Let_def
      split: if_splits prod.splits)

lemma resumed_keeps_input:
  assumes "resumeEgress now evs c = (None, c')" and "t_stopReason t = None"
  shows "\<not> allTargetsPausedLocked (put_target p (t\<lparr>t_egress := Some (e\<lparr>eg_core := c'\<rparr>)\<rparr>) s)"
  by (rule streaming_keeps_input [OF map_of_put, where e = "e\<lparr>eg_core := c'\<rparr>"])
    (simp_all add: assms(2) resumeEgress_streams [OF assms(1)])

lemma pause_follows:
  "pause_stream hk now evs p s = (Inr r, s', eff) \<Longrightarrow> s_aiInputPaused s' = allTargetsPausedLocked s'"
  by (auto simp: pause_stream_def setAIInputPaused_def Let_def split: option.splits if_splits prod.splits)

lemma resume_follows:
  "resume_stream hk now evs p s = (Inr r, s', eff) \<Longrightarrow> \<not> s_aiInputPaused s' \<and> \<not> allTargetsPausedLocked s'"
  by (auto simp: resume_stream_def setAIInputPaused_def Let_def resumed_keeps_input split: option.splits if_splits prod.splits)

lemma stop_follows:
  assumes "stop_stream hk now rsn p s = (Inr r, s', eff)" and "egress_active (readTarget p s)"
  shows "s_aiInputPaused s' = allTargetsPausedLocked s'"
proof -
  obtain e where e: "t_egress (readTarget p s) = Some e" "t_stopReason (readTarget p s) = None" "\<not> egress_stopped (readTarget p s)"
    using assms(2) by (auto simp: egress_active_def)
  define t1 where "t1 = (readTarget p s)\<lparr>t_egress := Some (e\<lparr>eg_core := Stop now (eg_core e)\<rparr>), t_stopReason := Some rsn\<rparr>"
  define s1 where "s1 = put_target p t1 (target p s)"
  define s2 where "s2 = s1\<lparr>s_aiInputPaused := allTargetsPausedLocked s1\<rparr>"
  have 2: "s_aiInputPaused s2 = allTargetsPausedLocked s2" "map_of (s_targets s2) p \<noteq> None" "readTarget p s2 = t1"
    by (simp_all add: s2_def s1_def AList.update_conv')
  show ?thesis
  proof (cases "t_phase (readTarget p s) = BroadcastPhaseGoingLive")
    case True
    then have "s' = (put_target p (t1\<lparr>t_goLiveStopRequested := True\<rparr>) s2)\<lparr>s_UpdatedAt := now\<rparr>"
      using assms(1) e by (auto simp: stop_stream_def Let_def setAIInputPaused_def t1_def s1_def s2_def)
    moreover have "allTargetsPausedLocked (put_target p (t1\<lparr>t_goLiveStopRequested := True\<rparr>) s2) = allTargetsPausedLocked s2"
      using 2 by (intro paused_put_same) (simp_all add: eview_def)
    ultimately show ?thesis using 2 by simp
  next
    case False
    then obtain v s3 where "takeBroadcastLocked p s2 = (v, s3)" "s' = s3\<lparr>s_UpdatedAt := now\<rparr>"
      using assms(1) e by (auto simp: stop_stream_def Let_def setAIInputPaused_def t1_def s1_def s2_def split: prod.splits)
    with take_keeps_pause [OF _ 2(2)] 2(1) show ?thesis by simp
  qed
qed

lemma end_follows:
  assumes "run_egress_end hk now eid st u p s = (r, s', eff)"
    and "map_option eg_id (t_egress (readTarget p s)) = Some eid" and "\<not> s_closed s"
  shows "s_aiInputPaused s' = allTargetsPausedLocked s'"
proof -
  define t1 where "t1 = (if t_usageID (readTarget p s) = u then (readTarget p s)\<lparr>t_usageID := ''''\<rparr> else readTarget p s)"
  define s1 where "s1 = put_target p (t1\<lparr>t_cancel := False\<rparr>) (put_target p t1 (target p s))"
  define s2 where "s2 = s1\<lparr>s_aiInputPaused := allTargetsPausedLocked s1\<rparr>"
  have 2: "s_aiInputPaused s2 = allTargetsPausedLocked s2" "map_of (s_targets s2) p \<noteq> None"
    by (simp_all add: s2_def s1_def AList.update_conv')
  have own: "map_option eg_id (t_egress t1) = Some eid" using assms(2) by (simp add: t1_def)
  obtain v s3 where v: "takeBroadcastLocked p s2 = (v, s3)" by (metis prod.collapse)
  have "s' = (if t_stopReason t1 = None then s3 else s2)\<lparr>s_UpdatedAt := now\<rparr>"
    using assms(1,3) own v
    by (auto simp: run_egress_end_def Let_def setAIInputPaused_def t1_def [symmetric] s1_def [symmetric] s2_def [symmetric]
        split: prod.splits if_splits)
  with take_keeps_pause [OF v 2(2)] 2(1) show ?thesis by simp
qed


definition demo_streaming :: Session where
  "demo_streaming = bs (bc_run demo_hooks demo_start
     (demo_live @ [AComplete 5 ''w'' ''youtube'', AEgress (EvProfileReady 6 1280 720 30) ''youtube'']))"


subsection \<open>Settings are saved only for an idle target\<close>

lemma settings_guard_None: "settings_guard ph = None \<longleftrightarrow> ph = BroadcastPhaseIdle"
  by (cases ph) (simp_all add: settings_guard_def)

lemma save_settings_iff:
  assumes "save_settings now p f s = (r, s')"
  shows "(r = Inr ()) = (\<not> s_closed s \<and> t_phase (readTarget p s) = BroadcastPhaseIdle)
    \<and> s' = (if r = Inr () then (f (target p s))\<lparr>s_UpdatedAt := now, s_lastActivityAt := now\<rparr> else target p s)"
  using assms settings_guard_None [of "t_phase (readTarget p s)"]
  by (auto simp: save_settings_def Let_def split: if_splits option.splits)

lemma Get_put [simp]: "Get (put_session i s m) j = (if j = i then Some s else Get m j)"
  by (simp add: Get_def put_session_def AList.update_conv')

lemma Get_frame [simp]: "Get (m\<lparr>m_log := l\<rparr>) j = Get m j" "Get (m\<lparr>m_slots := b\<rparr>) j = Get m j"
  by (simp_all add: Get_def)

text \<open>
  Broadcast settings are accepted exactly when they are valid (with the notice of the face
  swap mode where the session has it) and the target is idle in an open session; then the session has
  them with the time of the save. A rejected call changes neither platform's settings, and no call
  changes another session.
\<close>

theorem settings_saved_iff_idle:
  assumes "Get m i = Some s" and "p = targetProvider s ps"
    and "SetBroadcastSettings now i st ps m = (r, m')" and "SetChzzkBroadcastSettings sp lt dg now i cz ps m = (r2, m2)"
  shows "\<exists>s' s2. Get m' i = Some s' \<and> Get m2 i = Some s2
    \<and> (r = Inr ()) = (YouTube_Validate st = None \<and> validateDescriptionFor (s_FaceAnonymization s) (yt_Description st) = None
          \<and> \<not> s_closed s \<and> t_phase (readTarget p s) = BroadcastPhaseIdle)
    \<and> (r2 = Inr ()) = (Chzzk_Validate sp lt dg cz = None \<and> \<not> s_closed s \<and> t_phase (readTarget p s) = BroadcastPhaseIdle)
    \<and> s_broadcast s' = (if r = Inr () then Some (st\<lparr>yt_UpdatedAt := now\<rparr>) else s_broadcast s) \<and> s_chzzkBroadcast s' = s_chzzkBroadcast s
    \<and> s_chzzkBroadcast s2 = (if r2 = Inr () then Some (cz\<lparr>cz_UpdatedAt := now\<rparr>) else s_chzzkBroadcast s) \<and> s_broadcast s2 = s_broadcast s
    \<and> (\<forall>j. j \<noteq> i \<longrightarrow> Get m' j = Get m j \<and> Get m2 j = Get m j)"
proof -
  have "\<exists>s'. Get m' i = Some s'
    \<and> (r = Inr ()) = (YouTube_Validate st = None \<and> validateDescriptionFor (s_FaceAnonymization s) (yt_Description st) = None
          \<and> \<not> s_closed s \<and> t_phase (readTarget p s) = BroadcastPhaseIdle)
    \<and> s_broadcast s' = (if r = Inr () then Some (st\<lparr>yt_UpdatedAt := now\<rparr>) else s_broadcast s) \<and> s_chzzkBroadcast s' = s_chzzkBroadcast s
    \<and> (\<forall>j. j \<noteq> i \<longrightarrow> Get m' j = Get m j)"
    using assms(1-3)
    by (auto simp: SetBroadcastSettings_def on_session_def quiet_def set_broadcast_settings_def
        split: option.splits prod.splits dest!: save_settings_iff)
  moreover have "\<exists>s2. Get m2 i = Some s2
    \<and> (r2 = Inr ()) = (Chzzk_Validate sp lt dg cz = None \<and> \<not> s_closed s \<and> t_phase (readTarget p s) = BroadcastPhaseIdle)
    \<and> s_chzzkBroadcast s2 = (if r2 = Inr () then Some (cz\<lparr>cz_UpdatedAt := now\<rparr>) else s_chzzkBroadcast s) \<and> s_broadcast s2 = s_broadcast s
    \<and> (\<forall>j. j \<noteq> i \<longrightarrow> Get m2 j = Get m j)"
    using assms(1,2,4)
    by (auto simp: SetChzzkBroadcastSettings_def on_session_def quiet_def set_chzzk_settings_def
        split: option.splits prod.splits dest!: save_settings_iff)
  ultimately show ?thesis by blast
qed

definition demo_manager :: Manager where
  "demo_manager = \<lparr>m_sessions = [(''s'', demo_session)], m_slots = None, m_hooks = demo_hooks, m_pin = 0, m_log = []\<rparr>"

theorem settings_saved_iff_idle_witness:
  "fst (SetBroadcastSettings 9 ''s'' demo_settings [] demo_manager) = Inr ()
   \<and> fst (SetChzzkBroadcastSettings ascii_space ascii_letter ascii_digit 9 ''s'' demo_chzzk [] demo_manager) \<noteq> Inr ()"
proof -
  have g: "Get demo_manager ''s'' = Some demo_session" by (simp add: Get_def demo_manager_def)
  have v: "YouTube_Validate demo_settings = None"
    unfolding YouTube_Validate_None validate_thumbnail_None by (simp add: demo_settings_def)
  have d: "validateDescriptionFor (s_FaceAnonymization demo_session) (yt_Description demo_settings) = None"
    unfolding validateDescriptionFor_None by (simp add: demo_settings_def demo_session_def notice_lengths)
  have c: "Chzzk_Validate ascii_space ascii_letter ascii_digit demo_chzzk \<noteq> None"
    unfolding demo_chzzk_def by code_simp
  have i: "\<not> s_closed demo_session" "t_phase (readTarget p demo_session) = BroadcastPhaseIdle" for p
    by (simp_all add: demo_session_def readTarget_def idle_target_def)
  obtain r m' r2 m2 where "SetBroadcastSettings 9 ''s'' demo_settings [] demo_manager = (r, m')"
    "SetChzzkBroadcastSettings ascii_space ascii_letter ascii_digit 9 ''s'' demo_chzzk [] demo_manager = (r2, m2)"
    by (metis prod.collapse)
  with settings_saved_iff_idle [OF g refl this] v d c i show ?thesis by auto
qed

subsection \<open>Channels of other accounts\<close>

text \<open>
  The manager with its sessions: preparing on a channel is one critical section (\<open>channelMu\<close>), every
  other call acts on one session or removes one; \<open>MCreate\<close> is the registration of a new session.
\<close>

datatype mgr_action =
    MCreate string Session
  | MPrepare instant string string "string list"
  | MSession string bc_action
  | MDelete instant string string

definition session_call :: "hooks \<Rightarrow> bc_action \<Rightarrow> Session \<Rightarrow> Session" where
  "session_call hk a s = bs (bc_step hk \<lparr>bs = s, recorded = {#}, handed = {#}, goers = {}\<rparr> a)"

fun mgr_step :: "Manager \<Rightarrow> mgr_action \<Rightarrow> Manager" where
  "mgr_step m (MCreate i s) = put_session i s m"
| "mgr_step m (MPrepare now i ch ps) = snd (BeginBroadcastPrepareOnChannel now i ch ps m)"
| "mgr_step m (MSession i a) = (case Get m i of None \<Rightarrow> m | Some s \<Rightarrow> put_session i (session_call (m_hooks m) a s) m)"
| "mgr_step m (MDelete now i rsn) = snd (Delete now i rsn m)"

fun mgr_allowed :: "Manager \<Rightarrow> mgr_action \<Rightarrow> bool" where
  "mgr_allowed m (MCreate i s) = (Get m i = None \<and> s_targets s = [])"
| "mgr_allowed m (MSession i (APrepare now ch p)) = False"
| "mgr_allowed m _ = True"

inductive mgr_reach :: "Manager \<Rightarrow> bool" where
  mgr_init: "m_sessions m = [] \<Longrightarrow> mgr_reach m"
| mgr_next: "mgr_reach m \<Longrightarrow> mgr_allowed m a \<Longrightarrow> mgr_reach (mgr_step m a)"

definition busy_on :: "string \<Rightarrow> string \<Rightarrow> Session \<Rightarrow> bool" where
  "busy_on p ch s = (t_phase (readTarget p s) \<noteq> BroadcastPhaseIdle \<and> t_channel (readTarget p s) = ch)"

definition apart :: "Session \<Rightarrow> Session \<Rightarrow> bool" where
  "apart s s' = (s_UserID s = s_UserID s' \<or> (\<forall>p ch. p \<noteq> ''youtube'' \<and> ch \<noteq> '''' \<longrightarrow> \<not> (busy_on p ch s \<and> busy_on p ch s')))"

definition channels_exclusive :: "Manager \<Rightarrow> bool" where
  "channels_exclusive m = (\<forall>i j s s'. Get m i = Some s \<longrightarrow> Get m j = Some s' \<longrightarrow> apart s s')"

definition no_new_busy :: "Session \<Rightarrow> Session \<Rightarrow> bool" where
  "no_new_busy s s' = (s_UserID s' = s_UserID s \<and> (\<forall>p ch. busy_on p ch s' \<longrightarrow> busy_on p ch s))"

lemma apart_sym: "apart s s' = apart s' s"
  by (auto simp: apart_def)

lemma apart_mono: "no_new_busy s s' \<Longrightarrow> apart s u \<Longrightarrow> apart s' u"
  by (auto simp: apart_def no_new_busy_def)

lemma apart_refl [simp]: "apart s s"
  by (simp add: apart_def)

lemma exclusive_add:
  assumes "channels_exclusive m" and "\<And>j u. Get m j = Some u \<Longrightarrow> j \<noteq> i \<Longrightarrow> apart s u"
  shows "channels_exclusive (put_session i s m)"
  using assms by (auto simp: channels_exclusive_def apart_sym [of _ s])

lemma exclusive_put:
  assumes "channels_exclusive m" and "Get m i = Some s" and "no_new_busy s s'"
  shows "channels_exclusive (put_session i s' m)"
proof (rule exclusive_add [OF assms(1)])
  fix j u
  assume "Get m j = Some u"
  with assms(1,2) have "apart s u" by (simp add: channels_exclusive_def)
  then show "apart s' u" by (rule apart_mono [OF assms(3)])
qed

lemma channelInUse_iff:
  assumes "distinct (map fst (m_sessions m))"
  shows "channelInUseByOtherUser m u p ch = (\<exists>j s. Get m j = Some s \<and> s_UserID s \<noteq> u \<and> busy_on p ch s)"
proof -
  have "(case map_of (s_targets s) p of None \<Rightarrow> False | Some t \<Rightarrow> t_phase t \<noteq> BroadcastPhaseIdle \<and> t_channel t = ch) = busy_on p ch s" for s
    by (simp add: busy_on_def readTarget_def idle_target_def split: option.splits)
  then show ?thesis
    using assms by (auto simp: channelInUseByOtherUser_def list_ex_iff Get_def)
qed

lemma session_call_no_new_busy:
  assumes "\<And>now ch p. a \<noteq> APrepare now ch p"
  shows "no_new_busy s (session_call hk a s)"
proof (cases "\<exists>now p. a = ABeginLive now p")
  case False
  with busy.all_calls_step [of a "\<lparr>bs = s, recorded = {#}, handed = {#}, goers = {}\<rparr>" hk] assms
  show ?thesis by (auto simp: session_call_def no_new_busy_def busy_on_def busy.calls_def)
next
  case True
  then obtain now p where a: "a = ABeginLive now p" by blast
  obtain r s' where 1: "begin_go_live now p s = (r, s')" by (metis prod.collapse)
  with begin_go_live_moved [OF 1] a show ?thesis
    by (auto simp: session_call_def no_new_busy_def busy_on_def moved_def split: if_splits)
qed

lemma begin_prepare_busy:
  assumes "begin_prepare now ch p s = (r, s')"
  shows "s_UserID s' = s_UserID s \<and> (\<forall>q c. busy_on q c s' \<longrightarrow> busy_on q c s \<or> q = p \<and> c = ch)"
  using begin_prepare_moved [OF assms] by (auto simp: busy_on_def moved_def split: if_splits)

lemma prepare_exclusive:
  assumes "channels_exclusive m" and "distinct (map fst (m_sessions m))"
  shows "channels_exclusive (snd (BeginBroadcastPrepareOnChannel now i ch ps m))"
proof (cases "Get m i")
  case None
  then show ?thesis using assms by (simp add: BeginBroadcastPrepareOnChannel_def)
next
  case (Some s)
  define p where "p = targetProvider s ps"
  show ?thesis
  proof (cases "ch \<noteq> '''' \<and> p \<noteq> ''youtube'' \<and> channelInUseByOtherUser m (s_UserID s) p ch")
    case True
    then show ?thesis using assms Some by (simp add: BeginBroadcastPrepareOnChannel_def p_def Let_def)
  next
    case False
    obtain r s' where 1: "begin_prepare now ch p s = (r, s')" by (metis prod.collapse)
    have "apart s' u" if "Get m j = Some u" for j u
    proof -
      have "apart s u" using assms(1) Some that by (simp add: channels_exclusive_def)
      moreover have "ch = '''' \<or> p = ''youtube'' \<or> s_UserID u = s_UserID s \<or> \<not> busy_on p ch u"
        using False that by (auto simp: channelInUse_iff [OF assms(2)])
      ultimately show ?thesis using begin_prepare_busy [OF 1] by (auto simp: apart_def)
    qed
    then have "channels_exclusive (put_session i s' m)" by (intro exclusive_add [OF assms(1)])
    moreover have "snd (BeginBroadcastPrepareOnChannel now i ch ps m) = (put_session i s' m)\<lparr>m_log := m_log m\<rparr>"
      using Some False 1 by (auto simp: BeginBroadcastPrepareOnChannel_def p_def [symmetric] on_session_def quiet_def)
    ultimately show ?thesis by (simp add: channels_exclusive_def)
  qed
qed

lemma prepare_distinct:
  "distinct (map fst (m_sessions m)) \<Longrightarrow> distinct (map fst (m_sessions (snd (BeginBroadcastPrepareOnChannel now i ch ps m))))"
  by (auto simp: BeginBroadcastPrepareOnChannel_def on_session_def quiet_def put_session_def Let_def distinct_update
      split: option.splits prod.splits)

lemma mgr_reach_exclusive:
  "mgr_reach m \<Longrightarrow> distinct (map fst (m_sessions m)) \<and> channels_exclusive m"
proof (induction rule: mgr_reach.induct)
  case (mgr_init m)
  then show ?case by (simp add: channels_exclusive_def Get_def)
next
  case (mgr_next m a)
  then have d: "distinct (map fst (m_sessions m))" and e: "channels_exclusive m" by simp_all
  show ?case
  proof (cases a)
    case (MCreate i s)
    with mgr_next.hyps(2) have "apart s u" for u by (auto simp: apart_def busy_on_def readTarget_def idle_target_def)
    with MCreate d show ?thesis using exclusive_add [OF e] by (simp add: put_session_def distinct_update)
  next
    case (MPrepare now i ch ps)
    with prepare_exclusive [OF e d] prepare_distinct [OF d] show ?thesis by simp
  next
    case (MSession i b)
    show ?thesis
    proof (cases "Get m i")
      case (Some s)
      have "no_new_busy s (session_call (m_hooks m) b s)"
        by (rule session_call_no_new_busy) (use MSession mgr_next.hyps(2) in auto)
      from exclusive_put [OF e Some this] MSession Some d show ?thesis by (simp add: put_session_def distinct_update)
    qed (use MSession d e in simp)
  next
    case (MDelete now i rsn)
    have "Get (snd (Delete now i rsn m)) j = (if j = i then None else Get m j)" for j
      by (auto simp: Delete_def Get_def AList.delete_conv' split: option.splits prod.splits)
    moreover have "distinct (map fst (m_sessions (snd (Delete now i rsn m))))"
      using d by (auto simp: Delete_def distinct_delete split: option.splits prod.splits)
    ultimately show ?thesis using e MDelete by (auto simp: channels_exclusive_def split: if_splits)
  qed
qed

text \<open>
  Property C14. Outside YouTube, one channel serves one account at a time: whatever sessions are
  created, prepared, run, stopped and deleted, two sessions of different users are never both beyond
  idle on the same channel of the same platform. And a preparation is refused for that reason exactly
  when a session of another user is beyond idle on the channel, and then changes nothing.
\<close>

theorem channel_serves_one_account:
  assumes "mgr_reach m" and "Get m i = Some s"
  shows "(\<forall>j s' p ch. Get m j = Some s' \<and> s_UserID s' \<noteq> s_UserID s \<and> p \<noteq> ''youtube'' \<and> ch \<noteq> '''' \<longrightarrow>
        \<not> (busy_on p ch s \<and> busy_on p ch s'))
    \<and> (fst (BeginBroadcastPrepareOnChannel now i ch ps m) = Inl ErrChannelInUseByOtherAccount) =
        (ch \<noteq> '''' \<and> targetProvider s ps \<noteq> ''youtube''
          \<and> (\<exists>j s'. Get m j = Some s' \<and> s_UserID s' \<noteq> s_UserID s \<and> busy_on (targetProvider s ps) ch s'))
    \<and> (fst (BeginBroadcastPrepareOnChannel now i ch ps m) = Inl ErrChannelInUseByOtherAccount \<longrightarrow>
        snd (BeginBroadcastPrepareOnChannel now i ch ps m) = m)"
proof -
  have d: "distinct (map fst (m_sessions m))" and e: "channels_exclusive m" using mgr_reach_exclusive [OF assms(1)] by simp_all
  have "fst (begin_prepare now ch p s) \<noteq> Inl ErrChannelInUseByOtherAccount" for p
    by (simp add: begin_prepare_def Let_def)
  then have "fst (on_session m i (quiet (begin_prepare now ch p))) \<noteq> Inl ErrChannelInUseByOtherAccount" for p
    using assms(2) by (simp add: on_session_def quiet_def case_prod_beta Let_def)
  moreover have "apart s s'" if "Get m j = Some s'" for j s'
    using e assms(2) that by (simp add: channels_exclusive_def)
  then have "\<forall>j s' p ch. Get m j = Some s' \<and> s_UserID s' \<noteq> s_UserID s \<and> p \<noteq> ''youtube'' \<and> ch \<noteq> '''' \<longrightarrow>
      \<not> (busy_on p ch s \<and> busy_on p ch s')"
    unfolding apart_def by (metis (lifting))
  ultimately show ?thesis
    using assms(2) by (auto simp: BeginBroadcastPrepareOnChannel_def Let_def channelInUse_iff [OF d])
qed

fun mgr_run :: "Manager \<Rightarrow> mgr_action list \<Rightarrow> Manager" where
  "mgr_run m [] = m"
| "mgr_run m (a # as) = mgr_run (mgr_step m a) as"

fun mgr_ok :: "Manager \<Rightarrow> mgr_action list \<Rightarrow> bool" where
  "mgr_ok m [] = True"
| "mgr_ok m (a # as) = (mgr_allowed m a \<and> mgr_ok (mgr_step m a) as)"

lemma mgr_run_reach: "mgr_reach m \<Longrightarrow> mgr_ok m as \<Longrightarrow> mgr_reach (mgr_run m as)"
  by (induction as arbitrary: m) (auto intro: mgr_reach.intros)

definition demo_two_users :: Manager where
  "demo_two_users = mgr_run (demo_manager\<lparr>m_sessions := []\<rparr>)
     [MCreate ''s'' demo_session, MCreate ''q'' (demo_session\<lparr>s_ID := ''q'', s_UserID := 8\<rparr>),
      MPrepare 1 ''s'' ''c'' [''chzzk''], MSession ''q'' (AStop 2 ''user_requested'' ''chzzk'')]"

theorem channel_serves_one_account_witness:
  "fst (BeginBroadcastPrepareOnChannel 3 ''q'' ''c'' [''chzzk''] demo_two_users) = Inl ErrChannelInUseByOtherAccount
    \<and> snd (BeginBroadcastPrepareOnChannel 3 ''q'' ''c'' [''chzzk''] demo_two_users) = demo_two_users"
proof -
  have reach: "mgr_reach demo_two_users"
    unfolding demo_two_users_def by (rule mgr_run_reach [OF mgr_init]) (simp, code_simp)
  have "map_option s_UserID (Get demo_two_users ''q'') = Some 8" by code_simp
  then obtain s where s: "Get demo_two_users ''q'' = Some s" "s_UserID s = 8" by auto
  have "map_option (\<lambda>s. (s_UserID s, busy_on ''chzzk'' ''c'' s)) (Get demo_two_users ''s'') = Some (7, True)" by code_simp
  then obtain u where u: "Get demo_two_users ''s'' = Some u" "s_UserID u = 7" "busy_on ''chzzk'' ''c'' u" by auto
  have t: "targetProvider s [''chzzk''] = ''chzzk''" by (simp add: targetProvider_def)
  have "\<exists>j s'. Get demo_two_users j = Some s' \<and> s_UserID s' \<noteq> s_UserID s \<and> busy_on ''chzzk'' ''c'' s'"
    by (rule exI [of _ "''s''"], rule exI [of _ u]) (simp add: s u)
  with channel_serves_one_account [OF reach s(1), of 3 "''c''" "[''chzzk'']"] t show ?thesis by simp
qed

end
