(* ===== verification/Ledger.thy ===== *)
theory Ledger
  imports Plan "HOL-Library.Product_Lexorder"
begin

text \<open>
  The ledger of broadcast time (\<^verbatim>\<open>internal/usage/ledger.go\<close>): a month's charge is computed from the
  recorded live and pause times by a sweep over the edges of the active spans. The reference is the
  rule of the source's comment, instant by instant: at each instant the number of targets that are
  live and not paused, and the resolution of that instant, give the units. Instants are nanoseconds,
  and \<open>LegacyPausedSeconds\<close> is the duration the code makes of it. The rows the queries return are
  arguments.
\<close>

subsection \<open>The charge of a session\<close>

record PauseSpan =
  PausedAt :: instant
  ResumedAt :: "instant option"

record TargetTimeline =
  LiveAt :: instant
  tl_EndedAt :: "instant option"
  Unclean :: bool
  Pauses :: "PauseSpan list"
  LegacyPausedSeconds :: duration

record ResolutionSwitch =
  rs_At :: instant
  rs_FHD :: bool

definition minTime :: "instant \<Rightarrow> instant \<Rightarrow> instant" where
  "minTime a b = (if a < b then a else b)"

definition maxTime :: "instant \<Rightarrow> instant \<Rightarrow> instant" where
  "maxTime a b = (if a > b then a else b)"

fun spans_loop :: "PauseSpan list \<Rightarrow> instant \<Rightarrow> instant \<Rightarrow> (instant \<times> instant) list" where
  "spans_loop [] cursor end_at = [(cursor, end_at)]"
| "spans_loop (p # ps) cursor end_at =
    (let pauseEnd = (case ResumedAt p of None \<Rightarrow> end_at | Some r \<Rightarrow> r);
         spans = (if PausedAt p > cursor then [(cursor, minTime (PausedAt p) end_at)] else []);
         cursor = maxTime cursor pauseEnd in
     if \<not> cursor < end_at then spans else spans @ spans_loop ps cursor end_at)"

definition timeline_end :: "TargetTimeline \<Rightarrow> instant \<Rightarrow> instant" where
  "timeline_end target now =
    (let e = (case tl_EndedAt target of None \<Rightarrow> now | Some e \<Rightarrow> e) in
     if Pauses target = [] \<and> LegacyPausedSeconds target > 0 then e - LegacyPausedSeconds target else e)"

text \<open>\<open>sort_pauses\<close> is \<open>sort.Slice\<close> by the time of the pause, which leaves the order of equal times open.\<close>

definition activeSpans :: "(PauseSpan list \<Rightarrow> PauseSpan list) \<Rightarrow> TargetTimeline \<Rightarrow> instant \<Rightarrow> (instant \<times> instant) list" where
  "activeSpans sort_pauses target now =
    (if Unclean target then []
     else let e = timeline_end target now in
       if \<not> e > LiveAt target then [] else spans_loop (sort_pauses (Pauses target)) (LiveAt target) e)"

record edge =
  e_at :: instant
  e_delta :: int
  e_fhd :: "bool option"

fun span_edges :: "instant \<Rightarrow> instant \<Rightarrow> (instant \<times> instant) list \<Rightarrow> edge list" where
  "span_edges from_at to_at [] = []"
| "span_edges from_at to_at ((s, e) # spans) =
    (let start = maxTime s from_at; stop = minTime e to_at in
     if stop > start
     then \<lparr>e_at = start, e_delta = 1, e_fhd = None\<rparr> # \<lparr>e_at = stop, e_delta = - 1, e_fhd = None\<rparr> # span_edges from_at to_at spans
     else span_edges from_at to_at spans)"

definition switch_edge :: "ResolutionSwitch \<Rightarrow> edge" where
  "switch_edge c = \<lparr>e_at = rs_At c, e_delta = 0, e_fhd = Some (rs_FHD c)\<rparr>"

fun charge_loop :: "bool \<Rightarrow> int \<Rightarrow> instant option \<Rightarrow> edge list \<Rightarrow> duration \<times> duration \<Rightarrow> duration \<times> duration" where
  "charge_loop fhd act prev [] acc = acc"
| "charge_loop fhd act prev (e # es) (onAir, charged) =
    charge_loop (case e_fhd e of None \<Rightarrow> fhd | Some v \<Rightarrow> v) (i64 (act + e_delta e)) (Some (e_at e)) es
      (case prev of
         Some p \<Rightarrow> if act > 0 then let dt = time_sub (e_at e) p in (i64 (onAir + dt), i64 (charged + i64 (dt * Units fhd act)))
                   else (onAir, charged)
       | None \<Rightarrow> (onAir, charged))"

definition charge_edges :: "(PauseSpan list \<Rightarrow> PauseSpan list) \<Rightarrow> ResolutionSwitch list \<Rightarrow> TargetTimeline list \<Rightarrow>
    instant \<Rightarrow> instant \<Rightarrow> instant \<Rightarrow> edge list" where
  "charge_edges sort_pauses switches targets from_at to_at now =
    concat (map (\<lambda>t. span_edges from_at to_at (activeSpans sort_pauses t now)) targets) @ map switch_edge switches"

definition ChargeSession :: "(PauseSpan list \<Rightarrow> PauseSpan list) \<Rightarrow> bool \<Rightarrow> ResolutionSwitch list \<Rightarrow> TargetTimeline list \<Rightarrow>
    instant \<Rightarrow> instant \<Rightarrow> instant \<Rightarrow> duration \<times> duration" where
  "ChargeSession sort_pauses fhd switches targets from_at to_at now =
    charge_loop fhd 0 None
      (sort_key (\<lambda>e. (e_at e, e_delta e)) (charge_edges sort_pauses switches targets from_at to_at now)) (0, 0)"

subsection \<open>The rule, instant by instant\<close>

definition paused_at :: "PauseSpan \<Rightarrow> instant \<Rightarrow> bool" where
  "paused_at p t = (PausedAt p \<le> t \<and> (case ResumedAt p of None \<Rightarrow> True | Some r \<Rightarrow> t < r))"

definition on_air :: "instant \<Rightarrow> instant \<Rightarrow> TargetTimeline \<Rightarrow> bool" where
  "on_air now t target = (\<not> Unclean target \<and> LiveAt target \<le> t \<and> t < timeline_end target now
     \<and> \<not> list_ex (\<lambda>p. paused_at p t) (Pauses target))"

definition targets_on_air :: "TargetTimeline list \<Rightarrow> instant \<Rightarrow> instant \<Rightarrow> int" where
  "targets_on_air targets now t = int (length (filter (on_air now t) targets))"

definition fhd_at :: "bool \<Rightarrow> ResolutionSwitch list \<Rightarrow> instant \<Rightarrow> bool" where
  "fhd_at fhd switches t = (case filter (\<lambda>c. rs_At c \<le> t) (sort_key rs_At switches) of [] \<Rightarrow> fhd | cs \<Rightarrow> rs_FHD (last cs))"

definition units_at :: "bool \<Rightarrow> int \<Rightarrow> int" where
  "units_at fhd k = (if k \<le> 0 then 0 else if fhd then k + 1 else k)"

definition on_air_time :: "TargetTimeline list \<Rightarrow> instant \<Rightarrow> instant \<Rightarrow> instant \<Rightarrow> int" where
  "on_air_time targets from_at to_at now = (\<Sum>t\<in>{from_at..<to_at}. if targets_on_air targets now t > 0 then 1 else 0)"

definition unit_time :: "bool \<Rightarrow> ResolutionSwitch list \<Rightarrow> TargetTimeline list \<Rightarrow> instant \<Rightarrow> instant \<Rightarrow> instant \<Rightarrow> int" where
  "unit_time fhd switches targets from_at to_at now =
    (\<Sum>t\<in>{from_at..<to_at}. units_at (fhd_at fhd switches t) (targets_on_air targets now t))"

subsection \<open>Active spans are the instants on air\<close>

definition covers :: "(instant \<times> instant) list \<Rightarrow> instant \<Rightarrow> int" where
  "covers spans t = int (length (filter (\<lambda>(s, e). s \<le> t \<and> t < e) spans))"

lemma covers_simps [simp]:
  "covers [] t = 0" "covers ((s, e) # spans) t = (if s \<le> t \<and> t < e then 1 else 0) + covers spans t"
  "covers (xs @ ys) t = covers xs t + covers ys t"
  by (simp_all add: covers_def)

definition pause_ok :: "PauseSpan \<Rightarrow> bool" where
  "pause_ok p = (case ResumedAt p of None \<Rightarrow> True | Some r \<Rightarrow> PausedAt p \<le> r)"

lemma covers_spans_loop:
  assumes "sorted (map PausedAt ps)" and "\<forall>p\<in>set ps. pause_ok p" and "c < e"
  shows "covers (spans_loop ps c e) t = (if c \<le> t \<and> t < e \<and> \<not> list_ex (\<lambda>p. paused_at p t) ps then 1 else 0)"
  using assms
proof (induction ps arbitrary: c)
  case (Cons p ps)
  have later: "paused_at q t \<Longrightarrow> PausedAt p \<le> t" if "q \<in> set ps" for q
    using Cons.prems(1) that by (auto simp: paused_at_def)
  have early: "\<not> list_ex (\<lambda>p. paused_at p t) (p # ps)" if "t < PausedAt p"
    using later that by (auto simp: list_ex_iff paused_at_def)
  let ?pe = "case ResumedAt p of None \<Rightarrow> e | Some r \<Rightarrow> r"
  have pe: "paused_at p t = (PausedAt p \<le> t \<and> t < ?pe)" if "t < e"
    using that by (auto simp: paused_at_def split: option.splits)
  show ?case
  proof (cases "maxTime c ?pe < e")
    case True
    have IH: "covers (spans_loop ps (maxTime c ?pe) e) t
        = (if maxTime c ?pe \<le> t \<and> t < e \<and> \<not> list_ex (\<lambda>p. paused_at p t) ps then 1 else 0)"
      using Cons.IH [OF _ _ True] Cons.prems by simp
    have ok: "PausedAt p \<le> ?pe"
      using True Cons.prems(2,3) by (auto simp: pause_ok_def maxTime_def split: option.splits if_splits)
    show ?thesis
      using True IH ok early pe Cons.prems(3)
      by (cases "t < PausedAt p") (auto simp: Let_def minTime_def maxTime_def split: if_splits)
  next
    case False
    then have "e \<le> ?pe" using Cons.prems(3) by (auto simp: maxTime_def split: if_splits)
    then show ?thesis
      using False early pe Cons.prems(3)
      by (cases "t < PausedAt p") (auto simp: Let_def minTime_def maxTime_def split: if_splits)
  qed
qed simp

lemma covers_activeSpans:
  assumes "\<And>ps. mset (sort_pauses ps) = mset ps \<and> sorted (map PausedAt (sort_pauses ps))"
    and "\<forall>p\<in>set (Pauses target). pause_ok p"
  shows "covers (activeSpans sort_pauses target now) t = (if on_air now t target then 1 else 0)"
proof -
  have set: "set (sort_pauses ps) = set ps" for ps using assms(1) by (metis set_mset_mset)
  then have ex: "list_ex P (sort_pauses ps) = list_ex P ps" for P ps by (simp add: list_ex_iff)
  show ?thesis
  proof (cases "timeline_end target now > LiveAt target")
    case True
    then show ?thesis
      using covers_spans_loop [of "sort_pauses (Pauses target)" "LiveAt target" "timeline_end target now" t] assms set
      by (simp add: activeSpans_def on_air_def Let_def ex)
  next
    case False
    then show ?thesis by (simp add: activeSpans_def on_air_def Let_def)
  qed
qed

subsection \<open>The sweep computes the sum over the instants\<close>

definition level :: "edge list \<Rightarrow> instant \<Rightarrow> int" where
  "level es t = sum_list (map (\<lambda>e. if e_at e \<le> t then e_delta e else 0) es)"

fun fhd_after :: "bool \<Rightarrow> edge list \<Rightarrow> instant \<Rightarrow> bool" where
  "fhd_after fhd [] t = fhd"
| "fhd_after fhd (e # es) t = (if e_at e \<le> t then fhd_after (case e_fhd e of None \<Rightarrow> fhd | Some v \<Rightarrow> v) es t else fhd)"

lemma level_simps [simp]:
  "level [] t = 0" "level (e # es) t = (if e_at e \<le> t then e_delta e else 0) + level es t"
  "level (xs @ ys) t = level xs t + level ys t"
  by (simp_all add: level_def)

lemma level_mset: "mset xs = mset ys \<Longrightarrow> level xs t = level ys t"
proof -
  have "level zs t = (\<Sum>e\<in>#mset zs. if e_at e \<le> t then e_delta e else 0)" for zs
    by (induction zs) auto
  then show "mset xs = mset ys \<Longrightarrow> level xs t = level ys t" by simp
qed

lemma level_early: "\<forall>e\<in>set es. t < e_at e \<Longrightarrow> level es t = 0"
  by (induction es) auto

lemma fhd_after_early: "\<forall>e\<in>set es. t < e_at e \<Longrightarrow> fhd_after fhd es t = fhd"
  by (cases es) auto

text \<open>The loop without the wrap-around of its integers.\<close>

fun exact_loop :: "(bool \<Rightarrow> int \<Rightarrow> int) \<Rightarrow> bool \<Rightarrow> int \<Rightarrow> instant option \<Rightarrow> edge list \<Rightarrow> int" where
  "exact_loop w fhd act prev [] = 0"
| "exact_loop w fhd act prev (e # es) =
    (case prev of Some p \<Rightarrow> (e_at e - p) * w fhd act | None \<Rightarrow> 0)
    + exact_loop w (case e_fhd e of None \<Rightarrow> fhd | Some v \<Rightarrow> v) (act + e_delta e) (Some (e_at e)) es"

lemma sum_split_int:
  fixes f :: "int \<Rightarrow> int"
  assumes "a \<le> b" and "b \<le> c"
  shows "(\<Sum>t\<in>{a..<c}. f t) = (\<Sum>t\<in>{a..<b}. f t) + (\<Sum>t\<in>{b..<c}. f t)"
proof -
  have "{a..<c} = {a..<b} \<union> {b..<c}" using assms by auto
  then show ?thesis by (simp add: sum.union_disjoint ivl_disj_int)
qed

lemma exact_loop_sum:
  assumes "sorted (map e_at es)" and "\<forall>e\<in>set es. p \<le> e_at e" and "\<forall>e\<in>set es. e_at e \<le> b" and "p \<le> b"
    and "w (fhd_after fhd es b) (act + level es b) = 0"
  shows "exact_loop w fhd act (Some p) es = (\<Sum>t\<in>{p..<b}. w (fhd_after fhd es t) (act + level es t))"
  using assms
proof (induction es arbitrary: fhd act p)
  case (Cons e es)
  let ?fhd = "case e_fhd e of None \<Rightarrow> fhd | Some v \<Rightarrow> v"
  have le: "\<forall>e'\<in>set es. e_at e \<le> e_at e'" "p \<le> e_at e" "e_at e \<le> b" using Cons.prems by auto
  have lv: "level es t = 0" if "t < e_at e" for t using le(1) that by (intro level_early) auto
  have "(\<Sum>t\<in>{p..<b}. w (fhd_after fhd (e # es) t) (act + level (e # es) t))
      = (\<Sum>t\<in>{p..<e_at e}. w (fhd_after fhd (e # es) t) (act + level (e # es) t))
        + (\<Sum>t\<in>{e_at e..<b}. w (fhd_after fhd (e # es) t) (act + level (e # es) t))"
    by (rule sum_split_int [OF le(2,3)])
  also have "(\<Sum>t\<in>{p..<e_at e}. w (fhd_after fhd (e # es) t) (act + level (e # es) t)) = (\<Sum>t\<in>{p..<e_at e}. w fhd act)"
    using lv by (intro sum.cong) auto
  also have "\<dots> = (e_at e - p) * w fhd act" using le(2) by simp
  also have "(\<Sum>t\<in>{e_at e..<b}. w (fhd_after fhd (e # es) t) (act + level (e # es) t))
      = (\<Sum>t\<in>{e_at e..<b}. w (fhd_after ?fhd es t) ((act + e_delta e) + level es t))"
    by (intro sum.cong) (auto simp: ac_simps)
  also have "\<dots> = exact_loop w ?fhd (act + e_delta e) (Some (e_at e)) es"
    using Cons.IH [of "e_at e" ?fhd "act + e_delta e"] Cons.prems le by (simp add: ac_simps)
  finally show ?case by simp
qed auto

lemma exact_loop_start: "w fhd 0 = 0 \<Longrightarrow> exact_loop w fhd 0 None es = exact_loop w fhd 0 (Some a) es"
  by (cases es) auto

lemma level_span_edges: "level (span_edges f t' spans) t = (if f \<le> t \<and> t < t' then covers spans t else 0)"
  by (induction f t' spans rule: span_edges.induct) (auto simp: Let_def minTime_def maxTime_def split: if_splits)

lemma level_switches [simp]: "level (map switch_edge cs) t = 0"
  by (induction cs) (auto simp: switch_edge_def)

lemma level_charge_edges:
  assumes "\<And>ps. mset (sort_pauses ps) = mset ps \<and> sorted (map PausedAt (sort_pauses ps))"
    and "\<forall>tl\<in>set targets. \<forall>p\<in>set (Pauses tl). pause_ok p"
  shows "level (charge_edges sort_pauses cs targets f t' now) t = (if f \<le> t \<and> t < t' then targets_on_air targets now t else 0)"
proof -
  have "level (concat (map (\<lambda>tl. span_edges f t' (activeSpans sort_pauses tl now)) targets)) t
      = (if f \<le> t \<and> t < t' then targets_on_air targets now t else 0)"
    using assms(2)
    by (induction targets) (auto simp: level_span_edges covers_activeSpans [OF assms(1)] targets_on_air_def)
  then show ?thesis by (simp add: charge_edges_def)
qed

text \<open>The resolution after the edges is that of the last switch.\<close>

lemma fhd_after_last:
  "sorted (map e_at es) \<Longrightarrow> fhd_after fhd es t =
    (case filter (\<lambda>e. e_fhd e \<noteq> None \<and> e_at e \<le> t) es of [] \<Rightarrow> fhd | xs \<Rightarrow> the (e_fhd (last xs)))"
proof (induction es arbitrary: fhd)
  case (Cons e es)
  show ?case
  proof (cases "e_at e \<le> t")
    case True
    with Cons show ?thesis by (auto split: option.splits list.splits)
  next
    case False
    with Cons.prems have "filter (\<lambda>e. e_fhd e \<noteq> None \<and> e_at e \<le> t) es = []" by (auto simp: filter_empty_conv)
    with False show ?thesis by simp
  qed
qed simp

lemma sort_key_map: "sort_key k (map g xs) = map g (sort_key (k \<circ> g) xs)"
proof -
  have "insort_key k (g x) (map g ys) = map g (insort_key (k \<circ> g) x ys)" for x ys by (induction ys) auto
  then show ?thesis by (induction xs) auto
qed

lemma sort_key_same_order: "(\<And>x y. (k x \<le> k y) = (k' x \<le> k' y)) \<Longrightarrow> sort_key k xs = sort_key k' xs"
proof -
  assume a: "\<And>x y. (k x \<le> k y) = (k' x \<le> k' y)"
  have "insort_key k x ys = insort_key k' x ys" for x ys by (induction ys) (auto simp: a)
  then show ?thesis by (induction xs) auto
qed

abbreviation edge_key :: "edge \<Rightarrow> instant \<times> int" where
  "edge_key e \<equiv> (e_at e, e_delta e)"

lemma sorted_edges: "sorted (map e_at (sort_key edge_key es))"
proof -
  have "sorted (map edge_key (sort_key edge_key es))" by simp
  then show ?thesis by (fastforce simp: sorted_iff_nth_mono less_eq_prod_def)
qed

lemma span_edges_plain: "e \<in> set (span_edges f t' spans) \<Longrightarrow> e_fhd e = None \<and> e_delta e \<in> {1, - 1} \<and> f \<le> e_at e \<and> e_at e \<le> t'"
  by (induction f t' spans rule: span_edges.induct) (auto simp: Let_def minTime_def maxTime_def split: if_splits)

lemma fhd_after_switches:
  "fhd_after fhd (sort_key edge_key (charge_edges sort_pauses cs targets f t' now)) t = fhd_at fhd cs t"
proof -
  let ?es = "charge_edges sort_pauses cs targets f t' now"
  have "filter (\<lambda>e. e_fhd e \<noteq> None) (concat (map (\<lambda>tl. span_edges f t' (activeSpans sort_pauses tl now)) targets)) = []"
    using span_edges_plain by (auto simp: filter_empty_conv)
  moreover have "filter (\<lambda>e. e_fhd e \<noteq> None) (map switch_edge cs) = map switch_edge cs"
    by (simp add: filter_map comp_def switch_edge_def)
  ultimately have "filter (\<lambda>e. e_fhd e \<noteq> None) ?es = map switch_edge cs" by (simp add: charge_edges_def)
  then have "filter (\<lambda>e. e_fhd e \<noteq> None) (sort_key edge_key ?es) = map switch_edge (sort_key (edge_key \<circ> switch_edge) cs)"
    by (simp add: filter_sort sort_key_map)
  also have "sort_key (edge_key \<circ> switch_edge) cs = sort_key rs_At cs"
    by (rule sort_key_same_order) (auto simp: switch_edge_def less_eq_prod_def)
  finally have "filter (\<lambda>e. e_at e \<le> t) (filter (\<lambda>e. e_fhd e \<noteq> None) (sort_key edge_key ?es))
      = map switch_edge (filter (\<lambda>c. rs_At c \<le> t) (sort_key rs_At cs))"
    by (simp add: filter_map comp_def switch_edge_def)
  then have "filter (\<lambda>e. e_fhd e \<noteq> None \<and> e_at e \<le> t) (sort_key edge_key ?es)
      = map switch_edge (filter (\<lambda>c. rs_At c \<le> t) (sort_key rs_At cs))"
    by (simp add: conj_commute)
  then show ?thesis
    unfolding fhd_after_last [OF sorted_edges] fhd_at_def
    by (auto simp: last_map switch_edge_def split: list.splits)
qed

subsection \<open>Wrap-around\<close>

lemma i64_absorb_left: "i64 (i64 a + b) = i64 (a + b)"
proof -
  have "i64 (x - 9223372036854775808 + b) = i64 (a + b)" if "x = (a + 9223372036854775808) mod 18446744073709551616" for x
    unfolding i64_def that by (simp add: mod_simps algebra_simps)
  then show ?thesis by (simp add: i64_def [of a])
qed

lemma i64_absorb_right: "i64 (a + i64 b) = i64 (a + b)"
  using i64_absorb_left [of b a] by (simp add: add.commute)

definition weight_on_air :: "bool \<Rightarrow> int \<Rightarrow> int" where
  "weight_on_air fhd k = (if k > 0 then 1 else 0)"

lemma weights [simp]:
  "k \<le> 0 \<Longrightarrow> weight_on_air fhd k = 0" "k > 0 \<Longrightarrow> weight_on_air fhd k = 1" "k \<le> 0 \<Longrightarrow> units_at fhd k = 0"
  by (simp_all add: weight_on_air_def units_at_def)

lemma charge_loop_exact:
  assumes "\<forall>e\<in>set es. lo \<le> e_at e \<and> e_at e \<le> hi" and "hi - lo \<le> 9223372036854775807"
    and "case prev of None \<Rightarrow> True | Some p \<Rightarrow> lo \<le> p \<and> p \<le> hi"
    and "\<forall>e\<in>set es. \<bar>e_delta e\<bar> \<le> 1" and "\<bar>act\<bar> + int (length es) \<le> 4611686018427387904"
  shows "charge_loop fhd act prev es (i64 onAir, i64 charged)
    = (i64 (onAir + exact_loop weight_on_air fhd act prev es), i64 (charged + exact_loop units_at fhd act prev es))"
  using assms
proof (induction es arbitrary: fhd act prev onAir charged)
  case (Cons e es)
  have d: "i64 (act + e_delta e) = act + e_delta e" by (rule i64_id) (use Cons.prems(4,5) in auto)
  have IH: "charge_loop fhd' (act + e_delta e) (Some (e_at e)) es (i64 a, i64 c)
      = (i64 (a + exact_loop weight_on_air fhd' (act + e_delta e) (Some (e_at e)) es),
         i64 (c + exact_loop units_at fhd' (act + e_delta e) (Some (e_at e)) es))" for fhd' a c
    using Cons.IH [of "Some (e_at e)" "act + e_delta e" fhd' a c] Cons.prems by auto
  show ?case
  proof (cases "prev = None \<or> act \<le> 0")
    case True
    then show ?thesis by (cases prev) (simp_all add: d IH)
  next
    case False
    then obtain p where p: "prev = Some p" "act > 0" by auto
    have dt: "time_sub (e_at e) p = e_at e - p" by (rule time_sub_id) (use Cons.prems(1,2,3) p in auto)
    have u: "Units fhd act = units_at fhd act"
      using p(2) Cons.prems(5) by (simp add: Units_def units_at_def i64_id)
    show ?thesis
      using p by (simp add: d IH dt u i64_absorb_left i64_absorb_right Let_def ac_simps)
  qed
qed simp

subsection \<open>The charge\<close>

lemma level_after:
  assumes "\<forall>e\<in>set es. e_at e \<le> b" and "\<And>t. t \<ge> to_at \<Longrightarrow> level es t = 0"
  shows "level es b = 0"
proof -
  have "level es b = level es (max b to_at)" using assms(1) by (induction es) auto
  with assms(2) show ?thesis by simp
qed

lemma sweep_sum:
  assumes laws: "\<And>ps. mset (sort_pauses ps) = mset ps \<and> sorted (map PausedAt (sort_pauses ps))"
    and ok: "\<forall>tl\<in>set targets. \<forall>p\<in>set (Pauses tl). pause_ok p"
    and w: "\<And>fhd k. k \<le> 0 \<Longrightarrow> w fhd k = (0::int)"
  shows "exact_loop w fhd 0 None (sort_key edge_key (charge_edges sort_pauses cs targets f t' now))
    = (\<Sum>t\<in>{f..<t'}. w (fhd_at fhd cs t) (targets_on_air targets now t))"
proof -
  let ?es = "charge_edges sort_pauses cs targets f t' now"
  let ?ss = "sort_key edge_key ?es"
  define a where "a = Min (insert f (e_at ` set ?ss))"
  define b where "b = Max (insert t' (insert a (e_at ` set ?ss)))"
  have a: "a \<le> f" "\<forall>e\<in>set ?ss. a \<le> e_at e" by (simp_all add: a_def)
  have "x \<le> b" if "x \<in> insert t' (insert a (e_at ` set ?ss))" for x
    unfolding b_def by (rule Max_ge) (use that in auto)
  then have b: "t' \<le> b" "a \<le> b" "\<forall>e\<in>set ?ss. e_at e \<le> b" by auto
  have lv: "level ?ss t = (if f \<le> t \<and> t < t' then targets_on_air targets now t else 0)" for t
    using level_mset [of ?ss ?es t] level_charge_edges [OF laws ok] by simp
  have "level ?ss b = 0" by (rule level_after [of _ _ t']) (use b lv in auto)
  have "exact_loop w fhd 0 None ?ss = exact_loop w fhd 0 (Some a) ?ss" by (rule exact_loop_start) (simp add: w)
  also have "\<dots> = (\<Sum>t\<in>{a..<b}. w (fhd_after fhd ?ss t) (0 + level ?ss t))"
    by (rule exact_loop_sum [OF sorted_edges a(2) b(3,2)]) (simp add: \<open>level ?ss b = 0\<close> w)
  also have "\<dots> = (\<Sum>t\<in>{a..<b}. if t \<in> {f..<t'} then w (fhd_at fhd cs t) (targets_on_air targets now t) else 0)"
    by (rule sum.cong) (auto simp: lv fhd_after_switches w)
  also have "\<dots> = (\<Sum>t\<in>{f..<t'}. w (fhd_at fhd cs t) (targets_on_air targets now t))"
    using a(1) b(1) by (subst sum.inter_restrict [symmetric]) (auto intro!: sum.cong)
  finally show ?thesis .
qed

lemma sum_units_bounds:
  fixes w :: "int \<Rightarrow> int"
  assumes "\<And>t. 0 \<le> w t \<and> w t \<le> c" and "f \<le> t'"
  shows "0 \<le> (\<Sum>t\<in>{f..<t'}. w t) \<and> (\<Sum>t\<in>{f..<t'}. w t) \<le> (t' - f) * c"
proof -
  have "(\<Sum>t\<in>{f..<t'}. w t) \<le> (\<Sum>t\<in>{f..<t'}. c)" using assms(1) by (intro sum_mono) auto
  then show ?thesis using assms by (simp add: sum_nonneg)
qed

lemma on_air_bounds: "0 \<le> targets_on_air targets now t \<and> targets_on_air targets now t \<le> int (length targets)"
  by (simp add: targets_on_air_def)

lemma charge_edge_bounds:
  assumes "e \<in> set (charge_edges sort_pauses cs targets f t' now)" and "lo \<le> f" and "t' \<le> hi"
    and "\<forall>c\<in>set cs. lo \<le> rs_At c \<and> rs_At c \<le> hi"
  shows "lo \<le> e_at e \<and> e_at e \<le> hi \<and> \<bar>e_delta e\<bar> \<le> 1"
  using assms span_edges_plain [of e f t'] by (fastforce simp: charge_edges_def switch_edge_def)

lemma ChargeSession_exact:
  assumes "\<And>ps. mset (sort_pauses ps) = mset ps \<and> sorted (map PausedAt (sort_pauses ps))"
    and "\<forall>tl\<in>set targets. \<forall>p\<in>set (Pauses tl). pause_ok p"
    and "lo \<le> f" and "f \<le> t'" and "t' \<le> hi" and "\<forall>c\<in>set cs. lo \<le> rs_At c \<and> rs_At c \<le> hi"
    and "hi - lo \<le> 9223372036854775807" and "(t' - f) * (int (length targets) + 1) \<le> 9223372036854775807"
    and "int (length (charge_edges sort_pauses cs targets f t' now)) \<le> 4611686018427387904"
  shows "ChargeSession sort_pauses fhd cs targets f t' now
    = (on_air_time targets f t' now, unit_time fhd cs targets f t' now)"
proof -
  let ?ss = "sort_key edge_key (charge_edges sort_pauses cs targets f t' now)"
  have "ChargeSession sort_pauses fhd cs targets f t' now = charge_loop fhd 0 None ?ss (i64 0, i64 0)"
    by (simp add: ChargeSession_def i64_def)
  also have "\<dots> = (i64 (0 + exact_loop weight_on_air fhd 0 None ?ss), i64 (0 + exact_loop units_at fhd 0 None ?ss))"
    using charge_edge_bounds [OF _ assms(3,5,6)] assms(7,9)
    by (intro charge_loop_exact [where lo = lo and hi = hi]) auto
  also have "\<dots> = (i64 (on_air_time targets f t' now), i64 (unit_time fhd cs targets f t' now))"
    using sweep_sum [OF assms(1,2), of weight_on_air fhd cs f t' now] sweep_sum [OF assms(1,2), of units_at fhd cs f t' now]
    by (simp add: on_air_time_def unit_time_def weight_on_air_def)
  also have "i64 (unit_time fhd cs targets f t' now) = unit_time fhd cs targets f t' now"
  proof (rule i64_id)
    have "0 \<le> units_at (fhd_at fhd cs t) (targets_on_air targets now t)
        \<and> units_at (fhd_at fhd cs t) (targets_on_air targets now t) \<le> int (length targets) + 1" for t
      using on_air_bounds [of targets now t] by (simp add: units_at_def)
    from sum_units_bounds [where w = "\<lambda>t. units_at (fhd_at fhd cs t) (targets_on_air targets now t)", OF this assms(4)]
    show "fits64 (unit_time fhd cs targets f t' now)"
      using assms(8) by (simp add: unit_time_def)
  qed
  also have "i64 (on_air_time targets f t' now) = on_air_time targets f t' now"
  proof (rule i64_id)
    have "0 \<le> (if targets_on_air targets now t > 0 then 1 else 0::int) \<and> (if targets_on_air targets now t > 0 then 1 else 0::int) \<le> 1" for t
      by simp
    from sum_units_bounds [where w = "\<lambda>t. if targets_on_air targets now t > 0 then 1 else 0", OF this assms(4)]
    show "fits64 (on_air_time targets f t' now)"
      using assms(3,5,7) by (simp add: on_air_time_def)
  qed
  finally show ?thesis .
qed

lemma times_add:
  assumes "f \<le> m" and "m \<le> t'"
  shows "on_air_time targets f t' now = on_air_time targets f m now + on_air_time targets m t' now"
    and "unit_time fhd cs targets f t' now = unit_time fhd cs targets f m now + unit_time fhd cs targets m t' now"
  unfolding on_air_time_def unit_time_def by (rule sum_split_int [OF assms])+

text \<open>
  Property C31. The charge of a session is the sum over the instants of the period: the sweep over the
  edges gives the number of nanoseconds in which some target is live and not paused, and the sum over
  the nanoseconds of the units of the targets on air at the resolution of that moment, for every
  order of rows, overlapping targets and pauses, open and unclean broadcasts and resolution switches.
  Hence charges of adjoining periods (two months) add up to the charge of both.
\<close>

theorem charge_is_sum_over_instants:
  assumes "\<And>ps. mset (sort_pauses ps) = mset ps \<and> sorted (map PausedAt (sort_pauses ps))"
    and "\<forall>tl\<in>set targets. \<forall>p\<in>set (Pauses tl). pause_ok p"
    and "lo \<le> f" and "f \<le> t'" and "t' \<le> hi" and "\<forall>c\<in>set cs. lo \<le> rs_At c \<and> rs_At c \<le> hi"
    and "hi - lo \<le> 9223372036854775807" and "(t' - f) * (int (length targets) + 1) \<le> 9223372036854775807"
    and "int (length (charge_edges sort_pauses cs targets f t' now)) \<le> 4611686018427387904"
  shows "ChargeSession sort_pauses fhd cs targets f t' now = (on_air_time targets f t' now, unit_time fhd cs targets f t' now)
    \<and> (\<forall>m. f \<le> m \<and> m \<le> t' \<longrightarrow>
        fst (ChargeSession sort_pauses fhd cs targets f t' now) = on_air_time targets f m now + on_air_time targets m t' now
        \<and> snd (ChargeSession sort_pauses fhd cs targets f t' now) = unit_time fhd cs targets f m now + unit_time fhd cs targets m t' now)"
  using ChargeSession_exact [OF assms] times_add by auto

definition demo_timeline :: "TargetTimeline list" where
  "demo_timeline = [\<lparr>LiveAt = 10, tl_EndedAt = Some 40, Unclean = False,
     Pauses = [\<lparr>PausedAt = 20, ResumedAt = Some 25\<rparr>], LegacyPausedSeconds = 0\<rparr>,
     \<lparr>LiveAt = 15, tl_EndedAt = None, Unclean = False, Pauses = [], LegacyPausedSeconds = 0\<rparr>]"

definition demo_switches :: "ResolutionSwitch list" where
  "demo_switches = [\<lparr>rs_At = 30, rs_FHD = True\<rparr>]"

theorem charge_is_sum_over_instants_witness:
  "ChargeSession (sort_key PausedAt) False demo_switches demo_timeline 0 100 50 = (40, 80)
    \<and> on_air_time demo_timeline 0 100 50 = 40 \<and> unit_time False demo_switches demo_timeline 0 100 50 = 80"
proof -
  have c: "ChargeSession (sort_key PausedAt) False demo_switches demo_timeline 0 100 50 = (40, 80)" by code_simp
  have n: "int (length (charge_edges (sort_key PausedAt) demo_switches demo_timeline 0 100 50)) \<le> 4611686018427387904" by code_simp
  have "ChargeSession (sort_key PausedAt) False demo_switches demo_timeline 0 100 50
      = (on_air_time demo_timeline 0 100 50, unit_time False demo_switches demo_timeline 0 100 50)"
    using charge_is_sum_over_instants [of "sort_key PausedAt" demo_timeline 0 0 100 100 demo_switches 50 False, OF _ _ _ _ _ _ _ _ n]
    by (simp add: demo_timeline_def demo_switches_def pause_ok_def)
  with c show ?thesis by simp
qed

subsection \<open>The month of a user\<close>

record usage_session =
  us_ID :: nat
  us_StartedAt :: instant
  us_EndedAt :: "instant option"
  us_AIProcessing :: "string option"
  us_Resolution :: "string option"

record usage_broadcast =
  ub_ID :: nat
  ub_SessionID :: nat
  ub_Provider :: string
  ub_LiveAt :: instant
  ub_EndedAt :: "instant option"
  ub_EndReason :: "string option"
  ub_PausedSeconds :: duration

record usage_pause =
  up_BroadcastID :: nat
  up_span :: PauseSpan

record usage_change =
  uc_SessionID :: nat
  uc_ChangedAt :: instant
  uc_Resolution :: string

record SessionCharge =
  sc_SessionID :: nat
  sc_StartedAt :: instant
  sc_Resolution :: string
  sc_Providers :: "string list"
  sc_OnDevice :: bool
  sc_Local :: bool
  sc_OnAir :: duration
  sc_Charged :: duration

definition broadcastEnd :: "usage_broadcast \<Rightarrow> usage_session \<Rightarrow> (nat \<rightharpoonup> instant) \<Rightarrow> instant option \<times> bool" where
  "broadcastEnd b s lastHeartbeat =
    (case ub_EndedAt b of Some e \<Rightarrow> (Some e, False)
     | None \<Rightarrow> (case us_EndedAt s of Some e \<Rightarrow> (Some e, False)
       | None \<Rightarrow> if ub_EndReason b = None then (None, False)
           else (case lastHeartbeat (us_ID s) of Some l \<Rightarrow> (Some l, False) | None \<Rightarrow> (None, True))))"

text \<open>What the queries of one call return: the user's rows, broadcasts with a live time only.\<close>

record month_rows =
  mr_sessions :: "usage_session list"
  mr_broadcasts :: "usage_broadcast list"
  mr_pauses :: "usage_pause list"
  mr_changes :: "usage_change list"
  mr_heartbeats :: "nat \<rightharpoonup> instant"
  mr_takes :: "(nat \<times> instant \<times> int) list"

definition timeline_of :: "month_rows \<Rightarrow> usage_session \<Rightarrow> usage_broadcast \<Rightarrow> TargetTimeline" where
  "timeline_of r s b = (let (endedAt, unclean) = broadcastEnd b s (mr_heartbeats r) in
     \<lparr>LiveAt = ub_LiveAt b, tl_EndedAt = endedAt, Unclean = unclean,
      Pauses = map up_span (filter (\<lambda>p. up_BroadcastID p = ub_ID b) (mr_pauses r)),
      LegacyPausedSeconds = ub_PausedSeconds b\<rparr>)"

definition timelines :: "month_rows \<Rightarrow> usage_session \<Rightarrow> TargetTimeline list" where
  "timelines r s = map (timeline_of r s) (filter (\<lambda>b. ub_SessionID b = us_ID s) (mr_broadcasts r))"

definition switches_of :: "month_rows \<Rightarrow> usage_session \<Rightarrow> ResolutionSwitch list" where
  "switches_of r s = map (\<lambda>c. \<lparr>rs_At = uc_ChangedAt c, rs_FHD = (uc_Resolution c = ''fhd'')\<rparr>)
     (filter (\<lambda>c. uc_SessionID c = us_ID s) (mr_changes r))"

fun seen_once :: "string list \<Rightarrow> string list \<Rightarrow> string list" where
  "seen_once seen [] = []"
| "seen_once seen (x # xs) = (if x \<in> set seen then seen_once seen xs else x # seen_once (x # seen) xs)"

definition localTakeCharges :: "month_rows \<Rightarrow> SessionCharge list" where
  "localTakeCharges r = map (\<lambda>(takeID, startedAt, seconds). let d = i64 (seconds * Second) in
     \<lparr>sc_SessionID = takeID, sc_StartedAt = startedAt, sc_Resolution = '''', sc_Providers = [], sc_OnDevice = True,
      sc_Local = True, sc_OnAir = d, sc_Charged = d\<rparr>) (mr_takes r)"

definition session_charge :: "(PauseSpan list \<Rightarrow> PauseSpan list) \<Rightarrow> month_rows \<Rightarrow> instant \<Rightarrow> instant \<Rightarrow> instant \<Rightarrow> usage_session \<Rightarrow> SessionCharge" where
  "session_charge sort_pauses r from_at to_at now s =
    (let resolution = (case us_Resolution s of None \<Rightarrow> ''720p'' | Some v \<Rightarrow> v);
         (onAir, charged) = ChargeSession sort_pauses (resolution = ''fhd'') (switches_of r s) (timelines r s) from_at to_at now in
     \<lparr>sc_SessionID = us_ID s, sc_StartedAt = us_StartedAt s, sc_Resolution = resolution,
      sc_Providers = sort_strings (seen_once [] (map ub_Provider (filter (\<lambda>b. ub_SessionID b = us_ID s) (mr_broadcasts r)))),
      sc_OnDevice = (us_AIProcessing s = Some ''on_device''), sc_Local = False, sc_OnAir = onAir, sc_Charged = charged\<rparr>)"

definition Month :: "(PauseSpan list \<Rightarrow> PauseSpan list) \<Rightarrow> month_rows \<Rightarrow> instant \<Rightarrow> instant \<Rightarrow> instant \<Rightarrow> SessionCharge list" where
  "Month sort_pauses r from_at to_at now =
    (if mr_sessions r = [] then localTakeCharges r
     else filter (\<lambda>c. \<not> sc_Charged c \<le> 0) (map (session_charge sort_pauses r from_at to_at now) (mr_sessions r)) @ localTakeCharges r)"

text \<open>The sizes at which the 64-bit sums of one session are exact.\<close>

definition charge_fits :: "(PauseSpan list \<Rightarrow> PauseSpan list) \<Rightarrow> ResolutionSwitch list \<Rightarrow> TargetTimeline list \<Rightarrow> instant \<Rightarrow> instant \<Rightarrow> instant \<Rightarrow> bool" where
  "charge_fits sort_pauses cs targets f t' now =
    ((\<forall>tl\<in>set targets. \<forall>p\<in>set (Pauses tl). pause_ok p)
     \<and> (\<forall>c\<in>set cs. t' - 9223372036854775807 \<le> rs_At c \<and> rs_At c \<le> t')
     \<and> (t' - f) * (int (length targets) + 1) \<le> 9223372036854775807
     \<and> int (length (charge_edges sort_pauses cs targets f t' now)) \<le> 4611686018427387904)"

lemma ChargeSession_fits:
  assumes "\<And>ps. mset (sort_pauses ps) = mset ps \<and> sorted (map PausedAt (sort_pauses ps))"
    and "charge_fits sort_pauses cs targets f t' now" and "f \<le> t'"
  shows "ChargeSession sort_pauses fhd cs targets f t' now = (on_air_time targets f t' now, unit_time fhd cs targets f t' now)"
proof -
  have "t' - f \<le> (t' - f) * (int (length targets) + 1)" using assms(3) by (simp add: algebra_simps mult_right_mono)
  with assms(2) have "t' - 9223372036854775807 \<le> f" by (simp add: charge_fits_def)
  with assms show ?thesis
    by (intro ChargeSession_exact [where lo = "t' - 9223372036854775807" and hi = t']) (auto simp: charge_fits_def)
qed

lemma unit_time_nonneg: "0 \<le> unit_time fhd cs targets f t' now"
  unfolding unit_time_def by (intro sum_nonneg) (simp add: units_at_def)

lemma sum_filter_positive:
  "(\<And>x. x \<in> set xs \<Longrightarrow> 0 \<le> h x) \<Longrightarrow> sum_list (map h (filter (\<lambda>x. \<not> h x \<le> (0::int)) xs)) = sum_list (map h xs)"
  by (induction xs) (auto intro: order.antisym)

lemma on_air_before_end:
  "on_air now t tg \<Longrightarrow> \<not> Unclean tg \<and> (case tl_EndedAt tg of None \<Rightarrow> t < now | Some e \<Rightarrow> t < e)"
  by (auto simp: on_air_def timeline_end_def Let_def split: if_splits option.splits)

definition session_units :: "month_rows \<Rightarrow> instant \<Rightarrow> instant \<Rightarrow> instant \<Rightarrow> usage_session \<Rightarrow> int" where
  "session_units r f t' now s =
    unit_time ((case us_Resolution s of None \<Rightarrow> ''720p'' | Some v \<Rightarrow> v) = ''fhd'') (switches_of r s) (timelines r s) f t' now"

lemma session_charge_units:
  assumes "\<And>ps. mset (sort_pauses ps) = mset ps \<and> sorted (map PausedAt (sort_pauses ps))"
    and "charge_fits sort_pauses (switches_of r s) (timelines r s) f t' now" and "f \<le> t'"
  shows "sc_Charged (session_charge sort_pauses r f t' now s) = session_units r f t' now s"
  using ChargeSession_fits [OF assms] by (simp add: session_charge_def session_units_def Let_def)


definition demo_rows :: month_rows where
  "demo_rows = \<lparr>mr_sessions = [\<lparr>us_ID = 1, us_StartedAt = 5, us_EndedAt = Some 45, us_AIProcessing = None, us_Resolution = Some ''fhd''\<rparr>,
       \<lparr>us_ID = 2, us_StartedAt = 60, us_EndedAt = None, us_AIProcessing = None, us_Resolution = None\<rparr>],
     mr_broadcasts = [\<lparr>ub_ID = 9, ub_SessionID = 1, ub_Provider = ''youtube'', ub_LiveAt = 10, ub_EndedAt = None, ub_EndReason = None, ub_PausedSeconds = 0\<rparr>,
       \<lparr>ub_ID = 8, ub_SessionID = 2, ub_Provider = ''chzzk'', ub_LiveAt = 70, ub_EndedAt = None, ub_EndReason = Some ''unclean_shutdown'', ub_PausedSeconds = 0\<rparr>],
     mr_pauses = [\<lparr>up_BroadcastID = 9, up_span = \<lparr>PausedAt = 20, ResumedAt = Some 25\<rparr>\<rparr>], mr_changes = [],
     mr_heartbeats = Map.empty, mr_takes = [(7, 3, 0)]\<rparr>"


end
