(* ===== verification/PeerRecovery.thy ===== *)
theory PeerRecovery
  imports Broadcast
begin

text \<open>
  Recovery of the WebRTC input of a session (\<^verbatim>\<open>internal/session/recovery.go\<close> and the connection state
  callback of \<^verbatim>\<open>manager.go\<close>): waiting after a disconnect, recovering within a window, ending with the
  first processed frame or with the deletion of the session at the deadline. Timers are kept as the
  callbacks that were ever scheduled: \<open>Timer.Stop\<close> does not stop a callback that already waits for the
  lock, so every scheduled callback may still run. The generation is a \<open>nat\<close>; the \<open>uint64\<close> of the code
  would need \<open>2^64\<close> disconnects to wrap.
\<close>

subsection \<open>State\<close>

datatype PeerRecoveryStatus = PeerRecoveryStatusIdle | PeerRecoveryStatusWaiting | PeerRecoveryStatusRecovering

record peerRecovery =
  pr_status :: PeerRecoveryStatus
  pr_attempts :: nat
  pr_deadline :: "instant option"
  pr_lastError :: "string option"
  pr_generation :: nat
  pr_debounceTimer :: bool
  pr_deadlineTimer :: bool
  pr_awaitingMediaFrame :: bool

record recovery_config =
  WebRTCRecoveryWindow :: duration
  WebRTCRecoveryDebounce :: duration
  DisconnectedGracePeriod :: duration
  WebRTCRecoveryAttempts :: int

text \<open>A session with its peer; \<open>ps_callbacks\<close> and \<open>ps_deletes\<close> are the timers set and the deletions asked for.\<close>

datatype callback = DebounceCallback instant nat | DeadlineCallback instant nat

record peer_session =
  ps_session :: Session
  ps_wasConnected :: bool
  ps_recovery :: peerRecovery
  ps_connected :: bool
  ps_callbacks :: "callback set"
  ps_deletes :: "string list"

subsection \<open>Configuration\<close>

definition recoveryWindow :: "recovery_config \<Rightarrow> duration" where
  "recoveryWindow cfg = (if WebRTCRecoveryWindow cfg > 0 then WebRTCRecoveryWindow cfg else 50 * Second)"

definition recoveryDebounce :: "recovery_config \<Rightarrow> duration" where
  "recoveryDebounce cfg = (if WebRTCRecoveryDebounce cfg > 0 then WebRTCRecoveryDebounce cfg
     else if DisconnectedGracePeriod cfg > 0 then DisconnectedGracePeriod cfg else 2 * Second)"

definition recoveryMaxAttempts :: "recovery_config \<Rightarrow> int" where
  "recoveryMaxAttempts cfg = (if WebRTCRecoveryAttempts cfg > 0 then WebRTCRecoveryAttempts cfg else 10)"

definition recoveryError :: "string \<Rightarrow> string option" where
  "recoveryError v = (if v = '''' then None else Some v)"

subsection \<open>The egresses of a session\<close>

text \<open>The targets of \<open>activeEgressesLocked\<close> are those with \<open>egress_active\<close>; \<open>f\<close> is applied to their egress.\<close>

definition on_active :: "(egress_core \<Rightarrow> egress_core) \<Rightarrow> streamTarget \<Rightarrow> streamTarget" where
  "on_active f t = (if egress_active t then t\<lparr>t_egress := map_option (\<lambda>e. e\<lparr>eg_core := f (eg_core e)\<rparr>) (t_egress t)\<rparr> else t)"

definition on_active_egresses :: "(egress_core \<Rightarrow> egress_core) \<Rightarrow> Session \<Rightarrow> Session" where
  "on_active_egresses f s = s\<lparr>s_targets := map (\<lambda>(p, t). (p, on_active f t)) (s_targets s)\<rparr>"

definition no_active_egress :: "Session \<Rightarrow> bool" where
  "no_active_egress s = (\<not> list_ex (\<lambda>(p, t). egress_active t) (s_targets s))"

subsection \<open>Operations\<close>

definition ps_touch :: "instant \<Rightarrow> peer_session \<Rightarrow> peer_session" where
  "ps_touch now s = s\<lparr>ps_session := (ps_session s)\<lparr>s_UpdatedAt := now\<rparr>\<rparr>"

definition scheduleDisconnectedRecovery :: "recovery_config \<Rightarrow> instant \<Rightarrow> peer_session \<Rightarrow> peer_session" where
  "scheduleDisconnectedRecovery cfg now s = (let r = ps_recovery s in
     if s_closed (ps_session s) \<or> \<not> ps_wasConnected s \<or> pr_status r \<noteq> PeerRecoveryStatusIdle then s
     else let g = pr_generation r + 1 in
       ps_touch now (s\<lparr>ps_recovery := r\<lparr>pr_generation := g, pr_status := PeerRecoveryStatusWaiting,
           pr_lastError := recoveryError ''peer_connection_disconnected'', pr_debounceTimer := True\<rparr>,
         ps_callbacks := insert (DebounceCallback (now + recoveryDebounce cfg) g) (ps_callbacks s)\<rparr>))"

definition finishRecoveryLocked :: "instant \<Rightarrow> peer_session \<Rightarrow> peer_session" where
  "finishRecoveryLocked now s = (let r = ps_recovery s in
     if pr_status r = PeerRecoveryStatusIdle then s
     else ps_touch now (s\<lparr>ps_recovery := r\<lparr>pr_debounceTimer := False, pr_deadlineTimer := False,
         pr_status := PeerRecoveryStatusIdle, pr_deadline := None, pr_lastError := None, pr_awaitingMediaFrame := False, pr_attempts := 0\<rparr>,
       ps_session := on_active_egresses (\<lambda>c. snd (EndInputRecovery now c)) (ps_session s)\<rparr>))"

text \<open>The generation 0 stands for a call that is not a timer's.\<close>

definition beginRecovery :: "recovery_config \<Rightarrow> instant \<Rightarrow> nat \<Rightarrow> string \<Rightarrow> peer_session \<Rightarrow> peer_session" where
  "beginRecovery cfg now g why s = (let r = ps_recovery s in
     if s_closed (ps_session s) \<or> (\<not> ps_wasConnected s \<and> why \<noteq> ''ice_restart'') \<or> (g \<noteq> 0 \<and> g \<noteq> pr_generation r) then s
     else if g \<noteq> 0 \<and> ps_connected s then finishRecoveryLocked now s
     else
       let r = (if pr_status r = PeerRecoveryStatusIdle then r\<lparr>pr_generation := pr_generation r + 1\<rparr> else r);
           r = r\<lparr>pr_debounceTimer := False\<rparr>;
           started = (pr_deadline r = None);
           until = now + recoveryWindow cfg;
           cbs = (if started then insert (DeadlineCallback until (pr_generation r)) (ps_callbacks s) else ps_callbacks s);
           r = (if started then r\<lparr>pr_deadline := Some until, pr_deadlineTimer := True\<rparr> else r);
           r = r\<lparr>pr_status := PeerRecoveryStatusRecovering, pr_lastError := recoveryError why\<rparr> in
       ps_touch now (s\<lparr>ps_recovery := r, ps_callbacks := cbs,
         ps_session := on_active_egresses (\<lambda>c. snd (BeginInputRecovery now c)) (ps_session s)\<rparr>))"

definition expireRecovery :: "nat \<Rightarrow> peer_session \<Rightarrow> peer_session" where
  "expireRecovery g s = (let r = ps_recovery s in
     if s_closed (ps_session s) \<or> pr_generation r \<noteq> g \<or> pr_status r = PeerRecoveryStatusIdle then s
     else s\<lparr>ps_deletes := ''peer_connection_recovery_exhausted'' # ps_deletes s\<rparr>)"

datatype recovery_error = RecoveryNotFound | ErrRecoveryAttemptsExhausted

definition count_recovery_offer :: "recovery_config \<Rightarrow> instant \<Rightarrow> peer_session \<Rightarrow> recovery_error option \<times> peer_session" where
  "count_recovery_offer cfg now s = (let r = ps_recovery s in
     if s_closed (ps_session s) \<or> pr_status r = PeerRecoveryStatusIdle then (Some RecoveryNotFound, s)
     else if int (pr_attempts r) \<ge> recoveryMaxAttempts cfg then (Some ErrRecoveryAttemptsExhausted, s)
     else (None, ps_touch now (s\<lparr>ps_recovery := r\<lparr>pr_attempts := pr_attempts r + 1\<rparr>\<rparr>)))"

text \<open>\<open>registerRecoveryOffer\<close> releases the lock between its two parts; without another call in between it is:\<close>

definition registerRecoveryOffer :: "recovery_config \<Rightarrow> instant \<Rightarrow> peer_session \<Rightarrow> recovery_error option \<times> peer_session" where
  "registerRecoveryOffer cfg now s = count_recovery_offer cfg now (beginRecovery cfg now 0 ''ice_restart'' s)"

definition connectedDuringRecovery :: "instant \<Rightarrow> peer_session \<Rightarrow> peer_session" where
  "connectedDuringRecovery now s =
    (if s_closed (ps_session s) \<or> pr_status (ps_recovery s) = PeerRecoveryStatusIdle then s
     else if no_active_egress (ps_session s) \<or> s_aiInputPaused (ps_session s) then finishRecoveryLocked now s
     else ps_touch now (s\<lparr>ps_recovery := (ps_recovery s)\<lparr>pr_awaitingMediaFrame := True\<rparr>\<rparr>))"

definition noteProcessedMediaFrame :: "instant \<Rightarrow> peer_session \<Rightarrow> peer_session" where
  "noteProcessedMediaFrame now s =
    (if s_closed (ps_session s) \<or> pr_status (ps_recovery s) = PeerRecoveryStatusIdle \<or> \<not> pr_awaitingMediaFrame (ps_recovery s)
        \<or> \<not> ps_connected s then s
     else finishRecoveryLocked now s)"

definition cancelRecoveryLocked :: "peer_session \<Rightarrow> peer_session" where
  "cancelRecoveryLocked s = s\<lparr>ps_recovery := (ps_recovery s)\<lparr>pr_debounceTimer := False, pr_deadlineTimer := False,
     pr_status := PeerRecoveryStatusIdle, pr_deadline := None, pr_lastError := None, pr_awaitingMediaFrame := False,
     pr_attempts := 0, pr_generation := pr_generation (ps_recovery s) + 1\<rparr>\<rparr>"

datatype connection_state = Connected | Disconnected | Failed | Closed

text \<open>The callback of \<open>OnConnectionStateChange\<close>, first its locked part, then the call it makes.\<close>

definition connection_noted :: "instant \<Rightarrow> connection_state \<Rightarrow> peer_session \<Rightarrow> peer_session" where
  "connection_noted now st s = ps_touch now (s\<lparr>ps_wasConnected := (ps_wasConnected s \<or> st = Connected)\<rparr>)"

definition connection_call :: "recovery_config \<Rightarrow> instant \<Rightarrow> connection_state \<Rightarrow> peer_session \<Rightarrow> peer_session" where
  "connection_call cfg now st s = (case st of
      Connected \<Rightarrow> connectedDuringRecovery now s
    | Disconnected \<Rightarrow> scheduleDisconnectedRecovery cfg now s
    | Failed \<Rightarrow> if ps_wasConnected s then beginRecovery cfg now 0 ''peer_connection_failed'' s
               else s\<lparr>ps_deletes := ''peer_connection_failed'' # ps_deletes s\<rparr>
    | Closed \<Rightarrow> if s_closed (ps_session s) then s else s\<lparr>ps_deletes := ''peer_connection_closed'' # ps_deletes s\<rparr>)"

subsection \<open>All interleavings\<close>

text \<open>
  \<open>REnv\<close> is any other operation on the session (starting, pausing, stopping egresses): none of them
  starts an input recovery of an egress or reopens the session. \<open>RLink\<close> is a change of what
  \<open>PC.ConnectionState\<close> answers. The two parts of the connection callback and of \<open>registerRecoveryOffer\<close>
  are events of their own.
\<close>

datatype rc_event =
    REnv Session
  | RLink bool
  | RNoted instant connection_state
  | RCall instant connection_state
  | RDebounce instant nat
  | RExpire instant nat
  | ROffer instant
  | RCount instant
  | RFrame instant
  | RClose instant

fun rc_step :: "recovery_config \<Rightarrow> peer_session \<Rightarrow> rc_event \<Rightarrow> peer_session" where
  "rc_step cfg x (REnv s) = x\<lparr>ps_session := s\<rparr>"
| "rc_step cfg x (RLink b) = x\<lparr>ps_connected := b\<rparr>"
| "rc_step cfg x (RNoted now st) = connection_noted now st x"
| "rc_step cfg x (RCall now st) = connection_call cfg now st x"
| "rc_step cfg x (RDebounce now g) = beginRecovery cfg now g ''peer_connection_disconnected'' x"
| "rc_step cfg x (RExpire now g) = expireRecovery g x"
| "rc_step cfg x (ROffer now) = beginRecovery cfg now 0 ''ice_restart'' x"
| "rc_step cfg x (RCount now) = snd (count_recovery_offer cfg now x)"
| "rc_step cfg x (RFrame now) = noteProcessedMediaFrame now x"
| "rc_step cfg x (RClose now) = (let x = (if s_closed (ps_session x) then x else cancelRecoveryLocked x) in
     x\<lparr>ps_session := close now (ps_session x)\<rparr>)"

definition covered_target :: "streamTarget \<Rightarrow> bool" where
  "covered_target t = (egress_active t \<and> (case t_egress t of None \<Rightarrow> False | Some e \<Rightarrow> InputRecovering (status (eg_core e))))"

definition covered :: "Session \<Rightarrow> bool" where
  "covered s = list_ex (\<lambda>(p, t). covered_target t) (s_targets s)"

fun rc_allowed :: "peer_session \<Rightarrow> rc_event \<Rightarrow> bool" where
  "rc_allowed x (REnv s) = (s_closed s = s_closed (ps_session x) \<and> (covered s \<longrightarrow> covered (ps_session x)))"
| "rc_allowed x (RDebounce now g) = (\<exists>d\<le>now. DebounceCallback d g \<in> ps_callbacks x)"
| "rc_allowed x (RExpire now g) = (\<exists>d\<le>now. DeadlineCallback d g \<in> ps_callbacks x)"
| "rc_allowed x _ = True"

definition fresh_peer :: "peer_session \<Rightarrow> bool" where
  "fresh_peer x = (ps_recovery x = \<lparr>pr_status = PeerRecoveryStatusIdle, pr_attempts = 0, pr_deadline = None, pr_lastError = None,
     pr_generation = 0, pr_debounceTimer = False, pr_deadlineTimer = False, pr_awaitingMediaFrame = False\<rparr>
     \<and> ps_callbacks x = {} \<and> ps_deletes x = [] \<and> s_targets (ps_session x) = [] \<and> \<not> s_closed (ps_session x))"

inductive rc_reach :: "recovery_config \<Rightarrow> peer_session \<Rightarrow> bool" for cfg where
  rc_init: "fresh_peer x \<Longrightarrow> rc_reach cfg x"
| rc_next: "rc_reach cfg x \<Longrightarrow> rc_allowed x e \<Longrightarrow> rc_reach cfg (rc_step cfg x e)"

subsection \<open>The invariant\<close>

definition rc_inv :: "recovery_config \<Rightarrow> peer_session \<Rightarrow> bool" where
  "rc_inv cfg x = (let r = ps_recovery x in
     (pr_status r = PeerRecoveryStatusRecovering) = (pr_deadline r \<noteq> None)
     \<and> (\<forall>d g. DeadlineCallback d g \<in> ps_callbacks x \<longrightarrow> g \<le> pr_generation r
          \<and> (g = pr_generation r \<and> pr_status r \<noteq> PeerRecoveryStatusIdle \<longrightarrow> pr_deadline r = Some d))
     \<and> (\<forall>d. pr_deadline r = Some d \<longrightarrow> DeadlineCallback d (pr_generation r) \<in> ps_callbacks x)
     \<and> int (pr_attempts r) \<le> recoveryMaxAttempts cfg
     \<and> (pr_status r = PeerRecoveryStatusIdle \<and> \<not> s_closed (ps_session x) \<longrightarrow> \<not> covered (ps_session x)))"

lemma max_attempts_pos: "0 < recoveryMaxAttempts cfg"
  by (simp add: recoveryMaxAttempts_def)

lemma touch_simps [simp]:
  "ps_recovery (ps_touch now x) = ps_recovery x" "ps_callbacks (ps_touch now x) = ps_callbacks x"
  "ps_deletes (ps_touch now x) = ps_deletes x" "s_closed (ps_session (ps_touch now x)) = s_closed (ps_session x)"
  "covered (ps_session (ps_touch now x)) = covered (ps_session x)" "ps_wasConnected (ps_touch now x) = ps_wasConnected x"
  "ps_connected (ps_touch now x) = ps_connected x"
  by (simp_all add: ps_touch_def covered_def)

lemma on_active_closed [simp]: "s_closed (on_active_egresses f s) = s_closed s"
  by (simp add: on_active_egresses_def)

lemma EndInputRecovery_effect:
  "\<not> InputRecovering (status (snd (EndInputRecovery now c)))" "Phase (status (snd (EndInputRecovery now c))) = Phase (status c)"
  by (simp_all add: EndInputRecovery_def applyAudioMuteLocked_def)

lemma end_uncovers [simp]: "\<not> covered (on_active_egresses (\<lambda>c. snd (EndInputRecovery now c)) s)"
  by (auto simp: covered_def on_active_egresses_def list_ex_iff covered_target_def on_active_def egress_active_def egress_stopped_def
      EndInputRecovery_effect split: option.splits if_splits)

lemma finish_inv: "rc_inv cfg x \<Longrightarrow> rc_inv cfg (finishRecoveryLocked now x)"
  using max_attempts_pos [of cfg] by (auto simp: rc_inv_def finishRecoveryLocked_def Let_def)

lemma schedule_inv: "rc_inv cfg x \<Longrightarrow> rc_inv cfg (scheduleDisconnectedRecovery cfg now x)"
  by (fastforce simp: rc_inv_def scheduleDisconnectedRecovery_def Let_def)

definition begin_refused :: "nat \<Rightarrow> string \<Rightarrow> peer_session \<Rightarrow> bool" where
  "begin_refused g why x = (s_closed (ps_session x) \<or> (\<not> ps_wasConnected x \<and> why \<noteq> ''ice_restart'') \<or> (g \<noteq> 0 \<and> g \<noteq> pr_generation (ps_recovery x)))"

lemma beginRecovery_cases:
  "begin_refused g why x \<Longrightarrow> beginRecovery cfg now g why x = x"
  "\<not> begin_refused g why x \<Longrightarrow> g \<noteq> 0 \<and> ps_connected x \<Longrightarrow> beginRecovery cfg now g why x = finishRecoveryLocked now x"
  by (auto simp: beginRecovery_def begin_refused_def Let_def)

lemma begin_inv: "rc_inv cfg x \<Longrightarrow> rc_inv cfg (beginRecovery cfg now g why x)"
proof -
  assume i: "rc_inv cfg x"
  show ?thesis
  proof (cases "begin_refused g why x \<or> g \<noteq> 0 \<and> ps_connected x")
    case True
    then show ?thesis using i finish_inv beginRecovery_cases by metis
  next
    case go: False
    have le: "h \<le> pr_generation (ps_recovery x)" if "DeadlineCallback d h \<in> ps_callbacks x" for d h
      using i that by (simp add: rc_inv_def Let_def)
    have att: "int (pr_attempts (ps_recovery x)) \<le> recoveryMaxAttempts cfg" using i by (simp add: rc_inv_def Let_def)
    show ?thesis
    proof (cases "pr_status (ps_recovery x)")
      case PeerRecoveryStatusIdle
      then have "pr_deadline (ps_recovery x) = None" using i by (simp add: rc_inv_def Let_def)
      with PeerRecoveryStatusIdle go att show ?thesis
        by (auto simp: rc_inv_def beginRecovery_def begin_refused_def Let_def dest: le)
    next
      case PeerRecoveryStatusWaiting
      then have "pr_deadline (ps_recovery x) = None" using i by (simp add: rc_inv_def Let_def)
      moreover have "DeadlineCallback d (pr_generation (ps_recovery x)) \<notin> ps_callbacks x" for d
        using i PeerRecoveryStatusWaiting calculation by (auto simp: rc_inv_def Let_def)
      ultimately show ?thesis using PeerRecoveryStatusWaiting go att
        by (auto simp: rc_inv_def beginRecovery_def begin_refused_def Let_def dest: le)
    next
      case PeerRecoveryStatusRecovering
      with i go show ?thesis by (auto simp: rc_inv_def beginRecovery_def begin_refused_def Let_def)
    qed
  qed
qed

lemma rc_step_inv:
  assumes i: "rc_inv cfg x" and a: "rc_allowed x e"
  shows "rc_inv cfg (rc_step cfg x e)"
proof (cases e)
  case (RCall now st)
  then show ?thesis
    using i finish_inv [OF i, of now] begin_inv [OF i] schedule_inv [OF i]
    by (cases st) (auto simp: connection_call_def connectedDuringRecovery_def rc_inv_def Let_def)
next
  case (RFrame now)
  then show ?thesis using i finish_inv [OF i, of now] by (simp add: noteProcessedMediaFrame_def)
next
  case (RClose now)
  then show ?thesis using i max_attempts_pos [of cfg]
    by (cases "s_closed (ps_session x)") (auto simp: rc_inv_def cancelRecoveryLocked_def Let_def close_def intro: le_SucI)
qed (use i a begin_inv [OF i] in \<open>auto simp: rc_inv_def Let_def expireRecovery_def count_recovery_offer_def connection_noted_def\<close>)

lemma rc_reach_inv: "rc_reach cfg x \<Longrightarrow> rc_inv cfg x"
proof (induction rule: rc_reach.induct)
  case (rc_init x)
  then show ?case using max_attempts_pos [of cfg] by (simp add: fresh_peer_def rc_inv_def covered_def)
next
  case (rc_next x e)
  then show ?case by (simp add: rc_step_inv)
qed

lemma finish_callbacks [simp]: "ps_callbacks (finishRecoveryLocked now x) = ps_callbacks x"
  by (simp add: finishRecoveryLocked_def Let_def)

lemma callbacks_grow: "ps_callbacks x \<subseteq> ps_callbacks (rc_step cfg x e)"
  by (cases e) (auto simp: connection_noted_def connection_call_def connectedDuringRecovery_def scheduleDisconnectedRecovery_def
      beginRecovery_def expireRecovery_def count_recovery_offer_def noteProcessedMediaFrame_def cancelRecoveryLocked_def Let_def
      split: connection_state.splits)

fun rc_run :: "recovery_config \<Rightarrow> peer_session \<Rightarrow> rc_event list \<Rightarrow> peer_session" where
  "rc_run cfg x [] = x"
| "rc_run cfg x (e # es) = rc_run cfg (rc_step cfg x e) es"

fun rc_ok :: "recovery_config \<Rightarrow> peer_session \<Rightarrow> rc_event list \<Rightarrow> bool" where
  "rc_ok cfg x [] = True"
| "rc_ok cfg x (e # es) = (rc_allowed x e \<and> rc_ok cfg (rc_step cfg x e) es)"

lemma rc_run_reach: "rc_reach cfg x \<Longrightarrow> rc_ok cfg x es \<Longrightarrow> rc_reach cfg (rc_run cfg x es)"
  by (induction es arbitrary: x) (auto intro: rc_reach.intros)

lemma callbacks_grow_run: "ps_callbacks x \<subseteq> ps_callbacks (rc_run cfg x es)"
  by (induction es arbitrary: x) (auto dest: subsetD [OF callbacks_grow])

abbreviation recovering :: "peer_session \<Rightarrow> bool" where
  "recovering x \<equiv> pr_status (ps_recovery x) = PeerRecoveryStatusRecovering"


definition demo_peer :: peer_session where
  "demo_peer = \<lparr>ps_session = \<lparr>s_ID = ''s'', s_UserID = 7, s_Provider = ''youtube'', s_Plan = ''beam'', s_AIProcessing = ''server'',
       s_FaceAnonymization = '''', s_targets = [], s_closed = False, s_aiInputPaused = False, s_broadcast = None,
       s_chzzkBroadcast = None, s_resolution = ''720p'', s_pinLongEdge = 0, s_rawTrackID = ''v'', s_videoTrack = None,
       s_trackCancel = False, s_directStops = Map.empty, s_UpdatedAt = 0, s_lastActivityAt = 0, s_heartbeat = 0, s_mediaIdleReset = 0\<rparr>,
     ps_wasConnected = False,
     ps_recovery = \<lparr>pr_status = PeerRecoveryStatusIdle, pr_attempts = 0, pr_deadline = None, pr_lastError = None,
       pr_generation = 0, pr_debounceTimer = False, pr_deadlineTimer = False, pr_awaitingMediaFrame = False\<rparr>,
     ps_connected = True, ps_callbacks = {}, ps_deletes = []\<rparr>"

definition demo_config :: recovery_config where
  "demo_config = \<lparr>WebRTCRecoveryWindow = 50, WebRTCRecoveryDebounce = 2, DisconnectedGracePeriod = 0, WebRTCRecoveryAttempts = 1\<rparr>"

definition demo_recovery :: "rc_event list" where
  "demo_recovery = [RNoted 1 Connected, RLink False, RCall 10 Disconnected, RDebounce 12 1, ROffer 13, RCount 14, RCount 15]"


end
