(* ===== verification/UpgradeOffer.thy ===== *)
theory UpgradeOffer
  imports Broadcast BroadcastLimits "HOL-Library.Product_Lexorder"
begin

text \<open>
  Offers of a higher quality (\<^verbatim>\<open>internal/server/upgrade_offer.go\<close>, \<^verbatim>\<open>internal/session/upgrade_offer.go\<close>)
  and the state of a switch of the broadcast mode (\<^verbatim>\<open>internal/session/resolution_switch.go\<close>), on top of
  the slot budget: which options a session is offered, the units held back for them, the choice, refusal
  and expiry of an offer, and what becomes of the held units. A timer is the due time and the offer of
  its callback; the pointer of an offer is a number.
\<close>

subsection \<open>Options, offers and switches\<close>

record RestartEffect =
  re_Provider :: string
  re_SameLink :: bool
  re_GapSeconds :: int

record UpgradeOption =
  uo_Mode :: Mode
  uo_Resolution :: string
  uo_Targets :: "string list"
  uo_UnitsTo :: int
  uo_RemainingSecondsAfter :: "int option"
  uo_NeedsSettings :: bool
  uo_RestartsBroadcast :: bool
  uo_RestartEffects :: "RestartEffect list"

record UpgradeOffer =
  of_Resolution :: string
  of_Mode :: Mode
  of_UnitsFrom :: int
  of_UnitsTo :: int
  of_RemainingSecondsAfter :: "int option"
  of_Options :: "UpgradeOption list"
  of_Selected :: Mode
  of_ExpiresAt :: instant

record ResolutionSwitchFailure =
  fl_Provider :: string
  fl_Code :: string

abbreviation ResolutionSwitchSwitching :: string where "ResolutionSwitchSwitching \<equiv> ''switching''"
abbreviation ResolutionSwitchDone :: string where "ResolutionSwitchDone \<equiv> ''done''"
abbreviation ResolutionSwitchFailed :: string where "ResolutionSwitchFailed \<equiv> ''failed''"
abbreviation ResolutionSwitchCanceled :: string where "ResolutionSwitchCanceled \<equiv> ''canceled''"

record ResolutionSwitchState =
  sw_Status :: string
  sw_Resolution :: string
  sw_Targets :: "string list"
  sw_FailedTargets :: "ResolutionSwitchFailure list"
  sw_StartedAt :: instant
  sw_FinishedAt :: "instant option"

record upgrade_session =
  us_session :: Session
  us_CreatedAt :: instant
  us_upgradeOffer :: "(nat \<times> UpgradeOffer) option"
  us_upgradeOffered :: bool
  us_upgradeTimer :: "(instant \<times> nat) option"
  us_resolutionSwitch :: "ResolutionSwitchState option"

definition us_touch :: "instant \<Rightarrow> upgrade_session \<Rightarrow> upgrade_session" where
  "us_touch now s = s\<lparr>us_session := (us_session s)\<lparr>s_UpdatedAt := now\<rparr>\<rparr>"

subsection \<open>The state of a switch\<close>

definition ResolutionSwitching :: "upgrade_session \<Rightarrow> bool" where
  "ResolutionSwitching s = (case us_resolutionSwitch s of None \<Rightarrow> False | Some w \<Rightarrow> sw_Status w = ResolutionSwitchSwitching)"

definition switch_canceled :: "upgrade_session \<Rightarrow> bool" where
  "switch_canceled s = (case us_resolutionSwitch s of None \<Rightarrow> False | Some w \<Rightarrow> sw_Status w = ResolutionSwitchCanceled)"

definition clearUpgradeOfferLocked :: "instant \<Rightarrow> upgrade_session \<Rightarrow> upgrade_session" where
  "clearUpgradeOfferLocked now s = us_touch now (s\<lparr>us_upgradeTimer := None, us_upgradeOffer := None\<rparr>)"

definition BeginResolutionSwitch :: "instant \<Rightarrow> string \<Rightarrow> string list \<Rightarrow> upgrade_session \<Rightarrow> bool \<times> upgrade_session" where
  "BeginResolutionSwitch now resolution targets s =
    (if ResolutionSwitching s then (False, s)
     else let s = (if us_upgradeOffer s \<noteq> None then clearUpgradeOfferLocked now s else s) in
       (True, us_touch now (s\<lparr>us_resolutionSwitch := Some \<lparr>sw_Status = ResolutionSwitchSwitching, sw_Resolution = resolution,
          sw_Targets = targets, sw_FailedTargets = [], sw_StartedAt = now, sw_FinishedAt = None\<rparr>\<rparr>)))"

definition DiscardResolutionSwitch :: "upgrade_session \<Rightarrow> upgrade_session" where
  "DiscardResolutionSwitch s = s\<lparr>us_resolutionSwitch := None\<rparr>"

definition CancelResolutionSwitch :: "instant \<Rightarrow> upgrade_session \<Rightarrow> upgrade_session" where
  "CancelResolutionSwitch now s = (case us_resolutionSwitch s of
      None \<Rightarrow> s
    | Some w \<Rightarrow> if sw_Status w \<noteq> ResolutionSwitchSwitching then s
        else s\<lparr>us_resolutionSwitch := Some (w\<lparr>sw_Status := ResolutionSwitchCanceled, sw_FinishedAt := Some now\<rparr>)\<rparr>)"

definition FinishResolutionSwitch :: "instant \<Rightarrow> ResolutionSwitchFailure list \<Rightarrow> upgrade_session \<Rightarrow> upgrade_session" where
  "FinishResolutionSwitch now fs s = (case us_resolutionSwitch s of
      None \<Rightarrow> s
    | Some w \<Rightarrow> if sw_Status w \<noteq> ResolutionSwitchSwitching then s
        else us_touch now (s\<lparr>us_resolutionSwitch := Some (w\<lparr>sw_FailedTargets := fs,
          sw_Status := (if length fs \<ge> length (sw_Targets w) then ResolutionSwitchFailed else ResolutionSwitchDone),
          sw_FinishedAt := Some now\<rparr>)\<rparr>))"

subsection \<open>Offering, choosing, refusing and expiring\<close>

datatype upgrade_error =
    UpgradeNotFound
  | ErrUpgradeNotOfferable
  | ErrNoUpgradeOffer
  | ErrUpgradeOptionNotFound
  | ErrHold egressError

definition slots_hold :: "EgressClaim \<Rightarrow> int \<Rightarrow> EgressSlotBudget option \<Rightarrow> (egressError + unit) \<times> EgressSlotBudget option" where
  "slots_hold claim n sl = (case sl of None \<Rightarrow> (Ok (), None) | Some b \<Rightarrow> (let (r, b) = Hold claim n b in (r, Some b)))"

text \<open>The loop over the options, the largest first: the last refusal (nil when an option was held), the units held.\<close>

fun hold_loop :: "EgressClaim \<Rightarrow> int \<Rightarrow> egressError option \<Rightarrow> UpgradeOption list \<Rightarrow> EgressSlotBudget option \<Rightarrow>
    egressError option \<times> int \<times> EgressSlotBudget option" where
  "hold_loop claim unitsFrom holdErr [] sl = (holdErr, 0, sl)"
| "hold_loop claim unitsFrom holdErr (x # xs) sl = (case slots_hold claim (uo_UnitsTo x - unitsFrom) sl of
      (Inr _, sl) \<Rightarrow> (None, uo_UnitsTo x - unitsFrom, sl)
    | (Inl e, sl) \<Rightarrow> hold_loop claim unitsFrom (Some e) xs sl)"

definition offer_claim :: "Session \<Rightarrow> EgressClaim" where
  "offer_claim s = \<lparr>Owner = s_ID s, HighRes = False, Tier = egressTierFor (s_Plan s), Group = egressGroupFor (s_Plan s)\<rparr>"

definition pending_offer :: "int \<Rightarrow> UpgradeOffer \<Rightarrow> UpgradeOffer" where
  "pending_offer hu offer =
    (let options = filter (\<lambda>x. \<not> uo_UnitsTo x - of_UnitsFrom offer > hu) (of_Options offer); first = hd options in
     offer\<lparr>of_Options := options, of_Resolution := uo_Resolution first, of_Mode := uo_Mode first,
       of_UnitsTo := uo_UnitsTo first, of_RemainingSecondsAfter := uo_RemainingSecondsAfter first\<rparr>)"

text \<open>\<open>OfferUpgrade\<close> once the session is found; \<open>ref\<close> is the address of the new offer.\<close>

definition offer_upgrade :: "instant \<Rightarrow> nat \<Rightarrow> UpgradeOffer \<Rightarrow> duration \<Rightarrow> upgrade_session \<Rightarrow> EgressSlotBudget option \<Rightarrow>
    upgrade_error option \<times> upgrade_session \<times> EgressSlotBudget option" where
  "offer_upgrade now ref offer ttl s sl =
    (if s_closed (us_session s) \<or> us_upgradeOffered s \<or> length (of_Options offer) = 0 \<or> ResolutionSwitching s
     then (Some ErrUpgradeNotOfferable, s, sl)
     else let options = sort_key (\<lambda>x. - uo_UnitsTo x) (of_Options offer) in
       case hold_loop (offer_claim (us_session s)) (of_UnitsFrom offer) None options sl of
         (Some e, _, sl) \<Rightarrow> (Some (ErrHold e), s, sl)
       | (None, hu, sl) \<Rightarrow> (None, us_touch now (s\<lparr>us_upgradeOffer := Some (ref, pending_offer hu offer),
             us_upgradeOffered := True, us_upgradeTimer := Some (now + ttl, ref)\<rparr>), sl))"

definition select_upgrade_option :: "instant \<Rightarrow> Mode \<Rightarrow> duration \<Rightarrow> upgrade_session \<Rightarrow> upgrade_error option \<times> upgrade_session" where
  "select_upgrade_option now mode ttl s = (case us_upgradeOffer s of
      None \<Rightarrow> (Some ErrNoUpgradeOffer, s)
    | Some (ref, offer) \<Rightarrow>
        if \<not> list_ex (\<lambda>x. uo_Mode x = mode) (of_Options offer) then (Some ErrUpgradeOptionNotFound, s)
        else (None, us_touch now (s\<lparr>us_upgradeOffer := Some (ref, offer\<lparr>of_Selected := mode, of_ExpiresAt := now + ttl\<rparr>),
               us_upgradeTimer := Some (now + ttl, ref)\<rparr>)))"

text \<open>The locked parts of \<open>DeclineUpgradeOffer\<close> and \<open>expireUpgradeOffer\<close>; the result says whether the caller releases the hold.\<close>

definition decline_upgrade_offer :: "instant \<Rightarrow> upgrade_session \<Rightarrow> bool \<times> upgrade_session" where
  "decline_upgrade_offer now s = (if us_upgradeOffer s = None then (False, s) else (True, clearUpgradeOfferLocked now s))"

definition expire_upgrade_offer :: "instant \<Rightarrow> nat \<Rightarrow> upgrade_session \<Rightarrow> bool \<times> upgrade_session" where
  "expire_upgrade_offer now ref s =
    (if map_option fst (us_upgradeOffer s) \<noteq> Some ref then (False, s) else (True, clearUpgradeOfferLocked now s))"

subsection \<open>The operations of the manager\<close>

record upgrade_manager =
  um_sessions :: "(string \<times> upgrade_session) list"
  um_slots :: "EgressSlotBudget option"

definition um_put :: "string \<Rightarrow> upgrade_session \<Rightarrow> upgrade_manager \<Rightarrow> upgrade_manager" where
  "um_put i s m = m\<lparr>um_sessions := AList.update i s (um_sessions m)\<rparr>"

definition ReleaseUpgradeHold :: "string \<Rightarrow> upgrade_manager \<Rightarrow> upgrade_manager" where
  "ReleaseUpgradeHold i m = m\<lparr>um_slots := map_option (ReleaseHold i) (um_slots m)\<rparr>"

definition OfferUpgrade :: "instant \<Rightarrow> nat \<Rightarrow> string \<Rightarrow> UpgradeOffer \<Rightarrow> duration \<Rightarrow> upgrade_manager \<Rightarrow> upgrade_error option \<times> upgrade_manager" where
  "OfferUpgrade now ref i offer ttl m = (case map_of (um_sessions m) i of
      None \<Rightarrow> (Some UpgradeNotFound, m)
    | Some s \<Rightarrow> (let (err, s, sl) = offer_upgrade now ref offer ttl s (um_slots m) in (err, um_put i s (m\<lparr>um_slots := sl\<rparr>))))"

definition SelectUpgradeOption :: "instant \<Rightarrow> string \<Rightarrow> Mode \<Rightarrow> duration \<Rightarrow> upgrade_manager \<Rightarrow> (upgrade_error + upgrade_session) \<times> upgrade_manager" where
  "SelectUpgradeOption now i mode ttl m = (case map_of (um_sessions m) i of
      None \<Rightarrow> (Err UpgradeNotFound, m)
    | Some s \<Rightarrow> (case select_upgrade_option now mode ttl s of
          (Some e, _) \<Rightarrow> (Err e, m)
        | (None, s) \<Rightarrow> (Ok s, um_put i s m)))"

definition DeclineUpgradeOffer :: "instant \<Rightarrow> string \<Rightarrow> upgrade_manager \<Rightarrow> (upgrade_error + upgrade_session) \<times> upgrade_manager" where
  "DeclineUpgradeOffer now i m = (case map_of (um_sessions m) i of
      None \<Rightarrow> (Err UpgradeNotFound, m)
    | Some s \<Rightarrow> (case decline_upgrade_offer now s of
          (False, _) \<Rightarrow> (Err ErrNoUpgradeOffer, m)
        | (True, s) \<Rightarrow> (Ok s, ReleaseUpgradeHold i (um_put i s m))))"

definition expireUpgradeOffer :: "instant \<Rightarrow> string \<Rightarrow> nat \<Rightarrow> upgrade_manager \<Rightarrow> upgrade_manager" where
  "expireUpgradeOffer now i ref m = (case map_of (um_sessions m) i of
      None \<Rightarrow> ReleaseUpgradeHold i m
    | Some s \<Rightarrow> (case expire_upgrade_offer now ref s of
          (False, _) \<Rightarrow> m
        | (True, s) \<Rightarrow> ReleaseUpgradeHold i (um_put i s m)))"

subsection \<open>Which upgrades are offered\<close>

abbreviation upgradeOfferTTL :: duration where "upgradeOfferTTL \<equiv> 30 * Second"
abbreviation upgradeSelectTTL :: duration where "upgradeSelectTTL \<equiv> 3 * Minute"
abbreviation upgradeMinRemaining :: duration where "upgradeMinRemaining \<equiv> Hour"
abbreviation chzzkRestartGapSeconds :: int where "chzzkRestartGapSeconds \<equiv> 15"

record upgradeCandidate =
  uc_live :: upgrade_session
  uc_unitsFrom :: int
  uc_options :: "UpgradeOption list"

definition restart_effect :: "string \<Rightarrow> RestartEffect" where
  "restart_effect provider = (if provider = ''chzzk'' then \<lparr>re_Provider = provider, re_SameLink = True, re_GapSeconds = chzzkRestartGapSeconds\<rparr>
     else \<lparr>re_Provider = provider, re_SameLink = False, re_GapSeconds = 0\<rparr>)"

definition restartEffects :: "string list \<Rightarrow> RestartEffect list" where
  "restartEffects targets = map restart_effect targets"

text \<open>One iteration of the loop over the modes; \<open>None\<close> is \<^verbatim>\<open>continue\<close>.\<close>

definition upgrade_option :: "Plan \<Rightarrow> bool \<Rightarrow> string list \<Rightarrow> string list \<Rightarrow> duration \<Rightarrow> duration \<Rightarrow> Mode \<Rightarrow> UpgradeOption option" where
  "upgrade_option pl fhd targets addable onAir usedTime mode =
    (let toFHD = (mode = ModeFHDSingle \<or> mode = ModeFHDMulti);
         toMulti = (mode = Mode720pMulti \<or> mode = ModeFHDMulti);
         needsSettings = (toMulti \<and> length targets = 1);
         to = (if needsSettings then targets @ [hd addable] else targets);
         unitsTo = Units toFHD (int (length to));
         remaining = broadcastRemaining pl False onAir usedTime unitsTo in
     if \<not> Allows pl mode False \<or> (fhd \<and> \<not> toFHD) \<or> (length targets > 1 \<and> \<not> toMulti) then None
     else if needsSettings \<and> length addable = 0 then None
     else if unitsTo \<le> Units fhd (int (length targets)) then None
     else if (case remaining of None \<Rightarrow> False | Some r \<Rightarrow> r < upgradeMinRemaining) then None
     else Some \<lparr>uo_Mode = mode, uo_Resolution = (if toFHD then ResolutionFHD else Resolution720p), uo_Targets = to, uo_UnitsTo = unitsTo,
       uo_RemainingSecondsAfter = map_option (\<lambda>r. go_quot r Second) remaining, uo_NeedsSettings = needsSettings,
       uo_RestartsBroadcast = (toFHD \<noteq> fhd), uo_RestartEffects = (if toFHD \<noteq> fhd then restartEffects targets else [])\<rparr>)"

definition upgradeCandidateFor :: "upgrade_session \<Rightarrow> string list \<Rightarrow> string list \<Rightarrow> duration \<Rightarrow> duration \<Rightarrow> upgradeCandidate option" where
  "upgradeCandidateFor live targets addable onAir usedTime =
    (let s = us_session live; fhd = (s_resolution s = ResolutionFHD);
         options = List.map_filter (upgrade_option (s_Plan s) fhd targets addable onAir usedTime) Modes in
     if length targets = 0 \<or> ResolutionSwitching live \<or> us_upgradeOffered live then None
     else if busyTargetCountLocked s \<noteq> length targets then None
     else if s_Plan s \<noteq> Beam \<and> s_Plan s \<noteq> Plasma then None
     else if length options = 0 then None
     else Some \<lparr>uc_live = live, uc_unitsFrom = Units fhd (int (length targets)), uc_options = options\<rparr>)"

text \<open>\<open>streaming\<close> are the platforms of the server, with the answer of their connection check where they have one.\<close>

definition addableProviders :: "(string \<times> (nat \<Rightarrow> string + bool) option) list \<Rightarrow> upgrade_session \<Rightarrow> string list \<Rightarrow> string list" where
  "addableProviders streaming live targets =
    (if us_upgradeOffered live \<or> length targets \<noteq> 1 then []
     else filter (\<lambda>name. case map_of streaming name of
         Some (Some connected) \<Rightarrow> connected (s_UserID (us_session live)) = Inr True
       | _ \<Rightarrow> False)
       (sort_strings (filter (\<lambda>p. p \<notin> set targets) (map fst streaming))))"

definition planRank :: "Plan \<Rightarrow> int" where
  "planRank p = (if p = Plasma then 2 else if p = Beam then 1 else 0)"

definition candidate_order :: "upgradeCandidate \<Rightarrow> int \<times> instant" where
  "candidate_order c = (- planRank (s_Plan (us_session (uc_live c))), us_CreatedAt (uc_live c))"

definition candidate_offer :: "instant \<Rightarrow> upgradeCandidate \<Rightarrow> UpgradeOffer" where
  "candidate_offer now c = \<lparr>of_Resolution = '''', of_Mode = '''', of_UnitsFrom = uc_unitsFrom c, of_UnitsTo = 0,
     of_RemainingSecondsAfter = None, of_Options = uc_options c, of_Selected = '''', of_ExpiresAt = now + upgradeOfferTTL\<rparr>"

fun offer_all :: "instant \<Rightarrow> nat \<Rightarrow> upgradeCandidate list \<Rightarrow> upgrade_manager \<Rightarrow> upgrade_manager" where
  "offer_all now ref [] m = m"
| "offer_all now ref (c # cs) m =
    offer_all now (Suc ref) cs (snd (OfferUpgrade now ref (s_ID (us_session (uc_live c))) (candidate_offer now c) upgradeOfferTTL m))"

definition offerUpgrades :: "instant \<Rightarrow> nat \<Rightarrow> upgradeCandidate list \<Rightarrow> upgrade_manager \<Rightarrow> upgrade_manager" where
  "offerUpgrades now ref candidates m = offer_all now ref (sort_key candidate_order candidates) m"

subsection \<open>Targets that stay paused across a switch\<close>

definition target_paused :: "streamTarget \<Rightarrow> bool" where
  "target_paused t = (t_phase t = BroadcastPhaseLive \<and> t_stopReason t = None \<and> (case t_egress t of
      None \<Rightarrow> False
    | Some e \<Rightarrow> Phase (status (eg_core e)) \<in> {EgressPhasePaused, EgressPhasePausedReconfiguring, EgressPhasePausedReconnecting}))"

text \<open>The order of the providers is that of the Go map, which is arbitrary.\<close>

definition PausedTargets :: "Session \<Rightarrow> string list" where
  "PausedTargets s = map fst (filter (\<lambda>(p, t). target_paused t) (s_targets s))"

definition pausedAfterSwitch :: "string list \<Rightarrow> string list \<Rightarrow> string list \<Rightarrow> string list" where
  "pausedAfterSwitch live paused to = (if length live > 0 \<and> length paused \<ge> length live then to else paused)"

subsection \<open>The options\<close>

text \<open>
  What an upgrade should be, without the loop over the modes: the targets stay, at most one platform is
  added to a single target, the resolution does not fall, more units are used than now, the plan
  allows it and an hour is left at the new rate.
\<close>

definition is_upgrade :: "Plan \<Rightarrow> bool \<Rightarrow> string list \<Rightarrow> string list \<Rightarrow> duration \<Rightarrow> duration \<Rightarrow> bool \<Rightarrow> string list \<Rightarrow> bool" where
  "is_upgrade pl fhd targets addable onAir usedTime toFHD to \<longleftrightarrow>
     (to = targets \<or> (length targets = 1 \<and> addable \<noteq> [] \<and> to = targets @ [hd addable]))
   \<and> (fhd \<longrightarrow> toFHD)
   \<and> Units fhd (int (length targets)) < Units toFHD (int (length to))
   \<and> planGateError pl False toFHD (int (length to)) = None
   \<and> (\<forall>r. broadcastRemaining pl False onAir usedTime (Units toFHD (int (length to))) = Some r \<longrightarrow> Hour \<le> r)"

lemma gate_none_iff: "pl \<noteq> '''' \<Longrightarrow> planGateError pl dev fhd n = None \<longleftrightarrow> Allows pl (ModeFor fhd n) dev"
  by (simp add: planGateError_def Let_def)

lemma map_filter_set: "x \<in> set (List.map_filter f xs) \<longleftrightarrow> (\<exists>y\<in>set xs. f y = Some x)"
  by (induction xs) (auto simp: List.map_filter_simps split: option.splits)

definition mode_at :: "bool \<Rightarrow> bool \<Rightarrow> Mode" where
  "mode_at f m = ModeFor f (if m then 2 else 1)"

lemma mode_at_flags:
  "(mode_at f m = ModeFHDSingle \<or> mode_at f m = ModeFHDMulti) = f"
  "(mode_at f m = Mode720pMulti \<or> mode_at f m = ModeFHDMulti) = m"
  by (cases f; cases m; simp add: mode_at_def ModeFor_def)+

lemma Modes_at: "mode \<in> set Modes \<longleftrightarrow> (\<exists>f m. mode = mode_at f m)"
proof -
  have "set Modes = {mode_at False False, mode_at True False, mode_at False True, mode_at True True}"
    unfolding Modes_def mode_at_def ModeFor_def by simp
  then show ?thesis by (simp add: ex_bool_eq disj_ac)
qed

lemma ModeFor_at: "ModeFor f n = mode_at f (n > 1)"
  by (simp add: mode_at_def ModeFor_def)

definition upgrade_to :: "string list \<Rightarrow> string list \<Rightarrow> bool \<Rightarrow> string list" where
  "upgrade_to targets addable m = (if m \<and> length targets = 1 then targets @ [hd addable] else targets)"

lemma upgrade_option_at:
  "upgrade_option pl fhd targets addable onAir usedTime (mode_at f m) = Some x \<longleftrightarrow>
     Allows pl (mode_at f m) False \<and> (fhd \<longrightarrow> f) \<and> (length targets > 1 \<longrightarrow> m) \<and> (m \<and> length targets = 1 \<longrightarrow> addable \<noteq> [])
     \<and> Units fhd (int (length targets)) < Units f (int (length (upgrade_to targets addable m)))
     \<and> (\<forall>r. broadcastRemaining pl False onAir usedTime (Units f (int (length (upgrade_to targets addable m)))) = Some r \<longrightarrow> Hour \<le> r)
     \<and> x = \<lparr>uo_Mode = mode_at f m, uo_Resolution = (if f then ResolutionFHD else Resolution720p), uo_Targets = upgrade_to targets addable m,
         uo_UnitsTo = Units f (int (length (upgrade_to targets addable m))),
         uo_RemainingSecondsAfter = map_option (\<lambda>r. go_quot r Second)
           (broadcastRemaining pl False onAir usedTime (Units f (int (length (upgrade_to targets addable m))))),
         uo_NeedsSettings = (m \<and> length targets = 1), uo_RestartsBroadcast = (f \<noteq> fhd),
         uo_RestartEffects = (if f \<noteq> fhd then restartEffects targets else [])\<rparr>"
  unfolding upgrade_option_def Let_def mode_at_flags upgrade_to_def [symmetric]
  by (auto simp: not_less split: option.split)

lemma upgrade_to_length:
  "targets \<noteq> [] \<Longrightarrow> (length targets > 1 \<longrightarrow> m) \<Longrightarrow> mode_at f (Suc 0 < length (upgrade_to targets addable m)) = mode_at f m"
  by (rule arg_cong [where f = "mode_at f"]) (cases targets, auto simp: upgrade_to_def)

lemma upgrade_option_iff:
  assumes "targets \<noteq> []" and "pl \<noteq> ''''"
  shows "(\<exists>mode\<in>set Modes. \<exists>x. upgrade_option pl fhd targets addable onAir usedTime mode = Some x \<and> uo_Targets x = to
      \<and> uo_Resolution x = (if toFHD then ResolutionFHD else Resolution720p)) \<longleftrightarrow> is_upgrade pl fhd targets addable onAir usedTime toFHD to"
    (is "?l \<longleftrightarrow> ?r")
proof
  assume ?l
  then obtain f m x where x: "upgrade_option pl fhd targets addable onAir usedTime (mode_at f m) = Some x" "uo_Targets x = to"
    "uo_Resolution x = (if toFHD then ResolutionFHD else Resolution720p)" by (auto simp: Modes_at)
  then have f: "f = toFHD" by (auto simp: upgrade_option_at split: if_splits)
  note o = x(1) [unfolded upgrade_option_at f]
  with x(2) have to: "to = upgrade_to targets addable m" by simp
  have "Allows pl (ModeFor toFHD (int (length to))) False" using o assms(1) by (simp add: to ModeFor_at upgrade_to_length)
  moreover have "to = targets \<or> (length targets = 1 \<and> addable \<noteq> [] \<and> to = targets @ [hd addable])"
    using o by (auto simp: to upgrade_to_def)
  ultimately show ?r using o assms(2) unfolding is_upgrade_def gate_none_iff [OF assms(2)] to by blast
next
  assume r: ?r
  define m where "m = (length to > 1)"
  have to: "to = upgrade_to targets addable m" "length targets > 1 \<longrightarrow> m" "m \<and> length targets = 1 \<longrightarrow> addable \<noteq> []"
    using r assms(1) by (auto simp: is_upgrade_def upgrade_to_def m_def)
  have "\<exists>x. upgrade_option pl fhd targets addable onAir usedTime (mode_at toFHD m) = Some x \<and> uo_Targets x = to
      \<and> uo_Resolution x = (if toFHD then ResolutionFHD else Resolution720p)"
    using r to(2,3) assms unfolding to(1) by (simp add: upgrade_option_at is_upgrade_def gate_none_iff ModeFor_at upgrade_to_length)
  then show ?l using Modes_at by blast
qed

lemma map_filter_Bex: "(\<exists>x\<in>set (List.map_filter f xs). P x) \<longleftrightarrow> (\<exists>y\<in>set xs. \<exists>x. f y = Some x \<and> P x)"
  by (induction xs) (auto simp: List.map_filter_simps split: option.splits)

lemma upgrade_option_fields:
  assumes "upgrade_option pl fhd targets addable onAir usedTime mode = Some x" and "mode \<in> set Modes" and "targets \<noteq> []"
  shows "uo_Resolution x \<in> {Resolution720p, ResolutionFHD}
    \<and> uo_Mode x = ModeFor (uo_Resolution x = ResolutionFHD) (int (length (uo_Targets x)))
    \<and> uo_UnitsTo x = Units (uo_Resolution x = ResolutionFHD) (int (length (uo_Targets x)))
    \<and> (uo_NeedsSettings x \<longleftrightarrow> uo_Targets x \<noteq> targets)
    \<and> (uo_RestartsBroadcast x \<longleftrightarrow> (uo_Resolution x = ResolutionFHD) \<noteq> fhd)"
proof -
  obtain f m where "mode = mode_at f m" using assms(2) by (auto simp: Modes_at)
  note o = assms(1) [unfolded this upgrade_option_at]
  from o have r: "(uo_Resolution x = ResolutionFHD) = f" "uo_Resolution x \<in> {Resolution720p, ResolutionFHD}" by auto
  from o have t: "uo_Targets x = upgrade_to targets addable m" by simp
  have "uo_Mode x = ModeFor f (int (length (uo_Targets x)))" using o assms(3) by (simp add: t ModeFor_at upgrade_to_length)
  moreover have "uo_NeedsSettings x \<longleftrightarrow> uo_Targets x \<noteq> targets" unfolding t using o by (simp add: upgrade_to_def)
  ultimately show ?thesis unfolding r using r(2) o by simp
qed

lemma some_option_iff: "length (List.map_filter f xs) = 0 \<longleftrightarrow> (\<forall>y\<in>set xs. f y = None)"
  by (induction xs) (auto simp: List.map_filter_simps split: option.splits)

lemma upgradeCandidateFor_Some:
  assumes "upgradeCandidateFor live targets addable onAir usedTime = Some c"
  shows "targets \<noteq> []" and "s_Plan (us_session live) \<in> {Beam, Plasma}" and "uc_live c = live"
    and "uc_unitsFrom c = Units (s_resolution (us_session live) = ResolutionFHD) (int (length targets))"
    and "uc_options c = List.map_filter (upgrade_option (s_Plan (us_session live)) (s_resolution (us_session live) = ResolutionFHD) targets addable onAir usedTime) Modes"
    and "uc_options c \<noteq> []"
proof -
  note u = assms [unfolded upgradeCandidateFor_def Let_def, simplified]
  show "targets \<noteq> []" "s_Plan (us_session live) \<in> {Beam, Plasma}" "uc_live c = live"
    "uc_unitsFrom c = Units (s_resolution (us_session live) = ResolutionFHD) (int (length targets))"
    "uc_options c = List.map_filter (upgrade_option (s_Plan (us_session live)) (s_resolution (us_session live) = ResolutionFHD) targets addable onAir usedTime) Modes"
    "uc_options c \<noteq> []"
    using u by (auto split: if_splits)
qed

text \<open>
  A check of a running broadcast offers exactly the upgrades. There is no candidate when
  nothing runs, a switch is in progress, an offer was made before, a target is in between, the plan is
  not Beam or Plasma, or no upgrade exists. Otherwise the options are precisely the pairs of a resolution
  and a list of targets that keep every target, add at most one connected platform to a single one, do
  not lower the resolution, use more units than now, pass the plan gate of the switch that accepts them,
  and leave at least an hour. Each option carries the units that its broadcast will be charged, and says
  truthfully whether it adds a platform and whether it restarts the broadcast.
\<close>

theorem offers_exactly_the_upgrades:
  fixes live targets addable onAir usedTime
  defines "fhd \<equiv> s_resolution (us_session live) = ResolutionFHD"
  defines "up \<equiv> is_upgrade (s_Plan (us_session live)) fhd targets addable onAir usedTime"
  shows "(upgradeCandidateFor live targets addable onAir usedTime = None \<longleftrightarrow>
       targets = [] \<or> ResolutionSwitching live \<or> us_upgradeOffered live \<or> busyTargetCountLocked (us_session live) \<noteq> length targets
       \<or> s_Plan (us_session live) \<notin> {Beam, Plasma} \<or> (\<forall>toFHD to. \<not> up toFHD to))
    \<and> (\<forall>c. upgradeCandidateFor live targets addable onAir usedTime = Some c \<longrightarrow>
       (\<forall>toFHD to. up toFHD to \<longleftrightarrow>
          (\<exists>x\<in>set (uc_options c). uo_Targets x = to \<and> uo_Resolution x = (if toFHD then ResolutionFHD else Resolution720p)))
       \<and> (\<forall>x\<in>set (uc_options c). uo_UnitsTo x = Units (uo_Resolution x = ResolutionFHD) (int (length (uo_Targets x)))
          \<and> uo_Mode x = ModeFor (uo_Resolution x = ResolutionFHD) (int (length (uo_Targets x)))
          \<and> (uo_NeedsSettings x \<longleftrightarrow> uo_Targets x \<noteq> targets)
          \<and> (uo_RestartsBroadcast x \<longleftrightarrow> (uo_Resolution x = ResolutionFHD) \<noteq> fhd)))"
proof -
  let ?opt = "upgrade_option (s_Plan (us_session live)) fhd targets addable onAir usedTime"
  have ex: "up toFHD to \<longleftrightarrow> (\<exists>mode\<in>set Modes. \<exists>x. ?opt mode = Some x \<and> uo_Targets x = to
      \<and> uo_Resolution x = (if toFHD then ResolutionFHD else Resolution720p))"
    if "targets \<noteq> []" "s_Plan (us_session live) \<in> {Beam, Plasma}" for toFHD to
    unfolding up_def by (rule upgrade_option_iff [OF that(1), symmetric]) (use that(2) in auto)
  have none: "(\<forall>toFHD to. \<not> up toFHD to) \<longleftrightarrow> length (List.map_filter ?opt Modes) = 0"
    if "targets \<noteq> []" "s_Plan (us_session live) \<in> {Beam, Plasma}"
  proof -
    have "\<exists>toFHD to. up toFHD to" if "mode \<in> set Modes" "?opt mode = Some x" for mode x
    proof -
      have "uo_Resolution x = (if uo_Resolution x = ResolutionFHD then ResolutionFHD else Resolution720p)"
        using upgrade_option_fields [OF that(2,1) \<open>targets \<noteq> []\<close>] by auto
      with that ex [OF \<open>targets \<noteq> []\<close> \<open>s_Plan (us_session live) \<in> {Beam, Plasma}\<close>] show ?thesis by blast
    qed
    then have "(\<exists>mode\<in>set Modes. ?opt mode \<noteq> None) \<longleftrightarrow> (\<exists>toFHD to. up toFHD to)" using ex [OF that] by fast
    then show ?thesis unfolding some_option_iff by auto
  qed
  have "upgradeCandidateFor live targets addable onAir usedTime = None \<longleftrightarrow>
       targets = [] \<or> ResolutionSwitching live \<or> us_upgradeOffered live \<or> busyTargetCountLocked (us_session live) \<noteq> length targets
       \<or> s_Plan (us_session live) \<notin> {Beam, Plasma} \<or> length (List.map_filter ?opt Modes) = 0"
    by (simp add: upgradeCandidateFor_def Let_def fhd_def)
  moreover have "(up toFHD to \<longleftrightarrow>
          (\<exists>x\<in>set (uc_options c). uo_Targets x = to \<and> uo_Resolution x = (if toFHD then ResolutionFHD else Resolution720p)))"
    if "upgradeCandidateFor live targets addable onAir usedTime = Some c" for c toFHD to
    unfolding ex [OF upgradeCandidateFor_Some(1,2) [OF that]] upgradeCandidateFor_Some(5) [OF that] fhd_def [symmetric] map_filter_Bex by (rule refl)
  moreover have "\<forall>x\<in>set (uc_options c). uo_UnitsTo x = Units (uo_Resolution x = ResolutionFHD) (int (length (uo_Targets x)))
          \<and> uo_Mode x = ModeFor (uo_Resolution x = ResolutionFHD) (int (length (uo_Targets x)))
          \<and> (uo_NeedsSettings x \<longleftrightarrow> uo_Targets x \<noteq> targets)
          \<and> (uo_RestartsBroadcast x \<longleftrightarrow> (uo_Resolution x = ResolutionFHD) \<noteq> fhd)"
    if "upgradeCandidateFor live targets addable onAir usedTime = Some c" for c
  proof
    fix x assume "x \<in> set (uc_options c)"
    then have "\<exists>mode\<in>set Modes. ?opt mode = Some x"
      unfolding upgradeCandidateFor_Some(5) [OF that] fhd_def [symmetric] map_filter_set .
    then obtain mode where m: "mode \<in> set Modes" "?opt mode = Some x" by blast
    from upgrade_option_fields [OF m(2,1) upgradeCandidateFor_Some(1) [OF that]]
    show "uo_UnitsTo x = Units (uo_Resolution x = ResolutionFHD) (int (length (uo_Targets x)))
          \<and> uo_Mode x = ModeFor (uo_Resolution x = ResolutionFHD) (int (length (uo_Targets x)))
          \<and> (uo_NeedsSettings x \<longleftrightarrow> uo_Targets x \<noteq> targets)
          \<and> (uo_RestartsBroadcast x \<longleftrightarrow> (uo_Resolution x = ResolutionFHD) \<noteq> fhd)" by simp
  qed
  ultimately show ?thesis using none by (cases "targets \<noteq> [] \<and> s_Plan (us_session live) \<in> {Beam, Plasma}") (simp_all only: simp_thms, blast+)
qed

definition demo_live :: upgrade_session where
  "demo_live = \<lparr>us_session = \<lparr>s_ID = ''s'', s_UserID = 7, s_Provider = ''youtube'', s_Plan = Beam, s_AIProcessing = ''server'',
       s_FaceAnonymization = '''', s_targets = [(''youtube'', idle_target\<lparr>t_phase := BroadcastPhaseLive\<rparr>)], s_closed = False,
       s_aiInputPaused = False, s_broadcast = None, s_chzzkBroadcast = None, s_resolution = Resolution720p, s_pinLongEdge = 0,
       s_rawTrackID = ''v'', s_videoTrack = None, s_trackCancel = False, s_directStops = Map.empty, s_UpdatedAt = 0,
       s_lastActivityAt = 0, s_heartbeat = 0, s_mediaIdleReset = 0\<rparr>,
     us_CreatedAt = 0, us_upgradeOffer = None, us_upgradeOffered = False, us_upgradeTimer = None, us_resolutionSwitch = None\<rparr>"

lemma demo_live_fields:
  "s_Plan (us_session demo_live) = Beam" "s_resolution (us_session demo_live) = Resolution720p" "\<not> ResolutionSwitching demo_live"
  "\<not> us_upgradeOffered demo_live" "busyTargetCountLocked (us_session demo_live) = 1"
  by (simp_all add: demo_live_def ResolutionSwitching_def busyTargetCountLocked_def)

theorem offers_exactly_the_upgrades_witness:
  "\<exists>c x. upgradeCandidateFor demo_live [''youtube''] [''chzzk''] 0 0 = Some c \<and> x \<in> set (uc_options c)
     \<and> uo_Targets x = [''youtube'', ''chzzk''] \<and> uo_Resolution x = Resolution720p \<and> uo_NeedsSettings x \<and> \<not> uo_RestartsBroadcast x"
proof -
  have up: "is_upgrade Beam False [''youtube''] [''chzzk''] 0 0 False [''youtube'', ''chzzk'']"
    by (simp add: is_upgrade_def gate_none_iff ModeFor_def Allows_def Policy_Modes_def zero_Policy_def Units_def broadcastRemaining_def
        Plan_Policy_def Monthly_def consider_remaining_def go_quot_def i64_id Let_def)
  note p = offers_exactly_the_upgrades [of demo_live "[''youtube'']" "[''chzzk'']" 0 0, unfolded demo_live_fields]
  have "upgradeCandidateFor demo_live [''youtube''] [''chzzk''] 0 0 \<noteq> None" using p up demo_live_fields by auto
  then obtain c where c: "upgradeCandidateFor demo_live [''youtube''] [''chzzk''] 0 0 = Some c" by blast
  with p up obtain x where "x \<in> set (uc_options c)" "uo_Targets x = [''youtube'', ''chzzk'']" "uo_Resolution x = Resolution720p" by fastforce
  with c p show ?thesis by fastforce
qed

subsection \<open>All interleavings\<close>

text \<open>
  One session among all users of the budget. \<open>os_releasing\<close> counts the callers that have cleared the offer
  or removed the session and are about to call \<open>ReleaseUpgradeHold\<close>, \<open>os_switches\<close> the running
  switches, which release the hold at their end. \<open>os_callbacks\<close> are the callbacks that will run:
  \<open>Timer.Stop\<close> takes one away unless it is due already and started (the flag \<open>late\<close> of an event).
\<close>

record offer_sys =
  os_slots :: slots_sys
  os_registered :: bool
  os_live :: upgrade_session
  os_callbacks :: "(instant \<times> nat) list"
  os_releasing :: nat
  os_switches :: nat

datatype os_event =
    OOffer instant nat UpgradeOffer duration
  | OSelect instant Mode duration bool
  | ODecline instant bool
  | OExpire instant instant nat bool bool
  | ORelease
  | OSwitch instant string "string list" bool
  | OSwitchEnd
  | OCancel instant
  | ODiscard
  | OFinish instant "ResolutionSwitchFailure list"
  | ODelete
  | OClose instant
  | OSlots slots_event
  | OEnv Session

definition os_id :: "offer_sys \<Rightarrow> string" where
  "os_id x = s_ID (us_session (os_live x))"

definition os_bud :: "offer_sys \<Rightarrow> EgressSlotBudget" where
  "os_bud x = bud (os_slots x)"

definition stop_timer :: "instant \<Rightarrow> bool \<Rightarrow> offer_sys \<Rightarrow> (instant \<times> nat) list" where
  "stop_timer now late x = (case us_upgradeTimer (os_live x) of
      None \<Rightarrow> os_callbacks x
    | Some (d, r) \<Rightarrow> if d \<le> now \<and> late then os_callbacks x else remove1 (d, r) (os_callbacks x))"

definition new_timer :: "upgrade_session \<Rightarrow> (instant \<times> nat) list" where
  "new_timer s = (case us_upgradeTimer s of None \<Rightarrow> [] | Some t \<Rightarrow> [t])"

definition release_hold_of :: "offer_sys \<Rightarrow> offer_sys" where
  "release_hold_of x = x\<lparr>os_slots := (os_slots x)\<lparr>bud := ReleaseHold (os_id x) (os_bud x)\<rparr>\<rparr>"

text \<open>A session whose offer was cleared: the timer is stopped, the caller goes on to release the hold.\<close>

definition cleared_by :: "instant \<Rightarrow> bool \<Rightarrow> bool \<times> upgrade_session \<Rightarrow> offer_sys \<Rightarrow> offer_sys" where
  "cleared_by now late r x = (if fst r then x\<lparr>os_live := snd r, os_callbacks := stop_timer now late x, os_releasing := os_releasing x + 1\<rparr> else x)"

fun os_step :: "offer_sys \<Rightarrow> os_event \<Rightarrow> offer_sys" where
  "os_step x (OOffer now ref offer ttl) = (case offer_upgrade now ref offer ttl (os_live x) (Some (os_bud x)) of
      (Some e, s, sl) \<Rightarrow> x\<lparr>os_live := s, os_slots := (os_slots x)\<lparr>bud := the sl\<rparr>\<rparr>
    | (None, s, sl) \<Rightarrow> x\<lparr>os_live := s, os_slots := (os_slots x)\<lparr>bud := the sl\<rparr>, os_callbacks := new_timer s @ os_callbacks x\<rparr>)"
| "os_step x (OSelect now mode ttl late) = (case select_upgrade_option now mode ttl (os_live x) of
      (Some e, s) \<Rightarrow> x
    | (None, s) \<Rightarrow> x\<lparr>os_live := s, os_callbacks := new_timer s @ stop_timer now late x\<rparr>)"
| "os_step x (ODecline now late) = cleared_by now late (decline_upgrade_offer now (os_live x)) x"
| "os_step x (OExpire now d r found late) = (let x = x\<lparr>os_callbacks := remove1 (d, r) (os_callbacks x)\<rparr> in
      if found then cleared_by now late (expire_upgrade_offer now r (os_live x)) x
      else x\<lparr>os_releasing := os_releasing x + 1\<rparr>)"
| "os_step x ORelease = (release_hold_of x)\<lparr>os_releasing := os_releasing x - 1\<rparr>"
| "os_step x (OSwitch now resolution targets late) = (case BeginResolutionSwitch now resolution targets (os_live x) of
      (False, _) \<Rightarrow> x
    | (True, s) \<Rightarrow> x\<lparr>os_live := s, os_switches := os_switches x + 1,
        os_callbacks := (if us_upgradeOffer (os_live x) \<noteq> None then stop_timer now late x else os_callbacks x)\<rparr>)"
| "os_step x OSwitchEnd = (release_hold_of x)\<lparr>os_switches := os_switches x - 1\<rparr>"
| "os_step x (OCancel now) = x\<lparr>os_live := CancelResolutionSwitch now (os_live x)\<rparr>"
| "os_step x ODiscard = x\<lparr>os_live := DiscardResolutionSwitch (os_live x)\<rparr>"
| "os_step x (OFinish now fs) = x\<lparr>os_live := FinishResolutionSwitch now fs (os_live x)\<rparr>"
| "os_step x ODelete = (if os_registered x then x\<lparr>os_registered := False, os_releasing := os_releasing x + 1\<rparr> else x)"
| "os_step x (OClose now) = x\<lparr>os_live := (os_live x)\<lparr>us_session := close now (us_session (os_live x))\<rparr>\<rparr>"
| "os_step x (OSlots e) = x\<lparr>os_slots := slots_step (os_slots x) e\<rparr>"
| "os_step x (OEnv s) = x\<lparr>os_live := (os_live x)\<lparr>us_session := s\<rparr>\<rparr>"

text \<open>What the callers do: a hold of this session is taken and released only through its offer.\<close>

fun os_allowed :: "offer_sys \<Rightarrow> os_event \<Rightarrow> bool" where
  "os_allowed x (OOffer now ref offer ttl) = (of_Selected offer = '''')"
| "os_allowed x (OExpire now d r found late) = ((d, r) \<in> set (os_callbacks x) \<and> d \<le> now \<and> (found \<or> \<not> os_registered x))"
| "os_allowed x ORelease = (os_releasing x > 0)"
| "os_allowed x OSwitchEnd = (os_switches x > 0)"
| "os_allowed x (OSlots (HoldUnits claim n)) = (Owner claim \<noteq> os_id x)"
| "os_allowed x (OSlots (ReleaseHeld k)) = (k \<noteq> os_id x)"
| "os_allowed x (OEnv s) = (s_ID s = os_id x \<and> s_Plan s = s_Plan (us_session (os_live x)))"
| "os_allowed x _ = True"

definition os_start :: "offer_sys \<Rightarrow> bool" where
  "os_start x \<longleftrightarrow> us_upgradeOffer (os_live x) = None \<and> \<not> us_upgradeOffered (os_live x) \<and> us_upgradeTimer (os_live x) = None
     \<and> os_registered x \<and> os_callbacks x = [] \<and> os_releasing x = 0 \<and> os_switches x = 0 \<and> holds (os_bud x) (os_id x) = None"

inductive os_reach :: "offer_sys \<Rightarrow> bool" where
  os_init: "os_start x \<Longrightarrow> os_reach x"
| os_next: "os_reach x \<Longrightarrow> os_allowed x e \<Longrightarrow> os_reach (os_step x e)"

subsection \<open>The promise\<close>

text \<open>
  The specification: a session is promised an upgrade at most once. The promise names modes, one of which
  may be chosen; it ends with the held units kept for the switch that accepts it or on their way back,
  and then returned for good.
\<close>

datatype promise = NotOffered | Promised "Mode list" Mode | HeldOver | Returned

inductive promise_step :: "promise \<Rightarrow> promise \<Rightarrow> bool" where
  p_offer: "ms \<noteq> [] \<Longrightarrow> promise_step NotOffered (Promised ms '''')"
| p_select: "m \<in> set ms \<Longrightarrow> promise_step (Promised ms c) (Promised ms m)"
| p_end: "q \<in> {HeldOver, Returned} \<Longrightarrow> promise_step (Promised ms c) q"
| p_return: "promise_step HeldOver Returned"
| p_same: "promise_step q q"

definition promise_of :: "offer_sys \<Rightarrow> promise" where
  "promise_of x = (case us_upgradeOffer (os_live x) of
      Some (r, offer) \<Rightarrow> Promised (map uo_Mode (of_Options offer)) (of_Selected offer)
    | None \<Rightarrow> if \<not> us_upgradeOffered (os_live x) then NotOffered
        else if holds (os_bud x) (os_id x) \<noteq> None then HeldOver else Returned)"

subsection \<open>Lemmas on holds\<close>

lemma consumeHold_none: "holds b k = None \<Longrightarrow> n \<le> 0 \<or> j \<noteq> k \<Longrightarrow> holds (consumeHoldLocked j n b) k = None"
  by (auto simp: consumeHoldLocked_def Let_def)

lemma holdFor_none: "holds b k = None \<Longrightarrow> holdForLocked b k delta \<le> 0"
  by (auto simp: holdForLocked_def hold_of_def zero_hold_def)

lemma commit_acquire_no_hold:
  assumes "holds b k = None" and "commit_acquire claim ow delta (holdForLocked b (Owner claim) delta) dev b = (l, b')"
  shows "holds b' k = None"
  using commit_acquire_fields(3) [OF assms(2)] consumeHold_none [OF assms(1), of _ "Owner claim"] holdFor_none [OF assms(1)] by auto

lemma tryAcquire_no_hold: "holds b k = None \<Longrightarrow> holds (snd (tryAcquire claim b)) k = None"
  by (auto simp: tryAcquire_def Let_def wait_for_def appendWaiterLocked_def
      dest: commit_acquire_no_hold split: option.split prod.split)

lemma ChangeResolution_no_hold:
  assumes "holds b k = None"
  shows "holds (snd (ChangeResolution j hr b)) k = None"
proof -
  have "holds (consumeHoldLocked j (holdForLocked b j d) b) k = None" for d
    using consumeHold_none [OF assms, of _ j] holdFor_none [OF assms] by auto
  then show ?thesis
    using assms by (auto simp: ChangeResolution_def Let_def add_units_def wake_all_eq split: option.split)
qed

lemma slots_step_no_hold:
  assumes "holds (bud s) k = None" and "\<And>claim n. e = HoldUnits claim n \<Longrightarrow> Owner claim \<noteq> k"
  shows "holds (bud (slots_step s e)) k = None"
proof (cases e)
  case (TryAcquire claim)
  obtain r b' where t: "tryAcquire claim (bud s) = (r, b')" by fastforce
  then have "holds b' k = None" using tryAcquire_no_hold [OF assms(1), of claim] by simp
  then show ?thesis using t TryAcquire by (cases r) simp_all
next
  case (HoldUnits claim n)
  then show ?thesis using assms Hold_cases [of claim n "bud s"] by (auto simp: addLocked_def)
qed (use assms in \<open>auto simp: Release_def release_def wake_all_eq ReleaseHold_def abandonWaiter_def ChangeResolution_no_hold
    release_units_def release_card_def Let_def addLocked_def split: option.split\<close>)

lemma ReleaseHold_gone: "holds (ReleaseHold k b) k = None"
  by (auto simp: ReleaseHold_def wake_all_eq split: option.split)

lemma hold_loop_holds:
  "hold_loop claim u err xs (Some b) = (res, n, sl) \<Longrightarrow>
   \<exists>b'. sl = Some b' \<and> (res \<noteq> None \<longrightarrow> b' = b) \<and> (\<forall>k. k \<noteq> Owner claim \<longrightarrow> holds b' k = holds b k)"
proof (induction xs arbitrary: err)
  case (Cons x xs)
  obtain r b1 where h: "Hold claim (uo_UnitsTo x - u) b = (r, b1)" by fastforce
  have b1: "r \<noteq> Ok () \<longrightarrow> b1 = b" "\<forall>k. k \<noteq> Owner claim \<longrightarrow> holds b1 k = holds b k"
    using Hold_cases [of claim "uo_UnitsTo x - u" b] h by (auto simp: addLocked_def)
  show ?case
  proof (cases r)
    case (Inl e)
    with b1 have "b1 = b" by simp
    with Inl Cons h show ?thesis by (simp add: slots_hold_def)
  next
    case (Inr y)
    with Cons.prems h b1 show ?thesis by (auto simp: slots_hold_def)
  qed
qed auto

lemma offer_upgrade_cases:
  obtains (refused) e where "offer_upgrade now ref offer ttl s (Some b) = (Some e, s, Some b)"
  | (made) n b' where "offer_upgrade now ref offer ttl s (Some b) = (None, us_touch now (s\<lparr>us_upgradeOffer := Some (ref, pending_offer n offer),
        us_upgradeOffered := True, us_upgradeTimer := Some (now + ttl, ref)\<rparr>), Some b')"
      "\<not> us_upgradeOffered s" "\<not> s_closed (us_session s)" "of_Options offer \<noteq> []" "\<not> ResolutionSwitching s"
      "hold_loop (offer_claim (us_session s)) (of_UnitsFrom offer) None (sort_key (\<lambda>x. - uo_UnitsTo x) (of_Options offer)) (Some b) = (None, n, Some b')"
proof -
  obtain res n sl where h: "hold_loop (offer_claim (us_session s)) (of_UnitsFrom offer) None (sort_key (\<lambda>x. - uo_UnitsTo x) (of_Options offer)) (Some b) = (res, n, sl)"
    by (metis prod_cases3)
  obtain b' where b': "sl = Some b'" "res \<noteq> None \<longrightarrow> b' = b" using hold_loop_holds [OF h] by blast
  show thesis
  proof (cases "s_closed (us_session s) \<or> us_upgradeOffered s \<or> of_Options offer = [] \<or> ResolutionSwitching s")
    case True
    then show thesis by (intro refused [of ErrUpgradeNotOfferable]) (simp add: offer_upgrade_def)
  next
    case False
    then show thesis
    proof (cases res)
      case (Some e)
      with False h b' show thesis by (intro refused [of "ErrHold e"]) (simp add: offer_upgrade_def Let_def)
    next
      case None
      with False h b' show thesis by (intro made [of n b']) (simp_all add: offer_upgrade_def Let_def)
    qed
  qed
qed

subsection \<open>The invariant\<close>

definition os_inv :: "offer_sys \<Rightarrow> bool" where
  "os_inv x \<longleftrightarrow> (\<not> us_upgradeOffered (os_live x) \<longrightarrow> us_upgradeOffer (os_live x) = None \<and> holds (os_bud x) (os_id x) = None)
   \<and> (holds (os_bud x) (os_id x) \<noteq> None \<longrightarrow> os_releasing x > 0 \<or> os_switches x > 0
       \<or> (\<exists>d r offer. us_upgradeOffer (os_live x) = Some (r, offer) \<and> us_upgradeTimer (os_live x) = Some (d, r) \<and> (d, r) \<in> set (os_callbacks x)))"

lemma touch_fields [simp]:
  "us_upgradeOffer (us_touch now s) = us_upgradeOffer s" "us_upgradeOffered (us_touch now s) = us_upgradeOffered s"
  "us_upgradeTimer (us_touch now s) = us_upgradeTimer s" "s_ID (us_session (us_touch now s)) = s_ID (us_session s)"
  "us_resolutionSwitch (us_touch now s) = us_resolutionSwitch s"
  "s_Plan (us_session (us_touch now s)) = s_Plan (us_session s)"
  by (simp_all add: us_touch_def)

lemma clear_fields [simp]:
  "us_upgradeOffer (clearUpgradeOfferLocked now s) = None" "us_upgradeOffered (clearUpgradeOfferLocked now s) = us_upgradeOffered s"
  "s_ID (us_session (clearUpgradeOfferLocked now s)) = s_ID (us_session s)"
  "s_Plan (us_session (clearUpgradeOfferLocked now s)) = s_Plan (us_session s)"
  by (simp_all add: clearUpgradeOfferLocked_def)

lemma switch_fields [simp]:
  "us_upgradeOffer (CancelResolutionSwitch now s) = us_upgradeOffer s" "us_upgradeOffered (CancelResolutionSwitch now s) = us_upgradeOffered s"
  "us_upgradeTimer (CancelResolutionSwitch now s) = us_upgradeTimer s" "us_session (CancelResolutionSwitch now s) = us_session s"
  "us_upgradeOffer (FinishResolutionSwitch now fs s) = us_upgradeOffer s" "us_upgradeOffered (FinishResolutionSwitch now fs s) = us_upgradeOffered s"
  "us_upgradeTimer (FinishResolutionSwitch now fs s) = us_upgradeTimer s" "s_ID (us_session (FinishResolutionSwitch now fs s)) = s_ID (us_session s)"
  "s_Plan (us_session (FinishResolutionSwitch now fs s)) = s_Plan (us_session s)"
  "us_upgradeOffer (DiscardResolutionSwitch s) = us_upgradeOffer s" "us_upgradeOffered (DiscardResolutionSwitch s) = us_upgradeOffered s"
  "us_upgradeTimer (DiscardResolutionSwitch s) = us_upgradeTimer s" "us_session (DiscardResolutionSwitch s) = us_session s"
  by (simp_all add: CancelResolutionSwitch_def FinishResolutionSwitch_def DiscardResolutionSwitch_def split: option.split)

lemma close_id [simp]: "s_ID (close now s) = s_ID s" "s_Plan (close now s) = s_Plan s"
  by (simp_all add: close_def)

lemma BeginResolutionSwitch_cases:
  "BeginResolutionSwitch now res ts s = (False, s)
   \<or> (\<exists>s'. BeginResolutionSwitch now res ts s = (True, s') \<and> us_upgradeOffer s' = None \<and> us_upgradeOffered s' = us_upgradeOffered s
        \<and> s_ID (us_session s') = s_ID (us_session s) \<and> s_Plan (us_session s') = s_Plan (us_session s))"
  by (cases "us_upgradeOffer s") (auto simp: BeginResolutionSwitch_def Let_def)

lemma select_cases:
  "(\<exists>e. select_upgrade_option now mode ttl s = (Some e, s))
   \<or> (\<exists>r offer. us_upgradeOffer s = Some (r, offer) \<and> mode \<in> uo_Mode ` set (of_Options offer)
        \<and> select_upgrade_option now mode ttl s = (None, us_touch now (s\<lparr>us_upgradeOffer := Some (r, offer\<lparr>of_Selected := mode, of_ExpiresAt := now + ttl\<rparr>),
               us_upgradeTimer := Some (now + ttl, r)\<rparr>)))"
  by (auto simp: select_upgrade_option_def list_ex_iff split: option.split)

lemma cleared_by_eq:
  "cleared_by now late (decline_upgrade_offer now s) x = (if us_upgradeOffer s = None then x
     else x\<lparr>os_live := clearUpgradeOfferLocked now s, os_callbacks := stop_timer now late x, os_releasing := os_releasing x + 1\<rparr>)"
  "cleared_by now late (expire_upgrade_offer now r s) x = (if map_option fst (us_upgradeOffer s) \<noteq> Some r then x
     else x\<lparr>os_live := clearUpgradeOfferLocked now s, os_callbacks := stop_timer now late x, os_releasing := os_releasing x + 1\<rparr>)"
  by (simp_all add: cleared_by_def decline_upgrade_offer_def expire_upgrade_offer_def)

lemma release_hold_of_fields [simp]:
  "os_live (release_hold_of x) = os_live x" "holds (os_bud (release_hold_of x)) (os_id x) = None"
  "holds (os_bud (release_hold_of x)) (s_ID (us_session (os_live x))) = None"
  "os_releasing (release_hold_of x) = os_releasing x" "os_switches (release_hold_of x) = os_switches x"
  "os_callbacks (release_hold_of x) = os_callbacks x" "os_id (release_hold_of x) = os_id x" "os_registered (release_hold_of x) = os_registered x"
  by (simp_all add: release_hold_of_def os_bud_def os_id_def ReleaseHold_gone)

lemma os_bud_simps [simp]:
  "os_bud (x\<lparr>os_live := s\<rparr>) = os_bud x" "os_bud (x\<lparr>os_callbacks := cs\<rparr>) = os_bud x" "os_bud (x\<lparr>os_releasing := n\<rparr>) = os_bud x"
  "os_bud (x\<lparr>os_switches := n\<rparr>) = os_bud x" "os_bud (x\<lparr>os_registered := r\<rparr>) = os_bud x" "os_bud (x\<lparr>os_slots := sl\<rparr>) = bud sl"
  by (simp_all add: os_bud_def)

lemma os_id_simps [simp]:
  "os_id (x\<lparr>os_live := s\<rparr>) = s_ID (us_session s)" "os_id (x\<lparr>os_callbacks := cs\<rparr>) = os_id x" "os_id (x\<lparr>os_releasing := n\<rparr>) = os_id x"
  "os_id (x\<lparr>os_switches := n\<rparr>) = os_id x" "os_id (x\<lparr>os_registered := r\<rparr>) = os_id x" "os_id (x\<lparr>os_slots := sl\<rparr>) = os_id x"
  by (simp_all add: os_id_def)

lemma os_id_step: "os_allowed x e \<Longrightarrow> os_id (os_step x e) = os_id x"
proof (cases e)
  case (OOffer now ref offer ttl)
  show ?thesis
    by (cases now ref offer ttl "os_live x" "os_bud x" rule: offer_upgrade_cases) (simp_all add: OOffer os_id_def)
next
  case (OSelect now mode ttl late)
  then show ?thesis using select_cases [of now mode ttl "os_live x"] by (auto simp: os_id_def)
next
  case (OSwitch now res ts late)
  then show ?thesis using BeginResolutionSwitch_cases [of now res ts "os_live x"] by (auto simp: os_id_def)
qed (auto simp: cleared_by_eq os_id_def Let_def)

lemma os_slots_no_hold:
  assumes "os_allowed x (OSlots e)" and "holds (os_bud x) (os_id x) = None"
  shows "holds (bud (slots_step (os_slots x) e)) (os_id x) = None"
  using assms by (intro slots_step_no_hold) (auto simp: os_bud_def)

lemma os_step_inv:
  assumes i: "os_inv x" and ok: "os_allowed x e"
  shows "os_inv (os_step x e)"
proof (cases e)
  case (OOffer now ref offer ttl)
  show ?thesis
  proof (cases now ref offer ttl "os_live x" "os_bud x" rule: offer_upgrade_cases)
    case (refused e)
    with i show ?thesis by (simp add: OOffer os_inv_def os_id_def os_bud_def)
  next
    case (made n b')
    then show ?thesis by (simp add: OOffer os_inv_def new_timer_def)
  qed
next
  case (OSelect now mode ttl late)
  then show ?thesis using i select_cases [of now mode ttl "os_live x"]
    by (auto simp: os_inv_def new_timer_def os_id_def)
next
  case (OSwitch now res ts late)
  then show ?thesis using i BeginResolutionSwitch_cases [of now res ts "os_live x"] by (auto simp: os_inv_def os_id_def)
next
  case (OExpire now d r found late)
  then show ?thesis using i by (auto simp: os_inv_def cleared_by_eq os_id_def Let_def)
next
  case (OSlots ev)
  with i ok os_slots_no_hold [of x ev] show ?thesis by (auto simp: os_inv_def)
next
  case (ODecline now late)
  then show ?thesis using i by (auto simp: os_inv_def cleared_by_eq os_id_def)
qed (use i ok in \<open>auto simp: os_inv_def os_id_def\<close>)

lemma os_reach_inv: "os_reach x \<Longrightarrow> os_inv x"
proof (induction rule: os_reach.induct)
  case (os_init x)
  then show ?case by (simp add: os_start_def os_inv_def)
qed (rule os_step_inv)

lemma pending_options: "map uo_Mode (of_Options (pending_offer n offer)) \<noteq> [] \<longleftrightarrow> (\<exists>x\<in>set (of_Options offer). uo_UnitsTo x - of_UnitsFrom offer \<le> n)"
  by (auto simp: pending_offer_def Let_def filter_empty_conv not_less)

lemma hold_loop_units:
  "hold_loop claim u err xs sl = (None, n, sl') \<Longrightarrow> xs \<noteq> [] \<Longrightarrow> \<exists>x\<in>set xs. n = uo_UnitsTo x - u"
proof (induction xs arbitrary: err sl)
  case (Cons x xs)
  then show ?case by (cases xs) (auto split: prod.splits sum.splits)
qed simp

lemma p_select_option: "x \<in> set xs \<Longrightarrow> promise_step (Promised (map uo_Mode xs) c) (Promised (map uo_Mode xs) (uo_Mode x))"
  by (rule p_select) simp

lemma promise_ends:
  assumes i: "os_inv x" and y: "us_upgradeOffer (os_live y) = None" "us_upgradeOffered (os_live y) = us_upgradeOffered (os_live x)"
    "os_bud y = os_bud x" "os_id y = os_id x"
  shows "promise_step (promise_of x) (promise_of y)"
proof (cases "us_upgradeOffer (os_live x)")
  case None
  with y have "promise_of y = promise_of x" by (simp add: promise_of_def)
  then show ?thesis by (simp add: p_same)
next
  case (Some q)
  then have "us_upgradeOffered (os_live x)" using i by (auto simp: os_inv_def)
  with y Some show ?thesis by (auto simp: promise_of_def intro: p_end split: prod.split)
qed

lemma os_step_refines:
  assumes i: "os_inv x" and ok: "os_allowed x e"
  shows "promise_step (promise_of x) (promise_of (os_step x e))"
proof (cases e)
  case (OOffer now ref offer ttl)
  show ?thesis
  proof (cases now ref offer ttl "os_live x" "os_bud x" rule: offer_upgrade_cases)
    case (refused e)
    then have "promise_of (os_step x (OOffer now ref offer ttl)) = promise_of x" by (simp add: promise_of_def os_id_def os_bud_def)
    then show ?thesis by (simp add: OOffer p_same)
  next
    case (made n b')
    have "sort_key (\<lambda>x. - uo_UnitsTo x) (of_Options offer) \<noteq> []" using made(4) by (metis set_empty set_sort)
    from hold_loop_units [OF made(6) this] have "\<exists>y\<in>set (of_Options offer). uo_UnitsTo y - of_UnitsFrom offer \<le> n" by auto
    then have "map uo_Mode (of_Options (pending_offer n offer)) \<noteq> []" using pending_options by blast
    moreover have "of_Selected (pending_offer n offer) = ''''" using ok OOffer by (simp add: pending_offer_def Let_def)
    ultimately show ?thesis using made i p_offer by (simp add: OOffer promise_of_def os_inv_def)
  qed
next
  case (OSelect now mode ttl late)
  then show ?thesis using select_cases [of now mode ttl "os_live x"] by (auto simp: promise_of_def os_id_def intro: p_same p_select_option)
next
  case (OSwitch now res ts late)
  then show ?thesis using BeginResolutionSwitch_cases [of now res ts "os_live x"]
    by (auto intro: p_same promise_ends [OF i] simp: os_id_def)
next
  case (OSlots ev)
  then show ?thesis using ok os_slots_no_hold [of x ev]
    by (auto simp: promise_of_def intro: promise_step.intros split: option.split)
next
  case (OExpire now d r found late)
  have "promise_of (x\<lparr>os_callbacks := cs\<rparr>) = promise_of x" "promise_of (x\<lparr>os_callbacks := cs, os_releasing := n\<rparr>) = promise_of x" for cs n
    by (auto simp: promise_of_def split: option.split)
  with OExpire show ?thesis by (auto simp: cleared_by_eq os_id_def Let_def intro: p_same promise_ends [OF i])
next
  case (ODecline now late)
  then show ?thesis by (auto simp: cleared_by_eq os_id_def intro: p_same promise_ends [OF i])
qed (use ok in \<open>auto simp: promise_of_def os_id_def intro: promise_step.intros split: option.split\<close>)

subsection \<open>Properties of offers\<close>

text \<open>
  Property C26. The offers of a session implement the promise, in every interleaving of offers, choices,
  refusals, expiring timers, switches, deletions and all other users of the budget: every step of the
  code is a step of the specification, so a session is offered an upgrade at most once, the chosen mode
  is one of those offered, and returned units never come back. Units do not stay held: as long as there
  is a hold, a caller is about to release it, a switch that releases it at its end is running, or the
  offer stands and its armed timer takes it away; and whoever releases it ends the promise.
\<close>

theorem offer_refines_promise:
  assumes "os_reach x"
  shows "(\<forall>e. os_allowed x e \<longrightarrow> promise_step (promise_of x) (promise_of (os_step x e)))
    \<and> (holds (os_bud x) (os_id x) \<noteq> None \<longrightarrow> os_releasing x > 0 \<or> os_switches x > 0
        \<or> (\<exists>d r. us_upgradeTimer (os_live x) = Some (d, r) \<and> (d, r) \<in> set (os_callbacks x)
            \<and> (\<forall>now late. promise_of (os_step (os_step x (OExpire now d r True late)) ORelease) = Returned)))
    \<and> (promise_of x = HeldOver \<longrightarrow> promise_of (os_step x ORelease) = Returned \<and> promise_of (os_step x OSwitchEnd) = Returned)"
proof -
  have i: "os_inv x" by (rule os_reach_inv [OF assms])
  have gone: "promise_of (os_step y ORelease) = Returned" "promise_of (os_step y OSwitchEnd) = Returned"
    if "us_upgradeOffer (os_live y) = None" "us_upgradeOffered (os_live y)" for y
    using that by (simp_all add: promise_of_def)
  have "promise_of (os_step (os_step x (OExpire now d r True late)) ORelease) = Returned"
    if "us_upgradeOffer (os_live x) = Some (r, offer)" for now d r late offer
    using i that by (intro gone) (auto simp: os_inv_def cleared_by_eq)
  then have "holds (os_bud x) (os_id x) \<noteq> None \<longrightarrow> os_releasing x > 0 \<or> os_switches x > 0
        \<or> (\<exists>d r. us_upgradeTimer (os_live x) = Some (d, r) \<and> (d, r) \<in> set (os_callbacks x)
            \<and> (\<forall>now late. promise_of (os_step (os_step x (OExpire now d r True late)) ORelease) = Returned))"
    using i unfolding os_inv_def by blast
  moreover have "us_upgradeOffer (os_live x) = None \<and> us_upgradeOffered (os_live x)" if "promise_of x = HeldOver"
    using that by (auto simp: promise_of_def split: option.splits if_splits)
  ultimately show ?thesis using gone [of x] os_step_refines [OF i] by blast
qed

definition demo_option :: "Mode \<Rightarrow> string \<Rightarrow> int \<Rightarrow> UpgradeOption" where
  "demo_option mode res n = \<lparr>uo_Mode = mode, uo_Resolution = res, uo_Targets = [''youtube''], uo_UnitsTo = n,
     uo_RemainingSecondsAfter = None, uo_NeedsSettings = False, uo_RestartsBroadcast = True, uo_RestartEffects = []\<rparr>"

definition demo_offer :: UpgradeOffer where
  "demo_offer = candidate_offer 0 \<lparr>uc_live = demo_live, uc_unitsFrom = 1, uc_options = [demo_option ModeFHDSingle ResolutionFHD 2]\<rparr>"

definition demo_sys :: offer_sys where
  "demo_sys = \<lparr>os_slots = new_sys (SetTierReserves [1, 1, 2] demo_budget), os_registered = True, os_live = demo_live,
     os_callbacks = [], os_releasing = 0, os_switches = 0\<rparr>"

lemma demo_sys_reach: "os_reach demo_sys"
  by (rule os_init)
    (simp add: os_start_def demo_sys_def demo_live_def os_bud_def new_sys_def SetTierReserves_def demo_budget_def NewEgressSlotBudget_def)

definition demo_offered :: offer_sys where
  "demo_offered = os_step demo_sys (OOffer 0 0 demo_offer upgradeOfferTTL)"

lemma demo_offered_state:
  "us_upgradeOffer (os_live demo_offered) \<noteq> None" "us_upgradeTimer (os_live demo_offered) = Some (upgradeOfferTTL, 0)"
  "os_callbacks demo_offered = [(upgradeOfferTTL, 0)]" "\<exists>h. holds (os_bud demo_offered) (os_id demo_offered) = Some h"
  "os_releasing demo_offered = 0" "os_switches demo_offered = 0"
  unfolding demo_offered_def not_None_eq [symmetric] by code_simp+

theorem offer_refines_promise_witness:
  "promise_step (promise_of demo_sys) (promise_of demo_offered)
   \<and> promise_of (os_step (os_step demo_offered (OExpire upgradeOfferTTL upgradeOfferTTL 0 True False)) ORelease) = Returned"
proof -
  have ok: "os_allowed demo_sys (OOffer 0 0 demo_offer upgradeOfferTTL)" by (simp add: demo_offer_def candidate_offer_def)
  then have "promise_step (promise_of demo_sys) (promise_of demo_offered)"
    unfolding demo_offered_def using offer_refines_promise [OF demo_sys_reach] by blast
  moreover have "os_reach demo_offered" unfolding demo_offered_def by (rule os_next [OF demo_sys_reach ok])
  then have "promise_of (os_step (os_step demo_offered (OExpire upgradeOfferTTL upgradeOfferTTL 0 True False)) ORelease) = Returned"
    using offer_refines_promise [of demo_offered] demo_offered_state by (simp del: os_step.simps)
  ultimately show ?thesis by simp
qed

subsection \<open>The units of the owner of an offer\<close>

definition own_units :: "string \<Rightarrow> EgressSlotBudget \<Rightarrow> int" where
  "own_units k b = (case owners b k of None \<Rightarrow> 0 | Some ow \<Rightarrow> ow_held ow) + hold_units (hold_of b k)"

lemma own_units_frame: "owners b' k = owners b k \<Longrightarrow> holds b' k = holds b k \<Longrightarrow> own_units k b' = own_units k b"
  by (simp add: own_units_def hold_of_def)

lemma consumeHold_units:
  "n \<le> hold_units (hold_of b k) \<Longrightarrow> hold_units (hold_of (consumeHoldLocked k n b) k) = (if n \<le> 0 then hold_units (hold_of b k) else hold_units (hold_of b k) - n)"
  by (auto simp: consumeHoldLocked_def Let_def hold_of_def zero_hold_def)

lemma consumeHold_other: "j \<noteq> k \<Longrightarrow> holds (consumeHoldLocked j n b) k = holds b k"
  by (simp add: consumeHoldLocked_def Let_def)

lemma egressUnits_grows: "0 \<le> n \<Longrightarrow> egressUnits hr n \<le> egressUnits hr (n + 1)"
  by (simp add: egressUnits_def)

lemma acquire_own_units:
  assumes i: "slots_inv b" and k: "plain_key k" "k \<noteq> ''''"
  shows "own_units k b \<le> own_units k (snd (tryAcquire claim b))"
proof (cases "\<exists>r. tryAcquire claim b = wait_for r b")
  case True
  then show ?thesis by (auto simp: wait_for_def appendWaiterLocked_def own_units_def hold_of_def)
next
  case False
  define ow where "ow = claim_owner_of b claim"
  define delta where "delta = egressUnits (HighRes (ow_claim ow)) (ow_count ow + 1) - ow_held ow"
  obtain dev l b' where b': "tryAcquire claim b = (Ok l, b')" "commit_acquire claim ow delta (holdForLocked b (Owner claim) delta) dev b = (l, b')"
    using False tryAcquire_cases [of claim b] unfolding ow_def delta_def by blast
  note f = commit_acquire_fields [OF b'(2)] and e = i [unfolded slots_inv_def, THEN conjunct1]
  show ?thesis
  proof (cases "Owner claim = k")
    case True
    have "ow_held ow = egressUnits (HighRes (ow_claim ow)) (ow_count ow)" "0 \<le> ow_count ow"
      using e k(2) True by (fastforce simp: ow_def claim_owner_of_def entries_ok_def owner_ok_def egressUnits_def split: option.split)+
    then have d: "0 \<le> delta" using egressUnits_grows by (simp add: delta_def)
    have key: "acquire_key claim b = k" using True k(2) by (simp add: acquire_key_def)
    have "own_units k b = ow_held ow + hold_units (hold_of b k)"
      using k(2) True by (auto simp: own_units_def ow_def claim_owner_of_def split: option.split)
    moreover have "own_units k b' = ow_held ow + delta + hold_units (hold_of (consumeHoldLocked k (holdForLocked b k delta) b) k)"
      using f(2,3) key True by (simp add: own_units_def hold_of_def)
    ultimately show ?thesis
      using b'(1) d holdForLocked_bounds [OF e, where k = k and delta = delta] consumeHold_units [of "holdForLocked b k delta" b k] by (auto split: if_splits)
  next
    case False
    have "acquire_key claim b \<noteq> k" using False k(1) by (auto simp: acquire_key_def anonymous_key_def plain_key_def)
    then show ?thesis using f(2,3) consumeHold_other [OF False] own_units_frame [of b' k b] b'(1) by simp
  qed
qed

lemma ChangeResolution_other:
  assumes "j \<noteq> k"
  shows "owners (snd (ChangeResolution j hr b)) k = owners b k" and "holds (snd (ChangeResolution j hr b)) k = holds b k"
proof -
  have "owners (consumeHoldLocked j n b) = owners b" for n by (simp add: consumeHoldLocked_def Let_def)
  then show "owners (snd (ChangeResolution j hr b)) k = owners b k" "holds (snd (ChangeResolution j hr b)) k = holds b k"
    using assms consumeHold_other [OF assms, of _ b]
    by (simp_all add: ChangeResolution_def Let_def add_units_def wake_all_eq split: option.split)
qed

text \<open>The session stops none of its streams and does not change its resolution.\<close>

definition keeps_streams :: "string \<Rightarrow> slots_sys \<Rightarrow> slots_event \<Rightarrow> bool" where
  "keeps_streams k s e = (case e of
      ReleaseLease j \<Rightarrow> j < length (leases s) \<longrightarrow> lease_owner (leases s ! j) \<noteq> k
    | ChangeRes j hr \<Rightarrow> j \<noteq> k
    | HoldUnits claim n \<Rightarrow> Owner claim \<noteq> k
    | ReleaseHeld j \<Rightarrow> j \<noteq> k
    | _ \<Rightarrow> True)"

lemma slots_own_units:
  assumes i: "slots_inv (bud s)" and k: "plain_key k" "k \<noteq> ''''" and keep: "keeps_streams k s e"
  shows "own_units k (bud s) \<le> own_units k (bud (slots_step s e))"
proof (cases e)
  case (TryAcquire claim)
  obtain r b' where t: "tryAcquire claim (bud s) = (r, b')" by fastforce
  then show ?thesis using acquire_own_units [OF i k, of claim] TryAcquire by (cases r) simp_all
next
  case (HoldUnits claim n)
  then show ?thesis using keep Hold_cases [of claim n "bud s"]
    by (auto simp: keeps_streams_def addLocked_def intro!: eq_refl own_units_frame [symmetric])
next
  case (ChangeRes j hr)
  then have "j \<noteq> k" using keep by (simp add: keeps_streams_def)
  then show ?thesis using ChangeRes own_units_frame [OF ChangeResolution_other(1,2)] by simp
qed (use keep in \<open>auto simp: keeps_streams_def Release_def release_def wake_all_eq ReleaseHold_def abandonWaiter_def
    release_units_def release_card_def wakeOneLocked_def Let_def addLocked_def intro!: eq_refl own_units_frame [symmetric]
    split: option.split list.split\<close>)

lemma CheckClaim_covered:
  assumes kept: "reserve_kept b" "top_tier b = 2" and t: "Tier claim = 1 \<or> Tier claim = 2" and k: "Owner claim \<noteq> ''''"
    and n: "egressUnits (HighRes claim) n \<le> own_units (Owner claim) b"
  shows "CheckClaim claim n b = None"
proof -
  have "higherTierVacancyLocked b (Tier claim) \<le> top_unused b"
  proof (cases "Tier claim = 2")
    case True
    have "higherTierVacancyLocked b 2 = 0" by (rule vacancy_top(2) [OF kept(1)]) (simp_all add: kept(2))
    with True show ?thesis by (simp add: top_unused_def)
  next
    case False
    have "length (tierReserves b) = 3" using kept by (simp add: top_tier_def)
    moreover have "[nat (1 + 1)..<3] = [2]" by (simp add: upt_conv_Cons)
    ultimately have "higherTierVacancyLocked b 1 = top_unused b" using kept(2) vacancy_eq [of 1 b] by (simp add: top_unused_def)
    with False t show ?thesis by simp
  qed
  moreover have "0 \<le> top_unused b" by (simp add: top_unused_def)
  ultimately show ?thesis
    using kept(1) n k by (auto simp: CheckClaim_def admission_def reserve_kept_def own_units_def Let_def split: if_splits)
qed

lemma hold_loop_spec:
  assumes "hold_loop claim u err xs (Some b) = (None, n, sl)" and "xs \<noteq> [] \<or> err \<noteq> None"
  shows "\<exists>ys x zs. xs = ys @ x # zs \<and> n = uo_UnitsTo x - u \<and> sl = Some (snd (Hold claim n b)) \<and> fst (Hold claim n b) = Ok ()
    \<and> (\<forall>y\<in>set ys. \<exists>e. Hold claim (uo_UnitsTo y - u) b = (Err e, b))"
  using assms
proof (induction xs arbitrary: err)
  case (Cons x xs)
  obtain r b1 where h: "Hold claim (uo_UnitsTo x - u) b = (r, b1)" by fastforce
  show ?case
  proof (cases r)
    case (Inl e)
    then have b1: "b1 = b" using Hold_cases [of claim "uo_UnitsTo x - u" b] h by auto
    with Inl h Cons.prems have "hold_loop claim u (Some e) xs (Some b) = (None, n, sl)" by (simp add: slots_hold_def)
    with Cons.IH [of "Some e"] obtain ys y zs where "xs = ys @ y # zs \<and> n = uo_UnitsTo y - u \<and> sl = Some (snd (Hold claim n b))
      \<and> fst (Hold claim n b) = Ok () \<and> (\<forall>y\<in>set ys. \<exists>e. Hold claim (uo_UnitsTo y - u) b = (Err e, b))" by auto
    then show ?thesis using h Inl b1 by (intro exI [of _ "x # ys"] exI [of _ y] exI [of _ zs]) auto
  next
    case (Inr v)
    then show ?thesis using Cons.prems h by (intro exI [of _ "[]"] exI [of _ x] exI [of _ xs]) (auto simp: slots_hold_def)
  qed
qed simp

lemma Hold_own_units:
  assumes "fst (Hold claim n b) = Ok ()" and "holds b (Owner claim) = None" and "Owner claim \<noteq> ''''"
  shows "own_units (Owner claim) b + n \<le> own_units (Owner claim) (snd (Hold claim n b))"
  using assms by (auto simp: Hold_def own_units_def hold_of_def zero_hold_def split: option.splits if_splits)

text \<open>What an accepted offer leaves: the options that fit the hold, a hold for all of them, and a refusal for every option left out.\<close>

lemma offer_made:
  assumes "offer_upgrade now ref offer ttl s (Some b) = (None, s', sl)" and "holds b (s_ID (us_session s)) = None" and "s_ID (us_session s) \<noteq> ''''"
  obtains n where "sl = Some (snd (Hold (offer_claim (us_session s)) n b))"
    and "us_upgradeOffer s' = Some (ref, pending_offer n offer)" and "us_upgradeOffered s'" and "us_session s' = (us_session s)\<lparr>s_UpdatedAt := now\<rparr>"
    and "own_units (s_ID (us_session s)) b + n \<le> own_units (s_ID (us_session s)) (the sl)"
    and "\<And>x. x \<in> set (of_Options (pending_offer n offer)) \<longleftrightarrow> x \<in> set (of_Options offer) \<and> uo_UnitsTo x \<le> of_UnitsFrom offer + n"
    and "\<And>x. x \<in> set (of_Options offer) - set (of_Options (pending_offer n offer)) \<Longrightarrow>
       \<exists>e. Hold (offer_claim (us_session s)) (uo_UnitsTo x - of_UnitsFrom offer) b = (Err e, b)"
proof (cases now ref offer ttl s b rule: offer_upgrade_cases)
  case (refused e)
  with assms(1) show ?thesis by simp
next
  case (made n b')
  let ?c = "offer_claim (us_session s)" and ?xs = "sort_key (\<lambda>x. - uo_UnitsTo x) (of_Options offer)"
  have "?xs \<noteq> []" using made(4) by (metis set_empty set_sort)
  then obtain ys x zs where h: "?xs = ys @ x # zs" "n = uo_UnitsTo x - of_UnitsFrom offer" "b' = snd (Hold ?c n b)" "fst (Hold ?c n b) = Ok ()"
    "\<forall>y\<in>set ys. \<exists>e. Hold ?c (uo_UnitsTo y - of_UnitsFrom offer) b = (Err e, b)"
    using hold_loop_spec [OF made(6)] by auto
  have srt: "sorted (map (\<lambda>x. - uo_UnitsTo x) (ys @ x # zs))" using sorted_sort_key [of "\<lambda>x. - uo_UnitsTo x" "of_Options offer"] h(1) by simp
  have mem: "y \<in> set (of_Options (pending_offer n offer)) \<longleftrightarrow> y \<in> set (of_Options offer) \<and> uo_UnitsTo y \<le> of_UnitsFrom offer + n" for y
    by (auto simp: pending_offer_def Let_def)
  have "\<exists>e. Hold ?c (uo_UnitsTo y - of_UnitsFrom offer) b = (Err e, b)" if "y \<in> set (of_Options offer) - set (of_Options (pending_offer n offer))" for y
  proof -
    have "y \<in> set ?xs" using that by simp
    moreover have "uo_UnitsTo x < uo_UnitsTo y" using that mem [of y] h(2) by simp
    moreover have "uo_UnitsTo z \<le> uo_UnitsTo x" if "z \<in> set zs" for z using srt that by (simp add: sorted_append)
    ultimately have "y \<in> set ys" unfolding h(1) by fastforce
    with h(5) show ?thesis by blast
  qed
  moreover have "own_units (s_ID (us_session s)) b + n \<le> own_units (s_ID (us_session s)) b'"
    using Hold_own_units [OF h(4)] assms(2,3) h(3) by (simp add: offer_claim_def)
  ultimately show ?thesis using made(1) assms(1) h(3) mem by (intro that [of n]) (auto simp: us_touch_def)
qed

subsection \<open>Accepting an offer\<close>

definition os_keeps :: "(string \<Rightarrow> int) \<Rightarrow> offer_sys \<Rightarrow> os_event \<Rightarrow> bool" where
  "os_keeps tier_of x e \<longleftrightarrow> os_allowed x e
     \<and> (case e of OSlots ev \<Rightarrow> keeps_streams (os_id x) (os_slots x) ev \<and> tier_allowed tier_of 2 ev | _ \<Rightarrow> True)"

fun os_run :: "offer_sys \<Rightarrow> os_event list \<Rightarrow> offer_sys" where
  "os_run x [] = x"
| "os_run x (e # es) = os_run (os_step x e) es"

fun os_keeps_run :: "(string \<Rightarrow> int) \<Rightarrow> offer_sys \<Rightarrow> os_event list \<Rightarrow> bool" where
  "os_keeps_run tier_of x [] = True"
| "os_keeps_run tier_of x (e # es) = (os_keeps tier_of x e \<and> os_keeps_run tier_of (os_step x e) es)"

text \<open>While the offer stands, the owner's units and its hold cover every option.\<close>

definition covered_offer :: "offer_sys \<Rightarrow> bool" where
  "covered_offer x \<longleftrightarrow> us_upgradeOffered (os_live x)
     \<and> (os_registered x \<longrightarrow> (\<forall>r offer. us_upgradeOffer (os_live x) = Some (r, offer) \<longrightarrow> os_releasing x = 0 \<and> os_switches x = 0
         \<and> (\<forall>op\<in>set (of_Options offer). uo_UnitsTo op \<le> own_units (os_id x) (os_bud x))))"

definition accept_inv :: "(string \<Rightarrow> int) \<Rightarrow> string \<Rightarrow> Plan \<Rightarrow> offer_sys \<Rightarrow> bool" where
  "accept_inv tier_of k pl x \<longleftrightarrow> tier_inv tier_of 2 (os_slots x) \<and> os_id x = k \<and> s_Plan (us_session (os_live x)) = pl \<and> covered_offer x"

lemma tier_inv_release: "tier_inv tier_of T s \<Longrightarrow> tier_inv tier_of T (s\<lparr>bud := ReleaseHold k (bud s)\<rparr>)"
  using tier_step_inv [of tier_of T s "ReleaseHeld k"] by (simp add: tier_allowed_def)

lemma tier_inv_slots: "tier_inv tier_of T s \<Longrightarrow> slots_inv (bud s)"
  by (simp add: tier_inv_def slots_sys_inv_def)

lemma os_plan_step: "os_allowed x e \<Longrightarrow> s_Plan (us_session (os_live (os_step x e))) = s_Plan (us_session (os_live x))"
proof (cases e)
  case (OOffer now ref offer ttl)
  show ?thesis by (cases now ref offer ttl "os_live x" "os_bud x" rule: offer_upgrade_cases) (simp_all add: OOffer)
next
  case (OSelect now mode ttl late)
  then show ?thesis using select_cases [of now mode ttl "os_live x"] by auto
next
  case (OSwitch now res ts late)
  then show ?thesis using BeginResolutionSwitch_cases [of now res ts "os_live x"] by auto
qed (auto simp: cleared_by_eq Let_def)

lemma covered_offer_step:
  assumes c: "covered_offer x" and i: "slots_inv (os_bud x)" and k: "plain_key (os_id x)" "os_id x \<noteq> ''''" and ok: "os_keeps tier_of x e"
  shows "covered_offer (os_step x e)"
proof (cases e)
  case (OOffer now ref offer ttl)
  show ?thesis
    by (cases now ref offer ttl "os_live x" "os_bud x" rule: offer_upgrade_cases)
      (use c in \<open>simp_all add: OOffer covered_offer_def os_id_def os_bud_def\<close>)
next
  case (OSelect now mode ttl late)
  then show ?thesis using c select_cases [of now mode ttl "os_live x"] by (auto simp: covered_offer_def os_id_def)
next
  case (OSwitch now res ts late)
  then show ?thesis using c BeginResolutionSwitch_cases [of now res ts "os_live x"] by (auto simp: covered_offer_def)
next
  case (OSlots ev)
  then have "keeps_streams (os_id x) (os_slots x) ev" using ok by (simp add: os_keeps_def)
  then have "own_units (os_id x) (os_bud x) \<le> own_units (os_id x) (bud (slots_step (os_slots x) ev))"
    using slots_own_units [OF _ k] i by (simp add: os_bud_def)
  with c OSlots show ?thesis by (fastforce simp: covered_offer_def)
qed (use c ok in \<open>auto simp: covered_offer_def os_keeps_def cleared_by_eq os_id_def Let_def split: if_splits\<close>)

lemma accept_step:
  assumes a: "accept_inv tier_of k pl x" and k: "plain_key k" "k \<noteq> ''''" and ok: "os_keeps tier_of x e"
  shows "accept_inv tier_of k pl (os_step x e)"
proof -
  have t: "tier_inv tier_of 2 (os_slots x)" and id: "os_id x = k" and al: "os_allowed x e" using a ok by (auto simp: accept_inv_def os_keeps_def)
  have "tier_inv tier_of 2 (os_slots (os_step x e))"
  proof (cases e)
    case (OOffer now ref offer ttl)
    show ?thesis
    proof (cases now ref offer ttl "os_live x" "os_bud x" rule: offer_upgrade_cases)
      case refused
      then show ?thesis using t by (simp add: OOffer os_bud_def)
    next
      case made
      then show ?thesis using a by (simp add: accept_inv_def covered_offer_def)
    qed
  next
    case (OSlots ev)
    then show ?thesis using tier_step_inv [OF t] ok by (simp add: os_keeps_def)
  qed (use t in \<open>auto simp: release_hold_of_def os_bud_def tier_inv_release cleared_by_def Let_def split: prod.split option.split bool.split\<close>)
  moreover have "covered_offer (os_step x e)"
    using a covered_offer_step [OF _ _ _ _ ok] k tier_inv_slots [OF t] id by (simp add: accept_inv_def os_bud_def)
  ultimately show ?thesis using a os_plan_step [OF al] os_id_step [OF al] by (simp add: accept_inv_def)
qed

lemma accept_run:
  assumes k: "plain_key k" "k \<noteq> ''''"
  shows "accept_inv tier_of k pl x \<Longrightarrow> os_keeps_run tier_of x es \<Longrightarrow> accept_inv tier_of k pl (os_run x es)"
  by (induction es arbitrary: x) (auto intro: accept_step [OF _ k])

text \<open>Before the first offer of a registered session nothing is on its way to release a hold.\<close>

lemma before_offer:
  assumes "os_reach x"
  shows "\<not> us_upgradeOffered (os_live x) \<Longrightarrow> os_registered x \<Longrightarrow> os_releasing x = 0 \<and> os_callbacks x = []"
  using assms
proof (induction rule: os_reach.induct)
  case (os_next x e)
  have n: "\<not> us_upgradeOffered (os_live x) \<Longrightarrow> us_upgradeOffer (os_live x) = None"
    using os_reach_inv [OF os_next.hyps(1)] by (simp add: os_inv_def)
  show ?case
  proof (cases e)
    case (OOffer now ref offer ttl)
    show ?thesis
      by (cases now ref offer ttl "os_live x" "os_bud x" rule: offer_upgrade_cases) (use os_next in \<open>simp_all add: OOffer\<close>)
  next
    case (OSelect now mode ttl late)
    then show ?thesis using os_next n select_cases [of now mode ttl "os_live x"] by auto
  next
    case (OSwitch now res ts late)
    then show ?thesis using os_next n BeginResolutionSwitch_cases [of now res ts "os_live x"] by auto
  qed (use os_next n in \<open>auto simp: cleared_by_eq Let_def split: if_splits\<close>)
qed (simp add: os_start_def)

lemma offer_accept_inv:
  assumes r: "os_reach x" "os_registered x" "os_switches x = 0" and t: "tier_inv tier_of 2 (os_slots x)"
    and claim: "tier_claim_ok tier_of 2 (offer_claim (us_session (os_live x)))" and k: "os_id x \<noteq> ''''"
    and made: "offer_upgrade now ref offer ttl (os_live x) (Some (os_bud x)) = (None, s, sl)"
    and have_units: "of_UnitsFrom offer \<le> own_units (os_id x) (os_bud x)"
  shows "accept_inv tier_of (os_id x) (s_Plan (us_session (os_live x))) (os_step x (OOffer now ref offer ttl))"
proof -
  have new: "\<not> us_upgradeOffered (os_live x)"
    using made by (cases now ref offer ttl "os_live x" "os_bud x" rule: offer_upgrade_cases) simp_all
  have none: "holds (os_bud x) (s_ID (us_session (os_live x))) = None"
    using os_reach_inv [OF r(1)] new by (simp add: os_inv_def os_id_def)
  obtain n where o: "sl = Some (snd (Hold (offer_claim (us_session (os_live x))) n (os_bud x)))"
    "us_upgradeOffer s = Some (ref, pending_offer n offer)" "us_upgradeOffered s" "us_session s = (us_session (os_live x))\<lparr>s_UpdatedAt := now\<rparr>"
    "own_units (os_id x) (os_bud x) + n \<le> own_units (os_id x) (the sl)"
    "\<And>y. y \<in> set (of_Options (pending_offer n offer)) \<longleftrightarrow> y \<in> set (of_Options offer) \<and> uo_UnitsTo y \<le> of_UnitsFrom offer + n"
    using offer_made [OF made none] k unfolding os_id_def by blast
  have "tier_inv tier_of 2 ((os_slots x)\<lparr>bud := the sl\<rparr>)"
    using tier_step_inv [OF t, of "HoldUnits (offer_claim (us_session (os_live x))) n"] claim o(1) by (simp add: tier_allowed_def os_bud_def)
  moreover have "uo_UnitsTo y \<le> own_units (os_id x) (the sl)" if "y \<in> set (of_Options (pending_offer n offer))" for y
    using that o(5,6) have_units by fastforce
  ultimately show ?thesis
    using made o(2-4) before_offer [OF r(1) new r(2)] r(3) by (auto simp: accept_inv_def covered_offer_def os_id_def)
qed


definition demo_tier :: "string \<Rightarrow> int" where
  "demo_tier k = (if k = ''s'' then 1 else 0)"

definition demo_streaming :: offer_sys where
  "demo_streaming = os_step demo_sys (OSlots (TryAcquire (demo_claim ''s'' False 1)))"

definition demo_others :: "os_event list" where
  "demo_others = [OSlots (TryAcquire (demo_claim ''b'' False 0)), OSelect 5 ModeFHDSingle upgradeSelectTTL False]"

lemma demo_streaming_reach: "os_reach demo_streaming"
  unfolding demo_streaming_def by (rule os_next [OF demo_sys_reach]) simp

lemma demo_streaming_tiers: "tier_inv demo_tier 2 (os_slots demo_streaming)"
proof -
  have "tier_inv demo_tier (length [1, 1, 2 :: int] - 1) (new_sys (SetTierReserves [1, 1, 2] demo_budget))"
    by (rule new_sys_tier_inv [OF demo_budget_new]) simp_all
  then have "tier_inv demo_tier 2 (os_slots demo_sys)" by (simp add: demo_sys_def numeral_2_eq_2)
  then show ?thesis
    unfolding demo_streaming_def by (simp add: tier_step_inv tier_allowed_def tier_claim_ok_def plain_key_def demo_claim_def demo_tier_def del: slots_step.simps)
qed


subsection \<open>Two races\<close>

text \<open>
  A timer that was due when the user chose an option, but whose callback had not run yet, carries the
  same offer as the new timer: it ends the chosen offer at once instead of three minutes later.
\<close>

lemma late_timer_ends_chosen_offer:
  "let es = [OOffer 0 0 demo_offer upgradeOfferTTL, OSelect upgradeOfferTTL ModeFHDSingle upgradeSelectTTL True,
         OExpire upgradeOfferTTL upgradeOfferTTL 0 True False] in
   os_keeps_run demo_tier demo_streaming es
   \<and> map_option (of_ExpiresAt \<circ> snd) (us_upgradeOffer (os_live (os_run demo_streaming (take 2 es)))) = Some (upgradeOfferTTL + upgradeSelectTTL)
   \<and> us_upgradeOffer (os_live (os_run demo_streaming es)) = None"
  by code_simp

text \<open>
  A switch marks itself finished before it releases the hold of its session. An offer made in between
  loses its units to that release and stands without a hold.
\<close>

lemma finished_switch_takes_hold_of_next_offer:
  "let es = [OSwitch 0 ''fhd'' [''youtube''] False, OFinish 1 [], OOffer 1 0 demo_offer upgradeOfferTTL, OSwitchEnd] in
   os_keeps_run demo_tier demo_streaming es
   \<and> us_upgradeOffer (os_live (os_run demo_streaming es)) \<noteq> None
   \<and> Held ''s'' (os_bud (os_run demo_streaming (take 3 es))) = 1 \<and> Held ''s'' (os_bud (os_run demo_streaming es)) = 0"
  by code_simp

end
