(* ===== verification/BroadcastHandlers.thy ===== *)
theory BroadcastHandlers
  imports Broadcast BroadcastLimits
begin

text \<open>
  Preparing a broadcast and going live as the server does it (\<^verbatim>\<open>internal/server/server.go\<close>,
  \<^verbatim>\<open>owned_broadcasts.go\<close>, \<^verbatim>\<open>streaming_account_select.go\<close>): the calls of the session manager, the plan and
  time limits, the calls of the platform and what is undone when one of them fails. The answers of the
  platform, of the ledger and of the slot budget are arguments, and so is what other goroutines do to the
  manager between two calls. The JSON details of an error and log lines are left out; \<open>handlePrepareStream\<close>
  starts from the decoded request, and \<open>handleGoLive\<close> leaves out the refresh of the remaining time in the answer.
\<close>

subsection \<open>Broadcasts the server made\<close>

definition ownedBroadcastTTL :: duration where
  "ownedBroadcastTTL = 24 * Hour"

type_synonym ownedBroadcasts = "string \<rightharpoonup> instant"

definition owned_add :: "instant \<Rightarrow> string \<Rightarrow> ownedBroadcasts \<Rightarrow> ownedBroadcasts" where
  "owned_add now bid ids = (\<lambda>k. case ids k of None \<Rightarrow> None | Some at \<Rightarrow> if now - at > ownedBroadcastTTL then None else Some at)(bid \<mapsto> now)"

definition owned_contains :: "instant \<Rightarrow> string \<Rightarrow> ownedBroadcasts \<Rightarrow> bool" where
  "owned_contains now bid ids = (case ids bid of None \<Rightarrow> False | Some at \<Rightarrow> now - at \<le> ownedBroadcastTTL)"

subsection \<open>Errors\<close>

datatype platform_error =
    ErrStreamingAccountSelectionRequired
  | ErrStreamingNotConnected
  | ErrStreamingReconnectRequired
  | ErrPlatformRateLimited
  | ErrQuotaExceeded
  | ErrLiveStreamingBlocked
  | ErrBroadcastNotReady
  | ErrPlatformOther

definition api :: "int \<Rightarrow> string \<Rightarrow> string \<Rightarrow> apiError" where
  "api st code msg = \<lparr>Status = st, Code = code, Message = msg\<rparr>"

definition internalError :: apiError where
  "internalError = api 500 ''internal_error'' ''An unexpected server error occurred.''"

definition badRequest :: "string \<Rightarrow> apiError" where
  "badRequest message = api 400 ''bad_request'' message"

definition sessionNotFound :: apiError where
  "sessionNotFound = api 404 ''not_found'' ''Session not found.''"

definition sessionError :: "session_error \<Rightarrow> apiError" where
  "sessionError e = (if e = ErrNotFound then sessionNotFound else internalError)"

definition broadcastPhaseError :: "BroadcastPhase \<Rightarrow> apiError" where
  "broadcastPhaseError ph = (case ph of
      BroadcastPhaseLive \<Rightarrow> api 409 ''broadcast_live'' ''The broadcast is already live.''
    | BroadcastPhasePreparing \<Rightarrow> api 409 ''broadcast_prepared'' ''The broadcast is already prepared.''
    | BroadcastPhasePrepared \<Rightarrow> api 409 ''broadcast_prepared'' ''The broadcast is already prepared.''
    | _ \<Rightarrow> api 409 ''broadcast_not_prepared'' ''Prepare the broadcast before going live.'')"

definition broadcastBeginError :: "session_error \<Rightarrow> apiError" where
  "broadcastBeginError e = (case e of
      ErrBroadcastLive \<Rightarrow> broadcastPhaseError BroadcastPhaseLive
    | ErrBroadcastPrepared \<Rightarrow> broadcastPhaseError BroadcastPhasePrepared
    | _ \<Rightarrow> sessionError e)"

definition goLiveBeginError :: "session_error \<Rightarrow> apiError" where
  "goLiveBeginError e = (case e of
      ErrBroadcastLive \<Rightarrow> broadcastPhaseError BroadcastPhaseLive
    | ErrBroadcastGoingLive \<Rightarrow> api 409 ''broadcast_going_live'' ''The broadcast is already switching to live.''
    | ErrBroadcastNotPrepared \<Rightarrow> broadcastPhaseError BroadcastPhaseIdle
    | _ \<Rightarrow> sessionError e)"

definition startStreamError :: "session_error \<Rightarrow> apiError" where
  "startStreamError e = (case e of
      ErrNoVideoTrack \<Rightarrow> api 409 ''conflict'' ''Cannot start stream before a video track is available.''
    | ErrStreamActive \<Rightarrow> api 409 ''stream_already_active'' ''The stream is already active.''
    | ErrSlots ErrEgressTierUnitsExhausted \<Rightarrow> api 503 ''egress_slots_exhausted'' ''No streaming slot is available. Try again after another broadcast ends.''
    | ErrSlots ErrEgressSlotsExhausted \<Rightarrow> api 503 ''egress_slots_exhausted'' ''No streaming slot is available. Try again after another broadcast ends.''
    | _ \<Rightarrow> sessionError e)"

definition youtubeChannelRequiredError :: apiError where
  "youtubeChannelRequiredError = api 409 ''youtube_channel_required'' ''Several YouTube channels are connected. Choose the channel to stream to.''"

definition channelInUseError :: apiError where
  "channelInUseError = api 409 ''channel_in_use_by_other_account''
     ''Another InnoLive account is broadcasting to this channel. Try again after that broadcast ends.''"

definition prepareError :: "platform_error \<Rightarrow> apiError" where
  "prepareError e = (case e of
      ErrStreamingAccountSelectionRequired \<Rightarrow> youtubeChannelRequiredError
    | ErrStreamingNotConnected \<Rightarrow> api 409 ''streaming_not_connected'' ''Connect a streaming account before starting a stream.''
    | ErrStreamingReconnectRequired \<Rightarrow> api 409 ''streaming_reconnect_required'' ''The streaming account needs to be reconnected.''
    | ErrPlatformRateLimited \<Rightarrow> api 429 ''streaming_rate_limited'' ''The streaming platform is limiting requests from this account. Try again later.''
    | ErrQuotaExceeded \<Rightarrow> api 503 ''streaming_quota_exceeded''
        ''The streaming platform's daily API limit for this service is used up. It resets at midnight Pacific Time.''
    | ErrLiveStreamingBlocked \<Rightarrow> api 403 ''live_streaming_blocked'' ''The channel is not enabled for live streaming. Enabling can take up to 24 hours.''
    | _ \<Rightarrow> api 502 ''streaming_prepare_failed'' ''The streaming platform could not prepare the broadcast.'')"

definition notSupported :: apiError where
  "notSupported = api 501 ''not_supported'' ''Streaming to this platform is not configured on the server.''"

definition golive_error :: "platform_error \<Rightarrow> apiError" where
  "golive_error e = (case e of
      ErrBroadcastNotReady \<Rightarrow> api 409 ''broadcast_not_ready'' ''The broadcast is not ready to go live yet. Retry once the stream is being received.''
    | ErrStreamingReconnectRequired \<Rightarrow> api 409 ''streaming_reconnect_required'' ''The streaming account needs to be reconnected.''
    | ErrQuotaExceeded \<Rightarrow> prepareError e
    | ErrPlatformRateLimited \<Rightarrow> prepareError e
    | _ \<Rightarrow> api 502 ''streaming_golive_failed'' ''The streaming platform could not switch the broadcast to live.'')"

subsection \<open>The methods of the manager that a target's broadcast goes through\<close>

definition ResetBroadcastPreparation :: "instant \<Rightarrow> string \<Rightarrow> string list \<Rightarrow> Manager \<Rightarrow> Manager" where
  "ResetBroadcastPreparation now i ps m = (case Get m i of
      None \<Rightarrow> m | Some s \<Rightarrow> put_session i (reset_preparation now (targetProvider s ps) s) m)"

definition MarkBroadcastPrepared :: "instant \<Rightarrow> string \<Rightarrow> PlatformBroadcast \<Rightarrow> string list \<Rightarrow> Manager \<Rightarrow> (session_error + unit) \<times> Manager" where
  "MarkBroadcastPrepared now i b ps m = on_session m i (\<lambda>s. quiet (mark_prepared now b (targetProvider s ps)) s)"

definition BeginGoLive :: "instant \<Rightarrow> string \<Rightarrow> string list \<Rightarrow> Manager \<Rightarrow> (session_error + unit) \<times> Manager" where
  "BeginGoLive now i ps m = on_session m i (\<lambda>s. quiet (begin_go_live now (targetProvider s ps)) s)"

definition CompleteGoLive :: "instant \<Rightarrow> string \<Rightarrow> string \<Rightarrow> string list \<Rightarrow> Manager \<Rightarrow> (bool \<times> PlatformBroadcast \<times> session_error option) \<times> Manager" where
  "CompleteGoLive now usageID i ps m = (case Get m i of
      None \<Rightarrow> ((True, zero_broadcast, Some ErrNotFound), m)
    | Some s \<Rightarrow> (let (r, s, eff) = complete_go_live (m_hooks m) now usageID (targetProvider s ps) s in
        (r, (put_session i s m)\<lparr>m_log := m_log m @ eff\<rparr>)))"

definition AbortGoLive :: "instant \<Rightarrow> string \<Rightarrow> string list \<Rightarrow> Manager \<Rightarrow> (bool \<times> PlatformBroadcast) \<times> Manager" where
  "AbortGoLive now i ps m = (case Get m i of
      None \<Rightarrow> ((True, zero_broadcast), m)
    | Some s \<Rightarrow> (let (r, s) = abort_go_live now (targetProvider s ps) s in (r, put_session i s m)))"

subsection \<open>The server and the platform\<close>

record PreparedBroadcast =
  pd_Provider :: string
  pd_BroadcastID :: string
  pd_StreamID :: string
  pd_AccountID :: nat
  pd_ChannelTitle :: string
  pd_IngestURL :: string
  pd_Warnings :: "string list"

record PrepareOptions =
  po_Title :: runes
  po_Description :: runes
  po_Privacy :: string
  po_MadeForKids :: "bool option"
  po_CategoryID :: runes
  po_Thumbnail :: "YouTubeThumbnail option"

definition zero_options :: PrepareOptions where
  "zero_options = \<lparr>po_Title = [], po_Description = [], po_Privacy = '''', po_MadeForKids = None, po_CategoryID = [], po_Thumbnail = None\<rparr>"

text \<open>A broadcast as the platform is told about it: provider, broadcast, stream and account.\<close>

type_synonym platform_ref = "string \<times> string \<times> string \<times> nat"

definition ref_of :: "PlatformBroadcast \<Rightarrow> platform_ref" where
  "ref_of b = (pb_Provider b, pb_BroadcastID b, pb_StreamID b, pb_AccountID b)"

datatype platform_call =
    CallPrepare nat string PrepareOptions
  | CallGoLive nat platform_ref
  | CallEndLive nat platform_ref
  | CallStop nat platform_ref
  | CallApplyChzzk string

record Server =
  sv_sessions :: Manager
  sv_streaming :: "string list"
  sv_own :: ownedBroadcasts
  sv_calls :: "platform_call list"

definition call :: "platform_call \<Rightarrow> Server \<Rightarrow> Server" where
  "call c srv = srv\<lparr>sv_calls := sv_calls srv @ [c]\<rparr>"

definition discardBroadcast :: "nat \<Rightarrow> PlatformBroadcast \<Rightarrow> Server \<Rightarrow> Server" where
  "discardBroadcast userID b srv = (if pb_Provider b \<notin> set (sv_streaming srv) then srv else call (CallStop userID (ref_of b)) srv)"

definition endLiveBroadcast :: "nat \<Rightarrow> PlatformBroadcast \<Rightarrow> Server \<Rightarrow> Server" where
  "endLiveBroadcast userID b srv = (if pb_Provider b \<notin> set (sv_streaming srv) \<or> pb_BroadcastID b = '''' then srv
     else call (CallEndLive userID (ref_of b)) srv)"

definition dispose_broadcast :: "nat \<Rightarrow> PlatformBroadcast \<Rightarrow> BroadcastPhase \<Rightarrow> Server \<Rightarrow> Server" where
  "dispose_broadcast userID b ph srv = (case ph of
      BroadcastPhaseLive \<Rightarrow> endLiveBroadcast userID b srv
    | BroadcastPhasePrepared \<Rightarrow> discardBroadcast userID b srv
    | _ \<Rightarrow> srv)"

text \<open>The cleanup of a withdrawal; \<open>answer\<close> is what \<open>EndLive\<close> or \<open>Stop\<close> returns, the result an error to retry.\<close>

definition disposeBroadcastWithContext :: "nat \<Rightarrow> PlatformBroadcast \<Rightarrow> BroadcastPhase \<Rightarrow> platform_error option \<Rightarrow> Server \<Rightarrow> bool \<times> Server" where
  "disposeBroadcastWithContext userID b ph answer srv =
    (if ph = BroadcastPhaseIdle \<or> pb_BroadcastID b = '''' then (True, srv)
     else if pb_Provider b \<notin> set (sv_streaming srv) then (False, srv)
     else let done = (answer = None \<or> answer = Some ErrStreamingReconnectRequired) in
       case ph of
         BroadcastPhaseLive \<Rightarrow> (done, call (CallEndLive userID (ref_of b)) srv)
       | BroadcastPhasePrepared \<Rightarrow> (done, call (CallStop userID (ref_of b)) srv)
       | _ \<Rightarrow> (True, srv))"

subsection \<open>Preparing a target\<close>

definition egressAttachesAtGoLive :: "string \<Rightarrow> bool" where
  "egressAttachesAtGoLive p = (p = ''chzzk'')"

definition chzzkEgressReconnectMaxElapsed :: duration where
  "chzzkEgressReconnectMaxElapsed = 10 * Second"

definition streamOptionsFor :: "string \<Rightarrow> string \<times> duration" where
  "streamOptionsFor p = (p, if p = ''chzzk'' then chzzkEgressReconnectMaxElapsed else 0)"

text \<open>What the environment answers, and what other goroutines do to the manager before the \<open>n\<close>-th access of the handler.\<close>

record world =
  w_now :: instant
  w_env :: "nat \<Rightarrow> Manager \<Rightarrow> Manager"
  w_resolve :: "(platform_error + string) option"
  w_ledger :: bool
  w_since :: "unit + SessionCharge list"
  w_month :: "unit + SessionCharge list"
  w_prepare :: "platform_error + PreparedBroadcast"
  w_goLive :: "platform_error option"
  w_start :: start_request
  w_acquire :: "EgressSlotBudget option \<Rightarrow> (egressError + EgressLease option) \<times> EgressSlotBudget option"
  w_usageID :: string

definition others :: "world \<Rightarrow> nat \<Rightarrow> Server \<Rightarrow> Server" where
  "others w n srv = srv\<lparr>sv_sessions := w_env w n (sv_sessions srv)\<rparr>"

text \<open>The object a handler works on: \<open>live\<close> itself once the session has left the manager.\<close>

definition live_session :: "Manager \<Rightarrow> Session \<Rightarrow> Session" where
  "live_session m live = (case Get m (s_ID live) of None \<Rightarrow> live | Some s \<Rightarrow> s)"

definition BroadcastSettings_of :: "Session \<Rightarrow> YouTubeBroadcastSettings" where
  "BroadcastSettings_of s = (case s_broadcast s of Some b \<Rightarrow> b
    | None \<Rightarrow> \<lparr>yt_Title = [], yt_Description = [], yt_Privacy = '''', yt_MadeForKids = None, yt_CategoryID = [], yt_Thumbnail = None, yt_UpdatedAt = 0\<rparr>)"

definition prepareOptionsFrom :: "YouTubeBroadcastSettings \<Rightarrow> string \<Rightarrow> PrepareOptions" where
  "prepareOptionsFrom settings faceAnonymization = \<lparr>po_Title = yt_Title settings,
     po_Description = PlatformDescription faceAnonymization (yt_Description settings), po_Privacy = yt_Privacy settings,
     po_MadeForKids = yt_MadeForKids settings, po_CategoryID = yt_CategoryID settings, po_Thumbnail = yt_Thumbnail settings\<rparr>"

text \<open>\<open>w_resolve\<close> is the answer of \<open>ResolveAccount\<close>, \<open>None\<close> when the provider has no such method.\<close>

definition broadcastChannel :: "world \<Rightarrow> string \<Rightarrow> apiError + string" where
  "broadcastChannel w p = (if p \<noteq> ''youtube'' then Ok '''' else case w_resolve w of
      None \<Rightarrow> Ok ''''
    | Some (Inl e) \<Rightarrow> Err (prepareError e)
    | Some (Inr channelID) \<Rightarrow> Ok (p @ ''/'' @ channelID))"

text \<open>The plan gate, then the limit of one broadcast, then that of the month.\<close>

definition prepare_gate :: "world \<Rightarrow> Session \<Rightarrow> nat \<Rightarrow> Manager \<Rightarrow> apiError option" where
  "prepare_gate w live busy m =
    (case planGateError (s_Plan live) (on_device live) (s_resolution (live_session m live) = ResolutionFHD) (int busy) of
       Some gate \<Rightarrow> Some gate
     | None \<Rightarrow> (case broadcastLimitError (w_ledger w) (s_UserID live \<noteq> 0) (s_Plan live) (s_ID live) (w_since w) of
         Inl _ \<Rightarrow> Some internalError
       | Inr (Some e) \<Rightarrow> Some e
       | Inr None \<Rightarrow> (case monthlyLimitError (w_ledger w) (s_UserID live \<noteq> 0) (s_Plan live) (on_device live) (w_month w) of
           Inl _ \<Rightarrow> Some internalError
         | Inr e \<Rightarrow> e)))"

definition prepare_options :: "Session \<Rightarrow> string \<Rightarrow> Manager \<Rightarrow> apiError + PrepareOptions" where
  "prepare_options live p m = (if p = ''chzzk'' then Ok zero_options
     else let options = prepareOptionsFrom (BroadcastSettings_of (live_session m live)) (s_FaceAnonymization live) in
       if po_MadeForKids options = None then Err (badRequest ''made_for_kids must be specified in the broadcast settings.'')
       else Ok options)"

definition prepared_record :: "PreparedBroadcast \<Rightarrow> PlatformBroadcast" where
  "prepared_record d = \<lparr>pb_Provider = pd_Provider d, pb_BroadcastID = pd_BroadcastID d, pb_StreamID = pd_StreamID d,
     pb_AccountID = pd_AccountID d, pb_ChannelTitle = pd_ChannelTitle d, pb_IngestURL = ''''\<rparr>"

text \<open>The ingest URL is kept when the egress is attached later or the app streams itself.\<close>

definition stored_record :: "Session \<Rightarrow> string \<Rightarrow> PreparedBroadcast \<Rightarrow> PlatformBroadcast" where
  "stored_record live p d = (if egressAttachesAtGoLive p \<or> on_device live then (prepared_record d)\<lparr>pb_IngestURL := pd_IngestURL d\<rparr> else prepared_record d)"

definition reset_prepare :: "world \<Rightarrow> Session \<Rightarrow> string \<Rightarrow> Server \<Rightarrow> Server" where
  "reset_prepare w live p srv = srv\<lparr>sv_sessions := ResetBroadcastPreparation (w_now w) (s_ID live) [p] (sv_sessions srv)\<rparr>"

definition start_target :: "world \<Rightarrow> Session \<Rightarrow> string \<Rightarrow> string \<Rightarrow> Server \<Rightarrow> (session_error + unit) \<times> Server" where
  "start_target w live p url srv = (let (r, m) = StartStream (w_now w) (s_ID live) ((w_start w)\<lparr>rq_url := url, rq_paused := False\<rparr>) [p]
       (w_acquire w (m_slots (sv_sessions srv))) (sv_sessions srv) in (r, srv\<lparr>sv_sessions := m\<rparr>))"

text \<open>The part of \<open>prepareTarget\<close> after the platform has made the broadcast.\<close>

definition record_prepared :: "world \<Rightarrow> Session \<Rightarrow> string \<Rightarrow> PreparedBroadcast \<Rightarrow> Server \<Rightarrow> (apiError + string list) \<times> Server" where
  "record_prepared w live p prepared srv =
    (let b = stored_record live p prepared;
         (started, srv) = (if egressAttachesAtGoLive p \<or> on_device live then (Ok (), srv) else start_target w live p (pd_IngestURL prepared) (others w 4 srv));
         undo = (\<lambda>srv. reset_prepare w live p (others w 6 (discardBroadcast (s_UserID live) b srv))) in
     case started of
       Inl e \<Rightarrow> (Err (startStreamError e), undo srv)
     | Inr _ \<Rightarrow> (let srv = others w 5 srv; (r, m) = MarkBroadcastPrepared (w_now w) (s_ID live) b [p] (sv_sessions srv); srv = srv\<lparr>sv_sessions := m\<rparr> in
         case r of
           Inl e \<Rightarrow> (Err (sessionError e), undo srv)
         | Inr _ \<Rightarrow> (Ok (pd_Warnings prepared), srv)))"

definition call_prepare :: "world \<Rightarrow> Session \<Rightarrow> string \<Rightarrow> PrepareOptions \<Rightarrow> Server \<Rightarrow> (apiError + string list) \<times> Server" where
  "call_prepare w live p options srv = (let srv = call (CallPrepare (s_UserID live) p options) srv in
     case w_prepare w of
       Inl e \<Rightarrow> (Err (prepareError e), reset_prepare w live p (others w 4 srv))
     | Inr prepared \<Rightarrow> record_prepared w live p prepared
         (if pd_BroadcastID prepared \<noteq> '''' then srv\<lparr>sv_own := owned_add (w_now w) (pd_BroadcastID prepared) (sv_own srv)\<rparr> else srv))"

definition prepareTarget :: "world \<Rightarrow> Session \<Rightarrow> string \<Rightarrow> Server \<Rightarrow> (apiError + string list) \<times> Server" where
  "prepareTarget w live p srv =
    (if p \<notin> set (sv_streaming srv) then (Err notSupported, srv)
     else case broadcastChannel w p of
       Inl e \<Rightarrow> (Err e, srv)
     | Inr channel \<Rightarrow> (let srv = others w 0 srv; (r, m) = BeginBroadcastPrepareOnChannel (w_now w) (s_ID live) channel [p] (sv_sessions srv);
           srv = srv\<lparr>sv_sessions := m\<rparr> in
         case r of
           Inl e \<Rightarrow> (Err (if e = ErrChannelInUseByOtherAccount then channelInUseError else broadcastBeginError e), srv)
         | Inr busy \<Rightarrow> (let srv = others w 1 srv in case prepare_gate w live busy (sv_sessions srv) of
             Some e \<Rightarrow> (Err e, reset_prepare w live p (others w 2 srv))
           | None \<Rightarrow> (let srv = others w 3 srv in case prepare_options live p (sv_sessions srv) of
               Inl e \<Rightarrow> (Err e, reset_prepare w live p srv)
             | Inr options \<Rightarrow> call_prepare w live p options srv))))"

subsection \<open>Going live\<close>

definition abort_target :: "world \<Rightarrow> nat \<Rightarrow> Session \<Rightarrow> string \<Rightarrow> Server \<Rightarrow> (bool \<times> PlatformBroadcast) \<times> Server" where
  "abort_target w n live p srv = (let srv = others w n srv; (r, m) = AbortGoLive (w_now w) (s_ID live) [p] (sv_sessions srv) in
     (r, srv\<lparr>sv_sessions := m\<rparr>))"

text \<open>The end of \<open>goLiveTarget\<close>, once the platform has switched and the egress is attached.\<close>

definition complete_target :: "world \<Rightarrow> Session \<Rightarrow> string \<Rightarrow> PlatformBroadcast \<Rightarrow> Server \<Rightarrow> apiError option \<times> Server" where
  "complete_target w live p broadcast srv =
    (let srv = others w 5 srv; ((aborted, b, err), m) = CompleteGoLive (w_now w) (w_usageID w) (s_ID live) [p] (sv_sessions srv);
         srv = srv\<lparr>sv_sessions := m\<rparr>;
         b = (if pb_BroadcastID b = '''' then broadcast else b) in
     if aborted then (Some (api 409 ''broadcast_stopped'' ''The stream was stopped while the broadcast was switching to live.''),
       endLiveBroadcast (s_UserID live) b srv)
     else case err of
       Some e \<Rightarrow> (Some (sessionError e), srv)
     | None \<Rightarrow> (None, if p = ''chzzk'' then call (CallApplyChzzk (s_ID live)) srv else srv))"

definition goLiveTarget :: "world \<Rightarrow> Session \<Rightarrow> string \<Rightarrow> Server \<Rightarrow> apiError option \<times> Server" where
  "goLiveTarget w live p srv =
    (let srv = others w 0 srv;
         broadcast = fst (PlatformBroadcast_of p (live_session (sv_sessions srv) live));
         srv = others w 1 srv;
         (r, m) = BeginGoLive (w_now w) (s_ID live) [p] (sv_sessions srv);
         srv = srv\<lparr>sv_sessions := m\<rparr> in
     case r of
       Inl e \<Rightarrow> (Some (goLiveBeginError e), srv)
     | Inr _ \<Rightarrow>
       if p \<notin> set (sv_streaming srv) then (Some notSupported, snd (abort_target w 2 live p srv))
       else let srv = call (CallGoLive (s_UserID live) (p, pb_BroadcastID broadcast, pb_StreamID broadcast, pb_AccountID broadcast)) srv in
         case w_goLive w of
           Some e \<Rightarrow> (let ((stopped, abandoned), srv) = abort_target w 3 live p srv in
             (Some (golive_error e),
              if stopped then discardBroadcast (s_UserID live) (if pb_BroadcastID abandoned = '''' then broadcast else abandoned) srv else srv))
         | None \<Rightarrow>
             if egressAttachesAtGoLive p \<and> \<not> on_device live then
               (case start_target w live p (pb_IngestURL broadcast) (others w 3 srv) of
                  (Inl e, srv) \<Rightarrow> (Some (startStreamError e), snd (abort_target w 4 live p srv))
                | (Inr _, srv) \<Rightarrow> complete_target w live p broadcast srv)
             else complete_target w live p broadcast srv)"

record goLiveFailure =
  gf_Provider :: string
  gf_Code :: string
  gf_Message :: string

definition failure_of :: "string \<Rightarrow> apiError \<Rightarrow> goLiveFailure" where
  "failure_of p e = \<lparr>gf_Provider = p, gf_Code = Code e, gf_Message = Message e\<rparr>"

fun go_live_all :: "(string \<Rightarrow> world) \<Rightarrow> Session \<Rightarrow> string list \<Rightarrow> Server \<Rightarrow> (string \<times> apiError) list \<times> Server" where
  "go_live_all w live [] srv = ([], srv)"
| "go_live_all w live (p # ps) srv = (let (e, srv) = goLiveTarget (w p) live p srv; (es, srv) = go_live_all w live ps srv in
     (case e of None \<Rightarrow> es | Some e \<Rightarrow> (p, e) # es, srv))"

definition directIngestURL :: "Session \<Rightarrow> string \<Rightarrow> bool \<Rightarrow> string" where
  "directIngestURL s p atGoLive = (if \<not> on_device s \<or> egressAttachesAtGoLive p \<noteq> atGoLive then ''''
     else let (b, ph) = PlatformBroadcast_of p s in
       if ph \<noteq> (if atGoLive then BroadcastPhaseLive else BroadcastPhasePrepared) then '''' else pb_IngestURL b)"

record go_live_response =
  gr_failed :: "goLiveFailure list"
  gr_ingest :: "(string \<times> string) list"

definition handleGoLive :: "(string \<Rightarrow> world) \<Rightarrow> Session \<Rightarrow> Server \<Rightarrow> (apiError + go_live_response) \<times> Server" where
  "handleGoLive w live srv =
    (let prepared = PreparedTargets (live_session (sv_sessions srv) live);
         providers = (if prepared = [] then [s_Provider live] else prepared);
         (es, srv) = go_live_all w live providers srv in
     if length es = length providers then (Err (snd (hd es)), srv)
     else (Ok \<lparr>gr_failed = map (\<lambda>(p, e). failure_of p e) es,
       gr_ingest = filter (\<lambda>(p, url). url \<noteq> '''') (map (\<lambda>p. (p, directIngestURL (live_session (sv_sessions srv) live) p True)) providers)\<rparr>, srv))"

subsection \<open>The request to prepare\<close>

text \<open>\<open>active\<close> is the answer of \<open>ActiveBroadcasts\<close>, \<open>None\<close> for a provider without that method.\<close>

definition channelAlreadyLive :: "instant \<Rightarrow> (platform_error + string list) option \<Rightarrow> ownedBroadcasts \<Rightarrow> apiError option" where
  "channelAlreadyLive now active own = (case active of
      None \<Rightarrow> None
    | Some (Inl _) \<Rightarrow> None
    | Some (Inr ids) \<Rightarrow> if length (filter (\<lambda>bid. \<not> owned_contains now bid own) ids) = 0 then None
        else Some (api 409 ''channel_already_live'' ''The channel already has a live broadcast. Confirm to start another one.''))"

text \<open>\<open>account\<close> is what \<open>streamingAccountContext\<close> makes of the requested account.\<close>

definition handlePrepareStream :: "world \<Rightarrow> string \<Rightarrow> bool \<Rightarrow> platform_error option \<Rightarrow> (platform_error + string list) option \<Rightarrow> bool \<Rightarrow>
    Session \<Rightarrow> Server \<Rightarrow> (apiError + string list \<times> string) \<times> Server" where
  "handlePrepareStream w requested allowConcurrent account active quotaLow live srv =
    (let p = (if requested = '''' then s_Provider live else requested) in
     case (if p = ''youtube'' then account else None) of
       Some e \<Rightarrow> (Err (prepareError e), srv)
     | None \<Rightarrow> (case (if p \<noteq> ''youtube'' \<and> \<not> allowConcurrent \<and> p \<in> set (sv_streaming srv) then channelAlreadyLive (w_now w) active (sv_own srv) else None) of
         Some e \<Rightarrow> (Err e, srv)
       | None \<Rightarrow> (case prepareTarget w live p srv of
           (Inl e, srv) \<Rightarrow> (Err e, srv)
         | (Inr warnings, srv) \<Rightarrow>
             (Ok (warnings @ (if p = ''youtube'' \<and> quotaLow then [''youtube_quota_low''] else []),
                directIngestURL (live_session (sv_sessions srv) live) p False), srv))))"

subsection \<open>Lemmas\<close>

lemma Get_put_session: "Get (put_session i s m) i = Some s"
  by (simp add: Get_def put_session_def update_Some_unfold)

lemma targetProvider_one: "p \<noteq> '''' \<Longrightarrow> targetProvider s [p] = p"
  by (simp add: targetProvider_def)

lemma server_calls [simp]:
  "sv_calls (others w n srv) = sv_calls srv" "sv_streaming (others w n srv) = sv_streaming srv"
  "sv_calls (reset_prepare w live p srv) = sv_calls srv" "sv_streaming (reset_prepare w live p srv) = sv_streaming srv"
  "sv_calls (call c srv) = sv_calls srv @ [c]" "sv_streaming (call c srv) = sv_streaming srv"
  "sv_calls (discardBroadcast u b srv) = sv_calls srv @ (if pb_Provider b \<in> set (sv_streaming srv) then [CallStop u (ref_of b)] else [])"
  by (simp_all add: others_def reset_prepare_def call_def discardBroadcast_def)

lemma start_target_calls: "start_target w live p url srv = (r, srv') \<Longrightarrow> sv_calls srv' = sv_calls srv \<and> sv_streaming srv' = sv_streaming srv"
  by (auto simp: start_target_def split: prod.splits)

lemma reset_settles:
  assumes "p \<noteq> ''''" and "Get (sv_sessions (reset_prepare w live p srv)) (s_ID live) = Some s"
  shows "t_phase (readTarget p s) \<noteq> BroadcastPhasePreparing"
proof (cases "Get (sv_sessions srv) (s_ID live)")
  case None
  then show ?thesis using assms(2) by (simp add: reset_prepare_def ResetBroadcastPreparation_def)
next
  case (Some s0)
  then have "s = reset_preparation (w_now w) p s0"
    using assms by (simp add: reset_prepare_def ResetBroadcastPreparation_def Get_put_session targetProvider_one)
  then show ?thesis by (auto simp: reset_preparation_def Let_def target_def)
qed

lemma mark_records:
  assumes "p \<noteq> ''''" and "MarkBroadcastPrepared now i b [p] m = (Inr u, m')"
  shows "\<exists>s. Get m' i = Some s \<and> PlatformBroadcast_of p s = (b, BroadcastPhasePrepared)"
proof (cases "Get m i")
  case None
  then show ?thesis using assms(2) by (simp add: MarkBroadcastPrepared_def on_session_def)
next
  case (Some s)
  obtain r s' where r: "mark_prepared now b p s = (r, s')" by fastforce
  then have "r = Inr u" "m' = (put_session i s' m)\<lparr>m_log := m_log m\<rparr>"
    using assms Some by (simp_all add: MarkBroadcastPrepared_def on_session_def quiet_def targetProvider_one)
  then have "Get m' i = Some s'" by (simp add: Get_def put_session_def update_Some_unfold)
  moreover have "PlatformBroadcast_of p s' = (b, BroadcastPhasePrepared)"
    using r \<open>r = Inr u\<close> by (auto simp: mark_prepared_def PlatformBroadcast_of_def Let_def split: if_splits)
  ultimately show ?thesis by blast
qed

lemma ref_of_stored: "ref_of (stored_record live p d) = ref_of (prepared_record d)" "pb_Provider (stored_record live p d) = pd_Provider d"
  by (simp_all add: stored_record_def ref_of_def prepared_record_def)

text \<open>What is left of a broadcast the platform has made: recorded as prepared, or stopped again with the target reset.\<close>

definition settled :: "world \<Rightarrow> Session \<Rightarrow> string \<Rightarrow> PreparedBroadcast \<Rightarrow> platform_call list \<Rightarrow> apiError + string list \<Rightarrow> Server \<Rightarrow> bool" where
  "settled w live p d before r srv \<longleftrightarrow> (case r of
      Inr warnings \<Rightarrow> warnings = pd_Warnings d \<and> sv_calls srv = before
        \<and> (\<exists>s. Get (sv_sessions srv) (s_ID live) = Some s \<and> PlatformBroadcast_of p s = (stored_record live p d, BroadcastPhasePrepared))
    | Inl e \<Rightarrow> sv_calls srv = before @ [CallStop (s_UserID live) (ref_of (prepared_record d))]
        \<and> (\<forall>s. Get (sv_sessions srv) (s_ID live) = Some s \<longrightarrow> t_phase (readTarget p s) \<noteq> BroadcastPhasePreparing))"

lemma record_prepared_settles:
  assumes p: "p \<noteq> ''''" and conf: "pd_Provider d = p" "p \<in> set (sv_streaming srv)" and run: "record_prepared w live p d srv = (r, srv')"
  shows "settled w live p d (sv_calls srv) r srv'"
proof -
  let ?b = "stored_record live p d" and ?u = "s_UserID live"
  let ?undo = "\<lambda>srv. reset_prepare w live p (others w 6 (discardBroadcast ?u ?b srv))"
  obtain started srv1 where st: "(if egressAttachesAtGoLive p \<or> on_device live then (Ok (), srv)
      else start_target w live p (pd_IngestURL d) (others w 4 srv)) = (started, srv1)" by fastforce
  then have s1: "sv_calls srv1 = sv_calls srv" "sv_streaming srv1 = sv_streaming srv"
    using start_target_calls [of w live p "pd_IngestURL d" "others w 4 srv"] by (auto split: if_splits)
  have undo: "settled w live p d (sv_calls srv) (Inl e) (?undo srv2)"
    if "sv_calls srv2 = sv_calls srv" "sv_streaming srv2 = sv_streaming srv" for e srv2
    using that conf reset_settles [OF p] by (auto simp: settled_def ref_of_stored)
  define srv2 where "srv2 = others w 5 srv1"
  obtain q m where mk: "MarkBroadcastPrepared (w_now w) (s_ID live) ?b [p] (sv_sessions srv2) = (q, m)" by fastforce
  have run': "(r, srv') = (case started of Inl e \<Rightarrow> (Err (startStreamError e), ?undo srv1)
      | Inr _ \<Rightarrow> (case q of Inl e \<Rightarrow> (Err (sessionError e), ?undo (srv2\<lparr>sv_sessions := m\<rparr>)) | Inr _ \<Rightarrow> (Ok (pd_Warnings d), srv2\<lparr>sv_sessions := m\<rparr>)))"
    using run unfolding record_prepared_def Let_def st by (simp add: mk srv2_def [symmetric] split: sum.splits)
  show ?thesis
  proof (cases started)
    case (Inl e)
    then show ?thesis using run' undo [OF s1] by simp
  next
    case (Inr u)
    show ?thesis
    proof (cases q)
      case (Inl e)
      then show ?thesis using run' Inr undo [of "srv2\<lparr>sv_sessions := m\<rparr>"] s1 by (simp add: srv2_def)
    next
      case (Inr v)
      then show ?thesis using run' \<open>started = Inr u\<close> mark_records [OF p] mk s1 by (auto simp: settled_def srv2_def)
    qed
  qed
qed

lemma call_prepare_settles:
  assumes p: "p \<noteq> ''''" and conf: "\<And>d. w_prepare w = Inr d \<Longrightarrow> pd_Provider d = p" "p \<in> set (sv_streaming srv)"
    and run: "call_prepare w live p options srv = (r, srv')"
  shows "case w_prepare w of
      Inl e \<Rightarrow> r = Inl (prepareError e) \<and> sv_calls srv' = sv_calls srv @ [CallPrepare (s_UserID live) p options]
        \<and> (\<forall>s. Get (sv_sessions srv') (s_ID live) = Some s \<longrightarrow> t_phase (readTarget p s) \<noteq> BroadcastPhasePreparing)
    | Inr d \<Rightarrow> settled w live p d (sv_calls srv @ [CallPrepare (s_UserID live) p options]) r srv'"
proof (cases "w_prepare w")
  case (Inl e)
  then show ?thesis using run reset_settles [OF p] by (auto simp: call_prepare_def)
next
  case (Inr d)
  define srv1 where "srv1 = call (CallPrepare (s_UserID live) p options) srv"
  define srv2 where "srv2 = (if pd_BroadcastID d \<noteq> [] then srv1\<lparr>sv_own := owned_add (w_now w) (pd_BroadcastID d) (sv_own srv1)\<rparr> else srv1)"
  have "sv_calls srv2 = sv_calls srv @ [CallPrepare (s_UserID live) p options]" "sv_streaming srv2 = sv_streaming srv" by (simp_all add: srv2_def srv1_def)
  moreover have "record_prepared w live p d srv2 = (r, srv')" using run Inr unfolding srv2_def srv1_def by (simp add: call_prepare_def Let_def split del: if_split)
  ultimately show ?thesis using record_prepared_settles [OF p conf(1) [OF Inr], of srv2 w live r srv'] conf(2) Inr by simp
qed

text \<open>What a preparation leads to, and a claimed one in particular.\<close>

definition prepare_outcome ::
    "world \<Rightarrow> Session \<Rightarrow> string \<Rightarrow> Server \<Rightarrow> apiError + string list \<Rightarrow> Server \<Rightarrow> bool" where
  "prepare_outcome w live p srv r srv' = ((sv_calls srv' = sv_calls srv \<and> (\<exists>e. r = Inl e)
    \<or> (\<exists>channel busy m m2 options. broadcastChannel w p = Inr channel
        \<and> BeginBroadcastPrepareOnChannel (w_now w) (s_ID live) channel [p] (w_env w 0 (sv_sessions srv)) = (Inr busy, m)
        \<and> planGateError (s_Plan live) (on_device live) (s_resolution (live_session (w_env w 1 m) live) = ResolutionFHD) (int busy) = None
        \<and> broadcastLimitError (w_ledger w) (s_UserID live \<noteq> 0) (s_Plan live) (s_ID live) (w_since w) = Inr None
        \<and> monthlyLimitError (w_ledger w) (s_UserID live \<noteq> 0) (s_Plan live) (on_device live) (w_month w) = Inr None
        \<and> (p \<noteq> ''chzzk'' \<longrightarrow> yt_MadeForKids (BroadcastSettings_of (live_session m2 live)) \<noteq> None
              \<and> po_MadeForKids options = yt_MadeForKids (BroadcastSettings_of (live_session m2 live)))
        \<and> (case w_prepare w of
             Inl e \<Rightarrow> r = Inl (prepareError e) \<and> sv_calls srv' = sv_calls srv @ [CallPrepare (s_UserID live) p options]
           | Inr d \<Rightarrow> settled w live p d (sv_calls srv @ [CallPrepare (s_UserID live) p options]) r srv')))
    \<and> ((\<exists>e. r = Inl e) \<longrightarrow> (\<forall>channel busy m. p \<in> set (sv_streaming srv) \<and> broadcastChannel w p = Inr channel
        \<and> BeginBroadcastPrepareOnChannel (w_now w) (s_ID live) channel [p] (w_env w 0 (sv_sessions srv)) = (Inr busy, m) \<longrightarrow>
        (\<forall>s. Get (sv_sessions srv') (s_ID live) = Some s \<longrightarrow> t_phase (readTarget p s) \<noteq> BroadcastPhasePreparing))))"

lemma claimed_prepare_settles:
  assumes p: "p \<noteq> ''''" and prov: "\<And>d. w_prepare w = Inr d \<Longrightarrow> pd_Provider d = p"
    and conf: "p \<in> set (sv_streaming srv)" and ch: "broadcastChannel w p = Inr channel"
    and bg: "BeginBroadcastPrepareOnChannel (w_now w) (s_ID live) channel [p] (w_env w 0 (sv_sessions srv)) = (Inr busy, m)"
    and s1: "sv_calls srv1 = sv_calls srv" "sv_streaming srv1 = sv_streaming srv" "sv_sessions srv1 = w_env w 1 m"
    and run1: "(r, srv') = (case prepare_gate w live busy (sv_sessions srv1) of
             Some e \<Rightarrow> (Err e, reset_prepare w live p (others w 2 srv1))
           | None \<Rightarrow> (case prepare_options live p (sv_sessions (others w 3 srv1)) of
               Inl e \<Rightarrow> (Err e, reset_prepare w live p (others w 3 srv1))
             | Inr options \<Rightarrow> call_prepare w live p options (others w 3 srv1)))"
  shows "prepare_outcome w live p srv r srv'"
proof -
  show ?thesis
  proof (cases "prepare_gate w live busy (sv_sessions srv1)")
    case (Some e)
    then show ?thesis using run1 s1 reset_settles [OF p] by (auto simp: prepare_outcome_def)
  next
    case gate: None
    show ?thesis
    proof (cases "prepare_options live p (sv_sessions (others w 3 srv1))")
      case (Inl e)
      then show ?thesis using run1 gate s1 reset_settles [OF p] by (auto simp: prepare_outcome_def)
    next
      case op: (Inr options)
      have c: "call_prepare w live p options (others w 3 srv1) = (r, srv')" using run1 gate op by simp
      have conf': "p \<in> set (sv_streaming (others w 3 srv1))" using conf s1 by simp
      note k = call_prepare_settles [OF p prov conf' c, unfolded server_calls s1(1)]
      have g: "planGateError (s_Plan live) (on_device live) (s_resolution (live_session (w_env w 1 m) live) = ResolutionFHD) (int busy) = None"
        "broadcastLimitError (w_ledger w) (s_UserID live \<noteq> 0) (s_Plan live) (s_ID live) (w_since w) = Inr None"
        "monthlyLimitError (w_ledger w) (s_UserID live \<noteq> 0) (s_Plan live) (on_device live) (w_month w) = Inr None"
        using gate s1(3) by (auto simp: prepare_gate_def split: option.splits sum.splits)
      have o: "p \<noteq> ''chzzk'' \<longrightarrow> yt_MadeForKids (BroadcastSettings_of (live_session (sv_sessions (others w 3 srv1)) live)) \<noteq> None
          \<and> po_MadeForKids options = yt_MadeForKids (BroadcastSettings_of (live_session (sv_sessions (others w 3 srv1)) live))"
        using op by (auto simp: prepare_options_def prepareOptionsFrom_def Let_def split: if_splits)
      have fin: "\<forall>s. Get (sv_sessions srv') (s_ID live) = Some s \<longrightarrow> t_phase (readTarget p s) \<noteq> BroadcastPhasePreparing" if "r = Inl e" for e
        using k that by (auto simp: settled_def split: sum.splits)
      have k': "case w_prepare w of
         Inl e \<Rightarrow> r = Inl (prepareError e) \<and> sv_calls srv' = sv_calls srv @ [CallPrepare (s_UserID live) p options]
       | Inr d \<Rightarrow> settled w live p d (sv_calls srv @ [CallPrepare (s_UserID live) p options]) r srv'"
        using k by (auto split: sum.splits)
      show ?thesis unfolding prepare_outcome_def using ch bg g o k' fin by blast
    qed
  qed
qed

text \<open>
  Property C28. Preparing never leaves a broadcast behind, whatever other requests do to the session
  between any two steps. The platform is asked to make a broadcast only after the target was claimed, the
  plan gate passed for the number of targets counted with the claim, neither time limit was reached and,
  except on Chzzk, the audience was declared. The request succeeds only when the broadcast made is
  recorded on its target as prepared; when it fails after the platform made one, that broadcast is
  stopped on the platform. After a failure of an accepted claim the target is not left in preparation.
\<close>

theorem prepare_settles_broadcast:
  assumes p: "p \<noteq> ''''" and prov: "\<And>d. w_prepare w = Inr d \<Longrightarrow> pd_Provider d = p"
    and run: "prepareTarget w live p srv = (r, srv')"
  shows "(sv_calls srv' = sv_calls srv \<and> (\<exists>e. r = Inl e)
    \<or> (\<exists>channel busy m m2 options. broadcastChannel w p = Inr channel
        \<and> BeginBroadcastPrepareOnChannel (w_now w) (s_ID live) channel [p] (w_env w 0 (sv_sessions srv)) = (Inr busy, m)
        \<and> planGateError (s_Plan live) (on_device live) (s_resolution (live_session (w_env w 1 m) live) = ResolutionFHD) (int busy) = None
        \<and> broadcastLimitError (w_ledger w) (s_UserID live \<noteq> 0) (s_Plan live) (s_ID live) (w_since w) = Inr None
        \<and> monthlyLimitError (w_ledger w) (s_UserID live \<noteq> 0) (s_Plan live) (on_device live) (w_month w) = Inr None
        \<and> (p \<noteq> ''chzzk'' \<longrightarrow> yt_MadeForKids (BroadcastSettings_of (live_session m2 live)) \<noteq> None
              \<and> po_MadeForKids options = yt_MadeForKids (BroadcastSettings_of (live_session m2 live)))
        \<and> (case w_prepare w of
             Inl e \<Rightarrow> r = Inl (prepareError e) \<and> sv_calls srv' = sv_calls srv @ [CallPrepare (s_UserID live) p options]
           | Inr d \<Rightarrow> settled w live p d (sv_calls srv @ [CallPrepare (s_UserID live) p options]) r srv')))
    \<and> ((\<exists>e. r = Inl e) \<longrightarrow> (\<forall>channel busy m. p \<in> set (sv_streaming srv) \<and> broadcastChannel w p = Inr channel
        \<and> BeginBroadcastPrepareOnChannel (w_now w) (s_ID live) channel [p] (w_env w 0 (sv_sessions srv)) = (Inr busy, m) \<longrightarrow>
        (\<forall>s. Get (sv_sessions srv') (s_ID live) = Some s \<longrightarrow> t_phase (readTarget p s) \<noteq> BroadcastPhasePreparing)))"
proof (cases "p \<in> set (sv_streaming srv)")
  case False
  then show ?thesis using run by (auto simp: prepareTarget_def)
next
  case conf: True
  show ?thesis
  proof (cases "broadcastChannel w p")
    case (Inl e)
    then show ?thesis using run conf by (auto simp: prepareTarget_def)
  next
    case ch: (Inr channel)
    obtain q m where bg: "BeginBroadcastPrepareOnChannel (w_now w) (s_ID live) channel [p] (w_env w 0 (sv_sessions srv)) = (q, m)" by fastforce
    show ?thesis
    proof (cases q)
      case (Inl e)
      then show ?thesis using run conf ch bg by (auto simp: prepareTarget_def others_def)
    next
      case q: (Inr busy)
      define srv1 where "srv1 = others w 1 (srv\<lparr>sv_sessions := m\<rparr>)"
      have e0: "(others w 0 srv)\<lparr>sv_sessions := m\<rparr> = srv\<lparr>sv_sessions := m\<rparr>" "sv_sessions (others w 0 srv) = w_env w 0 (sv_sessions srv)"
        by (simp_all add: others_def)
      have s1: "sv_calls srv1 = sv_calls srv" "sv_streaming srv1 = sv_streaming srv" "sv_sessions srv1 = w_env w 1 m"
        by (simp_all add: srv1_def others_def)
      have run1: "(r, srv') = (case prepare_gate w live busy (sv_sessions srv1) of
             Some e \<Rightarrow> (Err e, reset_prepare w live p (others w 2 srv1))
           | None \<Rightarrow> (case prepare_options live p (sv_sessions (others w 3 srv1)) of
               Inl e \<Rightarrow> (Err e, reset_prepare w live p (others w 3 srv1))
             | Inr options \<Rightarrow> call_prepare w live p options (others w 3 srv1)))"
        using run conf ch q bg by (simp add: prepareTarget_def Let_def e0 srv1_def cong: option.case_cong sum.case_cong)
      show ?thesis using claimed_prepare_settles [OF p prov conf ch bg [unfolded q] s1 run1] unfolding prepare_outcome_def .
    qed
  qed
qed

subsection \<open>Going live\<close>

text \<open>The broadcast recorded on the target of a session that is still registered.\<close>

definition recorded :: "string \<Rightarrow> string \<Rightarrow> Manager \<Rightarrow> PlatformBroadcast option" where
  "recorded i p m = (case Get m i of None \<Rightarrow> None | Some s \<Rightarrow> t_platformBroadcast (readTarget p s))"

definition only_record :: "string \<Rightarrow> string \<Rightarrow> PlatformBroadcast \<Rightarrow> Manager \<Rightarrow> bool" where
  "only_record i p b m \<longleftrightarrow> recorded i p m = None \<or> recorded i p m = Some b"

lemma Get_log [simp]: "Get (m\<lparr>m_log := l\<rparr>) i = Get m i" "Get (m\<lparr>m_slots := sl\<rparr>) i = Get m i"
  by (simp_all add: Get_def)

lemma begin_go_live_fields:
  assumes "p \<noteq> ''''" and "BeginGoLive now i [p] m = (r, m')"
  shows "recorded i p m' = recorded i p m" and "r = Inr u \<Longrightarrow> \<exists>s. Get m' i = Some s \<and> t_phase (readTarget p s) = BroadcastPhaseGoingLive"
proof -
  show "recorded i p m' = recorded i p m"
    using assms by (cases "Get m i")
      (auto simp: BeginGoLive_def on_session_def quiet_def targetProvider_one begin_go_live_def Let_def recorded_def Get_put_session split: if_splits)
  show "\<exists>s. Get m' i = Some s \<and> t_phase (readTarget p s) = BroadcastPhaseGoingLive" if "r = Inr u"
    using assms that by (cases "Get m i")
      (auto simp: BeginGoLive_def on_session_def quiet_def targetProvider_one begin_go_live_def Let_def Get_put_session split: if_splits)
qed

lemma start_stream_record: "start_stream hk now rq hi lease p s sl = (r, s', sl', eff) \<Longrightarrow> t_platformBroadcast (readTarget p s') = t_platformBroadcast (readTarget p s)"
  by (auto simp: start_stream_def Let_def setAIInputPaused_def split: if_splits sum.splits prod.splits)

lemma start_target_record:
  assumes "p \<noteq> ''''" and "start_target w live p url srv = (r, srv')"
  shows "recorded (s_ID live) p (sv_sessions srv') = recorded (s_ID live) p (sv_sessions srv)"
  using assms
  by (auto simp: start_target_def StartStream_def Let_def recorded_def Get_put_session targetProvider_one dest: start_stream_record
      split: option.splits prod.splits sum.splits)

lemma abort_settles:
  assumes p: "p \<noteq> ''''" and one: "only_record i p b m" and run: "AbortGoLive now i [p] m = ((stopped, b'), m')"
  shows "(if pb_BroadcastID b' = '''' then b else b') = b"
    and "\<forall>s. Get m' i = Some s \<longrightarrow> t_phase (readTarget p s) \<noteq> BroadcastPhaseGoingLive"
    and "\<not> stopped \<Longrightarrow> \<exists>s. Get m' i = Some s \<and> t_phase (readTarget p s) = BroadcastPhasePrepared \<and> recorded i p m' = recorded i p m"
proof -
  have all: "(b' = zero_broadcast \<or> b' = b) \<and> (\<forall>s. Get m' i = Some s \<longrightarrow> t_phase (readTarget p s) \<noteq> BroadcastPhaseGoingLive)
    \<and> (\<not> stopped \<longrightarrow> (\<exists>s. Get m' i = Some s \<and> t_phase (readTarget p s) = BroadcastPhasePrepared \<and> recorded i p m' = recorded i p m))"
  proof (cases "Get m i")
    case None
    then show ?thesis using run by (auto simp: AbortGoLive_def)
  next
    case (Some s)
    then have "t_platformBroadcast (readTarget p s) = None \<or> t_platformBroadcast (readTarget p s) = Some b"
      using one by (simp add: only_record_def recorded_def)
    then have "broadcast_or_zero (readTarget p s) = zero_broadcast \<or> broadcast_or_zero (readTarget p s) = b"
      by (auto simp: broadcast_or_zero_def)
    with Some run p show ?thesis
      by (auto simp: AbortGoLive_def abort_go_live_def Let_def targetProvider_one Get_put_session recorded_def given_up_def split: if_splits)
  qed
  then show "(if pb_BroadcastID b' = '''' then b else b') = b" by (auto simp: zero_broadcast_def)
  show "\<forall>s. Get m' i = Some s \<longrightarrow> t_phase (readTarget p s) \<noteq> BroadcastPhaseGoingLive" using all by blast
  show "\<exists>s. Get m' i = Some s \<and> t_phase (readTarget p s) = BroadcastPhasePrepared \<and> recorded i p m' = recorded i p m" if "\<not> stopped"
    using all that by blast
qed

lemma complete_settles:
  assumes p: "p \<noteq> ''''" and one: "only_record i p b m" and run: "CompleteGoLive now usageID i [p] m = ((aborted, b', err), m')"
  shows "(if pb_BroadcastID b' = '''' then b else b') = b"
    and "\<forall>s. Get m' i = Some s \<longrightarrow> t_phase (readTarget p s) \<noteq> BroadcastPhaseGoingLive"
    and "\<not> aborted \<Longrightarrow> err = None \<and> (\<exists>s. Get m' i = Some s \<and> t_phase (readTarget p s) = BroadcastPhaseLive)"
proof -
  have all: "(b' = zero_broadcast \<or> b' = b) \<and> (\<forall>s. Get m' i = Some s \<longrightarrow> t_phase (readTarget p s) \<noteq> BroadcastPhaseGoingLive)
    \<and> (\<not> aborted \<longrightarrow> err = None \<and> (\<exists>s. Get m' i = Some s \<and> t_phase (readTarget p s) = BroadcastPhaseLive))"
  proof (cases "Get m i")
    case None
    then show ?thesis using run by (auto simp: CompleteGoLive_def)
  next
    case (Some s)
    then have "t_platformBroadcast (readTarget p s) = None \<or> t_platformBroadcast (readTarget p s) = Some b"
      using one by (simp add: only_record_def recorded_def)
    then have "broadcast_or_zero (readTarget p s) = zero_broadcast \<or> broadcast_or_zero (readTarget p s) = b"
      by (auto simp: broadcast_or_zero_def)
    with Some run p show ?thesis
      by (auto simp: CompleteGoLive_def complete_go_live_def Let_def targetProvider_one Get_put_session given_up_def split: if_splits)
  qed
  then show "(if pb_BroadcastID b' = '''' then b else b') = b" by (auto simp: zero_broadcast_def)
  show "\<forall>s. Get m' i = Some s \<longrightarrow> t_phase (readTarget p s) \<noteq> BroadcastPhaseGoingLive" using all by blast
  show "err = None \<and> (\<exists>s. Get m' i = Some s \<and> t_phase (readTarget p s) = BroadcastPhaseLive)" if "\<not> aborted" using all that by blast
qed

text \<open>Nobody else replaces the record of a target while its go-live runs; it may be taken away.\<close>

definition env_keeps :: "world \<Rightarrow> string \<Rightarrow> string \<Rightarrow> bool" where
  "env_keeps w i p \<longleftrightarrow> (\<forall>n m. recorded i p (w_env w n m) = None \<or> recorded i p (w_env w n m) = recorded i p m)"

lemma only_record_env: "env_keeps w i p \<Longrightarrow> only_record i p b (sv_sessions srv) \<Longrightarrow> only_record i p b (sv_sessions (others w n srv))"
  by (auto simp: env_keeps_def only_record_def others_def) metis+

lemma server_calls_more [simp]:
  "sv_calls (endLiveBroadcast u b srv) = sv_calls srv @ (if pb_Provider b \<in> set (sv_streaming srv) \<and> pb_BroadcastID b \<noteq> '''' then [CallEndLive u (ref_of b)] else [])"
  "sv_sessions (endLiveBroadcast u b srv) = sv_sessions srv" "sv_sessions (discardBroadcast u b srv) = sv_sessions srv" "sv_sessions (call c srv) = sv_sessions srv"
  by (simp_all add: endLiveBroadcast_def discardBroadcast_def call_def)

definition not_going_live :: "string \<Rightarrow> string \<Rightarrow> Server \<Rightarrow> bool" where
  "not_going_live i p srv \<longleftrightarrow> (\<forall>s. Get (sv_sessions srv) i = Some s \<longrightarrow> t_phase (readTarget p s) \<noteq> BroadcastPhaseGoingLive)"

definition target_in :: "BroadcastPhase \<Rightarrow> string \<Rightarrow> string \<Rightarrow> Server \<Rightarrow> bool" where
  "target_in ph i p srv \<longleftrightarrow> (\<exists>s. Get (sv_sessions srv) i = Some s \<and> t_phase (readTarget p s) = ph)"

lemma abort_target_settles:
  assumes p: "p \<noteq> ''''" and k: "env_keeps w (s_ID live) p" and one: "only_record (s_ID live) p b (sv_sessions srv)"
    and run: "abort_target w n live p srv = ((stopped, b'), srv')"
  shows "(if pb_BroadcastID b' = '''' then b else b') = b" and "not_going_live (s_ID live) p srv'"
    and "\<not> stopped \<Longrightarrow> target_in BroadcastPhasePrepared (s_ID live) p srv'"
    and "sv_calls srv' = sv_calls srv" and "sv_streaming srv' = sv_streaming srv"
proof -
  obtain m' where m': "AbortGoLive (w_now w) (s_ID live) [p] (sv_sessions (others w n srv)) = ((stopped, b'), m')"
    "srv' = (others w n srv)\<lparr>sv_sessions := m'\<rparr>"
    using run by (auto simp: abort_target_def Let_def split: prod.splits)
  note a = abort_settles [OF p only_record_env [OF k one] m'(1)]
  show "(if pb_BroadcastID b' = '''' then b else b') = b" by (rule a(1))
  show "not_going_live (s_ID live) p srv'" using a(2) m'(2) by (simp add: not_going_live_def)
  show "\<not> stopped \<Longrightarrow> target_in BroadcastPhasePrepared (s_ID live) p srv'" using a(3) m'(2) by (auto simp: target_in_def)
  show "sv_calls srv' = sv_calls srv" "sv_streaming srv' = sv_streaming srv" using m'(2) by simp_all
qed

definition ended_calls :: "nat \<Rightarrow> PlatformBroadcast \<Rightarrow> string list \<Rightarrow> platform_call list" where
  "ended_calls u b streaming = (if pb_Provider b \<in> set streaming \<and> pb_BroadcastID b \<noteq> '''' then [CallEndLive u (ref_of b)] else [])"

definition stopped_calls :: "nat \<Rightarrow> PlatformBroadcast \<Rightarrow> string list \<Rightarrow> platform_call list" where
  "stopped_calls u b streaming = (if pb_Provider b \<in> set streaming then [CallStop u (ref_of b)] else [])"

lemma complete_target_settles:
  assumes p: "p \<noteq> ''''" and k: "env_keeps w (s_ID live) p" and one: "only_record (s_ID live) p b (sv_sessions srv)"
    and run: "complete_target w live p b srv = (r, srv')"
  shows "not_going_live (s_ID live) p srv' \<and> (case r of
      None \<Rightarrow> target_in BroadcastPhaseLive (s_ID live) p srv'
        \<and> sv_calls srv' = sv_calls srv @ (if p = ''chzzk'' then [CallApplyChzzk (s_ID live)] else [])
    | Some e \<Rightarrow> Code e = ''broadcast_stopped'' \<and> sv_calls srv' = sv_calls srv @ ended_calls (s_UserID live) b (sv_streaming srv))"
proof -
  obtain aborted b' err m' where m': "CompleteGoLive (w_now w) (w_usageID w) (s_ID live) [p] (sv_sessions (others w 5 srv)) = ((aborted, b', err), m')"
    by (metis prod.collapse)
  note a = complete_settles [OF p only_record_env [OF k one] m']
  show ?thesis
    using run a m' by (auto simp: complete_target_def Let_def not_going_live_def target_in_def ended_calls_def api_def call_def split: if_splits)
qed

text \<open>What may come of the call that makes a claimed broadcast public.\<close>

definition go_live_outcome ::
    "world \<Rightarrow> Session \<Rightarrow> string \<Rightarrow> PlatformBroadcast \<Rightarrow> platform_call \<Rightarrow> Server \<Rightarrow> apiError option \<Rightarrow> Server \<Rightarrow> bool" where
  "go_live_outcome w live p b g srv r srv' = (not_going_live (s_ID live) p srv'
       \<and> (r = Some notSupported \<and> p \<notin> set (sv_streaming srv) \<and> sv_calls srv' = sv_calls srv
        \<or> r = None \<and> w_goLive w = None \<and> target_in BroadcastPhaseLive (s_ID live) p srv'
            \<and> sv_calls srv' = sv_calls srv @ g # (if p = ''chzzk'' then [CallApplyChzzk (s_ID live)] else [])
        \<or> (\<exists>e. w_goLive w = Some e \<and> r = Some (golive_error e) \<and> target_in BroadcastPhasePrepared (s_ID live) p srv' \<and> sv_calls srv' = sv_calls srv @ [g])
        \<or> (\<exists>e. w_goLive w = Some e \<and> r = Some (golive_error e) \<and> sv_calls srv' = sv_calls srv @ g # stopped_calls (s_UserID live) b (sv_streaming srv))
        \<or> (\<exists>e. w_goLive w = None \<and> r = Some e \<and> Code e = ''broadcast_stopped'' \<and> sv_calls srv' = sv_calls srv @ g # ended_calls (s_UserID live) b (sv_streaming srv))
        \<or> (\<exists>e. w_goLive w = None \<and> egressAttachesAtGoLive p \<and> r = Some (startStreamError e) \<and> sv_calls srv' = sv_calls srv @ [g])))"

lemma called_go_live_settles:
  assumes p: "p \<noteq> ''''" and k: "env_keeps w (s_ID live) p"
    and c3: "sv_calls srv3 = sv_calls srv @ [g]" "sv_streaming srv3 = sv_streaming srv" "only_record (s_ID live) p b (sv_sessions srv3)"
    and run3: "(r, srv') = (case w_goLive w of
           Some e \<Rightarrow> (let ((stopped, abandoned), srv) = abort_target w 3 live p srv3 in
             (Some (golive_error e),
              if stopped then discardBroadcast (s_UserID live) (if pb_BroadcastID abandoned = '''' then b else abandoned) srv else srv))
         | None \<Rightarrow>
             if egressAttachesAtGoLive p \<and> \<not> on_device live then
               (case start_target w live p (pb_IngestURL b) (others w 3 srv3) of
                  (Inl e, srv) \<Rightarrow> (Some (startStreamError e), snd (abort_target w 4 live p srv))
                | (Inr _, srv) \<Rightarrow> complete_target w live p b srv)
             else complete_target w live p b srv3)"
  shows "go_live_outcome w live p b g srv r srv'"
proof -
  show ?thesis
  proof (cases "w_goLive w")
    case (Some e)
    obtain stopped b' srv4 where ab: "abort_target w 3 live p srv3 = ((stopped, b'), srv4)" by (metis prod.collapse)
    note a = abort_target_settles [OF p k c3(3) ab]
    have "r = Some (golive_error e)" "srv' = (if stopped then discardBroadcast (s_UserID live) b srv4 else srv4)"
      using run3 Some ab a(1) by (auto simp: Let_def)
    with Some a(2-5) c3 show ?thesis by (auto simp: go_live_outcome_def not_going_live_def stopped_calls_def)
  next
    case None
    show ?thesis
    proof (cases "egressAttachesAtGoLive p \<and> \<not> on_device live")
      case True
      obtain st srv4 where st: "start_target w live p (pb_IngestURL b) (others w 3 srv3) = (st, srv4)" by fastforce
      have c4: "sv_calls srv4 = sv_calls srv @ [g]" "sv_streaming srv4 = sv_streaming srv" "only_record (s_ID live) p b (sv_sessions srv4)"
        using start_target_calls [OF st] start_target_record [OF p st] c3 only_record_env [OF k c3(3), of 3] by (simp_all add: only_record_def)
      show ?thesis
      proof (cases st)
        case (Inl e)
        then have r: "r = Some (startStreamError e)" "srv' = snd (abort_target w 4 live p srv4)" using run3 None True st by auto
        obtain sp b' where "abort_target w 4 live p srv4 = ((sp, b'), srv')" using r(2) by (metis prod.collapse)
        note a = abort_target_settles [OF p k c4(3) this]
        show ?thesis using r(1) a(2,4) c4(1) None True by (auto simp: go_live_outcome_def)
      next
        case (Inr v)
        then have "complete_target w live p b srv4 = (r, srv')" using run3 None True st by simp
        from complete_target_settles [OF p k c4(3) this] c4(1,2) None show ?thesis by (cases r) (auto simp: go_live_outcome_def)
      qed
    next
      case False
      then have "complete_target w live p b srv3 = (r, srv')" using run3 None by (auto split: if_splits)
      from complete_target_settles [OF p k c3(3) this] c3(1,2) None show ?thesis by (cases r) (auto simp: go_live_outcome_def)
    qed
  qed
qed


subsection \<open>Examples\<close>

definition demo_user :: Session where
  "demo_user = \<lparr>s_ID = ''s'', s_UserID = 7, s_Provider = ''youtube'', s_Plan = Beam, s_AIProcessing = ''server'',
       s_FaceAnonymization = '''', s_targets = [], s_closed = False, s_aiInputPaused = False,
       s_broadcast = Some \<lparr>yt_Title = [], yt_Description = [], yt_Privacy = ''public'', yt_MadeForKids = Some False, yt_CategoryID = [],
         yt_Thumbnail = None, yt_UpdatedAt = 0\<rparr>,
       s_chzzkBroadcast = None, s_resolution = ''720p'', s_pinLongEdge = 0, s_rawTrackID = ''v'', s_videoTrack = None,
       s_trackCancel = False, s_directStops = Map.empty, s_UpdatedAt = 0, s_lastActivityAt = 0, s_heartbeat = 0, s_mediaIdleReset = 0\<rparr>"

definition demo_made :: PreparedBroadcast where
  "demo_made = \<lparr>pd_Provider = ''youtube'', pd_BroadcastID = ''b1'', pd_StreamID = ''s1'', pd_AccountID = 3, pd_ChannelTitle = ''c'',
     pd_IngestURL = ''rtmp://a/key'', pd_Warnings = []\<rparr>"

definition demo_world :: "(nat \<Rightarrow> Manager \<Rightarrow> Manager) \<Rightarrow> world" where
  "demo_world env = \<lparr>w_now = 10, w_env = env, w_resolve = Some (Inr ''chan''), w_ledger = False, w_since = Inl (), w_month = Inl (),
     w_prepare = Inr demo_made, w_goLive = None, w_start = \<lparr>rq_egress = 1, rq_usageID = ''u'', rq_url = '''', rq_paused = False\<rparr>,
     w_acquire = (\<lambda>_. (Inr None, None)), w_usageID = ''u2''\<rparr>"

definition demo_server :: Server where
  "demo_server = \<lparr>sv_sessions = \<lparr>m_sessions = [(''s'', demo_user)], m_slots = None,
       m_hooks = \<lparr>hk_usage = False, hk_cleanup = False, hk_directEnded = False, hk_processor = False\<rparr>, m_pin = 0, m_log = []\<rparr>,
     sv_streaming = [''youtube''], sv_own = Map.empty, sv_calls = []\<rparr>"

abbreviation demo_prepared :: "(apiError + string list) \<times> Server" where
  "demo_prepared \<equiv> prepareTarget (demo_world (\<lambda>_ m. m)) demo_user ''youtube'' demo_server"

theorem prepare_settles_broadcast_witness:
  "\<exists>options. settled (demo_world (\<lambda>_ m. m)) demo_user ''youtube'' demo_made [CallPrepare 7 ''youtube'' options] (fst demo_prepared) (snd demo_prepared)"
proof -
  have c: "length (sv_calls (snd demo_prepared)) = 1" by code_simp
  have d: "w_prepare (demo_world (\<lambda>_ m. m)) = Inr demo_made" "pd_Provider demo_made = ''youtube''" "sv_calls demo_server = []" "s_UserID demo_user = 7"
    by (simp_all add: demo_world_def demo_made_def demo_server_def demo_user_def)
  note t = prepare_settles_broadcast [of "''youtube''" "demo_world (\<lambda>_ m. m)" demo_user demo_server "fst demo_prepared" "snd demo_prepared"]
  show ?thesis using t c d by (fastforce simp: d)
qed

text \<open>The session is deleted while the platform switches the broadcast.\<close>

definition demo_deleted :: "nat \<Rightarrow> Manager \<Rightarrow> Manager" where
  "demo_deleted n m = (if n = 5 then m\<lparr>m_sessions := []\<rparr> else m)"

abbreviation demo_gone :: "apiError option \<times> Server" where
  "demo_gone \<equiv> goLiveTarget (demo_world demo_deleted) demo_user ''youtube'' (snd demo_prepared)"


text \<open>
  \<open>goLiveTarget\<close> reads the record before it claims the go-live. When the broadcast is stopped and another
  one prepared in between, the platform is asked to switch the stopped broadcast while the target goes
  live with the other one.
\<close>

definition demo_replaced :: "nat \<Rightarrow> Manager \<Rightarrow> Manager" where
  "demo_replaced n m = (if n = 1
     then snd (MarkBroadcastPrepared 10 ''s'' ((prepared_record demo_made)\<lparr>pb_BroadcastID := ''b2''\<rparr>) [''youtube'']
       (snd (BeginBroadcastPrepareOnChannel 10 ''s'' '''' [''youtube''] (snd (StopStreamWithReason 10 ''s'' ''user_requested'' [''youtube''] m)))))
     else m)"

lemma go_live_of_replaced_broadcast:
  "let (r, srv) = goLiveTarget ((demo_world demo_replaced)\<lparr>w_prepare := Inr demo_made\<rparr>)
        (demo_user\<lparr>s_AIProcessing := AIProcessingOnDevice\<rparr>) ''youtube''
        (snd (prepareTarget (demo_world (\<lambda>_ m. m)) (demo_user\<lparr>s_AIProcessing := AIProcessingOnDevice\<rparr>) ''youtube''
          (demo_server\<lparr>sv_sessions := (sv_sessions demo_server)\<lparr>m_sessions := [(''s'', demo_user\<lparr>s_AIProcessing := AIProcessingOnDevice\<rparr>)]\<rparr>\<rparr>))) in
   r = None \<and> last (sv_calls srv) = CallGoLive 7 (''youtube'', ''b1'', ''s1'', 3)
   \<and> map_option pb_BroadcastID (recorded ''s'' ''youtube'' (sv_sessions srv)) = Some ''b2''"
  by code_simp

subsection \<open>Several targets\<close>

lemma go_live_all_length: "length (fst (go_live_all w live ps srv)) \<le> length ps"
proof (induction ps arbitrary: srv)
  case (Cons p ps)
  obtain e srv1 where "goLiveTarget (w p) live p srv = (e, srv1)" by fastforce
  with Cons [of srv1] show ?case by (auto simp: Let_def split: prod.split option.split)
qed simp

text \<open>The request fails exactly when every target failed; the answer of a request that succeeds names the targets that did not.\<close>

lemma go_live_all_failed:
  "length (fst (go_live_all w live ps srv)) = length ps \<Longrightarrow> map fst (fst (go_live_all w live ps srv)) = ps"
proof (induction ps arbitrary: srv)
  case (Cons p ps)
  obtain e srv1 where e: "goLiveTarget (w p) live p srv = (e, srv1)" by fastforce
  obtain es srv2 where es: "go_live_all w live ps srv1 = (es, srv2)" by fastforce
  show ?case
    using Cons.prems Cons.IH [of srv1] go_live_all_length [of w live ps srv1] e es by (cases e) (auto simp: Let_def)
qed simp

end
