(* ===== verification/WithdrawalGate.thy ===== *)
theory WithdrawalGate
  imports Prelude
begin

text \<open>
  Account withdrawal (\<^verbatim>\<open>internal/auth/withdrawal_gate.go\<close>, \<^verbatim>\<open>account_withdrawal.go\<close> and
  \<^verbatim>\<open>account_withdrawal_http.go\<close>): the gate that keeps the operations of a user away while the account is
  deleted, the deletion itself and the answer of the HTTP handler.

  The gate is an explicit store: \<open>g_users\<close> maps a user to the reference of an entry, and the closures
  that operations and withdrawals hold keep the reference they got, whatever the map says later. A
  reference is a position of \<open>g_entries\<close>, a channel is a number, \<open>g_closed\<close> lists the closed channels and
  \<open>g_cancelled\<close> the contexts whose cancel function was called. One section under the lock is one function;
  \<open>gate_step\<close> interleaves the sections of any number of operations and withdrawals.
\<close>

subsection \<open>The gate\<close>

record withdrawalGateEntry =
  e_withdrawing :: bool
  e_deleted :: bool
  e_operations :: int
  e_changed :: nat
  e_cancels :: "nat list"

record UserOperationGate =
  g_users :: "nat \<rightharpoonup> nat"
  g_entries :: "withdrawalGateEntry list"
  g_chans :: nat
  g_closed :: "nat list"
  g_cancelled :: "nat list"

text \<open>A user is a number, 0 is \<open>uuid.Nil\<close>.\<close>

abbreviation NilUser :: nat where
  "NilUser \<equiv> 0"

definition NewUserOperationGate :: UserOperationGate where
  "NewUserOperationGate = \<lparr>g_users = Map.empty, g_entries = [], g_chans = 0, g_closed = [], g_cancelled = []\<rparr>"

abbreviation entry_at :: "UserOperationGate \<Rightarrow> nat \<Rightarrow> withdrawalGateEntry" where
  "entry_at g r \<equiv> g_entries g ! r"

definition set_entry :: "nat \<Rightarrow> withdrawalGateEntry \<Rightarrow> UserOperationGate \<Rightarrow> UserOperationGate" where
  "set_entry r e g = g\<lparr>g_entries := (g_entries g)[r := e]\<rparr>"

text \<open>The entry of a user, made when there is none.\<close>

definition entry_for :: "nat \<Rightarrow> UserOperationGate \<Rightarrow> nat \<times> UserOperationGate" where
  "entry_for u g = (case g_users g u of
     Some r \<Rightarrow> (r, g)
   | None \<Rightarrow>
      (length (g_entries g),
       g\<lparr>g_users := (g_users g)(u \<mapsto> length (g_entries g)),
         g_entries := g_entries g @ [\<lparr>e_withdrawing = False, e_deleted = False, e_operations = 0,
           e_changed = g_chans g, e_cancels = []\<rparr>],
         g_chans := g_chans g + 1\<rparr>))"

datatype admission = Refused | Ungated | Admitted nat

definition BeginOperation :: "nat \<Rightarrow> UserOperationGate \<Rightarrow> admission \<times> UserOperationGate" where
  "BeginOperation u g =
    (if u = NilUser then (Ungated, g)
     else let (r, g1) = entry_for u g; e = entry_at g1 r in
       if e_withdrawing e \<or> e_deleted e then (Refused, g1)
       else (Admitted r, set_entry r (e\<lparr>e_operations := e_operations e + 1\<rparr>) g1))"

definition cancel_context :: "nat \<Rightarrow> UserOperationGate \<Rightarrow> UserOperationGate" where
  "cancel_context k g = g\<lparr>g_cancelled := k # g_cancelled g\<rparr>"

text \<open>\<open>k\<close> is the address of the new cancel function.\<close>

definition BeginCancellableOperation :: "nat \<Rightarrow> nat \<Rightarrow> UserOperationGate \<Rightarrow> admission \<times> UserOperationGate" where
  "BeginCancellableOperation k u g =
    (if u = NilUser then (Ungated, g)
     else let (r, g1) = entry_for u g; e = entry_at g1 r in
       if e_withdrawing e \<or> e_deleted e then (Refused, cancel_context k g1)
       else (Admitted r, set_entry r (e\<lparr>e_operations := e_operations e + 1, e_cancels := k # e_cancels e\<rparr>) g1))"

definition drop_if_idle :: "nat \<Rightarrow> nat \<Rightarrow> UserOperationGate \<Rightarrow> UserOperationGate" where
  "drop_if_idle u r g =
    (if \<not> e_deleted (entry_at g r) \<and> g_users g u = Some r then g\<lparr>g_users := (g_users g)(u := None)\<rparr> else g)"

definition endOperation :: "nat \<Rightarrow> nat \<Rightarrow> UserOperationGate \<Rightarrow> UserOperationGate" where
  "endOperation u r g =
    (let e = entry_at g r;
         n = (if e_operations e > 0 then e_operations e - 1 else e_operations e)
     in if n = 0
        then let g1 = set_entry r (e\<lparr>e_operations := n, e_changed := g_chans g\<rparr>)
                        (g\<lparr>g_closed := e_changed e # g_closed g, g_chans := g_chans g + 1\<rparr>)
             in if \<not> e_withdrawing e then drop_if_idle u r g1 else g1
        else set_entry r (e\<lparr>e_operations := n\<rparr>) g)"

text \<open>The first section of the release of a cancellable operation.\<close>

definition deregister :: "nat \<Rightarrow> nat \<Rightarrow> UserOperationGate \<Rightarrow> UserOperationGate" where
  "deregister k r g =
    (let e = entry_at g r in set_entry r (e\<lparr>e_cancels := removeAll k (e_cancels e)\<rparr>) g)"

datatype withdrawalError = ErrWithdrawalInProgress | ErrUserInactive | ErrWithdrawalUnavailable | ErrContext | ErrOther string

text \<open>\<open>BeginWithdrawal\<close> up to its loop, the test of the loop, and what follows a cancelled context.\<close>

definition BeginWithdrawal :: "nat \<Rightarrow> UserOperationGate \<Rightarrow> (withdrawalError + nat option) \<times> UserOperationGate" where
  "BeginWithdrawal u g =
    (if u = NilUser then (Ok None, g)
     else let (r, g1) = entry_for u g; e = entry_at g1 r in
       if e_withdrawing e then (Err ErrWithdrawalInProgress, g1)
       else if e_deleted e then (Err ErrUserInactive, g1)
       else (Ok (Some r),
             set_entry r (e\<lparr>e_withdrawing := True\<rparr>) (g1\<lparr>g_cancelled := e_cancels e @ g_cancelled g1\<rparr>)))"

definition withdrawal_waits :: "nat \<Rightarrow> UserOperationGate \<Rightarrow> nat option" where
  "withdrawal_waits r g = (if e_operations (entry_at g r) > 0 then Some (e_changed (entry_at g r)) else None)"

definition leave_withdrawal :: "nat \<Rightarrow> nat \<Rightarrow> UserOperationGate \<Rightarrow> UserOperationGate" where
  "leave_withdrawal u r g =
    (let g1 = set_entry r ((entry_at g r)\<lparr>e_withdrawing := False\<rparr>) g
     in if e_operations (entry_at g r) = 0 then drop_if_idle u r g1 else g1)"

definition MarkDeleted :: "nat \<Rightarrow> UserOperationGate \<Rightarrow> UserOperationGate" where
  "MarkDeleted u g =
    (if u = NilUser then g
     else let (r, g1) = entry_for u g in set_entry r ((entry_at g1 r)\<lparr>e_deleted := True\<rparr>) g1)"

definition IsWithdrawing :: "nat \<Rightarrow> UserOperationGate \<Rightarrow> bool" where
  "IsWithdrawing u g =
    (if u = NilUser then False
     else case g_users g u of None \<Rightarrow> False
        | Some r \<Rightarrow> e_withdrawing (entry_at g r) \<or> e_deleted (entry_at g r))"

subsection \<open>The deletion of an account\<close>

text \<open>
  Which hooks of \<open>WithdrawalCleanup\<close> and which Apple services are set. A call of a hook, of the store, of
  the cipher or of Apple answers \<open>Inl\<close> with the error or \<open>Inr\<close>; the Boolean of \<open>Inr\<close> matters for the
  look-up of the Apple credential only, which may be absent.
\<close>

record withdrawalService =
  has_close_sessions :: bool
  has_disconnect :: bool
  has_cipher_and_apple :: bool
  has_clear_reference :: bool

type_synonym reply = "withdrawalError + bool"

datatype withdraw_call = CloseUserSessions | DisconnectStreamingAccounts | RevokeApple | ClearReferenceData

text \<open>Where \<open>Withdraw\<close> stands once it holds the gate; the flag says that an Apple credential was found.\<close>

datatype withdraw_at =
    AtCredential | AtCloseSessions bool | AtDisconnect bool | AtDecrypt | AtRevoke | AtClearReference bool
  | AtMarkUserDeleted bool | AtMarkDeleted bool | AtAfterDeleted | AtReturn "withdrawalError option"

definition withdraw_hook :: "bool \<Rightarrow> reply \<Rightarrow> withdraw_call \<Rightarrow> withdraw_at \<Rightarrow> withdraw_at \<times> withdraw_call list" where
  "withdraw_hook present a c k =
    (if present then (case a of Inl e \<Rightarrow> (AtReturn (Some e), []) | Inr _ \<Rightarrow> (k, [c])) else (k, []))"

text \<open>One step of \<open>Withdraw\<close>: where it stands next and the cleanup call that succeeded.\<close>

fun withdraw_next :: "withdrawalService \<Rightarrow> reply \<Rightarrow> withdraw_at \<Rightarrow> withdraw_at \<times> withdraw_call list" where
  "withdraw_next cfg a AtCredential =
    (case a of Inl e \<Rightarrow> (AtReturn (Some e), []) | Inr c \<Rightarrow> (AtCloseSessions c, []))"
| "withdraw_next cfg a (AtCloseSessions c) =
    withdraw_hook (has_close_sessions cfg) a CloseUserSessions (AtDisconnect c)"
| "withdraw_next cfg a (AtDisconnect c) =
    withdraw_hook (has_disconnect cfg) a DisconnectStreamingAccounts (if c then AtDecrypt else AtClearReference False)"
| "withdraw_next cfg a AtDecrypt =
    (if \<not> has_cipher_and_apple cfg then (AtReturn (Some ErrWithdrawalUnavailable), [])
     else case a of Inl e \<Rightarrow> (AtReturn (Some e), []) | Inr _ \<Rightarrow> (AtRevoke, []))"
| "withdraw_next cfg a AtRevoke = withdraw_hook True a RevokeApple (AtClearReference True)"
| "withdraw_next cfg a (AtClearReference c) =
    withdraw_hook (has_clear_reference cfg) a ClearReferenceData (AtMarkUserDeleted c)"
| "withdraw_next cfg a (AtMarkUserDeleted c) =
    (case a of Inl e \<Rightarrow> (AtReturn (Some e), []) | Inr _ \<Rightarrow> (AtMarkDeleted c, []))"
| "withdraw_next cfg a (AtMarkDeleted c) = (AtAfterDeleted, [])"
| "withdraw_next cfg a AtAfterDeleted = (AtReturn None, [])"
| "withdraw_next cfg a (AtReturn res) = (AtReturn res, [])"

subsection \<open>Operations and withdrawals side by side\<close>

text \<open>
  What a running operation holds: its user, the entry its release closes over (none for \<open>uuid.Nil\<close>), its
  cancel function if it is cancellable, and how far its release is. The \<open>sync.Once\<close> of the release is the
  phase: only an operation in phase \<open>OpRunning\<close> starts it.
\<close>

datatype op_phase = OpRunning | OpDeregistered | OpEnded

record gate_op =
  op_user :: nat
  op_entry :: "nat option"
  op_key :: "nat option"
  op_at :: op_phase

datatype wd_phase = WdWaiting nat | WdBody withdraw_at | WdFinished "withdrawalError option"

record withdrawal =
  wd_user :: nat
  wd_entry :: "nat option"
  wd_at :: wd_phase
  wd_log :: "withdraw_call list"

text \<open>\<open>w_rows\<close> lists the users whose rows the database has deleted, \<open>w_keys\<close> the next cancel function.\<close>

record gate_world =
  w_gate :: UserOperationGate
  w_keys :: nat
  w_ops :: "gate_op list"
  w_wds :: "withdrawal list"
  w_rows :: "nat list"

definition gate_start :: gate_world where
  "gate_start = \<lparr>w_gate = NewUserOperationGate, w_keys = 0, w_ops = [], w_wds = [], w_rows = []\<rparr>"

definition start_op :: "nat \<Rightarrow> nat option \<Rightarrow> admission \<times> UserOperationGate \<Rightarrow> gate_world \<Rightarrow> gate_world" where
  "start_op u key res w = (case res of
     (Refused, g) \<Rightarrow> w\<lparr>w_gate := g\<rparr>
   | (Ungated, g) \<Rightarrow> w\<lparr>w_gate := g, w_ops := w_ops w @ [\<lparr>op_user = u, op_entry = None, op_key = None, op_at = OpRunning\<rparr>]\<rparr>
   | (Admitted r, g) \<Rightarrow> w\<lparr>w_gate := g, w_ops := w_ops w @ [\<lparr>op_user = u, op_entry = Some r, op_key = key, op_at = OpRunning\<rparr>]\<rparr>)"

definition begin_operation :: "nat \<Rightarrow> gate_world \<Rightarrow> gate_world" where
  "begin_operation u w = start_op u None (BeginOperation u (w_gate w)) w"

definition begin_cancellable :: "nat \<Rightarrow> gate_world \<Rightarrow> gate_world" where
  "begin_cancellable u w =
    start_op u (Some (w_keys w)) (BeginCancellableOperation (w_keys w) u (w_gate w)) (w\<lparr>w_keys := w_keys w + 1\<rparr>)"

definition set_op :: "nat \<Rightarrow> op_phase \<Rightarrow> gate_world \<Rightarrow> gate_world" where
  "set_op i ph w = w\<lparr>w_ops := (w_ops w)[i := (w_ops w ! i)\<lparr>op_at := ph\<rparr>]\<rparr>"

text \<open>The release of an operation; that of a cancellable one takes the lock twice.\<close>

definition release_operation :: "nat \<Rightarrow> gate_world \<Rightarrow> gate_world" where
  "release_operation i w =
    (let p = w_ops w ! i in
     if op_at p \<noteq> OpRunning then w
     else case op_entry p of
       None \<Rightarrow> set_op i OpEnded w
     | Some r \<Rightarrow> (case op_key p of
         None \<Rightarrow> set_op i OpEnded (w\<lparr>w_gate := endOperation (op_user p) r (w_gate w)\<rparr>)
       | Some k \<Rightarrow> set_op i OpDeregistered (w\<lparr>w_gate := deregister k r (w_gate w)\<rparr>)))"

definition finish_operation :: "nat \<Rightarrow> gate_world \<Rightarrow> gate_world" where
  "finish_operation i w =
    (let p = w_ops w ! i in
     if op_at p \<noteq> OpDeregistered then w
     else case (op_entry p, op_key p) of
       (Some r, Some k) \<Rightarrow>
         set_op i OpEnded (w\<lparr>w_gate := endOperation (op_user p) r (cancel_context k (w_gate w))\<rparr>)
     | _ \<Rightarrow> w)"

definition set_wd :: "nat \<Rightarrow> wd_phase \<Rightarrow> gate_world \<Rightarrow> gate_world" where
  "set_wd j ph w = w\<lparr>w_wds := (w_wds w)[j := (w_wds w ! j)\<lparr>wd_at := ph\<rparr>]\<rparr>"

text \<open>What the loop of \<open>BeginWithdrawal\<close> leads to when its test is made.\<close>

definition loop_phase :: "nat \<Rightarrow> UserOperationGate \<Rightarrow> wd_phase" where
  "loop_phase r g = (case withdrawal_waits r g of Some c \<Rightarrow> WdWaiting c | None \<Rightarrow> WdBody AtCredential)"

definition begin_withdrawal :: "nat \<Rightarrow> gate_world \<Rightarrow> gate_world" where
  "begin_withdrawal u w = (case BeginWithdrawal u (w_gate w) of
     (Inl e, g) \<Rightarrow> w\<lparr>w_gate := g, w_wds := w_wds w @ [\<lparr>wd_user = u, wd_entry = None, wd_at = WdFinished (Some e), wd_log = []\<rparr>]\<rparr>
   | (Inr None, g) \<Rightarrow> w\<lparr>w_gate := g, w_wds := w_wds w @ [\<lparr>wd_user = u, wd_entry = None, wd_at = WdBody AtCredential, wd_log = []\<rparr>]\<rparr>
   | (Inr (Some r), g) \<Rightarrow> w\<lparr>w_gate := g, w_wds := w_wds w @ [\<lparr>wd_user = u, wd_entry = Some r, wd_at = loop_phase r g, wd_log = []\<rparr>]\<rparr>)"

text \<open>The select returns because the channel is closed, or because the context of the request ended.\<close>

definition wake_withdrawal :: "nat \<Rightarrow> gate_world \<Rightarrow> gate_world" where
  "wake_withdrawal j w = (case (wd_at (w_wds w ! j), wd_entry (w_wds w ! j)) of
     (WdWaiting c, Some r) \<Rightarrow>
       if c \<in> set (g_closed (w_gate w)) then set_wd j (loop_phase r (w_gate w)) w else w
   | _ \<Rightarrow> w)"

definition abort_withdrawal :: "nat \<Rightarrow> gate_world \<Rightarrow> gate_world" where
  "abort_withdrawal j w = (case (wd_at (w_wds w ! j), wd_entry (w_wds w ! j)) of
     (WdWaiting c, Some r) \<Rightarrow>
       set_wd j (WdFinished (Some ErrContext)) (w\<lparr>w_gate := leave_withdrawal (wd_user (w_wds w ! j)) r (w_gate w)\<rparr>)
   | _ \<Rightarrow> w)"

text \<open>
  A step of \<open>Withdraw\<close> after it has the gate: \<open>MarkUserDeleted\<close> of the store deletes the rows, \<open>MarkDeleted\<close>
  closes the gate for good, the deferred release runs at the end.
\<close>

definition withdraw_step :: "withdrawalService \<Rightarrow> reply \<Rightarrow> nat \<Rightarrow> gate_world \<Rightarrow> gate_world" where
  "withdraw_step cfg a j w =
    (let d = w_wds w ! j; u = wd_user d in
     case wd_at d of
       WdBody (AtReturn res) \<Rightarrow>
         set_wd j (WdFinished res)
           (case wd_entry d of None \<Rightarrow> w | Some r \<Rightarrow> w\<lparr>w_gate := leave_withdrawal u r (w_gate w)\<rparr>)
     | WdBody at \<Rightarrow>
         (let (at', did) = withdraw_next cfg a at;
              w1 = w\<lparr>w_wds := (w_wds w)[j := d\<lparr>wd_at := WdBody at', wd_log := wd_log d @ did\<rparr>]\<rparr>
          in case at of
               AtMarkUserDeleted c \<Rightarrow> (case a of Inl e \<Rightarrow> w1 | Inr b \<Rightarrow> w1\<lparr>w_rows := u # w_rows w\<rparr>)
             | AtMarkDeleted c \<Rightarrow> w1\<lparr>w_gate := MarkDeleted u (w_gate w)\<rparr>
             | _ \<Rightarrow> w1)
     | _ \<Rightarrow> w)"

inductive gate_step :: "withdrawalService \<Rightarrow> gate_world \<Rightarrow> gate_world \<Rightarrow> bool" for cfg where
  step_begin: "gate_step cfg w (begin_operation u w)"
| step_begin_cancellable: "gate_step cfg w (begin_cancellable u w)"
| step_release: "i < length (w_ops w) \<Longrightarrow> gate_step cfg w (release_operation i w)"
| step_finish: "i < length (w_ops w) \<Longrightarrow> gate_step cfg w (finish_operation i w)"
| step_withdrawal: "gate_step cfg w (begin_withdrawal u w)"
| step_wake: "j < length (w_wds w) \<Longrightarrow> gate_step cfg w (wake_withdrawal j w)"
| step_abort: "j < length (w_wds w) \<Longrightarrow> gate_step cfg w (abort_withdrawal j w)"
| step_body: "j < length (w_wds w) \<Longrightarrow> gate_step cfg w (withdraw_step cfg a j w)"

inductive gate_reach :: "withdrawalService \<Rightarrow> gate_world \<Rightarrow> bool" for cfg where
  reach_start: "gate_reach cfg gate_start"
| reach_step: "gate_reach cfg w \<Longrightarrow> gate_step cfg w w' \<Longrightarrow> gate_reach cfg w'"

subsection \<open>The invariant\<close>

definition op_live :: "nat \<Rightarrow> gate_op \<Rightarrow> bool" where
  "op_live r p \<longleftrightarrow> op_entry p = Some r \<and> op_at p \<noteq> OpEnded"

fun wd_over :: "wd_phase \<Rightarrow> bool" where
  "wd_over (WdFinished res) = True"
| "wd_over _ = False"

definition wd_live :: "nat \<Rightarrow> withdrawal \<Rightarrow> bool" where
  "wd_live r d \<longleftrightarrow> wd_entry d = Some r \<and> \<not> wd_over (wd_at d)"

definition users_ok :: "UserOperationGate \<Rightarrow> bool" where
  "users_ok g \<longleftrightarrow>
    (\<forall>u r. g_users g u = Some r \<longrightarrow> r < length (g_entries g) \<and> u \<noteq> NilUser) \<and>
    (\<forall>u v r. g_users g u = Some r \<longrightarrow> g_users g v = Some r \<longrightarrow> u = v)"

text \<open>No entry carries a closed channel, so no \<open>close\<close> of the gate panics.\<close>

definition chans_ok :: "UserOperationGate \<Rightarrow> bool" where
  "chans_ok g \<longleftrightarrow>
    (\<forall>r < length (g_entries g). e_changed (entry_at g r) < g_chans g \<and> e_changed (entry_at g r) \<notin> set (g_closed g)) \<and>
    (\<forall>c \<in> set (g_closed g). c < g_chans g) \<and>
    inj_on (\<lambda>r. e_changed (entry_at g r)) {..<length (g_entries g)}"

text \<open>Every reference in use is the entry the map has for the user.\<close>

definition refs_ok :: "gate_world \<Rightarrow> bool" where
  "refs_ok w \<longleftrightarrow>
    (\<forall>p \<in> set (w_ops w). \<forall>r. op_live r p \<longrightarrow> g_users (w_gate w) (op_user p) = Some r) \<and>
    (\<forall>d \<in> set (w_wds w). \<forall>r. wd_live r d \<longrightarrow> g_users (w_gate w) (wd_user d) = Some r) \<and>
    (\<forall>d \<in> set (w_wds w). \<not> wd_over (wd_at d) \<longrightarrow> wd_entry d = None \<longrightarrow> wd_user d = NilUser) \<and>
    (\<forall>p \<in> set (w_ops w). op_at p \<noteq> OpEnded \<longrightarrow> op_entry p = None \<longrightarrow> op_user p = NilUser) \<and>
    (\<forall>p \<in> set (w_ops w). \<forall>r. op_entry p = Some r \<longrightarrow> r < length (g_entries (w_gate w))) \<and>
    (\<forall>d \<in> set (w_wds w). \<forall>r. wd_entry d = Some r \<longrightarrow> r < length (g_entries (w_gate w)))"

definition counts_ok :: "gate_world \<Rightarrow> bool" where
  "counts_ok w \<longleftrightarrow> (\<forall>r < length (g_entries (w_gate w)).
    e_operations (entry_at (w_gate w) r) = int (length (filter (op_live r) (w_ops w))) \<and>
    length (filter (wd_live r) (w_wds w)) = (if e_withdrawing (entry_at (w_gate w) r) then 1 else 0))"

fun wd_waits_ok :: "UserOperationGate \<Rightarrow> nat \<Rightarrow> wd_phase \<Rightarrow> bool" where
  "wd_waits_ok g r (WdWaiting c) \<longleftrightarrow>
    (c = e_changed (entry_at g r) \<and> 0 < e_operations (entry_at g r)) \<or> c \<in> set (g_closed g)"
| "wd_waits_ok g r (WdBody at) \<longleftrightarrow> e_operations (entry_at g r) = 0"
| "wd_waits_ok g r (WdFinished res) \<longleftrightarrow> True"

definition waits_ok :: "gate_world \<Rightarrow> bool" where
  "waits_ok w \<longleftrightarrow> (\<forall>d \<in> set (w_wds w). \<forall>r. wd_entry d = Some r \<longrightarrow> wd_waits_ok (w_gate w) r (wd_at d))"

definition idle_ok :: "UserOperationGate \<Rightarrow> bool" where
  "idle_ok g \<longleftrightarrow> (\<forall>u r. g_users g u = Some r \<longrightarrow>
    0 < e_operations (entry_at g r) \<or> e_withdrawing (entry_at g r) \<or> e_deleted (entry_at g r))"

definition rows_ok :: "gate_world \<Rightarrow> bool" where
  "rows_ok w \<longleftrightarrow> (\<forall>u \<in> set (w_rows w). u \<noteq> NilUser \<longrightarrow>
    (\<exists>r. g_users (w_gate w) u = Some r \<and> e_deleted (entry_at (w_gate w) r)) \<or>
    (\<exists>d \<in> set (w_wds w). \<exists>c. wd_user d = u \<and> wd_at d = WdBody (AtMarkDeleted c)))"

definition keys_apart :: "gate_op list \<Rightarrow> bool" where
  "keys_apart ps \<longleftrightarrow> (\<forall>i < length ps. \<forall>j < length ps. i \<noteq> j \<longrightarrow> op_key (ps ! i) \<noteq> None \<longrightarrow> op_key (ps ! i) \<noteq> op_key (ps ! j))"

definition keys_ok :: "gate_world \<Rightarrow> bool" where
  "keys_ok w \<longleftrightarrow>
    (\<forall>p \<in> set (w_ops w). \<forall>k. op_key p = Some k \<longrightarrow> k < w_keys w) \<and>
    keys_apart (w_ops w) \<and>
    (\<forall>p \<in> set (w_ops w). \<forall>k r. op_key p = Some k \<longrightarrow> op_entry p = Some r \<longrightarrow> op_at p = OpRunning \<longrightarrow>
       k \<in> set (e_cancels (entry_at (w_gate w) r)) \<and>
       (e_withdrawing (entry_at (w_gate w) r) \<longrightarrow> k \<in> set (g_cancelled (w_gate w))))"

definition gate_inv :: "gate_world \<Rightarrow> bool" where
  "gate_inv w \<longleftrightarrow> users_ok (w_gate w) \<and> chans_ok (w_gate w) \<and> refs_ok w \<and> counts_ok w \<and> waits_ok w \<and>
    idle_ok (w_gate w) \<and> rows_ok w \<and> keys_ok w"

lemma keys_apart_append:
  assumes "keys_apart ps" "\<And>q. q \<in> set ps \<Longrightarrow> op_key p \<noteq> None \<Longrightarrow> op_key q \<noteq> op_key p"
  shows "keys_apart (ps @ [p])"
  unfolding keys_apart_def
proof (intro allI impI)
  fix i j
  assume ij: "i < length (ps @ [p])" "j < length (ps @ [p])" "i \<noteq> j" and some: "op_key ((ps @ [p]) ! i) \<noteq> None"
  show "op_key ((ps @ [p]) ! i) \<noteq> op_key ((ps @ [p]) ! j)"
  proof (cases "i = length ps")
    case True
    then show ?thesis using ij some assms(2) [of "ps ! j"] by (auto simp: nth_append)
  next
    case i: False
    show ?thesis
    proof (cases "j = length ps")
      case True
      then show ?thesis using ij i some assms(2) [of "ps ! i"] by (auto simp: nth_append)
    next
      case False
      then show ?thesis using ij i some assms(1) by (simp add: keys_apart_def nth_append)
    qed
  qed
qed

lemma keys_apart_update:
  "keys_apart ps \<Longrightarrow> op_key p = op_key (ps ! i) \<Longrightarrow> keys_apart (ps[i := p])"
proof -
  assume ok: "keys_apart ps" and same: "op_key p = op_key (ps ! i)"
  have "op_key (ps[i := p] ! j) = op_key (ps ! j)" if "j < length ps" for j
    using same that by (cases "i = j") simp_all
  then show ?thesis using ok by (simp add: keys_apart_def)
qed

lemma set_entry_simps [simp]:
  "g_users (set_entry r e g) = g_users g" "g_chans (set_entry r e g) = g_chans g"
  "g_closed (set_entry r e g) = g_closed g" "g_cancelled (set_entry r e g) = g_cancelled g"
  "length (g_entries (set_entry r e g)) = length (g_entries g)"
  "r < length (g_entries g) \<Longrightarrow> entry_at (set_entry r e g) s = (if s = r then e else entry_at g s)"
  by (auto simp: set_entry_def)

text \<open>The new entry of a user: it is idle and nobody refers to it.\<close>

definition new_entry :: "nat \<Rightarrow> UserOperationGate \<Rightarrow> UserOperationGate" where
  "new_entry u g = g\<lparr>g_users := (g_users g)(u \<mapsto> length (g_entries g)),
     g_entries := g_entries g @ [\<lparr>e_withdrawing = False, e_deleted = False, e_operations = 0,
       e_changed = g_chans g, e_cancels = []\<rparr>],
     g_chans := g_chans g + 1\<rparr>"

lemma entry_for_cases:
  assumes "entry_for u g = (r, g1)"
  obtains (old) "g_users g u = Some r" "g1 = g"
  | (new) "g_users g u = None" "r = length (g_entries g)" "g1 = new_entry u g"
  using assms by (auto simp: entry_for_def new_entry_def split: option.splits)

lemma new_entry_simps [simp]:
  "g_users (new_entry u g) = (g_users g)(u \<mapsto> length (g_entries g))"
  "g_chans (new_entry u g) = g_chans g + 1" "g_closed (new_entry u g) = g_closed g"
  "g_cancelled (new_entry u g) = g_cancelled g" "length (g_entries (new_entry u g)) = Suc (length (g_entries g))"
  "r < length (g_entries g) \<Longrightarrow> entry_at (new_entry u g) r = entry_at g r"
  "entry_at (new_entry u g) (length (g_entries g)) =
    \<lparr>e_withdrawing = False, e_deleted = False, e_operations = 0, e_changed = g_chans g, e_cancels = []\<rparr>"
  by (auto simp: new_entry_def nth_append)

definition gate_core :: "gate_world \<Rightarrow> bool" where
  "gate_core w \<longleftrightarrow> users_ok (w_gate w) \<and> chans_ok (w_gate w) \<and> refs_ok w \<and> counts_ok w \<and> waits_ok w \<and>
    rows_ok w \<and> keys_ok w"

lemma gate_inv_core: "gate_inv w \<longleftrightarrow> gate_core w \<and> idle_ok (w_gate w)"
  by (auto simp: gate_inv_def gate_core_def)

lemma gate_coreD:
  assumes "gate_core w"
  shows "users_ok (w_gate w)" "chans_ok (w_gate w)" "refs_ok w" "counts_ok w" "waits_ok w" "rows_ok w" "keys_ok w"
  using assms by (simp_all add: gate_core_def)

lemma gate_coreI:
  assumes "users_ok (w_gate w)" "chans_ok (w_gate w)" "refs_ok w" "counts_ok w" "waits_ok w" "rows_ok w" "keys_ok w"
  shows "gate_core w"
  using assms by (simp add: gate_core_def)

lemma waits_new_entry: "r < length (g_entries g) \<Longrightarrow> wd_waits_ok (new_entry u g) r ph = wd_waits_ok g r ph"
  by (cases ph) auto

lemma chans_new_entry: "chans_ok g \<Longrightarrow> chans_ok (new_entry u g)"
proof -
  assume ok: "chans_ok g"
  let ?f = "\<lambda>h r. e_changed (entry_at h r)" and ?n = "length (g_entries g)"
  have same: "?f (new_entry u g) r = ?f g r" if "r < ?n" for r using that by simp
  have fresh: "?f g r \<noteq> g_chans g" if "r < ?n" for r using ok that unfolding chans_ok_def by (metis less_irrefl)
  have "inj_on (?f (new_entry u g)) {..<?n}"
    using ok inj_on_cong [of "{..<?n}" "?f (new_entry u g)" "?f g"] same by (simp add: chans_ok_def)
  moreover have "?f (new_entry u g) ?n \<notin> ?f (new_entry u g) ` {..<?n}" 
  proof
    assume "?f (new_entry u g) ?n \<in> ?f (new_entry u g) ` {..<?n}"
    then obtain s where "s < ?n" "g_chans g = ?f g s" by auto
    then show False using fresh [of s] by simp
  qed
  ultimately have "inj_on (?f (new_entry u g)) {..<Suc ?n}" by (simp add: lessThan_Suc)
  moreover have "?f (new_entry u g) r < g_chans (new_entry u g) \<and> ?f (new_entry u g) r \<notin> set (g_closed g)"
    if "r < Suc ?n" for r
    using that ok by (cases "r = ?n") (auto simp: chans_ok_def less_Suc_eq)
  moreover have "c < Suc (g_chans g)" if "c \<in> set (g_closed g)" for c
    using ok that by (force simp: chans_ok_def)
  ultimately show ?thesis by (simp add: chans_ok_def)
qed

lemma new_entry_core:
  assumes inv: "gate_core w" and u: "u \<noteq> NilUser" "g_users (w_gate w) u = None"
  shows "gate_core (w\<lparr>w_gate := new_entry u (w_gate w)\<rparr>)"
proof (rule gate_coreI)
  note D = gate_coreD [OF inv]
  let ?w = "w\<lparr>w_gate := new_entry u (w_gate w)\<rparr>"
  show "users_ok (w_gate ?w)" using D(1) u by (fastforce simp: users_ok_def)
  show "chans_ok (w_gate ?w)" using chans_new_entry [OF D(2)] by simp
  have no_ref: "\<not> op_live (length (g_entries (w_gate w))) p" if "p \<in> set (w_ops w)" for p
    using D(3) that by (fastforce simp: refs_ok_def op_live_def)
  have no_ref': "\<not> wd_live (length (g_entries (w_gate w))) d" if "d \<in> set (w_wds w)" for d
    using D(3) that by (fastforce simp: refs_ok_def wd_live_def)
  show "refs_ok ?w" using D(3) u by (fastforce simp: refs_ok_def)
  show "counts_ok ?w" using D(4) no_ref no_ref' by (auto simp: counts_ok_def less_Suc_eq)
  show "waits_ok ?w" using D(5) D(3) by (auto simp: waits_ok_def refs_ok_def waits_new_entry)
  show "rows_ok ?w" using D(6) D(1) u by (fastforce simp: rows_ok_def users_ok_def)
  show "keys_ok ?w" using D(7) D(3) by (auto simp: keys_ok_def refs_ok_def)
qed

lemma entry_for_core:
  assumes inv: "gate_inv w" and u: "u \<noteq> NilUser" and e: "entry_for u (w_gate w) = (r, g1)"
  shows "gate_core (w\<lparr>w_gate := g1\<rparr>)" "g_users g1 u = Some r" "r < length (g_entries g1)"
    "\<And>v s. g_users g1 v = Some s \<Longrightarrow> v \<noteq> u \<Longrightarrow> 0 < e_operations (entry_at g1 s) \<or> e_withdrawing (entry_at g1 s) \<or> e_deleted (entry_at g1 s)"
proof -
  have core: "gate_core w" and idle: "idle_ok (w_gate w)" using inv by (simp_all add: gate_inv_core)
  have len: "s < length (g_entries (w_gate w))" if "g_users (w_gate w) v = Some s" for v s
    using gate_coreD(1) [OF core] that by (auto simp: users_ok_def)
  show "gate_core (w\<lparr>w_gate := g1\<rparr>)"
    using e by (cases rule: entry_for_cases) (simp_all add: core new_entry_core u)
  show "g_users g1 u = Some r" using e by (cases rule: entry_for_cases) simp_all
  show "r < length (g_entries g1)" using e by (cases rule: entry_for_cases) (simp_all add: len)
  show "0 < e_operations (entry_at g1 s) \<or> e_withdrawing (entry_at g1 s) \<or> e_deleted (entry_at g1 s)"
    if "g_users g1 v = Some s" "v \<noteq> u" for v s
    using e
  proof (cases rule: entry_for_cases)
    case old
    then show ?thesis using idle that by (simp add: idle_ok_def)
  next
    case new
    then have "g_users (w_gate w) v = Some s" using that by simp
    then show ?thesis using idle len new by (simp add: idle_ok_def)
  qed
qed

text \<open>An entry whose flag is off has no live withdrawal; one without operations has no live operation.\<close>

lemma no_live_wd:
  assumes "counts_ok w" "r < length (g_entries (w_gate w))" "\<not> e_withdrawing (entry_at (w_gate w) r)" "d \<in> set (w_wds w)"
  shows "\<not> wd_live r d"
  using assms length_filter_member [of d "w_wds w" "wd_live r"] by (auto simp: counts_ok_def)

lemma no_live_op:
  assumes "counts_ok w" "r < length (g_entries (w_gate w))" "e_operations (entry_at (w_gate w) r) = 0" "p \<in> set (w_ops w)"
  shows "\<not> op_live r p"
  using assms length_filter_member [of p "w_ops w" "op_live r"] by (auto simp: counts_ok_def)

lemma waits_of_dead: "wd_entry d = Some r \<Longrightarrow> \<not> wd_live r d \<Longrightarrow> wd_waits_ok g r (wd_at d)"
  by (cases "wd_at d") (auto simp: wd_live_def)

lemma waits_other: "entry_at g' r = entry_at g r \<Longrightarrow> set (g_closed g) \<subseteq> set (g_closed g') \<Longrightarrow> wd_waits_ok g r ph \<Longrightarrow> wd_waits_ok g' r ph"
  by (cases ph) auto

lemma chans_keep:
  assumes "chans_ok g" "r < length (g_entries g)" "e_changed e = e_changed (entry_at g r)"
  shows "chans_ok (set_entry r e g)"
proof -
  have "e_changed (entry_at (set_entry r e g) s) = e_changed (entry_at g s)" for s
    using assms(2,3) by simp
  then show ?thesis using assms(1) by (simp add: chans_ok_def)
qed

lemma admit_core:
  assumes inv: "gate_core w" and u: "g_users (w_gate w) u = Some r" and e: "e = entry_at (w_gate w) r"
    and off: "\<not> e_withdrawing e"
    and cs: "set (e_cancels e) \<subseteq> set cs" "w_keys w \<le> n" "\<And>k. key = Some k \<Longrightarrow> k \<in> set cs \<and> w_keys w \<le> k \<and> k < n"
  shows "gate_core (w\<lparr>w_keys := n, w_gate := set_entry r (e\<lparr>e_operations := e_operations e + 1, e_cancels := cs\<rparr>) (w_gate w),
    w_ops := w_ops w @ [\<lparr>op_user = u, op_entry = Some r, op_key = key, op_at = OpRunning\<rparr>]\<rparr>)" (is "gate_core ?w")
proof (rule gate_coreI)
  note D = gate_coreD [OF inv]
  have r: "r < length (g_entries (w_gate w))" using D(1) u by (auto simp: users_ok_def)
  have none: "\<not> wd_live r d" if "d \<in> set (w_wds w)" for d using no_live_wd [OF D(4) r] off e that by simp
  show "users_ok (w_gate ?w)" using D(1) by (simp add: users_ok_def)
  show "chans_ok (w_gate ?w)" using chans_keep [OF D(2) r] e by (simp add: chans_ok_def)
  show "refs_ok ?w" using D(3) u r by (auto simp: refs_ok_def op_live_def)
  show "counts_ok ?w" using D(4) r e by (auto simp: counts_ok_def op_live_def)
  have "wd_waits_ok (w_gate ?w) s (wd_at d)" if "d \<in> set (w_wds w)" "wd_entry d = Some s" for d s
  proof (cases "s = r")
    case True
    then show ?thesis using waits_of_dead none that by blast
  next
    case False
    then show ?thesis using D(5) that r by (auto simp: waits_ok_def intro: waits_other [where g = "w_gate w"])
  qed
  then show "waits_ok ?w" by (simp add: waits_ok_def)
  show "rows_ok ?w" using D(6) r e by (fastforce simp: rows_ok_def)
  have new: "k < w_keys w" if "p \<in> set (w_ops w)" "op_key p = Some k" for p k
    using D(7) that by (auto simp: keys_ok_def)
  have "op_key q \<noteq> key" if "q \<in> set (w_ops w)" "key \<noteq> None" for q
    using new [OF that(1)] cs(3) that(2) by fastforce
  then have "keys_apart (w_ops ?w)"
    using keys_apart_append [of "w_ops w" "\<lparr>op_user = u, op_entry = Some r, op_key = key, op_at = OpRunning\<rparr>"] D(7)
    by (simp add: keys_ok_def)
  then show "keys_ok ?w" using D(7) r e cs off new by (fastforce simp: keys_ok_def)
qed

text \<open>The entry of a user that a locked section has just looked up is the only one that may be idle.\<close>

lemma idle_after:
  assumes "\<And>v s. g_users g v = Some s \<Longrightarrow> v \<noteq> u \<Longrightarrow> 0 < e_operations (entry_at g s) \<or> e_withdrawing (entry_at g s) \<or> e_deleted (entry_at g s)"
    and "users_ok g" "g_users g u = Some r" "0 < e_operations e \<or> e_withdrawing e \<or> e_deleted e"
  shows "idle_ok (set_entry r e g)"
proof -
  have r: "r < length (g_entries g)" using assms(2,3) by (auto simp: users_ok_def)
  show ?thesis unfolding idle_ok_def
  proof (intro allI impI)
    fix v s assume v: "g_users (set_entry r e g) v = Some s"
    show "0 < e_operations (entry_at (set_entry r e g) s) \<or> e_withdrawing (entry_at (set_entry r e g) s) \<or>
      e_deleted (entry_at (set_entry r e g) s)"
    proof (cases "s = r")
      case True
      then show ?thesis using assms(4) r by simp
    next
      case False
      then have "v \<noteq> u" using v assms(3) by auto
      then show ?thesis using assms(1) v r False by simp
    qed
  qed
qed

lemma gate_inv_same: "w_gate w = w_gate w' \<Longrightarrow> w_keys w = w_keys w' \<Longrightarrow> w_ops w = w_ops w' \<Longrightarrow> w_wds w = w_wds w' \<Longrightarrow> w_rows w = w_rows w' \<Longrightarrow> gate_inv w = gate_inv w'"
  by (cases w; cases w') simp

lemma refused_entry:
  assumes "entry_for u g = (r, g1)" "e_withdrawing (entry_at g1 r) \<or> e_deleted (entry_at g1 r)"
  shows "g1 = g"
  using assms by (cases rule: entry_for_cases) auto

lemma begin_any_inv:
  assumes inv: "gate_inv w" and u: "u \<noteq> NilUser" and e: "entry_for u (w_gate w) = (r, g1)"
    and off: "\<not> e_withdrawing (entry_at g1 r)"
    and cs: "set (e_cancels (entry_at g1 r)) \<subseteq> set cs" "w_keys w \<le> n" "\<And>k. key = Some k \<Longrightarrow> k \<in> set cs \<and> w_keys w \<le> k \<and> k < n"
  shows "gate_inv (w\<lparr>w_keys := n, w_gate := set_entry r ((entry_at g1 r)\<lparr>e_operations := e_operations (entry_at g1 r) + 1, e_cancels := cs\<rparr>) g1,
    w_ops := w_ops w @ [\<lparr>op_user = u, op_entry = Some r, op_key = key, op_at = OpRunning\<rparr>]\<rparr>)"
proof -
  note E = entry_for_core [OF inv u e]
  have "gate_core ((w\<lparr>w_gate := g1\<rparr>)\<lparr>w_keys := n, w_gate := set_entry r ((entry_at g1 r)\<lparr>e_operations := e_operations (entry_at g1 r) + 1, e_cancels := cs\<rparr>) g1,
    w_ops := w_ops w @ [\<lparr>op_user = u, op_entry = Some r, op_key = key, op_at = OpRunning\<rparr>]\<rparr>)"
    using admit_core [OF E(1), of u r "entry_at g1 r" cs n key] E(2) off cs by simp
  moreover have "0 \<le> e_operations (entry_at g1 r)"
    using gate_coreD(4) [OF E(1)] E(3) by (simp add: counts_ok_def)
  then have "idle_ok (set_entry r ((entry_at g1 r)\<lparr>e_operations := e_operations (entry_at g1 r) + 1, e_cancels := cs\<rparr>) g1)"
    using gate_coreD(1) [OF E(1)] E(2,4) by (intro idle_after [where u = u]) auto
  ultimately show ?thesis by (simp add: gate_inv_core)
qed

lemma ungated_keys:
  "keys_ok w \<Longrightarrow> keys_ok (w\<lparr>w_ops := w_ops w @ [\<lparr>op_user = u, op_entry = None, op_key = None, op_at = OpRunning\<rparr>]\<rparr>)"
  using keys_apart_append [of "w_ops w" "\<lparr>op_user = u, op_entry = None, op_key = None, op_at = OpRunning\<rparr>"]
  by (simp add: keys_ok_def)

lemma ungated_inv:
  assumes "gate_inv w"
  shows "gate_inv (w\<lparr>w_ops := w_ops w @ [\<lparr>op_user = NilUser, op_entry = None, op_key = None, op_at = OpRunning\<rparr>]\<rparr>)"
  using assms ungated_keys [of w NilUser]
  by (auto simp: gate_inv_def refs_ok_def counts_ok_def waits_ok_def rows_ok_def op_live_def)

lemma begin_operation_inv: "gate_inv w \<Longrightarrow> gate_inv (begin_operation u w)"
proof (cases "u = NilUser")
  case True
  then show "gate_inv w \<Longrightarrow> gate_inv (begin_operation u w)"
    using ungated_inv by (simp add: begin_operation_def BeginOperation_def start_op_def Let_def)
next
  case False
  assume inv: "gate_inv w"
  obtain r g1 where e: "entry_for u (w_gate w) = (r, g1)" by fastforce
  show ?thesis
  proof (cases "e_withdrawing (entry_at g1 r) \<or> e_deleted (entry_at g1 r)")
    case True
    then show ?thesis using inv False e refused_entry [OF e True]
      by (simp add: begin_operation_def BeginOperation_def start_op_def Let_def)
  next
    case admitted: False
    then show ?thesis
      using begin_any_inv [OF inv False e, where cs = "e_cancels (entry_at g1 r)" and n = "w_keys w" and key = None] False e
      by (simp add: begin_operation_def BeginOperation_def start_op_def Let_def)
  qed
qed

lemma cancel_context_simps [simp]:
  "users_ok (cancel_context k g) = users_ok g" "chans_ok (cancel_context k g) = chans_ok g"
  "idle_ok (cancel_context k g) = idle_ok g" "wd_waits_ok (cancel_context k g) r ph = wd_waits_ok g r ph"
  "g_users (cancel_context k g) = g_users g" "g_entries (cancel_context k g) = g_entries g"
  "g_cancelled (cancel_context k g) = k # g_cancelled g"
  by (simp_all add: users_ok_def chans_ok_def idle_ok_def cancel_context_def) (cases ph; simp)

lemma refused_cancel_core:
  assumes "gate_core w" "w_keys w \<le> n"
  shows "gate_core (w\<lparr>w_keys := n, w_gate := cancel_context k (w_gate w)\<rparr>)"
proof (rule gate_coreI)
  note D = gate_coreD [OF assms(1)]
  let ?w = "w\<lparr>w_keys := n, w_gate := cancel_context k (w_gate w)\<rparr>"
  show "users_ok (w_gate ?w)" "chans_ok (w_gate ?w)" using D(1,2) by simp_all
  show "refs_ok ?w" using D(3) by (simp add: refs_ok_def)
  show "counts_ok ?w" using D(4) by (simp add: counts_ok_def)
  show "waits_ok ?w" using D(5) by (simp add: waits_ok_def)
  show "rows_ok ?w" using D(6) by (simp add: rows_ok_def)
  show "keys_ok ?w" using D(7) assms(2) by (fastforce simp: keys_ok_def)
qed

lemma refused_cancel_inv:
  "gate_inv w \<Longrightarrow> w_keys w \<le> n \<Longrightarrow> gate_inv (w\<lparr>w_keys := n, w_gate := cancel_context k (w_gate w)\<rparr>)"
  using refused_cancel_core by (simp add: gate_inv_core)

lemma begin_cancellable_inv: "gate_inv w \<Longrightarrow> gate_inv (begin_cancellable u w)"
proof (cases "u = NilUser")
  case True
  assume "gate_inv w"
  then have "gate_inv (w\<lparr>w_keys := w_keys w + 1\<rparr>)"
    using refused_cancel_inv [of w "w_keys w + 1"]
    by (fastforce simp: gate_inv_def keys_ok_def refs_ok_def counts_ok_def waits_ok_def rows_ok_def)
  from ungated_inv [OF this] show ?thesis
    using True by (simp add: begin_cancellable_def BeginCancellableOperation_def start_op_def Let_def)
next
  case False
  assume inv: "gate_inv w"
  obtain r g1 where e: "entry_for u (w_gate w) = (r, g1)" by fastforce
  show ?thesis
  proof (cases "e_withdrawing (entry_at g1 r) \<or> e_deleted (entry_at g1 r)")
    case True
    then show ?thesis
      using refused_cancel_inv [OF inv, of "w_keys w + 1" "w_keys w"] False e refused_entry [OF e True]
      by (simp add: begin_cancellable_def BeginCancellableOperation_def start_op_def Let_def)
  next
    case admitted: False
    then show ?thesis
      using begin_any_inv [OF inv False e, where cs = "w_keys w # e_cancels (entry_at g1 r)" and n = "w_keys w + 1" and key = "Some (w_keys w)"]
        False e by (simp add: begin_cancellable_def BeginCancellableOperation_def start_op_def subset_insertI Let_def)
  qed
qed

text \<open>An idle entry that nobody uses may leave the map.\<close>

lemma drop_core:
  assumes inv: "gate_core w" and u: "g_users (w_gate w) u = Some r"
    and idle: "e_operations (entry_at (w_gate w) r) = 0" "\<not> e_withdrawing (entry_at (w_gate w) r)" "\<not> e_deleted (entry_at (w_gate w) r)"
  shows "gate_core (w\<lparr>w_gate := w_gate w\<lparr>g_users := (g_users (w_gate w))(u := None)\<rparr>\<rparr>)" (is "gate_core ?w")
proof (rule gate_coreI)
  note D = gate_coreD [OF inv]
  have r: "r < length (g_entries (w_gate w))" using D(1) u by (auto simp: users_ok_def)
  show "users_ok (w_gate ?w)" using D(1) by (auto simp: users_ok_def)
  show "chans_ok (w_gate ?w)" using D(2) by (simp add: chans_ok_def)
  have no_op: "op_user p \<noteq> u" if "p \<in> set (w_ops w)" "op_live s p" for p s
    using D(3) no_live_op [OF D(4) r idle(1)] that u unfolding refs_ok_def by (metis option.inject)
  have no_wd: "wd_user d \<noteq> u" if "d \<in> set (w_wds w)" "wd_live s d" for d s
    using D(3) no_live_wd [OF D(4) r idle(2)] that u unfolding refs_ok_def by (metis option.inject)
  show "refs_ok ?w" using D(3) no_op no_wd by (simp add: refs_ok_def)
  show "counts_ok ?w" using D(4) by (simp add: counts_ok_def)
  have "wd_waits_ok (w_gate ?w) s ph = wd_waits_ok (w_gate w) s ph" for s ph by (cases ph) auto
  then show "waits_ok ?w" using D(5) by (simp add: waits_ok_def)
  show "rows_ok ?w" using D(6) u idle(3) by (fastforce simp: rows_ok_def)
  show "keys_ok ?w" using D(7) by (simp add: keys_ok_def)
qed

text \<open>\<open>endOperation\<close> up to the removal of the entry.\<close>

definition end_count :: "nat \<Rightarrow> UserOperationGate \<Rightarrow> UserOperationGate" where
  "end_count r g =
    (let e = entry_at g r; n = e_operations e - 1
     in if n = 0
        then set_entry r (e\<lparr>e_operations := n, e_changed := g_chans g\<rparr>)
               (g\<lparr>g_closed := e_changed e # g_closed g, g_chans := g_chans g + 1\<rparr>)
        else set_entry r (e\<lparr>e_operations := n\<rparr>) g)"

lemma endOperation_count:
  assumes "0 < e_operations (entry_at g r)" "r < length (g_entries g)" "g_users g u = Some r"
  shows "endOperation u r g =
    (if e_operations (entry_at g r) = 1 \<and> \<not> e_withdrawing (entry_at g r) \<and> \<not> e_deleted (entry_at g r)
     then (end_count r g)\<lparr>g_users := (g_users g)(u := None)\<rparr> else end_count r g)"
  using assms by (auto simp: endOperation_def end_count_def Let_def drop_if_idle_def set_entry_def)

lemma end_count_simps [simp]:
  "g_users (end_count r g) = g_users g" "length (g_entries (end_count r g)) = length (g_entries g)"
  "g_cancelled (end_count r g) = g_cancelled g" "set (g_closed g) \<subseteq> set (g_closed (end_count r g))"
  "s \<noteq> r \<Longrightarrow> entry_at (end_count r g) s = entry_at g s"
  by (auto simp: end_count_def Let_def set_entry_def)

lemma end_count_entry:
  assumes "r < length (g_entries g)"
  shows "e_operations (entry_at (end_count r g) r) = e_operations (entry_at g r) - 1"
    "e_withdrawing (entry_at (end_count r g) r) = e_withdrawing (entry_at g r)"
    "e_deleted (entry_at (end_count r g) r) = e_deleted (entry_at g r)"
    "e_cancels (entry_at (end_count r g) r) = e_cancels (entry_at g r)"
    "e_operations (entry_at g r) = 1 \<Longrightarrow> e_changed (entry_at g r) \<in> set (g_closed (end_count r g))"
    "e_operations (entry_at g r) \<noteq> 1 \<Longrightarrow> e_changed (entry_at (end_count r g) r) = e_changed (entry_at g r)"
  using assms by (auto simp: end_count_def Let_def set_entry_def)

lemma chans_end_count:
  assumes ok: "chans_ok g" and r: "r < length (g_entries g)"
  shows "chans_ok (end_count r g)"
proof (cases "e_operations (entry_at g r) = 1")
  case False
  then have "end_count r g = set_entry r ((entry_at g r)\<lparr>e_operations := e_operations (entry_at g r) - 1\<rparr>) g"
    by (simp add: end_count_def Let_def)
  then show ?thesis using chans_keep [OF ok r] by simp
next
  case True
  let ?n = "length (g_entries g)" and ?f = "\<lambda>s. e_changed (entry_at g s)"
  let ?g = "g\<lparr>g_closed := ?f r # g_closed g, g_chans := g_chans g + 1\<rparr>"
  let ?h = "end_count r g"
  have h: "?h = set_entry r ((entry_at g r)\<lparr>e_operations := 0, e_changed := g_chans g\<rparr>) ?g"
    using True by (simp add: end_count_def Let_def)
  have at: "e_changed (entry_at ?h s) = (if s = r then g_chans g else ?f s)" for s
    using r by (simp add: h)
  have low: "?f s < g_chans g" "?f s \<notin> set (g_closed g)" if "s < ?n" for s
    using ok that by (auto simp: chans_ok_def)
  have inj: "?f s = ?f t \<longleftrightarrow> s = t" if "s < ?n" "t < ?n" for s t
    using ok that by (auto simp: chans_ok_def inj_on_def)
  have closed: "c < g_chans g" if "c \<in> set (g_closed g)" for c using ok that unfolding chans_ok_def by blast
  show ?thesis unfolding chans_ok_def
  proof (intro conjI allI impI ballI inj_onI)
    fix s assume s: "s < length (g_entries ?h)"
    then have sn: "s < ?n" by simp
    show "e_changed (entry_at ?h s) < g_chans ?h" using low(1) [OF sn] at h by simp
    show "e_changed (entry_at ?h s) \<notin> set (g_closed ?h)"
      using low [OF sn] low(1) [OF r] inj [OF sn r] at closed [of "g_chans g"] by (auto simp: h)
  next
    fix c assume "c \<in> set (g_closed ?h)"
    then show "c < g_chans ?h" using closed [of c] low(1) [OF r] by (auto simp: h)
  next
    fix s t assume "s \<in> {..<length (g_entries ?h)}" "t \<in> {..<length (g_entries ?h)}"
      and eq: "e_changed (entry_at ?h s) = e_changed (entry_at ?h t)"
    then have "s < ?n" "t < ?n" by simp_all
    then show "s = t" using eq inj low(1) unfolding at by (metis less_irrefl)
  qed
qed

text \<open>Ending a live operation counts it out, and wakes the waiting withdrawal when it was the last.\<close>

lemma op_live_ended [simp]: "\<not> op_live s (p\<lparr>op_at := OpEnded\<rparr>)"
  by (simp add: op_live_def)

lemma waits_end_count:
  assumes r: "r < length (g_entries g)" and ok: "wd_waits_ok g s ph" and pos: "0 < e_operations (entry_at g r)"
  shows "wd_waits_ok (end_count r g) s ph"
proof (cases "s = r")
  case False
  show ?thesis by (rule waits_other [where g = g, OF _ _ ok]) (simp_all add: False)
next
  case True
  show ?thesis
    using ok pos end_count_entry [OF r] subsetD [OF end_count_simps(4)] True
    by (cases ph; cases "e_operations (entry_at g r) = 1") auto
qed

lemma live_refs:
  assumes "gate_core w" "p \<in> set (w_ops w)" "op_live r p"
  shows "g_users (w_gate w) (op_user p) = Some r" "r < length (g_entries (w_gate w))"
    "0 < e_operations (entry_at (w_gate w) r)"
proof -
  note D = gate_coreD [OF assms(1)]
  show u: "g_users (w_gate w) (op_user p) = Some r" using D(3) assms by (simp add: refs_ok_def)
  then show r: "r < length (g_entries (w_gate w))" using D(1) by (simp add: users_ok_def)
  show "0 < e_operations (entry_at (w_gate w) r)"
    using D(4) r length_filter_member [OF assms(2), of "op_live r"] assms(3) unfolding counts_ok_def by auto
qed

lemma keys_set_op:
  assumes ok: "keys_ok w" and i: "i < length (w_ops w)"
    and g: "\<And>p k s. p \<in> set (w_ops w) \<Longrightarrow> p \<noteq> w_ops w ! i \<Longrightarrow> op_key p = Some k \<Longrightarrow> op_entry p = Some s \<Longrightarrow> op_at p = OpRunning \<Longrightarrow>
        k \<in> set (e_cancels (entry_at (w_gate w) s)) \<Longrightarrow> k \<in> set (e_cancels (entry_at g' s))"
      "\<And>s. e_withdrawing (entry_at g' s) = e_withdrawing (entry_at (w_gate w) s)"
      "set (g_cancelled (w_gate w)) \<subseteq> set (g_cancelled g')" and ph: "ph \<noteq> OpRunning"
  shows "keys_ok (set_op i ph (w\<lparr>w_gate := g'\<rparr>))"
proof -
  let ?ops = "(w_ops w)[i := (w_ops w ! i)\<lparr>op_at := ph\<rparr>]"
  have apart: "keys_apart ?ops" using keys_apart_update ok by (simp add: keys_ok_def)
  have old: "p \<in> set (w_ops w) \<and> p \<noteq> w_ops w ! i" if mem: "p \<in> set ?ops" and at: "op_at p = OpRunning" and key: "op_key p = Some k" for p k
  proof -
    obtain j where j: "j < length (w_ops w)" "?ops ! j = p" using mem by (metis in_set_conv_nth length_list_update)
    then have "j \<noteq> i" using at ph i by auto
    then have p: "p = w_ops w ! j" using j by simp
    have "keys_apart (w_ops w)" using ok by (simp add: keys_ok_def)
    then have "op_key (w_ops w ! j) \<noteq> op_key (w_ops w ! i)"
      using j i key p \<open>j \<noteq> i\<close> keys_apart_def [of "w_ops w"] by (metis option.distinct(1))
    then show ?thesis using j p by auto
  qed
  have low: "k < w_keys w" if "p \<in> set ?ops" "op_key p = Some k" for p k
  proof -
    have "p = (w_ops w ! i)\<lparr>op_at := ph\<rparr> \<or> p \<in> set (w_ops w)" using set_update_subset_insert that(1) by fastforce
    then show ?thesis using ok that(2) nth_mem [OF i] by (auto simp: keys_ok_def)
  qed
  have "k \<in> set (e_cancels (entry_at g' s)) \<and> (e_withdrawing (entry_at g' s) \<longrightarrow> k \<in> set (g_cancelled g'))"
    if "p \<in> set ?ops" "op_key p = Some k" "op_entry p = Some s" "op_at p = OpRunning" for p k s
    using g old [OF that(1,4,2)] ok that by (auto simp: keys_ok_def)
  then show ?thesis using apart low by (simp add: keys_ok_def set_op_def)
qed

lemma end_core:
  assumes inv: "gate_core w" and i: "i < length (w_ops w)" and live: "op_live r (w_ops w ! i)"
  shows "gate_core (set_op i OpEnded (w\<lparr>w_gate := end_count r (w_gate w)\<rparr>))" (is "gate_core ?w")
proof (rule gate_coreI)
  note D = gate_coreD [OF inv]
  note L = live_refs [OF inv nth_mem [OF i] live]
  have ops: "w_ops ?w = (w_ops w)[i := (w_ops w ! i)\<lparr>op_at := OpEnded\<rparr>]" by (simp add: set_op_def)
  have rest: "w_gate ?w = end_count r (w_gate w)" "w_wds ?w = w_wds w" "w_rows ?w = w_rows w" by (simp_all add: set_op_def)
  have old: "p \<in> set (w_ops w) \<or> p = (w_ops w ! i)\<lparr>op_at := OpEnded\<rparr>" if "p \<in> set (w_ops ?w)" for p
    using that set_update_subset_insert unfolding ops by fastforce
  note E = end_count_entry [OF L(2)]
  show "users_ok (w_gate ?w)" using D(1) by (simp add: users_ok_def rest)
  show "chans_ok (w_gate ?w)" using chans_end_count [OF D(2) L(2)] by (simp add: rest)
  show "refs_ok ?w" using D(3) old nth_mem [OF i] unfolding refs_ok_def rest
    by (auto dest!: old)
  have "int (length (filter (op_live s) (w_ops ?w))) = int (length (filter (op_live s) (w_ops w))) - (if s = r then 1 else 0)" for s
    using live unfolding ops length_filter_update [OF i] by (auto simp: op_live_def)
  moreover have "e_operations (entry_at (w_gate ?w) s) = e_operations (entry_at (w_gate w) s) - (if s = r then 1 else 0)"
    "e_withdrawing (entry_at (w_gate ?w) s) = e_withdrawing (entry_at (w_gate w) s)" for s
    using E by (cases "s = r"; simp add: rest)+
  ultimately show "counts_ok ?w" using D(4) unfolding counts_ok_def by (simp add: rest)
  show "waits_ok ?w" using D(5) waits_end_count [OF L(2) _ L(3)] by (simp add: waits_ok_def rest)
  have "e_deleted (entry_at (w_gate ?w) s) = e_deleted (entry_at (w_gate w) s)" for s
    using E by (cases "s = r") (auto simp: rest)
  then show "rows_ok ?w" using D(6) by (simp add: rows_ok_def rest)
  have "e_cancels (entry_at (end_count r (w_gate w)) s) = e_cancels (entry_at (w_gate w) s)"
    "e_withdrawing (entry_at (end_count r (w_gate w)) s) = e_withdrawing (entry_at (w_gate w) s)" for s
    using E by (cases "s = r"; simp)+
  then show "keys_ok ?w" using keys_set_op [OF D(7) i] by simp
qed

lemma end_inv:
  assumes inv: "gate_inv w" and i: "i < length (w_ops w)" and live: "op_live r (w_ops w ! i)"
  shows "gate_inv (set_op i OpEnded (w\<lparr>w_gate := endOperation (op_user (w_ops w ! i)) r (w_gate w)\<rparr>))"
proof -
  have core: "gate_core w" and idle: "idle_ok (w_gate w)" using inv by (simp_all add: gate_inv_core)
  let ?g = "w_gate w" and ?u = "op_user (w_ops w ! i)"
  note L = live_refs [OF core nth_mem [OF i] live]
  note E = end_count_entry [OF L(2)]
  let ?w = "set_op i OpEnded (w\<lparr>w_gate := end_count r ?g\<rparr>)"
  note C = end_core [OF core i live]
  have gate: "w_gate ?w = end_count r ?g" by (simp add: set_op_def)
  have others: "0 < e_operations (entry_at (end_count r ?g) s) \<or> e_withdrawing (entry_at (end_count r ?g) s) \<or> e_deleted (entry_at (end_count r ?g) s)"
    if "g_users ?g v = Some s" "s \<noteq> r" for v s
    using idle that by (simp add: idle_ok_def)
  show ?thesis
  proof (cases "e_operations (entry_at ?g r) = 1 \<and> \<not> e_withdrawing (entry_at ?g r) \<and> \<not> e_deleted (entry_at ?g r)")
    case True
    let ?g' = "(end_count r ?g)\<lparr>g_users := (g_users ?g)(?u := None)\<rparr>"
    have "?w\<lparr>w_gate := ?g'\<rparr> = set_op i OpEnded (w\<lparr>w_gate := ?g'\<rparr>)" by (cases w) (simp add: set_op_def)
    then have "gate_core (set_op i OpEnded (w\<lparr>w_gate := ?g'\<rparr>))"
      using drop_core [OF C, of ?u r] L E True by (simp add: gate)
    moreover have "g_users ?g v = Some s \<Longrightarrow> v \<noteq> ?u \<Longrightarrow> s \<noteq> r" for v s
      using gate_coreD(1) [OF core] L(1) unfolding users_ok_def by blast
    then have "idle_ok ?g'" using others by (auto simp: idle_ok_def)
    ultimately show ?thesis
      using endOperation_count [OF L(3,2,1)] True by (simp add: gate_inv_core set_op_def)
  next
    case False
    have "idle_ok (end_count r ?g)"
      unfolding idle_ok_def
    proof (intro allI impI)
      fix v s assume "g_users (end_count r ?g) v = Some s"
      then show "0 < e_operations (entry_at (end_count r ?g) s) \<or> e_withdrawing (entry_at (end_count r ?g) s) \<or> e_deleted (entry_at (end_count r ?g) s)"
        using others [of v s] False L(3) E by (cases "s = r") auto
    qed
    then show ?thesis
      using endOperation_count [OF L(3,2,1)] False C by (simp add: gate_inv_core gate)
  qed
qed

text \<open>A step of a release that leaves the operation counted.\<close>

lemma set_op_fields [simp]:
  "w_gate (set_op i ph w) = w_gate w" "w_wds (set_op i ph w) = w_wds w" "w_rows (set_op i ph w) = w_rows w"
  "w_keys (set_op i ph w) = w_keys w"
  by (simp_all add: set_op_def)

lemma deregister_simps [simp]:
  "g_users (deregister k r g) = g_users g" "g_closed (deregister k r g) = g_closed g"
  "g_cancelled (deregister k r g) = g_cancelled g" "length (g_entries (deregister k r g)) = length (g_entries g)"
  "g_chans (deregister k r g) = g_chans g"
  by (simp_all add: deregister_def Let_def)

lemma deregister_entry:
  assumes "r < length (g_entries g)"
  shows "e_operations (entry_at (deregister k r g) s) = e_operations (entry_at g s)"
    "e_withdrawing (entry_at (deregister k r g) s) = e_withdrawing (entry_at g s)"
    "e_deleted (entry_at (deregister k r g) s) = e_deleted (entry_at g s)"
    "e_changed (entry_at (deregister k r g) s) = e_changed (entry_at g s)"
    "e_cancels (entry_at (deregister k r g) s) = (if s = r then removeAll k (e_cancels (entry_at g r)) else e_cancels (entry_at g s))"
  using assms by (simp_all add: deregister_def Let_def)

lemma waits_deregister: "r < length (g_entries g) \<Longrightarrow> wd_waits_ok (deregister k r g) s ph = wd_waits_ok g s ph"
  by (cases ph) (simp_all add: deregister_entry)

lemma same_live:
  assumes "i < length ps" "op_at (ps ! i) \<noteq> OpEnded" "ph \<noteq> OpEnded"
  shows "length (filter (op_live s) (ps[i := (ps ! i)\<lparr>op_at := ph\<rparr>])) = length (filter (op_live s) ps)"
proof -
  have "op_live s ((ps ! i)\<lparr>op_at := ph\<rparr>) = op_live s (ps ! i)" using assms(2,3) by (simp add: op_live_def)
  then have "int (length (filter (op_live s) (ps[i := (ps ! i)\<lparr>op_at := ph\<rparr>]))) = int (length (filter (op_live s) ps))"
    unfolding length_filter_update [OF assms(1)] by simp
  then show ?thesis by simp
qed

lemma updated_op: "p \<in> set (w_ops (set_op i ph w)) \<Longrightarrow> p \<in> set (w_ops w) \<or> p = (w_ops w ! i)\<lparr>op_at := ph\<rparr>"
  using set_update_subset_insert by (fastforce simp: set_op_def)

lemma keys_apart_other:
  assumes ok: "keys_apart ps" and i: "i < length ps" and p: "p \<in> set ps" "p \<noteq> ps ! i" and k: "op_key (ps ! i) = Some k"
  shows "op_key p \<noteq> Some k"
proof -
  obtain j where j: "j < length ps" "ps ! j = p" using p(1) by (metis in_set_conv_nth)
  then have "i \<noteq> j" using p(2) by blast
  then have "op_key (ps ! i) \<noteq> op_key (ps ! j)" using ok i j(1) k unfolding keys_apart_def by (metis option.distinct(1))
  then show ?thesis using j k by simp
qed

lemma deregister_inv:
  assumes inv: "gate_inv w" and i: "i < length (w_ops w)" and running: "op_at (w_ops w ! i) = OpRunning"
    and refs: "op_entry (w_ops w ! i) = Some r" "op_key (w_ops w ! i) = Some k"
  shows "gate_inv (set_op i OpDeregistered (w\<lparr>w_gate := deregister k r (w_gate w)\<rparr>))" (is "gate_inv ?w")
proof -
  have core: "gate_core w" and idle: "idle_ok (w_gate w)" using inv by (simp_all add: gate_inv_core)
  note D = gate_coreD [OF core] and mem = nth_mem [OF i]
  have "op_live r (w_ops w ! i)" using running refs by (simp add: op_live_def)
  note r = live_refs(2) [OF core mem this] and E = deregister_entry [OF live_refs(2) [OF core mem this]]
  have "gate_core ?w"
  proof (rule gate_coreI)
    show "users_ok (w_gate ?w)" using D(1) by (simp add: users_ok_def)
    show "chans_ok (w_gate ?w)" using D(2) by (simp add: chans_ok_def E)
    have "refs_ok (w\<lparr>w_gate := deregister k r (w_gate w)\<rparr>)" using D(3) by (simp add: refs_ok_def)
    moreover have "op_live s ((w_ops w ! i)\<lparr>op_at := OpDeregistered\<rparr>) = op_live s (w_ops w ! i)" for s
      using running by (simp add: op_live_def)
    ultimately show "refs_ok ?w"
      using mem refs unfolding refs_ok_def by (auto dest!: updated_op)
    show "counts_ok ?w" using D(4) same_live [OF i, of OpDeregistered] running
      by (simp add: counts_ok_def set_op_def E)
    show "waits_ok ?w" using D(5) by (simp add: waits_ok_def waits_deregister [OF r])
    show "rows_ok ?w" using D(6) by (simp add: rows_ok_def E)
    have apart: "op_key p \<noteq> Some k" if "p \<in> set (w_ops w)" "p \<noteq> w_ops w ! i" for p
      using keys_apart_other [OF _ i that] D(7) refs(2) by (simp add: keys_ok_def)
    show "keys_ok ?w" by (rule keys_set_op [OF D(7) i]) (auto simp: E dest: apart)
  qed
  moreover have "idle_ok (w_gate ?w)" using idle by (simp add: idle_ok_def E)
  ultimately show ?thesis by (simp add: gate_inv_core)
qed

lemma end_ungated_inv:
  assumes inv: "gate_inv w" and i: "i < length (w_ops w)" and none: "op_entry (w_ops w ! i) = None"
  shows "gate_inv (set_op i OpEnded w)" (is "gate_inv ?w")
proof -
  have core: "gate_core w" and idle: "idle_ok (w_gate w)" using inv by (simp_all add: gate_inv_core)
  note D = gate_coreD [OF core] and mem = nth_mem [OF i]
  have "gate_core ?w"
  proof (rule gate_coreI)
    show "users_ok (w_gate ?w)" "chans_ok (w_gate ?w)" using D(1,2) by simp_all
    show "refs_ok ?w" using D(3) none unfolding refs_ok_def by (auto dest!: updated_op)
    have "int (length (filter (op_live s) (w_ops ?w))) = int (length (filter (op_live s) (w_ops w)))" for s
      using none length_filter_update [OF i, of "op_live s"] by (simp add: set_op_def op_live_def)
    then show "counts_ok ?w" using D(4) by (simp add: counts_ok_def)
    show "waits_ok ?w" "rows_ok ?w" using D(5,6) by (simp_all add: waits_ok_def rows_ok_def)
    show "keys_ok ?w" using keys_set_op [OF D(7) i, of "w_gate w"] by simp
  qed
  then show ?thesis using idle by (simp add: gate_inv_core)
qed

lemma release_operation_inv: "gate_inv w \<Longrightarrow> i < length (w_ops w) \<Longrightarrow> gate_inv (release_operation i w)"
  using end_ungated_inv [of w i] end_inv [of w i] deregister_inv [of w i]
  by (auto simp: release_operation_def Let_def op_live_def split: option.splits)

lemma finish_operation_inv:
  assumes inv: "gate_inv w" and i: "i < length (w_ops w)"
  shows "gate_inv (finish_operation i w)"
proof (cases "\<exists>r k. op_at (w_ops w ! i) = OpDeregistered \<and> op_entry (w_ops w ! i) = Some r \<and> op_key (w_ops w ! i) = Some k")
  case False
  then show ?thesis using inv by (auto simp: finish_operation_def Let_def split: option.splits)
next
  case True
  then obtain r k where p: "op_at (w_ops w ! i) = OpDeregistered" "op_entry (w_ops w ! i) = Some r" "op_key (w_ops w ! i) = Some k"
    by blast
  have "gate_inv (w\<lparr>w_gate := cancel_context k (w_gate w)\<rparr>)" using refused_cancel_inv [OF inv order_refl, of k] by simp
  from end_inv [OF this, of i r] show ?thesis
    using i p by (simp add: finish_operation_def Let_def op_live_def)
qed

subsection \<open>Withdrawals keep the invariant\<close>

lemma finished_wd_inv:
  assumes inv: "gate_inv w" and "wd_over ph \<or> u = NilUser"
  shows "gate_inv (w\<lparr>w_wds := w_wds w @ [\<lparr>wd_user = u, wd_entry = None, wd_at = ph, wd_log = l\<rparr>]\<rparr>)" (is "gate_inv ?w")
proof -
  have core: "gate_core w" and idle: "idle_ok (w_gate w)" using inv by (simp_all add: gate_inv_core)
  note D = gate_coreD [OF core]
  have "gate_core ?w"
  proof (rule gate_coreI)
    show "users_ok (w_gate ?w)" "chans_ok (w_gate ?w)" using D(1,2) by simp_all
    show "refs_ok ?w" using D(3) assms(2) by (auto simp: refs_ok_def wd_live_def)
    show "counts_ok ?w" using D(4) by (simp add: counts_ok_def wd_live_def)
    show "waits_ok ?w" using D(5) by (simp add: waits_ok_def)
    show "rows_ok ?w" using D(6) by (fastforce simp: rows_ok_def)
    show "keys_ok ?w" using D(7) by (simp add: keys_ok_def)
  qed
  then show ?thesis using idle by (simp add: gate_inv_core)
qed

definition hold_entry :: "nat \<Rightarrow> UserOperationGate \<Rightarrow> UserOperationGate" where
  "hold_entry r g = set_entry r ((entry_at g r)\<lparr>e_withdrawing := True\<rparr>)
     (g\<lparr>g_cancelled := e_cancels (entry_at g r) @ g_cancelled g\<rparr>)"

lemma hold_entry_simps:
  assumes "r < length (g_entries g)"
  shows "g_users (hold_entry r g) = g_users g" "g_closed (hold_entry r g) = g_closed g" "g_chans (hold_entry r g) = g_chans g"
    "length (g_entries (hold_entry r g)) = length (g_entries g)"
    "set (g_cancelled (hold_entry r g)) = set (e_cancels (entry_at g r)) \<union> set (g_cancelled g)"
    "e_operations (entry_at (hold_entry r g) s) = e_operations (entry_at g s)"
    "e_deleted (entry_at (hold_entry r g) s) = e_deleted (entry_at g s)"
    "e_changed (entry_at (hold_entry r g) s) = e_changed (entry_at g s)"
    "e_cancels (entry_at (hold_entry r g) s) = e_cancels (entry_at g s)"
    "e_withdrawing (entry_at (hold_entry r g) s) = (s = r \<or> e_withdrawing (entry_at g s))"
  using assms by (simp_all add: hold_entry_def)

lemma waits_same:
  assumes "e_operations (entry_at g' r) = e_operations (entry_at g r)" "e_changed (entry_at g' r) = e_changed (entry_at g r)"
    "g_closed g' = g_closed g"
  shows "wd_waits_ok g' r ph = wd_waits_ok g r ph"
  using assms by (cases ph) simp_all

lemma loop_phase_ok:
  assumes "0 \<le> e_operations (entry_at g r)"
  shows "wd_waits_ok g r (loop_phase r g)" "\<not> wd_over (loop_phase r g)" "loop_phase r g \<noteq> WdBody (AtMarkDeleted c)"
  using assms by (auto simp: loop_phase_def withdrawal_waits_def)

lemma operations_nonneg: "counts_ok w \<Longrightarrow> r < length (g_entries (w_gate w)) \<Longrightarrow> 0 \<le> e_operations (entry_at (w_gate w) r)"
  by (simp add: counts_ok_def)

lemma hold_core:
  assumes inv: "gate_core w" and u: "g_users (w_gate w) u = Some r" and off: "\<not> e_withdrawing (entry_at (w_gate w) r)"
  shows "gate_core (w\<lparr>w_gate := hold_entry r (w_gate w),
    w_wds := w_wds w @ [\<lparr>wd_user = u, wd_entry = Some r, wd_at = loop_phase r (hold_entry r (w_gate w)), wd_log = []\<rparr>]\<rparr>)" (is "gate_core ?w")
proof (rule gate_coreI)
  note D = gate_coreD [OF inv]
  have r: "r < length (g_entries (w_gate w))" using D(1) u by (auto simp: users_ok_def)
  note H = hold_entry_simps [OF r]
  have "0 \<le> e_operations (entry_at (hold_entry r (w_gate w)) r)" using operations_nonneg [OF D(4) r] H by simp
  note P = loop_phase_ok [OF this]
  show "users_ok (w_gate ?w)" using D(1) by (simp add: users_ok_def H)
  show "chans_ok (w_gate ?w)" using D(2) by (simp add: chans_ok_def H)
  show "refs_ok ?w" using D(3) u r by (auto simp: refs_ok_def H wd_live_def)
  show "counts_ok ?w" using D(4) r off P(2) by (auto simp: counts_ok_def H wd_live_def)
  show "waits_ok ?w" using D(5) P(1) waits_same [OF H(6,8,2)] by (simp add: waits_ok_def)
  show "rows_ok ?w" using D(6) by (fastforce simp: rows_ok_def H)
  show "keys_ok ?w" using D(7) by (simp add: keys_ok_def H)
qed

lemma begin_withdrawal_inv:
  assumes inv: "gate_inv w"
  shows "gate_inv (begin_withdrawal u w)"
proof (cases "u = NilUser")
  case True
  then show ?thesis using finished_wd_inv [OF inv, of "WdBody AtCredential" u] by (simp add: begin_withdrawal_def BeginWithdrawal_def)
next
  case False
  obtain r g1 where e: "entry_for u (w_gate w) = (r, g1)" by fastforce
  note E = entry_for_core [OF inv False e]
  show ?thesis
  proof (cases "e_withdrawing (entry_at g1 r) \<or> e_deleted (entry_at g1 r)")
    case True
    then show ?thesis using False e refused_entry [OF e True] finished_wd_inv [OF inv, of "WdFinished (Some _)" u]
      by (auto simp: begin_withdrawal_def BeginWithdrawal_def Let_def)
  next
    case False
    have "gate_core ((w\<lparr>w_gate := g1\<rparr>)\<lparr>w_gate := hold_entry r g1,
        w_wds := w_wds w @ [\<lparr>wd_user = u, wd_entry = Some r, wd_at = loop_phase r (hold_entry r g1), wd_log = []\<rparr>]\<rparr>)"
      using hold_core [OF E(1), of u r] E(2) False by simp
    moreover have "idle_ok (hold_entry r g1)" using E(2,3,4) by (force simp: idle_ok_def hold_entry_simps)
    ultimately show ?thesis using \<open>u \<noteq> NilUser\<close> False e
      by (simp add: begin_withdrawal_def BeginWithdrawal_def Let_def gate_inv_core hold_entry_def)
  qed
qed

lemma updated_wd: "d \<in> set (ds[j := d']) \<Longrightarrow> d \<in> set ds \<or> d = d'"
  using set_update_subset_insert by fastforce

lemma kept_wd: "d \<in> set ds \<Longrightarrow> d \<noteq> ds ! j \<Longrightarrow> d \<in> set (ds[j := d'])"
  by (metis in_set_conv_nth length_list_update nth_list_update_neq)

lemma rows_update:
  assumes ok: "rows_ok w" and j: "j < length (w_wds w)"
    and old: "\<And>c. wd_at (w_wds w ! j) = WdBody (AtMarkDeleted c) \<Longrightarrow> wd_user (w_wds w ! j) \<noteq> NilUser \<Longrightarrow>
      \<exists>r. g_users (w_gate w) (wd_user (w_wds w ! j)) = Some r \<and> e_deleted (entry_at (w_gate w) r)"
  shows "rows_ok (w\<lparr>w_wds := (w_wds w)[j := d']\<rparr>)"
  unfolding rows_ok_def
proof (intro ballI impI)
  let ?P = "\<lambda>u. \<exists>r. g_users (w_gate w) u = Some r \<and> e_deleted (entry_at (w_gate w) r)"
  fix u assume "u \<in> set (w_rows (w\<lparr>w_wds := (w_wds w)[j := d']\<rparr>))" and u: "u \<noteq> NilUser"
  then consider "?P u" | d c where "d \<in> set (w_wds w)" "wd_user d = u" "wd_at d = WdBody (AtMarkDeleted c)"
    using ok by (auto simp: rows_ok_def)
  then have "?P u \<or> (\<exists>d \<in> set ((w_wds w)[j := d']). \<exists>c. wd_user d = u \<and> wd_at d = WdBody (AtMarkDeleted c))"
  proof cases
    case 2
    then show ?thesis using old u kept_wd [of d "w_wds w" j d'] by (cases "d = w_wds w ! j") auto
  qed simp
  then show "(\<exists>r. g_users (w_gate (w\<lparr>w_wds := (w_wds w)[j := d']\<rparr>)) u = Some r \<and> e_deleted (entry_at (w_gate (w\<lparr>w_wds := (w_wds w)[j := d']\<rparr>)) r)) \<or>
    (\<exists>d \<in> set (w_wds (w\<lparr>w_wds := (w_wds w)[j := d']\<rparr>)). \<exists>c. wd_user d = u \<and> wd_at d = WdBody (AtMarkDeleted c))"
    by simp
qed

text \<open>A withdrawal that moves on and stays live.\<close>

lemma move_core:
  assumes inv: "gate_core w" and j: "j < length (w_wds w)" and live: "\<not> wd_over (wd_at (w_wds w ! j))" "\<not> wd_over ph"
    and waits: "\<And>r. wd_entry (w_wds w ! j) = Some r \<Longrightarrow> wd_waits_ok (w_gate w) r ph"
    and old: "\<And>c. wd_at (w_wds w ! j) = WdBody (AtMarkDeleted c) \<Longrightarrow> wd_user (w_wds w ! j) \<noteq> NilUser \<Longrightarrow>
      \<exists>r. g_users (w_gate w) (wd_user (w_wds w ! j)) = Some r \<and> e_deleted (entry_at (w_gate w) r)"
  shows "gate_core (w\<lparr>w_wds := (w_wds w)[j := (w_wds w ! j)\<lparr>wd_at := ph, wd_log := l\<rparr>]\<rparr>)" (is "gate_core ?w")
proof (rule gate_coreI)
  note D = gate_coreD [OF inv] and mem = nth_mem [OF j]
  have same: "wd_live s ((w_wds w ! j)\<lparr>wd_at := ph, wd_log := l\<rparr>) = wd_live s (w_wds w ! j)" for s
    using live by (simp add: wd_live_def)
  show "users_ok (w_gate ?w)" "chans_ok (w_gate ?w)" using D(1,2) by simp_all
  show "refs_ok ?w" using D(3) mem same live unfolding refs_ok_def by (auto dest!: updated_wd)
  have "int (length (filter (wd_live s) (w_wds ?w))) = int (length (filter (wd_live s) (w_wds w)))" for s
    using length_filter_update [OF j, of "wd_live s"] same by simp
  then show "counts_ok ?w" using D(4) by (simp add: counts_ok_def)
  show "waits_ok ?w" using D(5) waits by (auto simp: waits_ok_def dest!: updated_wd)
  show "rows_ok ?w" by (rule rows_update [OF D(6) j old])
  show "keys_ok ?w" using D(7) by (simp add: keys_ok_def)
qed

lemma wake_withdrawal_inv:
  assumes inv: "gate_inv w" and j: "j < length (w_wds w)"
  shows "gate_inv (wake_withdrawal j w)"
proof (cases "\<exists>c r. wd_at (w_wds w ! j) = WdWaiting c \<and> wd_entry (w_wds w ! j) = Some r \<and> c \<in> set (g_closed (w_gate w))")
  case False
  then show ?thesis using inv by (auto simp: wake_withdrawal_def split: wd_phase.splits option.splits)
next
  case True
  then obtain c r where d: "wd_at (w_wds w ! j) = WdWaiting c" "wd_entry (w_wds w ! j) = Some r" "c \<in> set (g_closed (w_gate w))"
    by blast
  have core: "gate_core w" and idle: "idle_ok (w_gate w)" using inv by (simp_all add: gate_inv_core)
  have "r < length (g_entries (w_gate w))" using gate_coreD(3) [OF core] nth_mem [OF j] d(2) by (auto simp: refs_ok_def)
  note P = loop_phase_ok [OF operations_nonneg [OF gate_coreD(4) [OF core] this]]
  have "gate_core (w\<lparr>w_wds := (w_wds w)[j := (w_wds w ! j)\<lparr>wd_at := loop_phase r (w_gate w), wd_log := wd_log (w_wds w ! j)\<rparr>]\<rparr>)"
    using P d by (intro move_core [OF core j]) auto
  then show ?thesis using d idle by (simp add: wake_withdrawal_def set_wd_def gate_inv_core)
qed

text \<open>A withdrawal that gives up the gate.\<close>

definition free_entry :: "nat \<Rightarrow> UserOperationGate \<Rightarrow> UserOperationGate" where
  "free_entry r g = set_entry r ((entry_at g r)\<lparr>e_withdrawing := False\<rparr>) g"

lemma free_entry_simps:
  assumes "r < length (g_entries g)"
  shows "g_users (free_entry r g) = g_users g" "g_closed (free_entry r g) = g_closed g" "g_chans (free_entry r g) = g_chans g"
    "length (g_entries (free_entry r g)) = length (g_entries g)" "g_cancelled (free_entry r g) = g_cancelled g"
    "e_operations (entry_at (free_entry r g) s) = e_operations (entry_at g s)"
    "e_deleted (entry_at (free_entry r g) s) = e_deleted (entry_at g s)"
    "e_changed (entry_at (free_entry r g) s) = e_changed (entry_at g s)"
    "e_cancels (entry_at (free_entry r g) s) = e_cancels (entry_at g s)"
    "e_withdrawing (entry_at (free_entry r g) s) = (s \<noteq> r \<and> e_withdrawing (entry_at g s))"
  using assms by (simp_all add: free_entry_def)

lemma live_wd_refs:
  assumes "gate_core w" "d \<in> set (w_wds w)" "wd_live r d"
  shows "g_users (w_gate w) (wd_user d) = Some r" "r < length (g_entries (w_gate w))"
    "e_withdrawing (entry_at (w_gate w) r)" "wd_user d \<noteq> NilUser"
proof -
  note D = gate_coreD [OF assms(1)]
  show u: "g_users (w_gate w) (wd_user d) = Some r" using D(3) assms by (simp add: refs_ok_def)
  then show r: "r < length (g_entries (w_gate w))" and "wd_user d \<noteq> NilUser" using D(1) unfolding users_ok_def by auto
  show "e_withdrawing (entry_at (w_gate w) r)" using no_live_wd [OF D(4) r _ assms(2)] assms(3) by blast
qed

lemma free_core:
  assumes inv: "gate_core w" and j: "j < length (w_wds w)" and live: "wd_live r (w_wds w ! j)"
    and old: "\<And>c. wd_at (w_wds w ! j) \<noteq> WdBody (AtMarkDeleted c)"
  shows "gate_core (set_wd j (WdFinished res) (w\<lparr>w_gate := free_entry r (w_gate w)\<rparr>))" (is "gate_core ?w")
proof (rule gate_coreI)
  note D = gate_coreD [OF inv] and mem = nth_mem [OF j]
  note L = live_wd_refs [OF inv mem live]
  note F = free_entry_simps [OF L(2)]
  have gate: "w_gate ?w = free_entry r (w_gate w)" "w_ops ?w = w_ops w" "w_rows ?w = w_rows w" "w_keys ?w = w_keys w"
    and wds: "w_wds ?w = (w_wds w)[j := (w_wds w ! j)\<lparr>wd_at := WdFinished res\<rparr>]"
    by (simp_all add: set_wd_def)
  show "users_ok (w_gate ?w)" using D(1) by (simp add: users_ok_def F gate)
  show "chans_ok (w_gate ?w)" using D(2) by (simp add: chans_ok_def F gate)
  show "refs_ok ?w" using D(3) mem unfolding refs_ok_def gate wds
    by (auto simp: F wd_live_def dest!: updated_wd)
  have count: "int (length (filter (wd_live s) (w_wds ?w))) = int (length (filter (wd_live s) (w_wds w))) - (if s = r then 1 else 0)" for s
    using live unfolding wds length_filter_update [OF j] by (auto simp: wd_live_def)
  have "length (filter (wd_live s) (w_wds ?w)) = (if e_withdrawing (entry_at (w_gate ?w) s) then 1 else 0)"
    if "s < length (g_entries (w_gate w))" for s
  proof -
    have "length (filter (wd_live s) (w_wds w)) = (if e_withdrawing (entry_at (w_gate w) s) then 1 else 0)"
      using D(4) that by (simp add: counts_ok_def)
    then have "int (length (filter (wd_live s) (w_wds ?w))) = (if e_withdrawing (entry_at (w_gate ?w) s) then 1 else 0)"
      using count [of s] L(3) by (simp add: gate F)
    then show ?thesis by (auto split: if_splits)
  qed
  then show "counts_ok ?w" using D(4) by (simp add: counts_ok_def F gate)
  have "wd_waits_ok (free_entry r (w_gate w)) s ph = wd_waits_ok (w_gate w) s ph" for s ph by (rule waits_same) (simp_all add: F)
  then show "waits_ok ?w" using D(5) unfolding waits_ok_def gate wds by (auto dest!: updated_wd)
  have "rows_ok (w\<lparr>w_wds := (w_wds w)[j := (w_wds w ! j)\<lparr>wd_at := WdFinished res\<rparr>]\<rparr>)"
    using old by (intro rows_update [OF D(6) j]) auto
  then show "rows_ok ?w" by (simp add: rows_ok_def F gate wds)
  show "keys_ok ?w" using D(7) by (simp add: keys_ok_def F gate)
qed

lemma leave_withdrawal_free:
  assumes "r < length (g_entries g)" "g_users g u = Some r"
  shows "leave_withdrawal u r g =
    (if e_operations (entry_at g r) = 0 \<and> \<not> e_deleted (entry_at g r) then (free_entry r g)\<lparr>g_users := (g_users g)(u := None)\<rparr>
     else free_entry r g)"
  using assms by (auto simp: leave_withdrawal_def free_entry_def drop_if_idle_def Let_def)

lemma leave_inv:
  assumes inv: "gate_inv w" and j: "j < length (w_wds w)" and live: "wd_live r (w_wds w ! j)"
    and old: "\<And>c. wd_at (w_wds w ! j) \<noteq> WdBody (AtMarkDeleted c)"
  shows "gate_inv (set_wd j (WdFinished res) (w\<lparr>w_gate := leave_withdrawal (wd_user (w_wds w ! j)) r (w_gate w)\<rparr>))"
proof -
  have core: "gate_core w" and idle: "idle_ok (w_gate w)" using inv by (simp_all add: gate_inv_core)
  let ?g = "w_gate w" and ?u = "wd_user (w_wds w ! j)"
  let ?w = "set_wd j (WdFinished res) (w\<lparr>w_gate := free_entry r ?g\<rparr>)"
  note L = live_wd_refs [OF core nth_mem [OF j] live]
  note F = free_entry_simps [OF L(2)] and C = free_core [OF core j live old, of res]
  have gate: "w_gate ?w = free_entry r ?g" by (simp add: set_wd_def)
  show ?thesis
  proof (cases "e_operations (entry_at ?g r) = 0 \<and> \<not> e_deleted (entry_at ?g r)")
    case True
    let ?g' = "(free_entry r ?g)\<lparr>g_users := (g_users ?g)(?u := None)\<rparr>"
    have "?w\<lparr>w_gate := ?g'\<rparr> = set_wd j (WdFinished res) (w\<lparr>w_gate := ?g'\<rparr>)" by (cases w) (simp add: set_wd_def)
    then have "gate_core (set_wd j (WdFinished res) (w\<lparr>w_gate := ?g'\<rparr>))"
      using drop_core [OF C, of ?u r] L True by (simp add: gate F)
    moreover have "g_users ?g v = Some s \<Longrightarrow> v \<noteq> ?u \<Longrightarrow> s \<noteq> r" for v s
      using gate_coreD(1) [OF core] L(1) unfolding users_ok_def by blast
    then have "idle_ok ?g'" using idle by (force simp: idle_ok_def F)
    ultimately show ?thesis
      using leave_withdrawal_free [OF L(2,1)] True by (simp add: gate_inv_core set_wd_def)
  next
    case False
    then have "idle_ok (free_entry r ?g)"
      using idle operations_nonneg [OF gate_coreD(4) [OF core] L(2)] by (force simp: idle_ok_def F)
    then show ?thesis using leave_withdrawal_free [OF L(2,1)] False C by (simp add: gate_inv_core gate)
  qed
qed

lemma abort_withdrawal_inv:
  assumes "gate_inv w" "j < length (w_wds w)"
  shows "gate_inv (abort_withdrawal j w)"
  using assms leave_inv [OF assms]
  by (auto simp: abort_withdrawal_def wd_live_def split: wd_phase.splits option.splits)

text \<open>The steps of \<open>Withdraw\<close>.\<close>

lemma mark_core:
  assumes inv: "gate_core w" and u: "g_users (w_gate w) u = Some r"
  shows "gate_core (w\<lparr>w_gate := MarkDeleted u (w_gate w)\<rparr>)" (is "gate_core ?w")
    and "idle_ok (w_gate w) \<Longrightarrow> idle_ok (MarkDeleted u (w_gate w))"
    and "g_users (MarkDeleted u (w_gate w)) u = Some r" "e_deleted (entry_at (MarkDeleted u (w_gate w)) r)"
proof -
  note D = gate_coreD [OF inv]
  have r: "r < length (g_entries (w_gate w))" and nil: "u \<noteq> NilUser" using D(1) u by (auto simp: users_ok_def)
  have M: "MarkDeleted u (w_gate w) = set_entry r ((entry_at (w_gate w) r)\<lparr>e_deleted := True\<rparr>) (w_gate w)"
    using u nil by (simp add: MarkDeleted_def entry_for_def Let_def)
  have at: "e_operations (entry_at (MarkDeleted u (w_gate w)) s) = e_operations (entry_at (w_gate w) s)"
    "e_withdrawing (entry_at (MarkDeleted u (w_gate w)) s) = e_withdrawing (entry_at (w_gate w) s)"
    "e_changed (entry_at (MarkDeleted u (w_gate w)) s) = e_changed (entry_at (w_gate w) s)"
    "e_cancels (entry_at (MarkDeleted u (w_gate w)) s) = e_cancels (entry_at (w_gate w) s)"
    "e_deleted (entry_at (MarkDeleted u (w_gate w)) s) = (s = r \<or> e_deleted (entry_at (w_gate w) s))" for s
    using r by (simp_all add: M)
  have same: "g_users (MarkDeleted u (w_gate w)) = g_users (w_gate w)" "g_closed (MarkDeleted u (w_gate w)) = g_closed (w_gate w)"
    "g_chans (MarkDeleted u (w_gate w)) = g_chans (w_gate w)" "g_cancelled (MarkDeleted u (w_gate w)) = g_cancelled (w_gate w)"
    "length (g_entries (MarkDeleted u (w_gate w))) = length (g_entries (w_gate w))" by (simp_all add: M)
  have "wd_waits_ok (MarkDeleted u (w_gate w)) s ph = wd_waits_ok (w_gate w) s ph" for s ph
    by (rule waits_same) (simp_all add: at same)
  then show "gate_core ?w"
    using D by (intro gate_coreI)
      (fastforce simp: users_ok_def chans_ok_def refs_ok_def counts_ok_def waits_ok_def rows_ok_def keys_ok_def at same)+
  show "idle_ok (w_gate w) \<Longrightarrow> idle_ok (MarkDeleted u (w_gate w))" unfolding idle_ok_def at same by blast
  show "g_users (MarkDeleted u (w_gate w)) u = Some r" "e_deleted (entry_at (MarkDeleted u (w_gate w)) r)"
    using u by (simp_all add: same at)
qed

lemma body_user:
  assumes "gate_core w" "j < length (w_wds w)" "\<not> wd_over (wd_at (w_wds w ! j))" "wd_user (w_wds w ! j) \<noteq> NilUser"
  obtains r where "wd_live r (w_wds w ! j)" "g_users (w_gate w) (wd_user (w_wds w ! j)) = Some r"
  using gate_coreD(3) [OF assms(1)] nth_mem [OF assms(2)] assms(3,4) unfolding refs_ok_def wd_live_def
  by (cases "wd_entry (w_wds w ! j)") auto

lemma body_moves:
  assumes inv: "gate_inv w" and j: "j < length (w_wds w)" and at: "wd_at (w_wds w ! j) = WdBody at"
    and old: "\<And>c. at \<noteq> AtMarkDeleted c"
  shows "gate_inv (w\<lparr>w_wds := (w_wds w)[j := (w_wds w ! j)\<lparr>wd_at := WdBody at', wd_log := l\<rparr>]\<rparr>)"
proof -
  have core: "gate_core w" and idle: "idle_ok (w_gate w)" using inv by (simp_all add: gate_inv_core)
  have "wd_waits_ok (w_gate w) r (WdBody at')" if "wd_entry (w_wds w ! j) = Some r" for r
    using gate_coreD(5) [OF core] nth_mem [OF j] that at by (force simp: waits_ok_def)
  then show ?thesis using move_core [OF core j, of "WdBody at'" l] at old idle by (simp add: gate_inv_core)
qed

lemma rows_deleted_inv:
  assumes "gate_inv w" "d \<in> set (w_wds w)" "wd_at d = WdBody (AtMarkDeleted c)"
  shows "gate_inv (w\<lparr>w_rows := wd_user d # w_rows w\<rparr>)"
  using assms unfolding gate_inv_def
  by (auto simp: refs_ok_def counts_ok_def waits_ok_def keys_ok_def rows_ok_def)

lemma mark_deleted_inv:
  assumes inv: "gate_inv w" and j: "j < length (w_wds w)" and at: "wd_at (w_wds w ! j) = WdBody (AtMarkDeleted c)"
  shows "gate_inv (w\<lparr>w_wds := (w_wds w)[j := (w_wds w ! j)\<lparr>wd_at := WdBody at', wd_log := l\<rparr>],
    w_gate := MarkDeleted (wd_user (w_wds w ! j)) (w_gate w)\<rparr>)"
proof -
  have core: "gate_core w" and idle: "idle_ok (w_gate w)" using inv by (simp_all add: gate_inv_core)
  have waits: "wd_waits_ok (w_gate w) r (WdBody at')" if "wd_entry (w_wds w ! j) = Some r" for r
    using gate_coreD(5) [OF core] nth_mem [OF j] that at by (force simp: waits_ok_def)
  show ?thesis
  proof (cases "wd_user (w_wds w ! j) = NilUser")
    case True
    then show ?thesis using move_core [OF core j, of "WdBody at'" l] at idle waits by (simp add: gate_inv_core MarkDeleted_def)
  next
    case False
    obtain r where r: "wd_live r (w_wds w ! j)" "g_users (w_gate w) (wd_user (w_wds w ! j)) = Some r"
      using body_user [OF core j] at False by auto
    note M = mark_core [OF core r(2)]
    let ?w = "w\<lparr>w_gate := MarkDeleted (wd_user (w_wds w ! j)) (w_gate w)\<rparr>"
    have "wd_waits_ok (w_gate ?w) s (WdBody at')" if "wd_entry (w_wds w ! j) = Some s" for s
      using gate_coreD(5) [OF M(1)] nth_mem [OF j] that at by (force simp: waits_ok_def)
    then have "gate_core (?w\<lparr>w_wds := (w_wds w)[j := (w_wds w ! j)\<lparr>wd_at := WdBody at', wd_log := l\<rparr>]\<rparr>)"
      using move_core [OF M(1), of j "WdBody at'" l] j at M(3,4) by auto
    moreover have "?w\<lparr>w_wds := (w_wds w)[j := (w_wds w ! j)\<lparr>wd_at := WdBody at', wd_log := l\<rparr>]\<rparr> =
        w\<lparr>w_wds := (w_wds w)[j := (w_wds w ! j)\<lparr>wd_at := WdBody at', wd_log := l\<rparr>], w_gate := MarkDeleted (wd_user (w_wds w ! j)) (w_gate w)\<rparr>"
      by (cases w) simp
    ultimately show ?thesis using M(2) [OF idle] by (simp add: gate_inv_core)
  qed
qed

lemma finish_ungated_inv:
  assumes inv: "gate_inv w" and j: "j < length (w_wds w)" and none: "wd_entry (w_wds w ! j) = None"
    and old: "\<And>c. wd_at (w_wds w ! j) \<noteq> WdBody (AtMarkDeleted c)"
  shows "gate_inv (set_wd j (WdFinished res) w)" (is "gate_inv ?w")
proof -
  have core: "gate_core w" and idle: "idle_ok (w_gate w)" using inv by (simp_all add: gate_inv_core)
  note D = gate_coreD [OF core] and mem = nth_mem [OF j]
  have "gate_core ?w"
  proof (rule gate_coreI)
    show "users_ok (w_gate ?w)" "chans_ok (w_gate ?w)" using D(1,2) by (simp_all add: set_wd_def)
    show "refs_ok ?w" using D(3) none unfolding refs_ok_def set_wd_def by (auto simp: wd_live_def dest!: updated_wd)
    have "int (length (filter (wd_live s) (w_wds ?w))) = int (length (filter (wd_live s) (w_wds w)))" for s
      using none length_filter_update [OF j, of "wd_live s"] by (simp add: set_wd_def wd_live_def)
    then show "counts_ok ?w" using D(4) by (simp add: counts_ok_def set_wd_def)
    show "waits_ok ?w" using D(5) none unfolding waits_ok_def set_wd_def by (auto dest!: updated_wd)
    show "rows_ok ?w" using rows_update [OF D(6) j] old by (simp add: set_wd_def)
    show "keys_ok ?w" using D(7) by (simp add: keys_ok_def set_wd_def)
  qed
  then show ?thesis using idle by (simp add: gate_inv_core set_wd_def)
qed

lemma withdraw_step_plain:
  assumes "wd_at (w_wds w ! j) = WdBody at" "\<And>res. at \<noteq> AtReturn res" "\<And>c. at \<noteq> AtMarkUserDeleted c" "\<And>c. at \<noteq> AtMarkDeleted c"
  shows "withdraw_step cfg a j w = w\<lparr>w_wds := (w_wds w)[j := (w_wds w ! j)\<lparr>wd_at := WdBody (fst (withdraw_next cfg a at)),
    wd_log := wd_log (w_wds w ! j) @ snd (withdraw_next cfg a at)\<rparr>]\<rparr>"
proof (cases at)
  case (AtMarkUserDeleted c)
  then show ?thesis using assms(3) by blast
next
  case (AtMarkDeleted c)
  then show ?thesis using assms(4) by blast
next
  case (AtReturn res)
  then show ?thesis using assms(2) by blast
qed (use assms(1) in \<open>simp_all add: withdraw_step_def Let_def case_prod_beta del: withdraw_next.simps\<close>)

lemma withdraw_step_inv:
  assumes inv: "gate_inv w" and j: "j < length (w_wds w)"
  shows "gate_inv (withdraw_step cfg a j w)"
proof (cases "wd_at (w_wds w ! j)")
  case (WdBody at)
  let ?l = "wd_log (w_wds w ! j) @ snd (withdraw_next cfg a at)" and ?at' = "fst (withdraw_next cfg a at)"
  note moves = body_moves [OF inv j WdBody, where at' = ?at' and l = ?l]
  show ?thesis
  proof (cases at)
    case (AtReturn res)
    show ?thesis
    proof (cases "wd_entry (w_wds w ! j)")
      case (Some r)
      then show ?thesis using leave_inv [OF inv j, of r res] AtReturn WdBody by (simp add: withdraw_step_def Let_def wd_live_def)
    next
      case None
      have "gate_inv (set_wd j (WdFinished res) w)"
        using finish_ungated_inv [OF inv j None] AtReturn WdBody by simp
      then show ?thesis using None AtReturn WdBody by (simp add: withdraw_step_def Let_def)
    qed
  next
    case (AtMarkUserDeleted c)
    show ?thesis
    proof (cases a)
      case (Inl e)
      then show ?thesis using moves AtMarkUserDeleted WdBody by (simp add: withdraw_step_def Let_def)
    next
      case (Inr b)
      let ?d = "(w_wds w ! j)\<lparr>wd_at := WdBody (AtMarkDeleted c), wd_log := wd_log (w_wds w ! j)\<rparr>"
      have "?d \<in> set ((w_wds w)[j := ?d])" using j by (rule set_update_memI)
      then have "gate_inv (w\<lparr>w_wds := (w_wds w)[j := ?d], w_rows := wd_user (w_wds w ! j) # w_rows w\<rparr>)"
        using rows_deleted_inv [of "w\<lparr>w_wds := (w_wds w)[j := ?d]\<rparr>" ?d c] moves AtMarkUserDeleted Inr by simp
      then show ?thesis using AtMarkUserDeleted WdBody Inr by (simp add: withdraw_step_def Let_def)
    qed
  next
    case (AtMarkDeleted c)
    then show ?thesis using mark_deleted_inv [OF inv j, where c = c and at' = ?at' and l = ?l] WdBody by (simp add: withdraw_step_def Let_def)
  qed (use moves withdraw_step_plain [OF WdBody] in \<open>simp_all del: withdraw_next.simps\<close>)
qed (use inv in \<open>simp_all add: withdraw_step_def Let_def\<close>)

lemma gate_start_inv: "gate_inv gate_start"
  by (simp add: gate_inv_def gate_start_def NewUserOperationGate_def users_ok_def chans_ok_def refs_ok_def counts_ok_def
    waits_ok_def idle_ok_def rows_ok_def keys_ok_def keys_apart_def)

lemma gate_step_inv: "gate_step cfg w w' \<Longrightarrow> gate_inv w \<Longrightarrow> gate_inv w'"
  by (induction rule: gate_step.induct)
    (simp_all add: begin_operation_inv begin_cancellable_inv release_operation_inv finish_operation_inv begin_withdrawal_inv
      wake_withdrawal_inv abort_withdrawal_inv withdraw_step_inv)

lemma gate_reach_inv: "gate_reach cfg w \<Longrightarrow> gate_inv w"
  by (induction rule: gate_reach.induct) (auto intro: gate_start_inv gate_step_inv)

subsection \<open>A deleted account stays closed\<close>

definition closed_ok :: "UserOperationGate \<Rightarrow> bool" where
  "closed_ok g \<longleftrightarrow> (\<forall>r < length (g_entries g). e_deleted (entry_at g r) \<longrightarrow> e_operations (entry_at g r) = 0)"

lemma closed_set_entry:
  "closed_ok g \<Longrightarrow> (r < length (g_entries g) \<Longrightarrow> e_deleted e \<Longrightarrow> e_operations e = 0) \<Longrightarrow> closed_ok (set_entry r e g)"
  by (cases "r < length (g_entries g)") (auto simp: closed_ok_def set_entry_def nth_list_update)

lemma closed_entries: "closed_ok g \<Longrightarrow> g_entries g' = g_entries g \<Longrightarrow> closed_ok g'"
  by (simp add: closed_ok_def)

lemma closed_entry_for: "closed_ok g \<Longrightarrow> entry_for u g = (r, g1) \<Longrightarrow> closed_ok g1"
  by (erule entry_for_cases) (auto simp: closed_ok_def less_Suc_eq)

lemma closed_begin: "closed_ok g \<Longrightarrow> closed_ok (snd (BeginOperation u g))"
  using closed_entry_for by (auto simp: BeginOperation_def Let_def intro!: closed_set_entry split: prod.splits)

lemma closed_cancel: "closed_ok (cancel_context k g) = closed_ok g"
  by (simp add: closed_ok_def)

lemma closed_begin_cancellable: "closed_ok g \<Longrightarrow> closed_ok (snd (BeginCancellableOperation k u g))"
  using closed_entry_for by (auto simp: BeginCancellableOperation_def Let_def closed_cancel intro!: closed_set_entry split: prod.splits)

lemma closed_at: "closed_ok g \<Longrightarrow> r < length (g_entries g) \<Longrightarrow> e_deleted (entry_at g r) \<Longrightarrow> e_operations (entry_at g r) = 0"
  by (simp add: closed_ok_def)

lemma closed_drop: "closed_ok (drop_if_idle u r g) = closed_ok g"
  by (simp add: drop_if_idle_def closed_ok_def)

lemma closed_endOperation: "closed_ok g \<Longrightarrow> closed_ok (endOperation u r g)"
  using closed_at [of g r] unfolding endOperation_def Let_def
  by (auto simp: closed_drop intro!: closed_set_entry intro: closed_entries)

lemma closed_deregister: "closed_ok g \<Longrightarrow> closed_ok (deregister k r g)"
  using closed_at [of g r] unfolding deregister_def Let_def by (intro closed_set_entry) auto

lemma closed_cancelled: "closed_ok (g\<lparr>g_cancelled := ks\<rparr>) = closed_ok g"
  by (simp add: closed_ok_def)

lemma closed_begin_withdrawal: "closed_ok g \<Longrightarrow> closed_ok (snd (BeginWithdrawal u g))"
  using closed_entry_for by (auto simp: BeginWithdrawal_def Let_def closed_cancelled intro!: closed_set_entry split: prod.splits)

lemma closed_leave: "closed_ok g \<Longrightarrow> closed_ok (leave_withdrawal u r g)"
  using closed_at [of g r] unfolding leave_withdrawal_def Let_def by (auto simp: closed_drop intro!: closed_set_entry)

lemma closed_mark:
  assumes "closed_ok g" "g_users g u = Some r" "e_operations (entry_at g r) = 0"
  shows "closed_ok (MarkDeleted u g)"
  using assms by (auto simp: MarkDeleted_def entry_for_def Let_def intro!: closed_set_entry)

lemma closed_start_op: "closed_ok (snd res) \<Longrightarrow> closed_ok (w_gate (start_op u key res w))"
  by (cases res; cases "fst res") (auto simp: start_op_def)

lemma set_wd_gate [simp]: "w_gate (set_wd j ph w) = w_gate w"
  by (simp add: set_wd_def)

lemma closed_withdraw_step:
  assumes inv: "gate_inv w" and ok: "closed_ok (w_gate w)" and j: "j < length (w_wds w)"
  shows "closed_ok (w_gate (withdraw_step cfg a j w))"
proof (cases "\<exists>c. wd_at (w_wds w ! j) = WdBody (AtMarkDeleted c)")
  case True
  then obtain c where at: "wd_at (w_wds w ! j) = WdBody (AtMarkDeleted c)" by blast
  have core: "gate_core w" using inv by (simp add: gate_inv_core)
  show ?thesis
  proof (cases "wd_user (w_wds w ! j) = NilUser")
    case True
    then show ?thesis using at ok by (simp add: withdraw_step_def Let_def MarkDeleted_def)
  next
    case False
    obtain r where r: "wd_live r (w_wds w ! j)" "g_users (w_gate w) (wd_user (w_wds w ! j)) = Some r"
      using body_user [OF core j] at False by auto
    have "e_operations (entry_at (w_gate w) r) = 0"
      using gate_coreD(5) [OF core] nth_mem [OF j] r(1) at by (fastforce simp: waits_ok_def wd_live_def)
    then show ?thesis using closed_mark [OF ok r(2)] at by (simp add: withdraw_step_def Let_def)
  qed
next
  case False
  then show ?thesis using ok closed_leave
    by (auto simp: withdraw_step_def Let_def split: wd_phase.splits withdraw_at.splits prod.splits option.splits sum.splits)
qed

lemma gate_closed_step:
  assumes "gate_step cfg w w'" and inv: "gate_inv w" and ok: "closed_ok (w_gate w)"
  shows "closed_ok (w_gate w')"
  using assms(1)
proof cases
  case (step_begin u)
  then show ?thesis using closed_start_op closed_begin [OF ok] by (simp add: begin_operation_def)
next
  case (step_begin_cancellable u)
  then show ?thesis using closed_start_op closed_begin_cancellable [OF ok] by (simp add: begin_cancellable_def)
next
  case (step_release i)
  then show ?thesis using ok closed_endOperation closed_deregister
    by (auto simp: release_operation_def Let_def split: option.splits)
next
  case (step_finish i)
  then show ?thesis using ok closed_endOperation
    by (auto simp: finish_operation_def Let_def closed_cancel split: option.splits)
next
  case (step_withdrawal u)
  then show ?thesis using closed_begin_withdrawal [OF ok, of u]
    by (auto simp: begin_withdrawal_def split: prod.splits sum.splits option.splits)
next
  case (step_wake j)
  then show ?thesis using ok by (auto simp: wake_withdrawal_def split: wd_phase.splits option.splits)
next
  case (step_abort j)
  then show ?thesis using ok closed_leave by (auto simp: abort_withdrawal_def split: wd_phase.splits option.splits)
next
  case (step_body j a)
  then show ?thesis using closed_withdraw_step [OF inv ok] by simp
qed

lemma gate_reach_closed: "gate_reach cfg w \<Longrightarrow> closed_ok (w_gate w)"
  by (induction rule: gate_reach.induct)
    (auto simp: gate_start_def NewUserOperationGate_def closed_ok_def [of "\<lparr>g_users = _, g_entries = [], g_chans = _, g_closed = _, g_cancelled = _\<rparr>"]
      intro: gate_closed_step dest: gate_reach_inv)

subsection \<open>What the gate promises\<close>

lemma refused_when_closed:
  assumes "g_users g u = Some r" "u \<noteq> NilUser" "e_withdrawing (entry_at g r) \<or> e_deleted (entry_at g r)"
  shows "fst (BeginOperation u g) = Refused" "fst (BeginCancellableOperation k u g) = Refused" "IsWithdrawing u g"
  using assms by (simp_all add: BeginOperation_def BeginCancellableOperation_def entry_for_def Let_def IsWithdrawing_def)

lemma ended_when_idle:
  assumes core: "gate_core w" and u: "g_users (w_gate w) u = Some r" and idle: "e_operations (entry_at (w_gate w) r) = 0"
    and p: "p \<in> set (w_ops w)" "op_user p = u"
  shows "op_at p = OpEnded"
proof (rule ccontr)
  assume on: "op_at p \<noteq> OpEnded"
  have r: "r < length (g_entries (w_gate w))" and nil: "u \<noteq> NilUser" using gate_coreD(1) [OF core] u by (auto simp: users_ok_def)
  obtain s where "op_entry p = Some s" using gate_coreD(3) [OF core] p on nil unfolding refs_ok_def by (cases "op_entry p") auto
  then have "op_live s p" using on by (simp add: op_live_def)
  then show False using live_refs [OF core p(1), of s] u p(2) idle by auto
qed

lemma two_live:
  assumes "i < length ds" "j < length ds" "i \<noteq> j" "P (ds ! i)" "P (ds ! j)"
  shows "length (filter P ds) \<noteq> Suc 0"
proof
  assume one: "length (filter P ds) = Suc 0"
  have "{i, j} \<subseteq> {n. n < length ds \<and> P (ds ! n)}" using assms by auto
  then have "card {i, j} \<le> length (filter P ds)" unfolding length_filter_conv_card by (intro card_mono) auto
  then show False using one assms(3) by simp
qed

lemma rows_grow: "gate_step cfg w w' \<Longrightarrow> set (w_rows w) \<subseteq> set (w_rows w')"
proof (induction rule: gate_step.induct)
  case (step_body j w a)
  then show ?case by (auto simp: withdraw_step_def Let_def set_wd_def split: wd_phase.splits withdraw_at.splits prod.splits option.splits sum.splits)
qed (auto simp: begin_operation_def begin_cancellable_def start_op_def release_operation_def finish_operation_def begin_withdrawal_def
    wake_withdrawal_def abort_withdrawal_def set_wd_def Let_def split: admission.splits prod.splits option.splits sum.splits wd_phase.splits)

text \<open>Only a withdrawal that holds an entry waits.\<close>

lemma wd_phases_step:
  assumes "gate_step cfg w w'" "\<forall>d \<in> set (w_wds w). \<forall>c. wd_at d = WdWaiting c \<longrightarrow> wd_entry d \<noteq> None"
  shows "\<forall>d \<in> set (w_wds w'). \<forall>c. wd_at d = WdWaiting c \<longrightarrow> wd_entry d \<noteq> None"
  using assms
proof (induction rule: gate_step.induct)
  case (step_body j w a)
  then show ?case by (auto simp: withdraw_step_def Let_def set_wd_def dest!: updated_wd
    split: wd_phase.splits withdraw_at.splits prod.splits option.splits sum.splits)
next
  case (step_wake j w)
  then show ?case by (auto simp: wake_withdrawal_def set_wd_def dest!: updated_wd split: wd_phase.splits option.splits)
next
  case (step_abort j w)
  then show ?case by (auto simp: abort_withdrawal_def set_wd_def dest!: updated_wd split: wd_phase.splits option.splits)
next
  case (step_withdrawal w u)
  then show ?case by (auto simp: begin_withdrawal_def split: prod.splits option.splits sum.splits)
qed (auto simp: begin_operation_def begin_cancellable_def start_op_def release_operation_def finish_operation_def Let_def
    split: admission.splits prod.splits option.splits)

lemma waiting_user:
  assumes reach: "gate_reach cfg w" and d: "d \<in> set (w_wds w)" "wd_at d = WdWaiting c"
  shows "wd_user d \<noteq> NilUser"
proof -
  have "\<forall>d \<in> set (w_wds w). \<forall>c. wd_at d = WdWaiting c \<longrightarrow> wd_entry d \<noteq> None"
    using reach by (induction rule: gate_reach.induct) (simp add: gate_start_def, rule wd_phases_step)
  then obtain r where "wd_entry d = Some r" using d by auto
  then have "wd_live r d" using d(2) by (simp add: wd_live_def)
  then show ?thesis using live_wd_refs(4) d(1) gate_reach_inv [OF reach] by (auto simp: gate_inv_core)
qed

lemma withdrawal_excludes:
  assumes reach: "gate_reach cfg w" and j: "j < length (w_wds w)"
    and body: "wd_at (w_wds w ! j) = WdBody at" and user: "wd_user (w_wds w ! j) \<noteq> NilUser"
  shows "(\<forall>p \<in> set (w_ops w). op_user p = wd_user (w_wds w ! j) \<longrightarrow> op_at p = OpEnded) \<and>
    fst (BeginOperation (wd_user (w_wds w ! j)) (w_gate w)) = Refused \<and>
    fst (BeginCancellableOperation k (wd_user (w_wds w ! j)) (w_gate w)) = Refused \<and>
    (\<forall>i < length (w_wds w). i \<noteq> j \<longrightarrow> wd_user (w_wds w ! i) = wd_user (w_wds w ! j) \<longrightarrow> wd_over (wd_at (w_wds w ! i)))"
proof -
  have core: "gate_core w" using gate_reach_inv [OF reach] by (simp add: gate_inv_core)
  obtain r where r: "wd_live r (w_wds w ! j)" "g_users (w_gate w) (wd_user (w_wds w ! j)) = Some r"
    using body_user [OF core j] body user by auto
  note L = live_wd_refs [OF core nth_mem [OF j] r(1)]
  have "e_operations (entry_at (w_gate w) r) = 0"
    using gate_coreD(5) [OF core] nth_mem [OF j] r(1) body by (fastforce simp: waits_ok_def wd_live_def)
  note ended = ended_when_idle [OF core r(2) this]
  have alone: "wd_over (wd_at (w_wds w ! i))"
    if i: "i < length (w_wds w)" "i \<noteq> j" and same: "wd_user (w_wds w ! i) = wd_user (w_wds w ! j)" for i
  proof (rule ccontr)
    assume on: "\<not> wd_over (wd_at (w_wds w ! i))"
    obtain s where s: "wd_live s (w_wds w ! i)" "g_users (w_gate w) (wd_user (w_wds w ! i)) = Some s"
      using body_user [OF core i(1) on] user same by auto
    then have "s = r" using r(2) same by simp
    then show False using two_live [OF i(1) j i(2)] s(1) r(1) gate_coreD(4) [OF core] L(2,3) by (fastforce simp: counts_ok_def)
  qed
  show ?thesis using ended alone refused_when_closed [OF L(1) user] L(3) by blast
qed

text \<open>
  Property C19. While a withdrawal is past its wait and works on an account, no operation of that user is
  running, a new one is refused in both forms, and no other withdrawal of the user waits or works, in every
  interleaving of any number of operations and withdrawals.
\<close>

theorem withdrawal_excludes_operations:
  assumes reach: "gate_reach cfg w" and j: "j < length (w_wds w)"
    and body: "wd_at (w_wds w ! j) = WdBody at" and user: "wd_user (w_wds w ! j) \<noteq> NilUser"
  shows "(\<forall>p \<in> set (w_ops w). op_user p = wd_user (w_wds w ! j) \<longrightarrow> op_at p = OpEnded) \<and>
    fst (BeginOperation (wd_user (w_wds w ! j)) (w_gate w)) = Refused \<and>
    fst (BeginCancellableOperation k (wd_user (w_wds w ! j)) (w_gate w)) = Refused \<and>
    (\<forall>i < length (w_wds w). i \<noteq> j \<longrightarrow> wd_user (w_wds w ! i) = wd_user (w_wds w ! j) \<longrightarrow> wd_over (wd_at (w_wds w ! i)))"
  using withdrawal_excludes [OF assms] .

text \<open>
  Property C20. Once the rows of an account are deleted from the database, whatever happens later: no
  operation of the user is running, and none is admitted again.
\<close>

theorem deleted_account_stays_closed:
  assumes reach: "gate_reach cfg w" and gone: "u \<in> set (w_rows w)" and user: "u \<noteq> NilUser"
    and later: "(gate_step cfg)\<^sup>*\<^sup>* w w'"
  shows "(\<forall>p \<in> set (w_ops w'). op_user p = u \<longrightarrow> op_at p = OpEnded) \<and>
    fst (BeginOperation u (w_gate w')) = Refused \<and> fst (BeginCancellableOperation k u (w_gate w')) = Refused"
proof -
  have "gate_reach cfg w' \<and> u \<in> set (w_rows w')"
    using later reach gone by (induction rule: rtranclp_induct) (auto intro: reach_step dest: rows_grow)
  then have r': "gate_reach cfg w'" and gone': "u \<in> set (w_rows w')" by simp_all
  have core: "gate_core w'" using gate_reach_inv [OF r'] by (simp add: gate_inv_core)
  consider (closed) r where "g_users (w_gate w') u = Some r" "e_deleted (entry_at (w_gate w') r)"
    | (body) d c where "d \<in> set (w_wds w')" "wd_user d = u" "wd_at d = WdBody (AtMarkDeleted c)"
    using gate_coreD(6) [OF core] gone' user by (auto simp: rows_ok_def)
  then show ?thesis
  proof cases
    case closed
    have "r < length (g_entries (w_gate w'))" using gate_coreD(1) [OF core] closed(1) by (auto simp: users_ok_def)
    then have "e_operations (entry_at (w_gate w') r) = 0" using gate_reach_closed [OF r'] closed(2) by (simp add: closed_ok_def)
    then show ?thesis using ended_when_idle [OF core closed(1)] refused_when_closed [OF closed(1) user] closed(2) by blast
  next
    case body
    then obtain j where "j < length (w_wds w')" "w_wds w' ! j = d" by (metis in_set_conv_nth)
    then show ?thesis using withdrawal_excludes [OF r', of j "AtMarkDeleted c"] body user by simp
  qed
qed

text \<open>
  Property C21. A withdrawal that waits for the operations of its user is not forgotten: nothing new is
  admitted meanwhile, every cancellable operation that still runs has been cancelled, and as soon as the
  operations have ended the withdrawal can be woken and then has the gate.
\<close>

theorem withdrawal_gets_the_gate:
  assumes reach: "gate_reach cfg w" and j: "j < length (w_wds w)" and waiting: "wd_at (w_wds w ! j) = WdWaiting c"
  shows "fst (BeginOperation (wd_user (w_wds w ! j)) (w_gate w)) = Refused \<and>
    (\<forall>p \<in> set (w_ops w). \<forall>k. op_user p = wd_user (w_wds w ! j) \<longrightarrow> op_key p = Some k \<longrightarrow> op_at p = OpRunning \<longrightarrow>
       k \<in> set (g_cancelled (w_gate w))) \<and>
    ((\<forall>p \<in> set (w_ops w). op_user p = wd_user (w_wds w ! j) \<longrightarrow> op_at p = OpEnded) \<longrightarrow>
       c \<in> set (g_closed (w_gate w)) \<and> wd_at (w_wds (wake_withdrawal j w) ! j) = WdBody AtCredential)"
proof -
  have core: "gate_core w" using gate_reach_inv [OF reach] by (simp add: gate_inv_core)
  note D = gate_coreD [OF core] and mem = nth_mem [OF j]
  have user: "wd_user (w_wds w ! j) \<noteq> NilUser" using waiting_user [OF reach] mem waiting by blast
  obtain r where r: "wd_live r (w_wds w ! j)" "g_users (w_gate w) (wd_user (w_wds w ! j)) = Some r"
    using body_user [OF core j] waiting user by auto
  note L = live_wd_refs [OF core mem r(1)]
  have entry: "wd_entry (w_wds w ! j) = Some r" using r(1) by (simp add: wd_live_def)
  have cancelled: "k \<in> set (g_cancelled (w_gate w))"
    if p: "p \<in> set (w_ops w)" "op_user p = wd_user (w_wds w ! j)" "op_key p = Some k" "op_at p = OpRunning" for p k
  proof -
    obtain s where s: "op_entry p = Some s" using D(3) p user unfolding refs_ok_def by (cases "op_entry p") auto
    then have "op_live s p" using p(4) by (simp add: op_live_def)
    then have "s = r" using live_refs(1) [OF core p(1)] r(2) p(2) by simp
    then show ?thesis using D(7) p s L(3) by (simp add: keys_ok_def)
  qed
  have woken: "c \<in> set (g_closed (w_gate w)) \<and> wd_at (w_wds (wake_withdrawal j w) ! j) = WdBody AtCredential"
    if ended: "\<And>p. p \<in> set (w_ops w) \<Longrightarrow> op_user p = wd_user (w_wds w ! j) \<Longrightarrow> op_at p = OpEnded"
  proof -
    have "\<not> op_live r p" if "p \<in> set (w_ops w)" for p
    proof
      assume p: "op_live r p"
      have "op_user p = wd_user (w_wds w ! j)"
        using live_refs(1) [OF core that p] r(2) D(1) unfolding users_ok_def by blast
      then show False using ended [OF that] p by (simp add: op_live_def)
    qed
    then have zero: "e_operations (entry_at (w_gate w) r) = 0"
      using D(4) L(2) by (simp add: counts_ok_def filter_empty_conv)
    then have "c \<in> set (g_closed (w_gate w))"
      using D(5) mem entry waiting by (force simp: waits_ok_def)
    then show ?thesis using zero waiting entry j
      by (simp add: wake_withdrawal_def set_wd_def loop_phase_def withdrawal_waits_def)
  qed
  show ?thesis using refused_when_closed(1) [OF L(1) user] L(3) cancelled woken by blast
qed

subsection \<open>The order of a deletion\<close>

text \<open>The cleanup calls of a complete deletion.\<close>

definition calls_to_disconnect :: "withdrawalService \<Rightarrow> withdraw_call list" where
  "calls_to_disconnect cfg = (if has_close_sessions cfg then [CloseUserSessions] else []) @
     (if has_disconnect cfg then [DisconnectStreamingAccounts] else [])"

definition cleanup_calls :: "withdrawalService \<Rightarrow> bool \<Rightarrow> withdraw_call list" where
  "cleanup_calls cfg credential = calls_to_disconnect cfg @ (if credential then [RevokeApple] else []) @
     (if has_clear_reference cfg then [ClearReferenceData] else [])"

fun wd_log_ok :: "withdrawalService \<Rightarrow> wd_phase \<Rightarrow> withdraw_call list \<Rightarrow> bool" where
  "wd_log_ok cfg (WdWaiting c) l = (l = [])"
| "wd_log_ok cfg (WdBody AtCredential) l = (l = [])"
| "wd_log_ok cfg (WdBody (AtCloseSessions c)) l = (l = [])"
| "wd_log_ok cfg (WdBody (AtDisconnect c)) l = (l = (if has_close_sessions cfg then [CloseUserSessions] else []))"
| "wd_log_ok cfg (WdBody AtDecrypt) l = (l = calls_to_disconnect cfg)"
| "wd_log_ok cfg (WdBody AtRevoke) l = (l = calls_to_disconnect cfg)"
| "wd_log_ok cfg (WdBody (AtClearReference c)) l = (l = calls_to_disconnect cfg @ (if c then [RevokeApple] else []))"
| "wd_log_ok cfg (WdBody (AtMarkUserDeleted c)) l = (l = cleanup_calls cfg c)"
| "wd_log_ok cfg (WdBody (AtMarkDeleted c)) l = (l = cleanup_calls cfg c)"
| "wd_log_ok cfg (WdBody AtAfterDeleted) l = (\<exists>c. l = cleanup_calls cfg c)"
| "wd_log_ok cfg (WdBody (AtReturn None)) l = (\<exists>c. l = cleanup_calls cfg c)"
| "wd_log_ok cfg (WdBody (AtReturn (Some e))) l = True"
| "wd_log_ok cfg (WdFinished None) l = (\<exists>c. l = cleanup_calls cfg c)"
| "wd_log_ok cfg (WdFinished (Some e)) l = True"

text \<open>Whether the withdrawal has deleted the rows.\<close>

fun wd_committed :: "wd_phase \<Rightarrow> bool" where
  "wd_committed (WdBody (AtMarkDeleted c)) = True"
| "wd_committed (WdBody AtAfterDeleted) = True"
| "wd_committed (WdBody (AtReturn res)) = (res = None)"
| "wd_committed (WdFinished res) = (res = None)"
| "wd_committed _ = False"

lemma withdraw_next_log:
  assumes "wd_log_ok cfg (WdBody at) l" "\<And>res. at \<noteq> AtReturn res"
  shows "wd_log_ok cfg (WdBody (fst (withdraw_next cfg a at))) (l @ snd (withdraw_next cfg a at))"
  using assms
  by (cases at) (auto simp: withdraw_hook_def calls_to_disconnect_def cleanup_calls_def split: sum.splits)

lemma withdraw_next_committed:
  assumes "\<And>res. at \<noteq> AtReturn res"
  shows "wd_committed (WdBody (fst (withdraw_next cfg a at))) \<longleftrightarrow>
    wd_committed (WdBody at) \<or> (\<exists>c. at = AtMarkUserDeleted c \<and> (\<exists>b. a = Inr b))"
  using assms by (cases at) (auto simp: withdraw_hook_def split: sum.splits)

definition deletion_ok :: "withdrawalService \<Rightarrow> gate_world \<Rightarrow> bool" where
  "deletion_ok cfg w \<longleftrightarrow> (\<forall>d \<in> set (w_wds w). wd_log_ok cfg (wd_at d) (wd_log d)) \<and>
    set (w_rows w) = wd_user ` {d \<in> set (w_wds w). wd_committed (wd_at d)}"

lemma deletion_append:
  assumes "deletion_ok cfg w" "w_wds w' = w_wds w @ [d]" "w_rows w' = w_rows w"
    "wd_log_ok cfg (wd_at d) (wd_log d)" "\<not> wd_committed (wd_at d)"
  shows "deletion_ok cfg w'"
  using assms by (auto simp: deletion_ok_def)

lemma deletion_update:
  assumes ok: "deletion_ok cfg w" and j: "j < length (w_wds w)" and wds: "w_wds w' = (w_wds w)[j := d']"
    and log: "wd_log_ok cfg (wd_at d') (wd_log d')" and user: "wd_user d' = wd_user (w_wds w ! j)"
    and rows: "set (w_rows w') = set (w_rows w) \<union> (if wd_committed (wd_at d') then {wd_user d'} else {})"
    and mono: "wd_committed (wd_at (w_wds w ! j)) \<Longrightarrow> wd_committed (wd_at d')"
  shows "deletion_ok cfg w'"
proof -
  let ?C = "\<lambda>ds. wd_user ` {d \<in> set ds. wd_committed (wd_at d)}"
  have "?C (w_wds w') \<subseteq> ?C (w_wds w) \<union> (if wd_committed (wd_at d') then {wd_user d'} else {})"
    unfolding wds by (auto dest!: updated_wd)
  moreover have "?C (w_wds w) \<subseteq> ?C (w_wds w')"
  proof
    fix u assume "u \<in> ?C (w_wds w)"
    then obtain d where d: "d \<in> set (w_wds w)" "wd_committed (wd_at d)" "u = wd_user d" by auto
    show "u \<in> ?C (w_wds w')"
    proof (cases "d = w_wds w ! j")
      case True
      then have "d' \<in> {d \<in> set (w_wds w'). wd_committed (wd_at d)}"
        using d mono set_update_memI [OF j, of d'] by (simp add: wds)
      moreover have "u = wd_user d'" using True d user by simp
      ultimately show ?thesis by blast
    next
      case False
      then show ?thesis using d kept_wd [OF d(1), of j d'] unfolding wds by blast
    qed
  qed
  moreover have "wd_committed (wd_at d') \<Longrightarrow> wd_user d' \<in> ?C (w_wds w')"
    using set_update_memI [OF j, of d'] unfolding wds by blast
  ultimately have "set (w_rows w') = ?C (w_wds w')"
    using ok rows unfolding deletion_ok_def by (auto split: if_splits)
  then show ?thesis using ok log unfolding deletion_ok_def wds by (auto dest!: updated_wd)
qed

lemma deletion_withdraw_step:
  assumes ok: "deletion_ok cfg w" and j: "j < length (w_wds w)"
  shows "deletion_ok cfg (withdraw_step cfg a j w)"
proof (cases "wd_at (w_wds w ! j)")
  case (WdBody at)
  have log: "wd_log_ok cfg (WdBody at) (wd_log (w_wds w ! j))" using ok nth_mem [OF j] WdBody by (force simp: deletion_ok_def)
  have old: "wd_committed (WdBody at) \<Longrightarrow> wd_user (w_wds w ! j) \<in> set (w_rows w)"
    using ok nth_mem [OF j] WdBody by (force simp: deletion_ok_def)
  show ?thesis
  proof (cases "\<exists>res. at = AtReturn res")
    case True
    then obtain res where at: "at = AtReturn res" by blast
    show ?thesis
    proof (rule deletion_update [OF ok j])
      show "w_wds (withdraw_step cfg a j w) = (w_wds w)[j := (w_wds w ! j)\<lparr>wd_at := WdFinished res\<rparr>]"
        using at WdBody by (simp add: withdraw_step_def Let_def set_wd_def split: option.splits)
    qed (use at WdBody log old in \<open>cases res; auto simp: withdraw_step_def Let_def set_wd_def split: option.splits\<close>)+
  next
    case False
    note no_return = False
    let ?d = "(w_wds w ! j)\<lparr>wd_at := WdBody (fst (withdraw_next cfg a at)), wd_log := wd_log (w_wds w ! j) @ snd (withdraw_next cfg a at)\<rparr>"
    let ?u = "wd_user (w_wds w ! j)"
    have wds: "w_wds (withdraw_step cfg a j w) = (w_wds w)[j := ?d]"
      using WdBody no_return by (cases at) (auto simp: withdraw_step_def Let_def case_prod_beta split: sum.splits simp del: withdraw_next.simps)
    have rows: "set (w_rows (withdraw_step cfg a j w)) = set (w_rows w) \<union> (if \<exists>c b. at = AtMarkUserDeleted c \<and> a = Inr b then {?u} else {})"
      using WdBody no_return by (cases at) (auto simp: withdraw_step_def Let_def case_prod_beta split: sum.splits simp del: withdraw_next.simps)
    note N = withdraw_next_committed [of at cfg a]
    show ?thesis
      by (rule deletion_update [OF ok j wds])
        (use no_return log old WdBody rows N withdraw_next_log [OF log] in \<open>auto split: if_splits simp del: withdraw_next.simps\<close>)
  qed
qed (use ok in \<open>simp_all add: withdraw_step_def Let_def\<close>)

lemma deletion_same: "deletion_ok cfg w \<Longrightarrow> w_wds w' = w_wds w \<Longrightarrow> w_rows w' = w_rows w \<Longrightarrow> deletion_ok cfg w'"
  by (simp add: deletion_ok_def)

lemma deletion_step:
  assumes "gate_step cfg w w'" and ok: "deletion_ok cfg w"
  shows "deletion_ok cfg w'"
  using assms(1)
proof cases
  case (step_begin u)
  then show ?thesis using deletion_same [OF ok] by (simp add: begin_operation_def start_op_def split: prod.splits admission.splits)
next
  case (step_begin_cancellable u)
  then show ?thesis using deletion_same [OF ok] by (simp add: begin_cancellable_def start_op_def split: prod.splits admission.splits)
next
  case (step_release i)
  then show ?thesis using ok deletion_same [OF ok] by (simp add: release_operation_def Let_def split: option.splits)
next
  case (step_finish i)
  then show ?thesis using ok deletion_same [OF ok] by (simp add: finish_operation_def Let_def split: option.splits)
next
  case (step_withdrawal u)
  have "wd_log_ok cfg (loop_phase r g) [] \<and> \<not> wd_committed (loop_phase r g)" for r g
    by (simp add: loop_phase_def split: option.splits)
  then show ?thesis unfolding step_withdrawal begin_withdrawal_def
    by (auto split: prod.splits sum.splits option.splits intro!: deletion_append [OF ok])
next
  case (step_wake j)
  have log: "wd_log_ok cfg (wd_at (w_wds w ! j)) (wd_log (w_wds w ! j))" using ok nth_mem [OF step_wake(2)] by (simp add: deletion_ok_def)
  have "deletion_ok cfg (set_wd j (loop_phase r (w_gate w)) w)" if "wd_at (w_wds w ! j) = WdWaiting c" for r c
    by (rule deletion_update [OF ok step_wake(2), where d' = "(w_wds w ! j)\<lparr>wd_at := loop_phase r (w_gate w)\<rparr>"])
      (use that log in \<open>auto simp: set_wd_def loop_phase_def split: option.splits\<close>)
  then show ?thesis using ok step_wake(1) by (auto simp: wake_withdrawal_def split: wd_phase.splits option.splits)
next
  case (step_abort j)
  have "deletion_ok cfg (set_wd j (WdFinished (Some ErrContext)) (w\<lparr>w_gate := g\<rparr>))" if "wd_at (w_wds w ! j) = WdWaiting c" for g c
    by (rule deletion_update [OF ok step_abort(2), where d' = "(w_wds w ! j)\<lparr>wd_at := WdFinished (Some ErrContext)\<rparr>"])
      (use that in \<open>auto simp: set_wd_def\<close>)
  then show ?thesis using ok step_abort(1) by (auto simp: abort_withdrawal_def split: wd_phase.splits option.splits)
next
  case (step_body j a)
  then show ?thesis using deletion_withdraw_step [OF ok] by simp
qed


subsection \<open>A run\<close>

definition demo_service :: withdrawalService where
  "demo_service = \<lparr>has_close_sessions = True, has_disconnect = True, has_cipher_and_apple = False, has_clear_reference = True\<rparr>"

definition demo_waiting :: gate_world where
  "demo_waiting = begin_withdrawal 7 (begin_cancellable 7 gate_start)"

definition demo_working :: gate_world where
  "demo_working = wake_withdrawal 0 (finish_operation 0 (release_operation 0 demo_waiting))"

primrec demo_steps :: "nat \<Rightarrow> gate_world" where
  "demo_steps 0 = demo_working"
| "demo_steps (Suc n) = withdraw_step demo_service (Inr False) 0 (demo_steps n)"

lemma demo_waiting_reach: "gate_reach cfg demo_waiting"
  unfolding demo_waiting_def
  by (rule reach_step [OF reach_step [OF reach_start step_begin_cancellable] step_withdrawal])

lemma demo_working_reach: "gate_reach cfg demo_working"
proof -
  have len: "0 < length (w_ops demo_waiting)" "0 < length (w_ops (release_operation 0 demo_waiting))"
    "0 < length (w_wds (finish_operation 0 (release_operation 0 demo_waiting)))" by code_simp+
  show ?thesis unfolding demo_working_def
    by (rule reach_step [OF reach_step [OF reach_step [OF demo_waiting_reach step_release [OF len(1)]]
      step_finish [OF len(2)]] step_wake [OF len(3)]])
qed

lemma demo_steps_length: "length (w_wds (demo_steps n)) = 1"
proof (induction n)
  case 0
  show ?case by code_simp
next
  case (Suc n)
  then show ?case
    by (auto simp: withdraw_step_def Let_def set_wd_def split: wd_phase.splits withdraw_at.splits prod.splits option.splits)
qed

lemma demo_steps_step: "gate_step demo_service (demo_steps n) (demo_steps (Suc n))"
  using step_body [of 0 "demo_steps n"] by (simp add: demo_steps_length)

lemma demo_steps_reach: "gate_reach demo_service (demo_steps n)"
proof (induction n)
  case (Suc n)
  then show ?case by (rule reach_step [OF _ demo_steps_step])
qed (simp add: demo_working_reach)

theorem withdrawal_excludes_operations_witness:
  "fst (BeginOperation 7 (w_gate demo_working)) = Refused \<and> filter (\<lambda>p. op_user p = 7 \<and> op_at p \<noteq> OpEnded) (w_ops demo_working) = []"
proof -
  have "0 < length (w_wds demo_working)" "wd_at (w_wds demo_working ! 0) = WdBody AtCredential" "wd_user (w_wds demo_working ! 0) = 7"
    by code_simp+
  then show ?thesis using withdrawal_excludes_operations [OF demo_working_reach, of 0 AtCredential] by (simp add: filter_empty_conv)
qed

theorem deleted_account_stays_closed_witness:
  "fst (BeginOperation 7 (w_gate (demo_steps 9))) = Refused"
proof -
  have gone: "7 \<in> set (w_rows (demo_steps 5))" by code_simp
  have "(gate_step demo_service)\<^sup>*\<^sup>* (demo_steps 5) (demo_steps (5 + n))" for n
  proof (induction n)
    case (Suc n)
    then show ?case using demo_steps_step [of "5 + n"] by (simp only: add_Suc_right rtranclp.rtrancl_into_rtrancl)
  qed simp
  from deleted_account_stays_closed [OF demo_steps_reach gone _ this [of 4]] show ?thesis by simp
qed

theorem withdrawal_gets_the_gate_witness:
  "(0::nat) \<in> set (g_cancelled (w_gate demo_waiting)) \<and>
   wd_at (w_wds (wake_withdrawal 0 (finish_operation 0 (release_operation 0 demo_waiting))) ! 0) = WdBody AtCredential"
proof -
  let ?w = "finish_operation 0 (release_operation 0 demo_waiting)"
  have len: "0 < length (w_ops demo_waiting)" "0 < length (w_ops (release_operation 0 demo_waiting))" by code_simp+
  have reach: "gate_reach demo_service ?w"
    by (rule reach_step [OF reach_step [OF demo_waiting_reach step_release [OF len(1)]] step_finish [OF len(2)]])
  have facts: "0 < length (w_wds ?w)" "wd_at (w_wds ?w ! 0) = WdWaiting 0"
    "\<forall>p \<in> set (w_ops ?w). op_user p = wd_user (w_wds ?w ! 0) \<longrightarrow> op_at p = OpEnded" by code_simp+
  have before: "0 < length (w_wds demo_waiting)" "wd_at (w_wds demo_waiting ! 0) = WdWaiting 0" by code_simp+
  have op: "\<exists>p \<in> set (w_ops demo_waiting). op_user p = wd_user (w_wds demo_waiting ! 0) \<and> op_key p = Some 0 \<and> op_at p = OpRunning"
    by code_simp
  show ?thesis
    using withdrawal_gets_the_gate [OF reach facts(1,2)] facts(3)
      withdrawal_gets_the_gate [OF demo_waiting_reach before] op by blast
qed


subsection \<open>The HTTP handler\<close>

datatype WithdrawalUserState = WithdrawalUserUnknown | WithdrawalUserMissing | WithdrawalUserActive | WithdrawalUserInactive

text \<open>What the handler reads of a request and what the token service says of its bearer token.\<close>

record withdrawal_request =
  rq_method :: string
  rq_bearer :: bool
  rq_access_valid :: bool
  rq_expired_valid :: bool
  rq_subject_parses :: bool

type_synonym http_answer = "nat \<times> string"

definition unauthorized :: http_answer where
  "unauthorized = (401, ''unauthorized'')"

definition unavailable :: http_answer where
  "unavailable = (503, ''withdrawal_unavailable'')"

text \<open>The answer, or \<open>Inr ()\<close> when the handler calls \<open>Withdraw\<close>; \<open>st\<close> is the answer of the state look-up.\<close>

definition before_withdraw :: "withdrawal_request \<Rightarrow> unit + WithdrawalUserState \<Rightarrow> http_answer + unit" where
  "before_withdraw rq st =
    (if rq_method rq = ''OPTIONS'' then Inl (204, '''')
     else if rq_method rq \<noteq> ''DELETE'' then Inl (405, ''method_not_allowed'')
     else if \<not> rq_bearer rq then Inl unauthorized
     else if \<not> rq_access_valid rq \<and> \<not> rq_expired_valid rq then Inl unauthorized
     else if \<not> rq_subject_parses rq then Inl unauthorized
     else case st of
       Inl _ \<Rightarrow> Inl unavailable
     | Inr WithdrawalUserMissing \<Rightarrow> Inl (204, '''')
     | Inr WithdrawalUserInactive \<Rightarrow> Inl unauthorized
     | Inr WithdrawalUserActive \<Rightarrow> (if \<not> rq_access_valid rq then Inl unauthorized else Inr ())
     | Inr WithdrawalUserUnknown \<Rightarrow> Inl unavailable)"

definition after_withdraw :: "withdrawalError option \<Rightarrow> unit + WithdrawalUserState \<Rightarrow> http_answer" where
  "after_withdraw res st = (case res of
     None \<Rightarrow> (204, '''')
   | Some ErrWithdrawalInProgress \<Rightarrow> (409, ''withdrawal_in_progress'')
   | Some ErrUserInactive \<Rightarrow> (case st of
       Inl _ \<Rightarrow> unavailable
     | Inr s \<Rightarrow> (if s = WithdrawalUserMissing then (204, '''') else unauthorized))
   | Some ErrWithdrawalUnavailable \<Rightarrow> unavailable
   | Some _ \<Rightarrow> (502, ''withdrawal_failed''))"

definition handleWithdrawal :: "withdrawal_request \<Rightarrow> unit + WithdrawalUserState \<Rightarrow> withdrawalError option \<Rightarrow>
    unit + WithdrawalUserState \<Rightarrow> http_answer" where
  "handleWithdrawal rq st res st' = (case before_withdraw rq st of Inl a \<Rightarrow> a | Inr _ \<Rightarrow> after_withdraw res st')"

lemma expired_token_never_withdraws: "\<not> rq_access_valid rq \<Longrightarrow> before_withdraw rq st \<noteq> Inr ()"
  by (auto simp: before_withdraw_def split: sum.splits WithdrawalUserState.splits)

lemma no_content_means_gone:
  assumes "rq_method rq = ''DELETE''" "fst (handleWithdrawal rq st res st') = 204"
  shows "st = Inr WithdrawalUserMissing \<or> res = None \<or> (res = Some ErrUserInactive \<and> st' = Inr WithdrawalUserMissing)"
  using assms
  by (auto simp: handleWithdrawal_def before_withdraw_def after_withdraw_def unauthorized_def unavailable_def
      split: sum.splits WithdrawalUserState.splits option.splits withdrawalError.splits if_splits)

end
