(* ===== verification/SwitchStream.thy ===== *)
theory SwitchStream
  imports Prelude
begin

text \<open>
  The switchable AI stream of a session (\<^verbatim>\<open>internal/ai/switch.go\<close>): frames go to the current worker, a
  switch warms a candidate with copies of the frames and promotes it, and every leg (a stream to a worker
  with its place on it) is discarded once.

  A leg is a position of \<open>ss_legs\<close>. \<open>processMu\<close> is held by at most one call of \<open>Process\<close>, which is
  \<open>ss_process\<close>: the current leg it read and the candidate it may still warm. Goroutines are explicit:
  \<open>ss_warms\<close> are warm frames in flight, \<open>ss_tasks\<close> what is still to be done with legs that left the lock
  (discard it, send an error to its channel, or one after the other), \<open>ss_calls\<close> the calls of \<open>SwitchTo\<close>. Sections under the
  lock are single steps; the clock is an argument.
\<close>

subsection \<open>State\<close>

datatype switch_error = ErrSwitchClosed | ErrSwitchInProgress | ErrSwitchInterrupted | AlreadyOn nat | WarmFailed | ContextEnded

abbreviation DefaultWarmFrames :: nat where
  "DefaultWarmFrames \<equiv> 3"

abbreviation idleSwitchAfter :: duration where
  "idleSwitchAfter \<equiv> 2 * Second"

text \<open>\<open>lg_releases\<close> counts the calls of the release function; \<open>lg_done\<close> is the buffered channel of size one.\<close>

record switchLeg =
  lg_client :: nat
  lg_busy :: bool
  lg_warmed :: nat
  lg_ready :: bool
  lg_done :: "switch_error option list"
  lg_releases :: nat

datatype switch_call =
    CallIdle nat nat
  | CallWaiting nat
  | CallFinal nat
  | CallReturned "switch_error option"

datatype switch_task = TaskDiscard nat | TaskSend nat switch_error | TaskDrop nat switch_error

record SwitchableStream =
  ss_legs :: "switchLeg list"
  ss_current :: nat
  ss_candidate :: "nat option"
  ss_last :: "instant option"
  ss_released :: bool
  ss_process :: "(nat \<times> nat option) option"
  ss_warms :: "(nat \<times> bool) list"
  ss_tasks :: "switch_task list"
  ss_calls :: "switch_call list"

definition newLeg :: "nat \<Rightarrow> switchLeg" where
  "newLeg client = \<lparr>lg_client = client, lg_busy = False, lg_warmed = 0, lg_ready = False, lg_done = [], lg_releases = 0\<rparr>"

definition NewSwitchableStream :: "nat \<Rightarrow> SwitchableStream" where
  "NewSwitchableStream client = \<lparr>ss_legs = [newLeg client], ss_current = 0, ss_candidate = None, ss_last = None,
     ss_released = False, ss_process = None, ss_warms = [], ss_tasks = [], ss_calls = []\<rparr>"

abbreviation leg_at :: "SwitchableStream \<Rightarrow> nat \<Rightarrow> switchLeg" where
  "leg_at s l \<equiv> ss_legs s ! l"

definition set_leg :: "nat \<Rightarrow> switchLeg \<Rightarrow> SwitchableStream \<Rightarrow> SwitchableStream" where
  "set_leg l x s = s\<lparr>ss_legs := (ss_legs s)[l := x]\<rparr>"

definition discard_leg :: "nat \<Rightarrow> SwitchableStream \<Rightarrow> SwitchableStream" where
  "discard_leg l s = set_leg l ((leg_at s l)\<lparr>lg_releases := lg_releases (leg_at s l) + 1\<rparr>) s"

definition send_done :: "nat \<Rightarrow> switch_error option \<Rightarrow> SwitchableStream \<Rightarrow> SwitchableStream" where
  "send_done l r s = set_leg l ((leg_at s l)\<lparr>lg_done := lg_done (leg_at s l) @ [r]\<rparr>) s"

subsection \<open>Frames\<close>

definition promoteLocked :: "SwitchableStream \<Rightarrow> SwitchableStream" where
  "promoteLocked s = (case ss_candidate s of
     None \<Rightarrow> s
   | Some c \<Rightarrow> send_done c None (discard_leg (ss_current s) (s\<lparr>ss_current := c, ss_candidate := None\<rparr>)))"

text \<open>The section of \<open>Process\<close> under the lock; the caller holds \<open>processMu\<close> until \<open>end_process\<close>.\<close>

definition begin_process :: "instant \<Rightarrow> SwitchableStream \<Rightarrow> SwitchableStream" where
  "begin_process now s =
    (if ss_process s \<noteq> None \<or> ss_released s then s
     else let s1 = s\<lparr>ss_last := Some now\<rparr>;
              s2 = (case ss_candidate s1 of
                      Some c \<Rightarrow> if lg_ready (leg_at s1 c) then promoteLocked s1 else s1
                    | None \<Rightarrow> s1)
          in s2\<lparr>ss_process := Some (ss_current s2, ss_candidate s2)\<rparr>)"

definition launch_warm :: "SwitchableStream \<Rightarrow> SwitchableStream" where
  "launch_warm s = (case ss_process s of
     Some (cur, Some c) \<Rightarrow>
       (let s1 = s\<lparr>ss_process := Some (cur, None)\<rparr>
        in if lg_busy (leg_at s c) then s1
           else (set_leg c ((leg_at s c)\<lparr>lg_busy := True\<rparr>) s1)\<lparr>ss_warms := ss_warms s @ [(c, False)]\<rparr>)
   | _ \<Rightarrow> s)"

definition end_process :: "SwitchableStream \<Rightarrow> SwitchableStream" where
  "end_process s = (case ss_process s of Some (cur, None) \<Rightarrow> s\<lparr>ss_process := None\<rparr> | _ \<Rightarrow> s)"

record processed_chunk =
  pc_timestamp :: int
  pc_error_code :: string
  pc_status :: string

text \<open>\<open>same_fold\<close> is \<open>strings.EqualFold\<close>.\<close>

definition checkResponse :: "(string \<Rightarrow> string \<Rightarrow> bool) \<Rightarrow> processed_chunk \<Rightarrow> int \<Rightarrow> bool" where
  "checkResponse same_fold r timestamp \<longleftrightarrow>
    pc_timestamp r = timestamp \<and> pc_error_code r = '''' \<and> same_fold (pc_status r) ''success''"

definition dropCandidate :: "nat \<Rightarrow> switch_error \<Rightarrow> SwitchableStream \<Rightarrow> SwitchableStream" where
  "dropCandidate l e s =
    (if ss_candidate s \<noteq> Some l then s
     else s\<lparr>ss_candidate := None, ss_tasks := ss_tasks s @ [TaskDrop l e]\<rparr>)"

text \<open>The answer to warm frame \<open>i\<close>: \<open>answer\<close> is \<open>None\<close> when the call failed.\<close>

definition warm :: "(string \<Rightarrow> string \<Rightarrow> bool) \<Rightarrow> nat \<Rightarrow> int \<Rightarrow> processed_chunk option \<Rightarrow> SwitchableStream \<Rightarrow> SwitchableStream" where
  "warm same_fold i timestamp answer s =
    (if i \<ge> length (ss_warms s) \<or> snd (ss_warms s ! i) then s
     else let l = fst (ss_warms s ! i);
              s1 = s\<lparr>ss_warms := (ss_warms s)[i := (l, True)]\<rparr>;
              good = (case answer of None \<Rightarrow> False | Some r \<Rightarrow> checkResponse same_fold r timestamp)
          in if \<not> good then dropCandidate l WarmFailed s1
             else if ss_candidate s1 \<noteq> Some l then s1
             else let g = leg_at s1 l; n = lg_warmed g + 1
                  in set_leg l (g\<lparr>lg_warmed := n, lg_ready := lg_ready g \<or> n \<ge> DefaultWarmFrames\<rparr>) s1)"

text \<open>The list without its element \<open>i\<close>.\<close>

definition without :: "nat \<Rightarrow> 'a list \<Rightarrow> 'a list" where
  "without i xs = take i xs @ drop (Suc i) xs"

text \<open>The deferred reset of \<open>busy\<close>.\<close>

definition warm_exit :: "nat \<Rightarrow> SwitchableStream \<Rightarrow> SwitchableStream" where
  "warm_exit i s =
    (if i \<ge> length (ss_warms s) \<or> \<not> snd (ss_warms s ! i) then s
     else let l = fst (ss_warms s ! i)
          in (set_leg l ((leg_at s l)\<lparr>lg_busy := False\<rparr>) s)\<lparr>ss_warms := without i (ss_warms s)\<rparr>)"

text \<open>What happens outside the lock. A send to a full channel blocks.\<close>

definition run_task :: "nat \<Rightarrow> SwitchableStream \<Rightarrow> SwitchableStream" where
  "run_task i s =
    (if i \<ge> length (ss_tasks s) then s
     else case ss_tasks s ! i of
       TaskDiscard l \<Rightarrow> discard_leg l (s\<lparr>ss_tasks := without i (ss_tasks s)\<rparr>)
     | TaskDrop l e \<Rightarrow> discard_leg l (s\<lparr>ss_tasks := (ss_tasks s)[i := TaskSend l e]\<rparr>)
     | TaskSend l e \<Rightarrow>
         if lg_done (leg_at s l) \<noteq> [] then s
         else send_done l (Some e) (s\<lparr>ss_tasks := without i (ss_tasks s)\<rparr>))"

subsection \<open>Switching\<close>

definition switchableLocked :: "nat \<Rightarrow> SwitchableStream \<Rightarrow> switch_error option" where
  "switchableLocked client s =
    (if ss_released s then Some ErrSwitchClosed
     else if ss_candidate s \<noteq> None then Some ErrSwitchInProgress
     else if lg_client (leg_at s (ss_current s)) = client then Some (AlreadyOn client)
     else None)"

definition stream_idle :: "instant \<Rightarrow> SwitchableStream \<Rightarrow> bool" where
  "stream_idle now s = (case ss_last s of None \<Rightarrow> True | Some t \<Rightarrow> time_sub now t > idleSwitchAfter)"

definition SwitchTo :: "instant \<Rightarrow> nat \<Rightarrow> SwitchableStream \<Rightarrow> SwitchableStream" where
  "SwitchTo now client s =
    (let l = length (ss_legs s); s1 = s\<lparr>ss_legs := ss_legs s @ [newLeg client]\<rparr>
     in case switchableLocked client s1 of
          Some e \<Rightarrow> (discard_leg l s1)\<lparr>ss_calls := ss_calls s1 @ [CallReturned (Some e)]\<rparr>
        | None \<Rightarrow>
            if stream_idle now s1 then s1\<lparr>ss_calls := ss_calls s1 @ [CallIdle l client]\<rparr>
            else s1\<lparr>ss_candidate := Some l, ss_calls := ss_calls s1 @ [CallWaiting l]\<rparr>)"

definition set_call :: "nat \<Rightarrow> switch_call \<Rightarrow> SwitchableStream \<Rightarrow> SwitchableStream" where
  "set_call c x s = s\<lparr>ss_calls := (ss_calls s)[c := x]\<rparr>"

definition recv_done :: "nat \<Rightarrow> SwitchableStream \<Rightarrow> SwitchableStream" where
  "recv_done l s = set_leg l ((leg_at s l)\<lparr>lg_done := tl (lg_done (leg_at s l))\<rparr>) s"

text \<open>The second half of \<open>SwitchTo\<close> on a stream without frames, with both locks.\<close>

definition switch_between_frames :: "nat \<Rightarrow> SwitchableStream \<Rightarrow> SwitchableStream" where
  "switch_between_frames c s = (case ss_calls s ! c of
     CallIdle l client \<Rightarrow>
       (if ss_process s \<noteq> None then s
        else case switchableLocked client s of
          Some e \<Rightarrow> set_call c (CallReturned (Some e)) (discard_leg l s)
        | None \<Rightarrow> set_call c (CallReturned None) (recv_done l (promoteLocked (s\<lparr>ss_candidate := Some l\<rparr>))))
   | _ \<Rightarrow> s)"

text \<open>\<open>awaitSwitch\<close>: a result, a tick of the ticker, the end of the context.\<close>

definition await_result :: "nat \<Rightarrow> SwitchableStream \<Rightarrow> SwitchableStream" where
  "await_result c s =
    (let take_result = (\<lambda>l. case lg_done (leg_at s l) of
           [] \<Rightarrow> s
         | r # _ \<Rightarrow> set_call c (CallReturned r) (recv_done l s))
     in case ss_calls s ! c of CallWaiting l \<Rightarrow> take_result l | CallFinal l \<Rightarrow> take_result l | _ \<Rightarrow> s)"

definition promoteIfIdle :: "instant \<Rightarrow> nat \<Rightarrow> SwitchableStream \<Rightarrow> SwitchableStream" where
  "promoteIfIdle now l s =
    (if ss_candidate s = Some l \<and> \<not> lg_busy (leg_at s l) \<and> stream_idle now s then promoteLocked s else s)"

definition await_tick :: "instant \<Rightarrow> nat \<Rightarrow> SwitchableStream \<Rightarrow> SwitchableStream" where
  "await_tick now c s = (case ss_calls s ! c of
     CallWaiting l \<Rightarrow> if ss_process s \<noteq> None then s else promoteIfIdle now l s
   | _ \<Rightarrow> s)"

definition await_context :: "nat \<Rightarrow> SwitchableStream \<Rightarrow> SwitchableStream" where
  "await_context c s = (case ss_calls s ! c of
     CallWaiting l \<Rightarrow>
       if ss_candidate s = Some l \<and> \<not> lg_ready (leg_at s l)
       then set_call c (CallReturned (Some ContextEnded))
              (s\<lparr>ss_candidate := None, ss_tasks := ss_tasks s @ [TaskDiscard l]\<rparr>)
       else set_call c (CallFinal l) s
   | _ \<Rightarrow> s)"

subsection \<open>Closing\<close>

definition give_up_candidate :: "switch_error \<Rightarrow> SwitchableStream \<Rightarrow> SwitchableStream" where
  "give_up_candidate e s = (case ss_candidate s of
     None \<Rightarrow> s
   | Some l \<Rightarrow> s\<lparr>ss_candidate := None, ss_tasks := ss_tasks s @ [TaskDiscard l, TaskSend l e]\<rparr>)"

definition Close_stream :: "SwitchableStream \<Rightarrow> SwitchableStream" where
  "Close_stream s = give_up_candidate ErrSwitchInterrupted s"

definition Release_stream :: "SwitchableStream \<Rightarrow> SwitchableStream" where
  "Release_stream s =
    (if ss_released s then s
     else give_up_candidate ErrSwitchClosed
            (s\<lparr>ss_released := True, ss_tasks := ss_tasks s @ [TaskDiscard (ss_current s)]\<rparr>))"

subsection \<open>Runs\<close>

inductive switch_step :: "(string \<Rightarrow> string \<Rightarrow> bool) \<Rightarrow> SwitchableStream \<Rightarrow> SwitchableStream \<Rightarrow> bool" for eqf where
  sw_begin: "switch_step eqf s (begin_process now s)"
| sw_launch: "switch_step eqf s (launch_warm s)"
| sw_end: "switch_step eqf s (end_process s)"
| sw_warm: "switch_step eqf s (warm eqf i timestamp answer s)"
| sw_warm_exit: "switch_step eqf s (warm_exit i s)"
| sw_task: "switch_step eqf s (run_task i s)"
| sw_to: "switch_step eqf s (SwitchTo now client s)"
| sw_between: "c < length (ss_calls s) \<Longrightarrow> switch_step eqf s (switch_between_frames c s)"
| sw_result: "c < length (ss_calls s) \<Longrightarrow> switch_step eqf s (await_result c s)"
| sw_tick: "c < length (ss_calls s) \<Longrightarrow> switch_step eqf s (await_tick now c s)"
| sw_context: "c < length (ss_calls s) \<Longrightarrow> switch_step eqf s (await_context c s)"
| sw_close: "switch_step eqf s (Close_stream s)"
| sw_release: "switch_step eqf s (Release_stream s)"

inductive switch_reach :: "(string \<Rightarrow> string \<Rightarrow> bool) \<Rightarrow> nat \<Rightarrow> SwitchableStream \<Rightarrow> bool" for eqf client where
  sw_start: "switch_reach eqf client (NewSwitchableStream client)"
| sw_step: "switch_reach eqf client s \<Longrightarrow> switch_step eqf s s' \<Longrightarrow> switch_reach eqf client s'"

subsection \<open>The life of a leg\<close>

text \<open>Tasks that will discard leg \<open>l\<close>, tasks that will send to it, calls that own it.\<close>

fun task_discards :: "nat \<Rightarrow> switch_task \<Rightarrow> bool" where
  "task_discards l (TaskDiscard k) = (k = l)"
| "task_discards l (TaskSend k e) = False"
| "task_discards l (TaskDrop k e) = (k = l)"

fun task_sends :: "nat \<Rightarrow> switch_task \<Rightarrow> bool" where
  "task_sends l (TaskDiscard k) = False"
| "task_sends l (TaskSend k e) = (k = l)"
| "task_sends l (TaskDrop k e) = (k = l)"

fun call_holds :: "nat \<Rightarrow> switch_call \<Rightarrow> bool" where
  "call_holds l (CallIdle k client) = (k = l)"
| "call_holds l _ = False"

fun call_waits :: "nat \<Rightarrow> switch_call \<Rightarrow> bool" where
  "call_waits l (CallWaiting k) = (k = l)"
| "call_waits l (CallFinal k) = (k = l)"
| "call_waits l _ = False"

fun call_leg :: "switch_call \<Rightarrow> nat option" where
  "call_leg (CallIdle k client) = Some k"
| "call_leg (CallWaiting k) = Some k"
| "call_leg (CallFinal k) = Some k"
| "call_leg (CallReturned r) = None"

text \<open>
  A leg is in use (the current one of an unreleased stream, the candidate, or held by a call that waits for
  the gap between two frames), is about to be discarded, or has been.
\<close>

definition leg_uses :: "SwitchableStream \<Rightarrow> nat \<Rightarrow> nat" where
  "leg_uses s l = (if l = ss_current s \<and> \<not> ss_released s then 1 else 0) + (if ss_candidate s = Some l then 1 else 0) +
     length (filter (call_holds l) (ss_calls s))"

definition leg_count :: "SwitchableStream \<Rightarrow> nat \<Rightarrow> nat" where
  "leg_count s l = lg_releases (leg_at s l) + length (filter (task_discards l) (ss_tasks s)) + leg_uses s l"

text \<open>Results of a leg that are in its channel or on the way.\<close>

definition leg_results :: "SwitchableStream \<Rightarrow> nat \<Rightarrow> nat" where
  "leg_results s l = length (lg_done (leg_at s l)) + length (filter (task_sends l) (ss_tasks s)) + (if ss_candidate s = Some l then 1 else 0)"

definition switch_inv :: "SwitchableStream \<Rightarrow> bool" where
  "switch_inv s \<longleftrightarrow>
    ss_current s < length (ss_legs s) \<and>
    (\<forall>l. ss_candidate s = Some l \<longrightarrow> l < length (ss_legs s) \<and> l \<noteq> ss_current s) \<and>
    (ss_released s \<longrightarrow> ss_candidate s = None) \<and>
    (\<forall>x \<in> set (ss_calls s). \<forall>l. call_leg x = Some l \<longrightarrow> l < length (ss_legs s)) \<and>
    (\<forall>x \<in> set (ss_tasks s). \<forall>l. task_discards l x \<or> task_sends l x \<longrightarrow> l < length (ss_legs s)) \<and>
    (\<forall>x \<in> set (ss_warms s). fst x < length (ss_legs s)) \<and>
    (\<forall>p. ss_process s = Some p \<longrightarrow> fst p = ss_current s \<and> (\<forall>c. snd p = Some c \<longrightarrow> c < length (ss_legs s))) \<and>
    (\<forall>l < length (ss_legs s). leg_count s l = 1 \<and> leg_results s l = length (filter (call_waits l) (ss_calls s)) \<and>
       length (filter (call_waits l) (ss_calls s)) + length (filter (call_holds l) (ss_calls s)) \<le> 1)"

lemma without_count: "i < length xs \<Longrightarrow> length (filter P (without i xs)) + (if P (xs ! i) then 1 else 0) = length (filter P xs)"
proof -
  assume i: "i < length xs"
  have "filter P xs = filter P (take i xs) @ filter P (xs ! i # drop (Suc i) xs)"
    using id_take_nth_drop [OF i] filter_append by metis
  then have "length (filter P xs) = length (filter P (take i xs)) + length (filter P (xs ! i # drop (Suc i) xs))" by simp
  then show ?thesis by (simp add: without_def)
qed

lemma without_set: "x \<in> set (without i xs) \<Longrightarrow> x \<in> set xs"
  by (auto simp: without_def dest: in_set_takeD in_set_dropD)

lemma update_count:
  "i < length xs \<Longrightarrow> length (filter P (xs[i := y])) + (if P (xs ! i) then 1 else 0) = length (filter P xs) + (if P y then 1 else 0)"
  using length_filter_update [of i xs P y] by (simp split: if_splits)

lemma update_set: "x \<in> set (xs[i := y]) \<Longrightarrow> x \<in> set xs \<or> x = y"
  using set_update_subset_insert by fastforce

lemma set_leg_simps [simp]:
  "length (ss_legs (set_leg l x s)) = length (ss_legs s)"
  "l < length (ss_legs s) \<Longrightarrow> leg_at (set_leg l x s) k = (if k = l then x else leg_at s k)"
  "ss_current (set_leg l x s) = ss_current s" "ss_candidate (set_leg l x s) = ss_candidate s"
  "ss_last (set_leg l x s) = ss_last s" "ss_released (set_leg l x s) = ss_released s"
  "ss_process (set_leg l x s) = ss_process s" "ss_warms (set_leg l x s) = ss_warms s"
  "ss_tasks (set_leg l x s) = ss_tasks s" "ss_calls (set_leg l x s) = ss_calls s"
  by (auto simp: set_leg_def)

lemma set_call_simps [simp]:
  "ss_legs (set_call c x s) = ss_legs s" "ss_current (set_call c x s) = ss_current s"
  "ss_candidate (set_call c x s) = ss_candidate s" "ss_last (set_call c x s) = ss_last s"
  "ss_released (set_call c x s) = ss_released s" "ss_process (set_call c x s) = ss_process s"
  "ss_warms (set_call c x s) = ss_warms s" "ss_tasks (set_call c x s) = ss_tasks s"
  "ss_calls (set_call c x s) = (ss_calls s)[c := x]"
  by (simp_all add: set_call_def)

lemmas leg_defs = leg_count_def leg_results_def leg_uses_def

lemma switch_invI:
  assumes "ss_current s < length (ss_legs s)"
    and "\<And>l. ss_candidate s = Some l \<Longrightarrow> l < length (ss_legs s) \<and> l \<noteq> ss_current s"
    and "ss_released s \<Longrightarrow> ss_candidate s = None"
    and "\<And>x l. x \<in> set (ss_calls s) \<Longrightarrow> call_leg x = Some l \<Longrightarrow> l < length (ss_legs s)"
    and "\<And>x l. x \<in> set (ss_tasks s) \<Longrightarrow> task_discards l x \<or> task_sends l x \<Longrightarrow> l < length (ss_legs s)"
    and "\<And>x. x \<in> set (ss_warms s) \<Longrightarrow> fst x < length (ss_legs s)"
    and "\<And>p. ss_process s = Some p \<Longrightarrow> fst p = ss_current s \<and> (\<forall>c. snd p = Some c \<longrightarrow> c < length (ss_legs s))"
    and "\<And>l. l < length (ss_legs s) \<Longrightarrow> leg_count s l = 1 \<and> leg_results s l = length (filter (call_waits l) (ss_calls s)) \<and>
       length (filter (call_waits l) (ss_calls s)) + length (filter (call_holds l) (ss_calls s)) \<le> 1"
  shows "switch_inv s"
  using assms unfolding switch_inv_def by blast

lemma switch_invD:
  assumes "switch_inv s"
  shows "ss_current s < length (ss_legs s)"
    and "\<And>l. ss_candidate s = Some l \<Longrightarrow> l < length (ss_legs s) \<and> l \<noteq> ss_current s"
    and "ss_released s \<Longrightarrow> ss_candidate s = None"
    and "\<And>x l. x \<in> set (ss_calls s) \<Longrightarrow> call_leg x = Some l \<Longrightarrow> l < length (ss_legs s)"
    and "\<And>x l. x \<in> set (ss_tasks s) \<Longrightarrow> task_discards l x \<or> task_sends l x \<Longrightarrow> l < length (ss_legs s)"
    and "\<And>x. x \<in> set (ss_warms s) \<Longrightarrow> fst x < length (ss_legs s)"
    and "\<And>p. ss_process s = Some p \<Longrightarrow> fst p = ss_current s \<and> (\<forall>c. snd p = Some c \<longrightarrow> c < length (ss_legs s))"
    and "\<And>l. l < length (ss_legs s) \<Longrightarrow> leg_count s l = 1 \<and> leg_results s l = length (filter (call_waits l) (ss_calls s)) \<and>
       length (filter (call_waits l) (ss_calls s)) + length (filter (call_holds l) (ss_calls s)) \<le> 1"
  using assms unfolding switch_inv_def by blast+

text \<open>A change of the warm-up of a leg, of the clock or of the warm frames.\<close>

lemma switch_inv_frame:
  assumes inv: "switch_inv s"
    and same: "length (ss_legs t) = length (ss_legs s)" "\<And>l. l < length (ss_legs s) \<Longrightarrow>
        lg_releases (leg_at t l) = lg_releases (leg_at s l) \<and> lg_done (leg_at t l) = lg_done (leg_at s l)"
      "ss_current t = ss_current s" "ss_candidate t = ss_candidate s" "ss_released t = ss_released s"
      "ss_tasks t = ss_tasks s" "ss_calls t = ss_calls s"
    and warms: "\<And>x. x \<in> set (ss_warms t) \<Longrightarrow> fst x < length (ss_legs s)"
    and process: "\<And>p. ss_process t = Some p \<Longrightarrow> fst p = ss_current s \<and> (\<forall>c. snd p = Some c \<longrightarrow> c < length (ss_legs s))"
  shows "switch_inv t"
  using switch_invD [OF inv] same warms process by (intro switch_invI) (simp_all add: leg_defs)

text \<open>The candidate leaves with a result on the way.\<close>

lemma drop_inv:
  assumes inv: "switch_inv s" and c: "ss_candidate s = Some l"
    and tasks: "\<And>k. length (filter (task_discards k) ts) = (if k = l then 1 else 0)" "\<And>k. length (filter (task_sends k) ts) = (if k = l then 1 else 0)"
  shows "switch_inv (s\<lparr>ss_candidate := None, ss_tasks := ss_tasks s @ ts\<rparr>)" (is "switch_inv ?t")
proof -
  note D = switch_invD [OF inv]
  have mem: "k = l" if "x \<in> set ts" "task_discards k x \<or> task_sends k x" for x k
    using tasks [of k] length_filter_member [OF that(1), of "task_discards k"] length_filter_member [OF that(1), of "task_sends k"] that(2)
    by (auto split: if_splits)
  show ?thesis
  proof (rule switch_invI)
    fix x k assume "x \<in> set (ss_tasks ?t)" "task_discards k x \<or> task_sends k x"
    then show "k < length (ss_legs ?t)" using D(5) [of x k] D(2) [OF c] mem [of x k] by auto
  next
    fix k assume "k < length (ss_legs ?t)"
    then show "leg_count ?t k = 1 \<and> leg_results ?t k = length (filter (call_waits k) (ss_calls ?t)) \<and>
       length (filter (call_waits k) (ss_calls ?t)) + length (filter (call_holds k) (ss_calls ?t)) \<le> 1"
      using D(8) [of k] c tasks [of k] by (cases "k = l") (simp_all add: leg_defs)
  qed (use D in auto)
qed

lemma promote_inv:
  assumes inv: "switch_inv s" and free: "ss_process s = None"
  shows "switch_inv (promoteLocked s)"
proof (cases "ss_candidate s")
  case None
  then show ?thesis using inv by (simp add: promoteLocked_def)
next
  case (Some c)
  note D = switch_invD [OF inv]
  have c: "c < length (ss_legs s)" "c \<noteq> ss_current s" using D(2) [OF Some] by simp_all
  have on: "\<not> ss_released s" using D(3) Some by auto
  let ?t = "promoteLocked s"
  have t: "ss_current ?t = c" "ss_candidate ?t = None" "ss_released ?t = ss_released s" "ss_process ?t = ss_process s"
    "ss_warms ?t = ss_warms s" "ss_tasks ?t = ss_tasks s" "ss_calls ?t = ss_calls s" "length (ss_legs ?t) = length (ss_legs s)"
    by (simp_all add: promoteLocked_def Some discard_leg_def send_done_def)
  have legs: "lg_releases (leg_at ?t k) = lg_releases (leg_at s k) + (if k = ss_current s then 1 else 0)"
    "length (lg_done (leg_at ?t k)) = length (lg_done (leg_at s k)) + (if k = c then 1 else 0)" if "k < length (ss_legs s)" for k
    using c D(1) by (simp_all add: promoteLocked_def Some discard_leg_def send_done_def)
  show ?thesis
  proof (rule switch_invI)
    fix k assume "k < length (ss_legs ?t)"
    then have k: "k < length (ss_legs s)" by (simp add: t)
    show "leg_count ?t k = 1 \<and> leg_results ?t k = length (filter (call_waits k) (ss_calls ?t)) \<and>
       length (filter (call_waits k) (ss_calls ?t)) + length (filter (call_holds k) (ss_calls ?t)) \<le> 1"
      using D(8) [OF k] Some on c legs [OF k] by (auto simp: leg_defs t)
  qed (use D c free in \<open>auto simp: t\<close>)
qed

lemma last_inv:
  assumes inv: "switch_inv s"
  shows "switch_inv (s\<lparr>ss_last := v\<rparr>)"
  by (rule switch_inv_frame [OF inv]) (use switch_invD(6,7) [OF inv] in auto)

lemma process_inv:
  assumes inv: "switch_inv s"
    and p: "\<And>x. p = Some x \<Longrightarrow> fst x = ss_current s \<and> (\<forall>c. snd x = Some c \<longrightarrow> c < length (ss_legs s))"
  shows "switch_inv (s\<lparr>ss_process := p\<rparr>)"
  by (rule switch_inv_frame [OF inv]) (use switch_invD(6) [OF inv] p in auto)

lemma begin_process_inv:
  assumes inv: "switch_inv s"
  shows "switch_inv (begin_process now s)"
proof (cases "ss_process s \<noteq> None \<or> ss_released s")
  case True
  then show ?thesis using inv by (auto simp: begin_process_def)
next
  case False
  let ?s1 = "s\<lparr>ss_last := Some now\<rparr>"
  let ?s2 = "case ss_candidate ?s1 of Some c \<Rightarrow> if lg_ready (leg_at ?s1 c) then promoteLocked ?s1 else ?s1 | None \<Rightarrow> ?s1"
  have one: "switch_inv ?s1" using last_inv [OF inv] .
  have "ss_process ?s1 = None" using False by (cases "ss_process s") auto
  then have two: "switch_inv ?s2" using one promote_inv [OF one] by (simp split: option.splits)
  have "switch_inv (?s2\<lparr>ss_process := Some (ss_current ?s2, ss_candidate ?s2)\<rparr>)"
    using switch_invD(2) [OF two] by (intro process_inv [OF two]) auto
  moreover have "begin_process now s = ?s2\<lparr>ss_process := Some (ss_current ?s2, ss_candidate ?s2)\<rparr>"
    using False by (simp add: begin_process_def Let_def)
  ultimately show ?thesis by simp
qed

lemma launch_warm_inv:
  assumes inv: "switch_inv s"
  shows "switch_inv (launch_warm s)"
proof (cases "\<exists>cur c. ss_process s = Some (cur, Some c)")
  case False
  then show ?thesis using inv by (auto simp: launch_warm_def split: option.splits prod.splits)
next
  case True
  then obtain cur c where p: "ss_process s = Some (cur, Some c)" by blast
  note D = switch_invD [OF inv]
  have c: "c < length (ss_legs s)" "cur = ss_current s" using D(7) [OF p] by auto
  show ?thesis
    by (rule switch_inv_frame [OF inv]) (use p c D(6) in \<open>auto simp: launch_warm_def Let_def split: if_splits\<close>)
qed

lemma end_process_inv:
  assumes inv: "switch_inv s"
  shows "switch_inv (end_process s)"
  using inv process_inv [OF inv, of None] by (simp add: end_process_def split: option.splits prod.splits)

lemma warm_inv:
  assumes inv: "switch_inv s"
  shows "switch_inv (warm eqf i timestamp answer s)"
proof (cases "i \<ge> length (ss_warms s) \<or> snd (ss_warms s ! i)")
  case True
  then show ?thesis using inv by (simp add: warm_def)
next
  case False
  note D = switch_invD [OF inv]
  let ?l = "fst (ss_warms s ! i)"
  let ?s1 = "s\<lparr>ss_warms := (ss_warms s)[i := (?l, True)]\<rparr>"
  have l: "?l < length (ss_legs s)" using D(6) False by simp
  have one: "switch_inv ?s1"
    by (rule switch_inv_frame [OF inv]) (use l D(6,7) in \<open>auto dest!: update_set\<close>)
  have drop: "switch_inv (dropCandidate ?l e ?s1)" for e
    using one drop_inv [OF one, of ?l "[TaskDrop ?l e]"] by (auto simp: dropCandidate_def)
  have count: "switch_inv (set_leg ?l ((leg_at ?s1 ?l)\<lparr>lg_warmed := n, lg_ready := r\<rparr>) ?s1)" for n r
    by (rule switch_inv_frame [OF one]) (use l switch_invD(6,7) [OF one] in auto)
  show ?thesis using False one drop count by (auto simp: warm_def Let_def split: option.splits)
qed

lemma warm_exit_inv:
  assumes inv: "switch_inv s"
  shows "switch_inv (warm_exit i s)"
proof (cases "i \<ge> length (ss_warms s) \<or> \<not> snd (ss_warms s ! i)")
  case True
  then show ?thesis using inv by (simp add: warm_exit_def)
next
  case False
  note D = switch_invD [OF inv]
  have l: "fst (ss_warms s ! i) < length (ss_legs s)" using D(6) False by simp
  show ?thesis
    by (rule switch_inv_frame [OF inv]) (use False l D(6,7) in \<open>auto simp: warm_exit_def Let_def dest: without_set\<close>)
qed

text \<open>Discards and results that move between the tasks and the legs.\<close>

lemma switch_inv_tasks:
  assumes inv: "switch_inv s"
    and same: "length (ss_legs t) = length (ss_legs s)" "ss_current t = ss_current s" "ss_candidate t = ss_candidate s"
      "ss_released t = ss_released s" "ss_process t = ss_process s" "ss_warms t = ss_warms s" "ss_calls t = ss_calls s"
    and tasks: "\<And>x k. x \<in> set (ss_tasks t) \<Longrightarrow> task_discards k x \<or> task_sends k x \<Longrightarrow> k < length (ss_legs s)"
    and releases: "\<And>k. k < length (ss_legs s) \<Longrightarrow> lg_releases (leg_at t k) + length (filter (task_discards k) (ss_tasks t)) =
      lg_releases (leg_at s k) + length (filter (task_discards k) (ss_tasks s))"
    and results: "\<And>k. k < length (ss_legs s) \<Longrightarrow> length (lg_done (leg_at t k)) + length (filter (task_sends k) (ss_tasks t)) =
      length (lg_done (leg_at s k)) + length (filter (task_sends k) (ss_tasks s))"
  shows "switch_inv t"
proof (rule switch_invI)
  fix k assume "k < length (ss_legs t)"
  then have k: "k < length (ss_legs s)" by (simp add: same)
  show "leg_count t k = 1 \<and> leg_results t k = length (filter (call_waits k) (ss_calls t)) \<and>
     length (filter (call_waits k) (ss_calls t)) + length (filter (call_holds k) (ss_calls t)) \<le> 1"
    using switch_invD(8) [OF inv k] releases [OF k] results [OF k] by (simp add: leg_defs same)
qed (use switch_invD [OF inv] tasks in \<open>simp_all add: same\<close>)

lemma run_task_inv:
  assumes inv: "switch_inv s"
  shows "switch_inv (run_task i s)"
proof (cases "i < length (ss_tasks s)")
  case False
  then show ?thesis using inv by (simp add: run_task_def)
next
  case True
  note D = switch_invD [OF inv]
  note W = without_count [OF True] and U = update_count [OF True]
  have mem: "ss_tasks s ! i \<in> set (ss_tasks s)" using True by simp
  show ?thesis
  proof (cases "ss_tasks s ! i")
    case (TaskDiscard l)
    have l: "l < length (ss_legs s)" using D(5) [OF mem, of l] TaskDiscard by simp
    have "switch_inv (discard_leg l (s\<lparr>ss_tasks := without i (ss_tasks s)\<rparr>))"
    proof (rule switch_inv_tasks [OF inv])
      fix k assume "k < length (ss_legs s)"
      show "length (lg_done (leg_at (discard_leg l (s\<lparr>ss_tasks := without i (ss_tasks s)\<rparr>)) k)) +
          length (filter (task_sends k) (ss_tasks (discard_leg l (s\<lparr>ss_tasks := without i (ss_tasks s)\<rparr>)))) =
        length (lg_done (leg_at s k)) + length (filter (task_sends k) (ss_tasks s))"
        using l W [of "task_sends k"] TaskDiscard by (simp add: discard_leg_def)
    next
      fix k assume "k < length (ss_legs s)"
      show "lg_releases (leg_at (discard_leg l (s\<lparr>ss_tasks := without i (ss_tasks s)\<rparr>)) k) +
          length (filter (task_discards k) (ss_tasks (discard_leg l (s\<lparr>ss_tasks := without i (ss_tasks s)\<rparr>)))) =
        lg_releases (leg_at s k) + length (filter (task_discards k) (ss_tasks s))"
        using l W [of "task_discards k"] TaskDiscard by (simp add: discard_leg_def split: if_splits)
    qed (use D(5) in \<open>auto simp: discard_leg_def dest!: without_set\<close>)
    then show ?thesis using True TaskDiscard by (simp add: run_task_def)
  next
    case (TaskDrop l e)
    have l: "l < length (ss_legs s)" using D(5) [OF mem, of l] TaskDrop by simp
    have "switch_inv (discard_leg l (s\<lparr>ss_tasks := (ss_tasks s)[i := TaskSend l e]\<rparr>))"
    proof (rule switch_inv_tasks [OF inv])
      fix k assume "k < length (ss_legs s)"
      show "length (lg_done (leg_at (discard_leg l (s\<lparr>ss_tasks := (ss_tasks s)[i := TaskSend l e]\<rparr>)) k)) +
          length (filter (task_sends k) (ss_tasks (discard_leg l (s\<lparr>ss_tasks := (ss_tasks s)[i := TaskSend l e]\<rparr>)))) =
        length (lg_done (leg_at s k)) + length (filter (task_sends k) (ss_tasks s))"
        using l U [of "task_sends k" "TaskSend l e"] TaskDrop by (simp add: discard_leg_def)
    next
      fix k assume "k < length (ss_legs s)"
      show "lg_releases (leg_at (discard_leg l (s\<lparr>ss_tasks := (ss_tasks s)[i := TaskSend l e]\<rparr>)) k) +
          length (filter (task_discards k) (ss_tasks (discard_leg l (s\<lparr>ss_tasks := (ss_tasks s)[i := TaskSend l e]\<rparr>)))) =
        lg_releases (leg_at s k) + length (filter (task_discards k) (ss_tasks s))"
        using l U [of "task_discards k" "TaskSend l e"] TaskDrop by (simp add: discard_leg_def split: if_splits)
    qed (use D(5) l in \<open>auto simp: discard_leg_def dest!: update_set\<close>)
    then show ?thesis using True TaskDrop by (simp add: run_task_def)
  next
    case (TaskSend l e)
    have l: "l < length (ss_legs s)" using D(5) [OF mem, of l] TaskSend by simp
    have "switch_inv (send_done l (Some e) (s\<lparr>ss_tasks := without i (ss_tasks s)\<rparr>))"
    proof (rule switch_inv_tasks [OF inv])
      fix k assume "k < length (ss_legs s)"
      show "length (lg_done (leg_at (send_done l (Some e) (s\<lparr>ss_tasks := without i (ss_tasks s)\<rparr>)) k)) +
          length (filter (task_sends k) (ss_tasks (send_done l (Some e) (s\<lparr>ss_tasks := without i (ss_tasks s)\<rparr>)))) =
        length (lg_done (leg_at s k)) + length (filter (task_sends k) (ss_tasks s))"
        using l W [of "task_sends k"] TaskSend by (simp add: send_done_def split: if_splits)
    next
      fix k assume "k < length (ss_legs s)"
      show "lg_releases (leg_at (send_done l (Some e) (s\<lparr>ss_tasks := without i (ss_tasks s)\<rparr>)) k) +
          length (filter (task_discards k) (ss_tasks (send_done l (Some e) (s\<lparr>ss_tasks := without i (ss_tasks s)\<rparr>)))) =
        lg_releases (leg_at s k) + length (filter (task_discards k) (ss_tasks s))"
        using l W [of "task_discards k"] TaskSend by (simp add: send_done_def)
    qed (use D(5) in \<open>auto simp: send_done_def dest!: without_set\<close>)
    then show ?thesis using True TaskSend inv by (simp add: run_task_def)
  qed
qed

text \<open>A new leg and the call that owns it.\<close>

lemma fresh_leg:
  assumes "switch_inv s" "l = length (ss_legs s)"
  shows "x \<in> set (ss_tasks s) \<Longrightarrow> \<not> task_discards l x \<and> \<not> task_sends l x"
    and "y \<in> set (ss_calls s) \<Longrightarrow> \<not> call_holds l y \<and> \<not> call_waits l y"
proof -
  show "x \<in> set (ss_tasks s) \<Longrightarrow> \<not> task_discards l x \<and> \<not> task_sends l x"
    using switch_invD(5) [OF assms(1)] assms(2) by blast
  show "y \<in> set (ss_calls s) \<Longrightarrow> \<not> call_holds l y \<and> \<not> call_waits l y"
    using switch_invD(4) [OF assms(1), of y l] assms(2) by (cases y) auto
qed

lemma add_leg_inv:
  assumes inv: "switch_inv s" and g: "lg_done g = []"
    and t: "ss_legs t = ss_legs s @ [g]" "ss_current t = ss_current s" "ss_released t = ss_released s" "ss_process t = ss_process s"
      "ss_warms t = ss_warms s" "ss_tasks t = ss_tasks s" "ss_calls t = ss_calls s @ [x]"
    and x: "\<And>k. call_leg x = Some k \<Longrightarrow> k = length (ss_legs s)"
    and cand: "ss_candidate t = ss_candidate s \<and> lg_releases g + (if call_holds (length (ss_legs s)) x then 1 else 0) = 1 \<and>
        \<not> call_waits (length (ss_legs s)) x \<or>
      ss_candidate t = Some (length (ss_legs s)) \<and> ss_candidate s = None \<and> \<not> ss_released s \<and> lg_releases g = 0 \<and>
        call_waits (length (ss_legs s)) x \<and> \<not> call_holds (length (ss_legs s)) x"
  shows "switch_inv t"
proof (rule switch_invI)
  note D = switch_invD [OF inv]
  let ?n = "length (ss_legs s)"
  have none: "filter (task_discards ?n) (ss_tasks s) = []" "filter (task_sends ?n) (ss_tasks s) = []"
    "filter (call_holds ?n) (ss_calls s) = []" "filter (call_waits ?n) (ss_calls s) = []"
    using fresh_leg [OF inv refl] by (auto simp: filter_empty_conv)
  have x_old: "\<not> call_holds k x" "\<not> call_waits k x" if "k < ?n" for k
    using x [of k] that by (cases x; force)+
  fix k assume "k < length (ss_legs t)"
  then consider "k < ?n" | "k = ?n" by (fastforce simp: t less_Suc_eq)
  then show "leg_count t k = 1 \<and> leg_results t k = length (filter (call_waits k) (ss_calls t)) \<and>
       length (filter (call_waits k) (ss_calls t)) + length (filter (call_holds k) (ss_calls t)) \<le> 1"
  proof cases
    case 1
    have "ss_candidate t = Some k \<longleftrightarrow> ss_candidate s = Some k" using cand 1 by auto
    then show ?thesis using 1 D(8) [OF 1] x_old [OF 1] by (simp add: leg_defs t nth_append)
  next
    case 2
    have "ss_candidate s \<noteq> Some ?n" "ss_current s \<noteq> ?n" using D(1,2) by fastforce+
    then show ?thesis using 2 cand none g by (auto simp: leg_defs t)
  qed
next
  note D = switch_invD [OF inv]
  show "ss_current t < length (ss_legs t)" using D(1) by (simp add: t)
  show "ss_candidate t = Some l \<Longrightarrow> l < length (ss_legs t) \<and> l \<noteq> ss_current t" for l
    using D(1) D(2) [of l] cand by (auto simp: t less_Suc_eq)
  show "ss_released t \<Longrightarrow> ss_candidate t = None" using D(3) cand by (auto simp: t)
  show "y \<in> set (ss_calls t) \<Longrightarrow> call_leg y = Some l \<Longrightarrow> l < length (ss_legs t)" for y l using D(4) [of y l] x by (auto simp: t)
  show "y \<in> set (ss_tasks t) \<Longrightarrow> task_discards l y \<or> task_sends l y \<Longrightarrow> l < length (ss_legs t)" for y l using D(5) [of y l] by (auto simp: t)
  show "y \<in> set (ss_warms t) \<Longrightarrow> fst y < length (ss_legs t)" for y using D(6) [of y] by (simp add: t)
  show "ss_process t = Some p \<Longrightarrow> fst p = ss_current t \<and> (\<forall>c. snd p = Some c \<longrightarrow> c < length (ss_legs t))" for p
    using D(7) [of p] by (auto simp: t)
qed

lemma SwitchTo_inv:
  assumes inv: "switch_inv s"
  shows "switch_inv (SwitchTo now client s)"
proof -
  let ?n = "length (ss_legs s)" and ?s1 = "s\<lparr>ss_legs := ss_legs s @ [newLeg client]\<rparr>"
  show ?thesis
  proof (cases "switchableLocked client ?s1")
    case (Some e)
    then have t: "SwitchTo now client s = (discard_leg ?n ?s1)\<lparr>ss_calls := ss_calls s @ [CallReturned (Some e)]\<rparr>"
      by (simp add: SwitchTo_def Let_def)
    show ?thesis unfolding t
      by (rule add_leg_inv [OF inv, where g = "(newLeg client)\<lparr>lg_releases := 1\<rparr>"]) (auto simp: discard_leg_def set_leg_def newLeg_def)
  next
    case None
    then have free: "ss_candidate s = None" "\<not> ss_released s" by (auto simp: switchableLocked_def split: if_splits)
    show ?thesis
    proof (cases "stream_idle now ?s1")
      case True
      then have t: "SwitchTo now client s = ?s1\<lparr>ss_calls := ss_calls s @ [CallIdle ?n client]\<rparr>"
        using None by (simp add: SwitchTo_def Let_def)
      show ?thesis unfolding t by (rule add_leg_inv [OF inv, where g = "newLeg client"]) (auto simp: newLeg_def)
    next
      case False
      then have t: "SwitchTo now client s = ?s1\<lparr>ss_candidate := Some ?n, ss_calls := ss_calls s @ [CallWaiting ?n]\<rparr>"
        using None by (simp add: SwitchTo_def Let_def)
      show ?thesis unfolding t by (rule add_leg_inv [OF inv, where g = "newLeg client"]) (use free in \<open>auto simp: newLeg_def\<close>)
    qed
  qed
qed

text \<open>A call of \<open>SwitchTo\<close> that moves on.\<close>

lemma result_inv:
  assumes inv: "switch_inv s" and c: "c < length (ss_calls s)" and waits: "call_waits l (ss_calls s ! c)"
    and ready: "lg_done (leg_at s l) \<noteq> []"
  shows "switch_inv (set_call c (CallReturned r) (recv_done l s))"
proof (rule switch_invI)
  note D = switch_invD [OF inv]
  let ?t = "set_call c (CallReturned r) (recv_done l s)"
  have "call_leg (ss_calls s ! c) = Some l" using waits by (cases "ss_calls s ! c") auto
  then have l: "l < length (ss_legs s)" using D(4) [OF nth_mem [OF c]] by simp
  have other: "call_waits k (ss_calls s ! c) \<longleftrightarrow> k = l" "\<not> call_holds k (ss_calls s ! c)" for k
    using waits by (cases "ss_calls s ! c"; auto)+
  note U = update_count [OF c, of _ "CallReturned r"]
  fix k assume "k < length (ss_legs ?t)"
  then have k: "k < length (ss_legs s)" by (simp add: recv_done_def)
  show "leg_count ?t k = 1 \<and> leg_results ?t k = length (filter (call_waits k) (ss_calls ?t)) \<and>
       length (filter (call_waits k) (ss_calls ?t)) + length (filter (call_holds k) (ss_calls ?t)) \<le> 1"
    using D(8) [OF k] U [of "call_waits k"] U [of "call_holds k"] other [of k] l ready
    by (cases "k = l"; cases "lg_done (leg_at s l)") (simp_all add: leg_defs recv_done_def del: length_0_conv split: if_splits)
next
  note D = switch_invD [OF inv]
  let ?t = "set_call c (CallReturned r) (recv_done l s)"
  fix x k assume "x \<in> set (ss_calls ?t)" "call_leg x = Some k"
  then show "k < length (ss_legs ?t)" using D(4) [of x k] by (auto simp: recv_done_def dest!: update_set)
qed (use switch_invD [OF inv] in \<open>auto simp: recv_done_def\<close>)

lemma await_result_inv:
  assumes inv: "switch_inv s" and c: "c < length (ss_calls s)"
  shows "switch_inv (await_result c s)"
  using inv result_inv [OF inv c] by (auto simp: await_result_def Let_def split: switch_call.splits list.splits)

lemma await_tick_inv:
  assumes inv: "switch_inv s"
  shows "switch_inv (await_tick now c s)"
  using inv promote_inv [OF inv] by (cases "ss_process s") (auto simp: await_tick_def promoteIfIdle_def split: switch_call.splits)

lemma final_inv:
  assumes inv: "switch_inv s" and c: "c < length (ss_calls s)" "ss_calls s ! c = CallWaiting l"
  shows "switch_inv (set_call c (CallFinal l) s)"
proof (rule switch_invI)
  note D = switch_invD [OF inv]
  let ?t = "set_call c (CallFinal l) s"
  note U = update_count [OF c(1), of _ "CallFinal l"]
  fix k assume k: "k < length (ss_legs ?t)"
  then show "leg_count ?t k = 1 \<and> leg_results ?t k = length (filter (call_waits k) (ss_calls ?t)) \<and>
       length (filter (call_waits k) (ss_calls ?t)) + length (filter (call_holds k) (ss_calls ?t)) \<le> 1"
    using D(8) [of k] U [of "call_waits k"] U [of "call_holds k"] c(2) by (simp add: leg_defs)
next
  note D = switch_invD [OF inv]
  let ?t = "set_call c (CallFinal l) s"
  fix x k assume "x \<in> set (ss_calls ?t)" "call_leg x = Some k"
  then show "k < length (ss_legs ?t)" using D(4) [of x k] D(4) [of "CallWaiting l" l] c nth_mem [OF c(1)] by (auto dest!: update_set)
qed (use switch_invD [OF inv] in auto)

lemma context_drop_inv:
  assumes inv: "switch_inv s" and c: "c < length (ss_calls s)" "ss_calls s ! c = CallWaiting l" and cand: "ss_candidate s = Some l"
  shows "switch_inv (set_call c (CallReturned r) (s\<lparr>ss_candidate := None, ss_tasks := ss_tasks s @ [TaskDiscard l]\<rparr>))" (is "switch_inv ?t")
proof (rule switch_invI)
  note D = switch_invD [OF inv]
  note U = update_count [OF c(1), of _ "CallReturned r"]
  fix k assume k: "k < length (ss_legs ?t)"
  then show "leg_count ?t k = 1 \<and> leg_results ?t k = length (filter (call_waits k) (ss_calls ?t)) \<and>
       length (filter (call_waits k) (ss_calls ?t)) + length (filter (call_holds k) (ss_calls ?t)) \<le> 1"
    using D(8) [of k] U [of "call_waits k"] U [of "call_holds k"] c(2) cand by (auto simp: leg_defs split: if_splits)
next
  note D = switch_invD [OF inv]
  fix x k assume "x \<in> set (ss_calls ?t)" "call_leg x = Some k"
  then show "k < length (ss_legs ?t)" using D(4) [of x k] by (auto dest!: update_set)
next
  note D = switch_invD [OF inv]
  fix x k assume "x \<in> set (ss_tasks ?t)" "task_discards k x \<or> task_sends k x"
  then show "k < length (ss_legs ?t)" using D(5) [of x k] D(2) [OF cand] by auto
qed (use switch_invD [OF inv] in auto)

lemma await_context_inv:
  assumes inv: "switch_inv s" and c: "c < length (ss_calls s)"
  shows "switch_inv (await_context c s)"
  using inv final_inv [OF inv c] context_drop_inv [OF inv c] by (auto simp: await_context_def split: switch_call.splits)

lemma give_up_inv:
  assumes inv: "switch_inv s"
  shows "switch_inv (give_up_candidate e s)"
proof (cases "ss_candidate s")
  case (Some l)
  then show ?thesis using drop_inv [OF inv Some, of "[TaskDiscard l, TaskSend l e]"] by (simp add: give_up_candidate_def)
qed (use inv in \<open>simp add: give_up_candidate_def\<close>)

text \<open>\<open>Release\<close>: the candidate leaves first, which gives the same state.\<close>

lemma release_current_inv:
  assumes inv: "switch_inv s" and on: "\<not> ss_released s" and none: "ss_candidate s = None"
  shows "switch_inv (s\<lparr>ss_released := True, ss_tasks := ss_tasks s @ [TaskDiscard (ss_current s)]\<rparr>)" (is "switch_inv ?t")
proof (rule switch_invI)
  note D = switch_invD [OF inv]
  fix k assume k: "k < length (ss_legs ?t)"
  then show "leg_count ?t k = 1 \<and> leg_results ?t k = length (filter (call_waits k) (ss_calls ?t)) \<and>
       length (filter (call_waits k) (ss_calls ?t)) + length (filter (call_holds k) (ss_calls ?t)) \<le> 1"
    using D(8) [of k] on none by (auto simp: leg_defs split: if_splits)
next
  note D = switch_invD [OF inv]
  fix x k assume "x \<in> set (ss_tasks ?t)" "task_discards k x \<or> task_sends k x"
  then show "k < length (ss_legs ?t)" using D(5) [of x k] D(1) by auto
qed (use switch_invD [OF inv] none in auto)

lemma Release_inv:
  assumes inv: "switch_inv s"
  shows "switch_inv (Release_stream s)"
proof (cases "ss_released s")
  case True
  then show ?thesis using inv by (simp add: Release_stream_def)
next
  case False
  let ?g = "give_up_candidate ErrSwitchClosed s"
  have g: "\<not> ss_released ?g" "ss_candidate ?g = None" using False by (simp_all add: give_up_candidate_def split: option.splits)
  have A: "switch_inv (?g\<lparr>ss_released := True, ss_tasks := ss_tasks ?g @ [TaskDiscard (ss_current ?g)]\<rparr>)" (is "switch_inv ?a")
    by (rule release_current_inv [OF give_up_inv [OF inv] g])
  show ?thesis
    by (rule switch_inv_tasks [OF A]) (use False switch_invD(5) [OF A] in \<open>auto simp: Release_stream_def give_up_candidate_def split: option.splits\<close>)
qed

text \<open>The switch between two frames, as a call that waits and is answered at once.\<close>

lemma between_inv:
  assumes inv: "switch_inv s" and c: "c < length (ss_calls s)"
  shows "switch_inv (switch_between_frames c s)"
proof (cases "\<exists>l client. ss_calls s ! c = CallIdle l client \<and> ss_process s = None")
  case False
  then show ?thesis using inv by (cases "ss_process s") (auto simp: switch_between_frames_def split: switch_call.splits)
next
  case True
  then obtain l client where call: "ss_calls s ! c = CallIdle l client" and free: "ss_process s = None" by blast
  note D = switch_invD [OF inv] and mem = nth_mem [OF c]
  have l: "l < length (ss_legs s)" using D(4) [OF mem] call by simp
  have held: "1 \<le> length (filter (call_holds l) (ss_calls s))" using length_filter_member [OF mem, of "call_holds l"] call by simp
  show ?thesis
  proof (cases "switchableLocked client s")
    case (Some e)
    have "switch_inv (set_call c (CallReturned (Some e)) (discard_leg l s))"
    proof (rule switch_invI)
      let ?t = "set_call c (CallReturned (Some e)) (discard_leg l s)"
      note U = update_count [OF c, of _ "CallReturned (Some e)"]
      fix k assume "k < length (ss_legs ?t)"
      then have k: "k < length (ss_legs s)" by (simp add: discard_leg_def)
      show "leg_count ?t k = 1 \<and> leg_results ?t k = length (filter (call_waits k) (ss_calls ?t)) \<and>
         length (filter (call_waits k) (ss_calls ?t)) + length (filter (call_holds k) (ss_calls ?t)) \<le> 1"
        using D(8) [OF k] U [of "call_waits k"] U [of "call_holds k"] call l
        by (cases "k = l") (simp_all add: leg_defs discard_leg_def del: length_0_conv split: if_splits)
    next
      let ?t = "set_call c (CallReturned (Some e)) (discard_leg l s)"
      fix x k assume "x \<in> set (ss_calls ?t)" "call_leg x = Some k"
      then show "k < length (ss_legs ?t)" using D(4) [of x k] by (auto simp: discard_leg_def dest!: update_set)
    qed (use D in \<open>auto simp: discard_leg_def\<close>)
    then show ?thesis using call free Some by (simp add: switch_between_frames_def)
  next
    case None
    then have on: "ss_candidate s = None" "\<not> ss_released s" by (auto simp: switchableLocked_def split: if_splits)
    have away: "l \<noteq> ss_current s" using D(8) [OF l] held on by (auto simp: leg_defs split: if_splits)
    let ?w = "set_call c (CallWaiting l) (s\<lparr>ss_candidate := Some l\<rparr>)"
    have W: "switch_inv ?w"
    proof (rule switch_invI)
      note U = update_count [OF c, of _ "CallWaiting l"]
      fix k assume "k < length (ss_legs ?w)"
      then have k: "k < length (ss_legs s)" by simp
      show "leg_count ?w k = 1 \<and> leg_results ?w k = length (filter (call_waits k) (ss_calls ?w)) \<and>
         length (filter (call_waits k) (ss_calls ?w)) + length (filter (call_holds k) (ss_calls ?w)) \<le> 1"
        using D(8) [OF k] U [of "call_waits k"] U [of "call_holds k"] call on by (auto simp: leg_defs split: if_splits)
    next
      fix x k assume "x \<in> set (ss_calls ?w)" "call_leg x = Some k"
      then show "k < length (ss_legs ?w)" using D(4) [of x k] l by (auto dest!: update_set)
    qed (use D on away l in auto)
    have P: "switch_inv (promoteLocked ?w)" by (rule promote_inv [OF W]) (simp add: free)
    have "lg_done (leg_at (promoteLocked ?w) l) \<noteq> []"
      using l D(1) by (simp add: promoteLocked_def discard_leg_def send_done_def)
    then have R: "switch_inv (set_call c (CallReturned None) (recv_done l (promoteLocked ?w)))"
      using c by (intro result_inv [OF P]) (simp_all add: promoteLocked_def discard_leg_def send_done_def)
    have "set_call c (CallReturned None) (recv_done l (promoteLocked ?w)) =
        set_call c (CallReturned None) (recv_done l (promoteLocked (s\<lparr>ss_candidate := Some l\<rparr>)))"
      by (cases s) (simp add: set_call_def recv_done_def promoteLocked_def discard_leg_def send_done_def set_leg_def)
    then show ?thesis using R call free None by (simp add: switch_between_frames_def)
  qed
qed

lemma switch_step_inv: "switch_step eqf s t \<Longrightarrow> switch_inv s \<Longrightarrow> switch_inv t"
  by (induction rule: switch_step.induct)
    (simp_all add: begin_process_inv launch_warm_inv end_process_inv warm_inv warm_exit_inv run_task_inv SwitchTo_inv between_inv
      await_result_inv await_tick_inv await_context_inv Close_stream_def give_up_inv Release_inv)

lemma switch_start_inv: "switch_inv (NewSwitchableStream client)"
  by (simp add: switch_inv_def NewSwitchableStream_def newLeg_def leg_defs)

lemma switch_reach_inv: "switch_reach eqf client s \<Longrightarrow> switch_inv s"
  by (induction rule: switch_reach.induct) (auto intro: switch_start_inv switch_step_inv)

subsection \<open>What a switch promises\<close>

text \<open>
  Property C23. The place on a worker is given back exactly once for every leg: in every run each leg is
  either in use and not released (the current one until the stream is released, the candidate, the leg of a
  call that waits for the gap between two frames), or its release is pending, or it has been called once;
  and a frame that is being processed is on the current leg, which is not released while the stream is open.
\<close>

theorem leg_is_released_once:
  assumes reach: "switch_reach eqf client s" and l: "l < length (ss_legs s)"
  shows "lg_releases (leg_at s l) + length (filter (task_discards l) (ss_tasks s)) =
      (if leg_uses s l = 0 then 1 else 0) \<and>
    (\<forall>p. ss_process s = Some p \<longrightarrow> fst p = ss_current s \<and>
       (\<not> ss_released s \<longrightarrow> lg_releases (leg_at s (fst p)) = 0 \<and> filter (task_discards (fst p)) (ss_tasks s) = []))"
proof -
  note D = switch_invD [OF switch_reach_inv [OF reach]]
  have count: "lg_releases (leg_at s k) + length (filter (task_discards k) (ss_tasks s)) + leg_uses s k = 1"
    if "k < length (ss_legs s)" for k
    using D(8) [OF that] by (simp add: leg_count_def)
  have "lg_releases (leg_at s (ss_current s)) + length (filter (task_discards (ss_current s)) (ss_tasks s)) = 0" if "\<not> ss_released s"
    using count [OF D(1)] that by (simp add: leg_uses_def del: length_0_conv)
  moreover have "lg_releases (leg_at s l) + length (filter (task_discards l) (ss_tasks s)) = (if leg_uses s l = 0 then 1 else 0)"
    using count [OF l] by (cases "leg_uses s l = 0") (simp_all del: length_0_conv)
  ultimately show ?thesis using D(7) by auto
qed

text \<open>
  Property C24. Every waiting \<open>SwitchTo\<close> gets exactly one answer: its leg is still the candidate, or one result
  is in its channel or on the way, never two, so no send to a channel blocks; and once the result is in the
  channel the call returns it.
\<close>

theorem switch_gets_one_result:
  assumes reach: "switch_reach eqf client s" and c: "c < length (ss_calls s)"
    and waiting: "ss_calls s ! c = CallWaiting l \<or> ss_calls s ! c = CallFinal l"
  shows "leg_results s l = 1 \<and>
    (\<forall>i < length (ss_tasks s). \<forall>e. ss_tasks s ! i = TaskSend l e \<longrightarrow> lg_done (leg_at s l) = []) \<and>
    (\<forall>r. lg_done (leg_at s l) = [r] \<longrightarrow> ss_calls (await_result c s) ! c = CallReturned r)"
proof -
  note D = switch_invD [OF switch_reach_inv [OF reach]]
  have mem: "ss_calls s ! c \<in> set (ss_calls s)" using c by simp
  have l: "l < length (ss_legs s)" using D(4) [OF mem, of l] waiting by auto
  have "1 \<le> length (filter (call_waits l) (ss_calls s))"
    using length_filter_member [OF mem, of "call_waits l"] waiting by auto
  then have one: "leg_results s l = 1" using D(8) [OF l] by linarith
  have "lg_done (leg_at s l) = []" if "i < length (ss_tasks s)" "ss_tasks s ! i = TaskSend l e" for i e
  proof -
    have "1 \<le> length (filter (task_sends l) (ss_tasks s))"
      using length_filter_member [OF nth_mem [OF that(1)], of "task_sends l"] that(2) by simp
    then have "length (lg_done (leg_at s l)) = 0" using one unfolding leg_results_def by linarith
    then show ?thesis by simp
  qed
  then show ?thesis using one waiting c by (auto simp: await_result_def Let_def recv_done_def)
qed

definition warm_ok :: "SwitchableStream \<Rightarrow> bool" where
  "warm_ok s \<longleftrightarrow> (\<forall>g \<in> set (ss_legs s). lg_ready g \<longrightarrow> DefaultWarmFrames \<le> lg_warmed g)"

lemma warm_ok_set_leg:
  "warm_ok s \<Longrightarrow> (lg_ready x \<Longrightarrow> DefaultWarmFrames \<le> lg_warmed x) \<Longrightarrow> warm_ok (set_leg l x s)"
  by (auto simp: warm_ok_def set_leg_def dest!: update_set)

lemma warm_ok_legs: "warm_ok s \<Longrightarrow> ss_legs t = ss_legs s \<Longrightarrow> warm_ok t"
  by (simp add: warm_ok_def)

lemma warm_ok_leg: "warm_ok s \<Longrightarrow> l < length (ss_legs s) \<Longrightarrow> lg_ready (leg_at s l) \<Longrightarrow> DefaultWarmFrames \<le> lg_warmed (leg_at s l)"
  by (simp add: warm_ok_def)

lemma warm_ok_fields:
  assumes ok: "warm_ok s" and same: "lg_ready x = lg_ready (leg_at s l)" "lg_warmed x = lg_warmed (leg_at s l)"
  shows "warm_ok (set_leg l x s)"
proof (cases "l < length (ss_legs s)")
  case True
  then show ?thesis using warm_ok_leg [OF ok True] by (intro warm_ok_set_leg [OF ok]) (simp add: same)
next
  case False
  then have "(ss_legs s)[l := x] = ss_legs s" by (simp add: list_update_beyond)
  then show ?thesis using ok by (simp add: warm_ok_def set_leg_def)
qed

lemma warm_ok_discard: "warm_ok s \<Longrightarrow> warm_ok (discard_leg l s)"
  by (simp add: discard_leg_def warm_ok_fields)

lemma warm_ok_send: "warm_ok s \<Longrightarrow> warm_ok (send_done l r s)"
  by (simp add: send_done_def warm_ok_fields)

lemma warm_ok_recv: "warm_ok s \<Longrightarrow> warm_ok (recv_done l s)"
  by (simp add: recv_done_def warm_ok_fields)

lemma warm_ok_update [simp]:
  "warm_ok (s\<lparr>ss_candidate := a\<rparr>) = warm_ok s" "warm_ok (s\<lparr>ss_tasks := b\<rparr>) = warm_ok s" "warm_ok (s\<lparr>ss_calls := d\<rparr>) = warm_ok s"
  "warm_ok (s\<lparr>ss_process := e\<rparr>) = warm_ok s" "warm_ok (s\<lparr>ss_warms := f\<rparr>) = warm_ok s" "warm_ok (s\<lparr>ss_current := g\<rparr>) = warm_ok s"
  "warm_ok (s\<lparr>ss_last := h\<rparr>) = warm_ok s" "warm_ok (s\<lparr>ss_released := i\<rparr>) = warm_ok s" "warm_ok (set_call c x s) = warm_ok s"
  by (simp_all add: warm_ok_def set_call_def)

lemma warm_ok_promote: "warm_ok s \<Longrightarrow> warm_ok (promoteLocked s)"
  by (auto simp: promoteLocked_def intro!: warm_ok_send warm_ok_discard split: option.splits)

lemma warm_ok_new: "warm_ok s \<Longrightarrow> warm_ok (s\<lparr>ss_legs := ss_legs s @ [newLeg client]\<rparr>)"
  by (simp add: warm_ok_def newLeg_def)

lemma warm_ok_begin: "warm_ok s \<Longrightarrow> warm_ok (begin_process now s)"
  by (auto simp: begin_process_def Let_def intro!: warm_ok_promote split: option.splits)

lemma warm_ok_launch: "warm_ok s \<Longrightarrow> warm_ok (launch_warm s)"
  by (auto simp: launch_warm_def Let_def intro!: warm_ok_fields split: option.splits prod.splits)

lemma warm_ok_warm: "warm_ok s \<Longrightarrow> warm_ok (warm eqf i timestamp answer s)"
proof (cases "fst (ss_warms s ! i) < length (ss_legs s)")
  case True
  assume ok: "warm_ok s"
  show ?thesis using ok warm_ok_leg [OF ok True]
    by (auto simp: warm_def Let_def dropCandidate_def intro!: warm_ok_set_leg split: option.splits)
next
  case False
  assume ok: "warm_ok s"
  have "(ss_legs s)[fst (ss_warms s ! i) := x] = ss_legs s" for x using False by (simp add: list_update_beyond)
  then have "ss_legs (warm eqf i timestamp answer s) = ss_legs s"
    by (auto simp: warm_def Let_def dropCandidate_def set_leg_def split: option.splits)
  then show ?thesis using warm_ok_legs [OF ok] by simp
qed

lemma warm_ok_step: "switch_step eqf s t \<Longrightarrow> warm_ok s \<Longrightarrow> warm_ok t"
proof (induction rule: switch_step.induct)
  case (sw_task s i)
  then show ?case by (auto simp: run_task_def intro!: warm_ok_discard warm_ok_send split: switch_task.splits)
next
  case (sw_to s now client)
  then show ?case using warm_ok_new [of s client] by (auto simp: SwitchTo_def Let_def intro!: warm_ok_discard split: option.splits)
next
  case (sw_between c s)
  then show ?case
    by (auto simp: switch_between_frames_def intro!: warm_ok_discard warm_ok_recv warm_ok_promote split: switch_call.splits option.splits)
next
  case (sw_result c s)
  then show ?case by (auto simp: await_result_def Let_def intro!: warm_ok_recv split: switch_call.splits list.splits)
next
  case (sw_tick c s now)
  then show ?case by (auto simp: await_tick_def promoteIfIdle_def intro!: warm_ok_promote split: switch_call.splits)
next
  case (sw_context c s)
  then show ?case by (auto simp: await_context_def split: switch_call.splits)
next
  case (sw_warm_exit s i)
  then show ?case by (auto simp: warm_exit_def Let_def intro!: warm_ok_fields)
qed (auto simp: warm_ok_begin warm_ok_launch warm_ok_warm end_process_def Close_stream_def Release_stream_def give_up_candidate_def
    split: option.splits prod.splits)

lemma warm_ok_reach: "switch_reach eqf client s \<Longrightarrow> warm_ok s"
proof (induction rule: switch_reach.induct)
  case sw_start
  show ?case by (simp add: warm_ok_def NewSwitchableStream_def newLeg_def)
next
  case (sw_step s t)
  then show ?case using warm_ok_step by blast
qed


subsection \<open>A run\<close>

definition good_chunk :: processed_chunk where
  "good_chunk = \<lparr>pc_timestamp = 5, pc_error_code = '''', pc_status = ''success''\<rparr>"

definition demo_frame :: "SwitchableStream \<Rightarrow> SwitchableStream" where
  "demo_frame s = warm_exit 0 (warm (=) 0 5 (Some good_chunk) (end_process (launch_warm (begin_process (Minute + 1) s))))"

definition demo_switching :: SwitchableStream where
  "demo_switching = SwitchTo (Minute + 1) 8 (end_process (launch_warm (begin_process Minute (NewSwitchableStream 7))))"

definition demo_warm :: SwitchableStream where
  "demo_warm = demo_frame (demo_frame (demo_frame demo_switching))"

lemma demo_frame_reach: "switch_reach (=) client s \<Longrightarrow> switch_reach (=) client (demo_frame s)"
  unfolding demo_frame_def by (intro sw_step [OF _ sw_warm_exit] sw_step [OF _ sw_warm] sw_step [OF _ sw_end] sw_step [OF _ sw_launch] sw_step [OF _ sw_begin])

lemma demo_switching_reach: "switch_reach (=) 7 demo_switching"
  unfolding demo_switching_def by (intro sw_step [OF _ sw_to] sw_step [OF _ sw_end] sw_step [OF _ sw_launch] sw_step [OF _ sw_begin] sw_start)

lemma demo_warm_reach: "switch_reach (=) 7 demo_warm"
  unfolding demo_warm_def by (intro demo_frame_reach demo_switching_reach)

theorem leg_is_released_once_witness:
  "lg_releases (leg_at demo_warm 0) = 0 \<and> lg_releases (leg_at (begin_process (Minute + 2) demo_warm) 0) = 1"
proof -
  have b: "switch_reach (=) 7 (begin_process (Minute + 2) demo_warm)" by (rule sw_step [OF demo_warm_reach sw_begin])
  have f: "0 < length (ss_legs demo_warm)" "leg_uses demo_warm 0 = 1"
    "0 < length (ss_legs (begin_process (Minute + 2) demo_warm))" "leg_uses (begin_process (Minute + 2) demo_warm) 0 = 0"
    "filter (task_discards 0) (ss_tasks (begin_process (Minute + 2) demo_warm)) = []" by code_simp+
  show ?thesis using leg_is_released_once [OF demo_warm_reach f(1)] leg_is_released_once [OF b f(3)] f by simp
qed

theorem switch_gets_one_result_witness:
  "leg_results demo_warm 1 = 1 \<and> ss_calls (await_result 0 (begin_process (Minute + 2) demo_warm)) ! 0 = CallReturned None"
proof -
  have b: "switch_reach (=) 7 (begin_process (Minute + 2) demo_warm)" by (rule sw_step [OF demo_warm_reach sw_begin])
  have f: "0 < length (ss_calls demo_warm)" "ss_calls demo_warm ! 0 = CallWaiting 1"
    "0 < length (ss_calls (begin_process (Minute + 2) demo_warm))" "ss_calls (begin_process (Minute + 2) demo_warm) ! 0 = CallWaiting 1"
    "lg_done (leg_at (begin_process (Minute + 2) demo_warm) 1) = [None]" by code_simp+
  show ?thesis using switch_gets_one_result [OF demo_warm_reach f(1), of 1] switch_gets_one_result [OF b f(3), of 1] f by simp
qed


text \<open>
  When the context of a \<open>SwitchTo\<close> ends while its candidate is warm but not yet promoted, the call goes on to
  wait for a result with the ticker stopped: if the frames have stopped too, nothing ends it, although
  \<open>SwitchTo\<close> says that the end of the context does.
\<close>

lemma switch_outlives_context:
  "switch_reach (=) 7 (await_context 0 demo_warm) \<and> ss_calls (await_context 0 demo_warm) ! 0 = CallFinal 1 \<and>
   await_result 0 (await_context 0 demo_warm) = await_context 0 demo_warm \<and> ss_tasks (await_context 0 demo_warm) = [] \<and>
   ss_warms (await_context 0 demo_warm) = [] \<and> (\<forall>now. await_tick now 0 (await_context 0 demo_warm) = await_context 0 demo_warm)"
proof -
  have f: "0 < length (ss_calls demo_warm)" "ss_calls (await_context 0 demo_warm) ! 0 = CallFinal 1"
    "lg_done (leg_at (await_context 0 demo_warm) 1) = []" "ss_tasks (await_context 0 demo_warm) = []"
    "ss_warms (await_context 0 demo_warm) = []" by code_simp+
  show ?thesis using f sw_step [OF demo_warm_reach sw_context [OF f(1)]] by (simp add: await_result_def await_tick_def)
qed

end
