(* ===== verification/FrameBlur.thy ===== *)
theory FrameBlur
  imports Prelude Complex_Main "HOL-Library.Code_Target_Nat"
begin

text \<open>
  What the server does to the pixels of a frame that the AI has not processed
  (\<^verbatim>\<open>internal/media/fallback_blur.go\<close>, \<^verbatim>\<open>rawFrameSize\<close> of \<^verbatim>\<open>ffmpeg.go\<close>) and what it tells the AI and counts
  per frame (\<^verbatim>\<open>internal/media/mosaic_config.go\<close>, \<^verbatim>\<open>mosaic.go\<close>).

  A byte is a number below 256, a plane a list of bytes row by row. \<open>float64\<close> is a rational number with the
  rounding of every operation as the argument \<open>rnd\<close>; the code relies on two facts of IEEE arithmetic,
  collected in \<open>float_rounding\<close>: rounding is monotone and keeps the halves of small integers.
\<close>

subsection \<open>Frames\<close>

type_synonym bytes = "nat list"

abbreviation fallbackBlurColumns :: nat where
  "fallbackBlurColumns \<equiv> 16"

abbreviation fallbackBlurRows :: nat where
  "fallbackBlurRows \<equiv> 9"

subsection \<open>Cell averages\<close>

text \<open>The numbers \<open>0, 2, \<dots>\<close> below \<open>n\<close>.\<close>

definition every_other :: "nat \<Rightarrow> nat list" where
  "every_other n = map (\<lambda>i. 2 * i) [0..<(n + 1) div 2]"

definition cell_of :: "nat \<Rightarrow> nat \<Rightarrow> nat \<Rightarrow> nat \<Rightarrow> nat \<Rightarrow> nat \<Rightarrow> nat" where
  "cell_of gw gh w h y x = (y * gh div h) * gw + x * gw div w"

text \<open>The sampled pixels with their cells, in the order of the loops; sums and counts are \<open>uint32\<close>.\<close>

definition samples :: "nat \<Rightarrow> nat \<Rightarrow> nat \<Rightarrow> nat \<Rightarrow> bytes \<Rightarrow> (nat \<times> nat) list" where
  "samples gw gh w h src =
    concat (map (\<lambda>y. map (\<lambda>x. (cell_of gw gh w h y x, src ! (y * w + x))) (every_other w)) (every_other h))"

definition add_sample :: "nat \<times> nat \<Rightarrow> nat list \<times> nat list \<Rightarrow> nat list \<times> nat list" where
  "add_sample cv st = (case (cv, st) of ((c, v), (tot, cnt)) \<Rightarrow>
     (tot[c := (tot ! c + v) mod 2 ^ 32], cnt[c := (cnt ! c + 1) mod 2 ^ 32]))"

definition cell_average :: "nat \<Rightarrow> nat \<Rightarrow> nat" where
  "cell_average sm n = (if n > 0 then sm div n else 0)"

definition blur_grid :: "nat \<Rightarrow> nat \<Rightarrow> bytes \<Rightarrow> nat list" where
  "blur_grid w h src =
    (let gw = min fallbackBlurColumns w; gh = min fallbackBlurRows h;
         (tot, cnt) = foldl (\<lambda>st cv. add_sample cv st) (replicate (gw * gh) 0, replicate (gw * gh) 0) (samples gw gh w h src)
     in map2 cell_average tot cnt)"

subsection \<open>Enlarging\<close>

text \<open>One coordinate of \<open>bilinearTaps\<close>: the two neighbours and the weight of the second.\<close>

definition tap_position :: "(rat \<Rightarrow> rat) \<Rightarrow> nat \<Rightarrow> nat \<Rightarrow> nat \<Rightarrow> rat" where
  "tap_position rnd n cells i =
    (let position = rnd (rnd (rnd (rnd (of_nat i + 1/2) * of_nat cells) / of_nat n) - 1/2)
     in if position < 0 then 0 else position)"

definition bilinear_tap :: "(rat \<Rightarrow> rat) \<Rightarrow> nat \<Rightarrow> nat \<Rightarrow> nat \<Rightarrow> nat \<times> nat \<times> int" where
  "bilinear_tap rnd n cells i =
    (let position = tap_position rnd n cells i;
         lower = min (nat \<lfloor>position\<rfloor>) (cells - 1);
         upper = min (lower + 1) (cells - 1)
     in (lower, upper, \<lfloor>rnd (rnd (position - of_nat lower) * 256)\<rfloor>))"

definition bilinearTaps :: "(rat \<Rightarrow> rat) \<Rightarrow> nat \<Rightarrow> nat \<Rightarrow> (nat \<times> nat \<times> int) list" where
  "bilinearTaps rnd n cells = map (bilinear_tap rnd n cells) [0..<n]"

definition mix_row :: "nat list \<Rightarrow> nat \<Rightarrow> nat \<times> nat \<times> int \<Rightarrow> int list" where
  "mix_row grid gw tap = (case tap of (y0, y1, weight) \<Rightarrow>
     map (\<lambda>i. int (grid ! (y0 * gw + i)) * 256 + (int (grid ! (y1 * gw + i)) - int (grid ! (y0 * gw + i))) * weight) [0..<gw])"

definition mix_pixel :: "int list \<Rightarrow> nat \<times> nat \<times> int \<Rightarrow> nat" where
  "mix_pixel row tap = (case tap of (x0, x1, weight) \<Rightarrow>
     nat (((row ! x0 * 256 + (row ! x1 - row ! x0) * weight + 32768) div 65536) mod 256))"

definition enlarge :: "(rat \<Rightarrow> rat) \<Rightarrow> nat \<Rightarrow> nat \<Rightarrow> nat list \<Rightarrow> bytes" where
  "enlarge rnd w h grid =
    (let gw = min fallbackBlurColumns w; gh = min fallbackBlurRows h;
         xs = bilinearTaps rnd w gw
     in concat (map (\<lambda>ytap. let row = mix_row grid gw ytap in map (mix_pixel row) xs) (bilinearTaps rnd h gh)))"

definition blurPlane :: "(rat \<Rightarrow> rat) \<Rightarrow> nat \<Rightarrow> nat \<Rightarrow> bytes \<Rightarrow> bytes" where
  "blurPlane rnd w h src = enlarge rnd w h (blur_grid w h src)"

definition plane :: "nat \<Rightarrow> nat \<Rightarrow> bytes \<Rightarrow> bytes" where
  "plane start len frame = take len (drop start frame)"

definition blurRawFrame :: "(rat \<Rightarrow> rat) \<Rightarrow> bytes \<Rightarrow> nat \<Rightarrow> nat \<Rightarrow> bytes option" where
  "blurRawFrame rnd frame w h =
    (let size = rawFrameSize w h; cw = (w + 1) div 2; ch = (h + 1) div 2; luma = w * h; chroma = cw * ch
     in if size = 0 \<or> length frame \<noteq> size then None
        else Some (blurPlane rnd w h (plane 0 luma frame) @ blurPlane rnd cw ch (plane luma chroma frame) @
          blurPlane rnd cw ch (plane (luma + chroma) chroma frame)))"

subsection \<open>The blur hides what it should\<close>

text \<open>What the code relies on of \<open>float64\<close>: rounding is monotone, and halves of small integers are exact.\<close>

definition float_rounding :: "(rat \<Rightarrow> rat) \<Rightarrow> bool" where
  "float_rounding rnd \<longleftrightarrow> (\<forall>a b. a \<le> b \<longrightarrow> rnd a \<le> rnd b) \<and> (\<forall>k. \<bar>k\<bar> \<le> 2 ^ 40 \<longrightarrow> rnd (of_int k / 2) = of_int k / 2)"

lemma rounding_mono: "float_rounding rnd \<Longrightarrow> a \<le> b \<Longrightarrow> rnd a \<le> rnd b"
  by (simp add: float_rounding_def)

lemma rounding_half: "float_rounding rnd \<Longrightarrow> \<bar>k\<bar> \<le> 2 ^ 40 \<Longrightarrow> rnd (of_int k / 2) = of_int k / 2"
  by (simp add: float_rounding_def)

lemma rounding_int:
  assumes "float_rounding rnd" "\<bar>k\<bar> \<le> 2 ^ 39"
  shows "rnd (of_int k) = of_int k"
  using rounding_half [OF assms(1), of "2 * k"] assms(2) by simp

lemma tap_position_bounds:
  assumes r: "float_rounding rnd" and i: "i < n" "n \<le> 65536" and cells: "0 < cells" "cells \<le> 16"
  shows "0 \<le> tap_position rnd n cells i" "tap_position rnd n cells i \<le> of_nat cells"
proof -
  let ?p = "rnd (rnd (rnd (rnd (of_nat i + 1/2) * of_nat cells) / of_nat n) - 1/2)"
  have a: "rnd (of_nat i + 1/2) = of_int (2 * int i + 1) / 2"
    using rounding_half [OF r, of "2 * int i + 1"] i by (simp add: add_divide_distrib)
  have "(2 * int i + 1) * int cells \<le> 131073 * 16" using i cells by (intro mult_mono) auto
  then have b: "rnd (rnd (of_nat i + 1/2) * of_nat cells) = of_int ((2 * int i + 1) * int cells) / 2"
    using rounding_half [OF r, of "(2 * int i + 1) * int cells"] by (simp add: a)
  have "(2 * int i + 1) * int cells \<le> (2 * int n) * int cells" using i by (intro mult_right_mono) auto
  then have "(of_int ((2 * int i + 1) * int cells) :: rat) \<le> of_int ((2 * int n) * int cells)" by (simp only: of_int_le_iff)
  then have "of_int ((2 * int i + 1) * int cells) / 2 / of_nat n \<le> (of_nat cells :: rat)" using i by (simp add: field_simps)
  then have "rnd (of_int ((2 * int i + 1) * int cells) / 2 / of_nat n) \<le> rnd (of_int (int cells))"
    by (intro rounding_mono [OF r]) simp
  then have "rnd (of_int ((2 * int i + 1) * int cells) / 2 / of_nat n) \<le> of_nat cells"
    using rounding_int [OF r, of "int cells"] cells by simp
  then have "?p \<le> rnd (of_int (2 * int cells - 1) / 2)" unfolding b by (intro rounding_mono [OF r]) (simp add: field_simps)
  then have "?p \<le> of_int (2 * int cells - 1) / 2" using rounding_half [OF r, of "2 * int cells - 1"] cells by simp
  then show "tap_position rnd n cells i \<le> of_nat cells" using cells by (simp add: tap_position_def Let_def field_simps)
  show "0 \<le> tap_position rnd n cells i" by (simp add: tap_position_def Let_def)
qed

lemma tap_bounds:
  assumes r: "float_rounding rnd" and i: "i < n" "n \<le> 65536" and cells: "0 < cells" "cells \<le> 16" and tap: "bilinear_tap rnd n cells i = (lo, hi, wt)"
  shows "lo < cells \<and> hi < cells \<and> 0 \<le> wt \<and> wt \<le> 256"
proof -
  define q where "q = tap_position rnd n cells i"
  have q0: "0 \<le> q" and qc: "q \<le> of_nat cells" using tap_position_bounds [OF r i cells] by (simp_all add: q_def)
  have lo: "lo = min (nat \<lfloor>q\<rfloor>) (cells - 1)" and hi: "hi = min (lo + 1) (cells - 1)"
    and wt: "wt = \<lfloor>rnd (rnd (q - of_nat lo) * 256)\<rfloor>" using tap by (auto simp: bilinear_tap_def Let_def q_def)
  have fq: "of_nat (nat \<lfloor>q\<rfloor>) \<le> q" using q0 of_int_floor_le [of q] by simp
  have "of_nat lo \<le> (of_nat (nat \<lfloor>q\<rfloor>) :: rat)" by (simp add: lo)
  then have lo_q: "of_nat lo \<le> q" using fq by linarith
  have "0 \<le> rnd (q - of_nat lo)" using rounding_mono [OF r, of 0 "q - of_nat lo"] rounding_int [OF r, of 0] lo_q by simp
  then have "0 \<le> rnd (rnd (q - of_nat lo) * 256)" using rounding_mono [OF r, of 0 "rnd (q - of_nat lo) * 256"] rounding_int [OF r, of 0] by simp
  then have w0: "0 \<le> wt" by (simp add: wt)
  have q1: "q \<le> of_nat lo + 1"
  proof (cases "nat \<lfloor>q\<rfloor> \<le> cells - 1")
    case True
    then have "lo = nat \<lfloor>q\<rfloor>" by (simp add: lo)
    then have "of_nat lo = (of_int \<lfloor>q\<rfloor> :: rat)" using q0 by (simp add: of_nat_nat)
    then show ?thesis using floor_correct [of q] by linarith
  next
    case False
    then have "lo = cells - 1" by (simp add: lo)
    then show ?thesis using qc cells by (simp add: of_nat_diff)
  qed
  have "rnd (q - of_nat lo) \<le> rnd (of_int 1)" using q1 by (intro rounding_mono [OF r]) linarith
  then have "rnd (q - of_nat lo) * 256 \<le> 256" using rounding_int [OF r, of 1] by simp
  then have "rnd (rnd (q - of_nat lo) * 256) \<le> rnd (of_int 256)" by (intro rounding_mono [OF r]) simp
  then have "rnd (rnd (q - of_nat lo) * 256) \<le> 256" using rounding_int [OF r, of 256] by simp
  then have "wt \<le> 256" using floor_mono [of "rnd (rnd (q - of_nat lo) * 256)" 256] by (simp add: wt)
  then show ?thesis using w0 cells unfolding lo hi by linarith
qed

lemma mix_bounds:
  assumes "(lo::int) \<le> a" "a \<le> hi" "lo \<le> b" "b \<le> hi" "0 \<le> wt" "wt \<le> 256"
  shows "256 * lo \<le> a * 256 + (b - a) * wt" "a * 256 + (b - a) * wt \<le> 256 * hi"
proof -
  have eq: "a * 256 + (b - a) * wt = a * (256 - wt) + b * wt" by (simp add: algebra_simps)
  have "lo * (256 - wt) + lo * wt \<le> a * (256 - wt) + b * wt" using assms by (intro add_mono mult_right_mono) auto
  then show "256 * lo \<le> a * 256 + (b - a) * wt" unfolding eq by (simp add: algebra_simps)
  have "a * (256 - wt) + b * wt \<le> hi * (256 - wt) + hi * wt" using assms by (intro add_mono mult_right_mono) auto
  then show "a * 256 + (b - a) * wt \<le> 256 * hi" unfolding eq by (simp add: algebra_simps)
qed

definition taps_ok :: "nat \<Rightarrow> nat \<times> nat \<times> int \<Rightarrow> bool" where
  "taps_ok cells tap = (case tap of (lo, hi, wt) \<Rightarrow> lo < cells \<and> hi < cells \<and> 0 \<le> wt \<and> wt \<le> 256)"

lemma bilinearTaps_ok:
  assumes "float_rounding rnd" "n \<le> 65536" "0 < cells" "cells \<le> 16" "tap \<in> set (bilinearTaps rnd n cells)"
  shows "taps_ok cells tap"
  using assms tap_bounds [OF assms(1) _ assms(2-4)] by (auto simp: bilinearTaps_def taps_ok_def split: prod.splits)

lemma mix_row_bounds:
  assumes tap: "taps_ok gh tap" and grid: "length grid = gw * gh" "\<And>v. v \<in> set grid \<Longrightarrow> lo \<le> v \<and> v \<le> hi"
    and mem: "z \<in> set (mix_row grid gw tap)"
  shows "256 * int lo \<le> z \<and> z \<le> 256 * int hi"
proof -
  obtain y0 y1 wt where t: "tap = (y0, y1, wt)" by (cases tap)
  obtain i where i: "i < gw" and z: "z = int (grid ! (y0 * gw + i)) * 256 + (int (grid ! (y1 * gw + i)) - int (grid ! (y0 * gw + i))) * wt"
    using mem by (auto simp: mix_row_def t)
  have at: "int lo \<le> int (grid ! (y * gw + i)) \<and> int (grid ! (y * gw + i)) \<le> int hi" if "y < gh" for y
  proof -
    have "y * gw + i < Suc y * gw" using i by simp
    also have "\<dots> \<le> gh * gw" using that by (intro mult_right_mono) auto
    finally have "y * gw + i < length grid" using grid(1) by (simp add: mult.commute)
    then show ?thesis using grid(2) [OF nth_mem] by simp
  qed
  show ?thesis using mix_bounds [of "int lo" _ "int hi" _ wt] at [of y0] at [of y1] tap by (auto simp: t taps_ok_def z)
qed

lemma mix_pixel_bounds:
  assumes tap: "taps_ok (length row) tap" and row: "\<And>z. z \<in> set row \<Longrightarrow> 256 * int lo \<le> z \<and> z \<le> 256 * int hi" and hi: "hi < 256"
  shows "lo \<le> mix_pixel row tap \<and> mix_pixel row tap \<le> hi"
proof -
  obtain x0 x1 wt where t: "tap = (x0, x1, wt)" by (cases tap)
  have ends: "256 * int lo \<le> row ! x0" "row ! x0 \<le> 256 * int hi" "256 * int lo \<le> row ! x1" "row ! x1 \<le> 256 * int hi"
    using row [OF nth_mem] tap by (auto simp: t taps_ok_def)
  let ?v = "row ! x0 * 256 + (row ! x1 - row ! x0) * wt"
  have v: "256 * (256 * int lo) \<le> ?v" "?v \<le> 256 * (256 * int hi)"
    using mix_bounds [OF ends, of wt] tap by (auto simp: t taps_ok_def)
  have d: "int lo \<le> (?v + 32768) div 65536" "(?v + 32768) div 65536 \<le> int hi" using v by linarith+
  then have "((?v + 32768) div 65536) mod 256 = (?v + 32768) div 65536" using hi by (intro mod_pos_pos_trivial) auto
  then show ?thesis using d by (auto simp: mix_pixel_def t)
qed

lemma enlarge_bounds:
  assumes r: "float_rounding rnd" and size: "0 < w" "w \<le> 65536" "0 < h" "h \<le> 65536"
    and grid: "length grid = min 16 w * min 9 h" "\<And>v. v \<in> set grid \<Longrightarrow> lo \<le> v \<and> v \<le> hi" and hi: "hi < 256"
    and mem: "p \<in> set (enlarge rnd w h grid)"
  shows "lo \<le> p \<and> p \<le> hi"
proof -
  obtain yt xt where yt: "yt \<in> set (bilinearTaps rnd h (min 9 h))" and xt: "xt \<in> set (bilinearTaps rnd w (min 16 w))"
    and p: "p = mix_pixel (mix_row grid (min 16 w) yt) xt"
    using mem by (auto simp: enlarge_def Let_def)
  have y: "taps_ok (min 9 h) yt" using bilinearTaps_ok [OF r size(4) _ _ yt] size by simp
  have x: "taps_ok (min 16 w) xt" using bilinearTaps_ok [OF r size(2) _ _ xt] size by simp
  have "length (mix_row grid (min 16 w) yt) = min 16 w" by (auto simp: mix_row_def split: prod.splits)
  then have "taps_ok (length (mix_row grid (min 16 w) yt)) xt" using x by simp
  then show ?thesis unfolding p by (rule mix_pixel_bounds) (use mix_row_bounds [OF y grid] hi in auto)
qed

subsection \<open>Cells\<close>

lemma add_samples_length:
  "length (fst (foldl (\<lambda>st cv. add_sample cv st) st cvs)) = length (fst st) \<and>
   length (snd (foldl (\<lambda>st cv. add_sample cv st) st cvs)) = length (snd st)"
  by (induction cvs arbitrary: st) (auto simp: add_sample_def split: prod.splits)

lemma blur_grid_length: "length (blur_grid w h src) = min 16 w * min 9 h"
  using add_samples_length [of "(replicate (min 16 w * min 9 h) 0, replicate (min 16 w * min 9 h) 0)" "samples (min 16 w) (min 9 h) w h src"]
  by (auto simp: blur_grid_def Let_def split: prod.splits)

text \<open>As long as no sum can reach \<open>2 ^ 32\<close>, a sum is at most 255 times its count.\<close>

lemma add_samples_bound:
  assumes "\<forall>(c, v) \<in> set cvs. v < 256" "length tot = length cnt" "\<forall>c < length tot. tot ! c \<le> 255 * cnt ! c \<and> cnt ! c \<le> m"
    "m + length cvs \<le> 16777216"
  shows "\<forall>c < length tot. fst (foldl (\<lambda>st cv. add_sample cv st) (tot, cnt) cvs) ! c \<le> 255 * snd (foldl (\<lambda>st cv. add_sample cv st) (tot, cnt) cvs) ! c"
  using assms
proof (induction cvs arbitrary: tot cnt m)
  case Nil
  then show ?case by simp
next
  case (Cons cv cvs)
  obtain c v where cv: "cv = (c, v)" by (cases cv)
  have v: "v < 256" using Cons.prems(1) by (simp add: cv)
  let ?tot = "tot[c := (tot ! c + v) mod 2 ^ 32]" and ?cnt = "cnt[c := (cnt ! c + 1) mod 2 ^ 32]"
  have "?tot ! k \<le> 255 * ?cnt ! k \<and> ?cnt ! k \<le> Suc m" if k: "k < length ?tot" for k
  proof (cases "k = c")
    case True
    have c: "tot ! c \<le> 255 * cnt ! c" "cnt ! c \<le> m" using Cons.prems(3) k True by auto
    have "cnt ! c + 1 \<le> 16777216" using c Cons.prems(4) by simp
    then have "(cnt ! c + 1) mod 2 ^ 32 = cnt ! c + 1" "(tot ! c + v) mod 2 ^ 32 = tot ! c + v"
      using c v by (auto intro!: mod_less)
    then show ?thesis using True k c v Cons.prems(2) by simp
  next
    case False
    then show ?thesis using Cons.prems(3) k by (auto simp: le_SucI)
  qed
  then have "\<forall>k < length ?tot. ?tot ! k \<le> 255 * ?cnt ! k \<and> ?cnt ! k \<le> Suc m" by blast
  from Cons.IH [OF _ _ this] Cons.prems(1,2,4) show ?case by (simp add: cv add_sample_def)
qed

lemma every_other_length: "length (every_other n) = (n + 1) div 2"
  by (simp add: every_other_def)

lemma every_other_less: "x \<in> set (every_other n) \<Longrightarrow> x < n"
  by (auto simp: every_other_def)

lemma samples_length: "length (samples gw gh w h src) = ((h + 1) div 2) * ((w + 1) div 2)"
proof -
  have "length (concat (map (\<lambda>y. map (\<lambda>x. (cell_of gw gh w h y x, src ! (y * w + x))) (every_other w)) ys)) = length ys * ((w + 1) div 2)" for ys
    by (induction ys) (simp_all add: every_other_length)
  then show ?thesis by (simp add: samples_def every_other_length)
qed

lemma sample_index: "x \<in> set (every_other w) \<Longrightarrow> y \<in> set (every_other h) \<Longrightarrow> y * w + x < w * h"
proof -
  assume "x \<in> set (every_other w)" "y \<in> set (every_other h)"
  then have "y * w + x < Suc y * w" "Suc y \<le> h" using every_other_less by fastforce+
  then show ?thesis using mult_le_mono1 [of "Suc y" h w] by (simp add: mult.commute)
qed

lemma blur_grid_bytes:
  assumes src: "length src = w * h" "\<And>v. v \<in> set src \<Longrightarrow> v < 256" and size: "((h + 1) div 2) * ((w + 1) div 2) \<le> 16777216"
    and v: "v \<in> set (blur_grid w h src)"
  shows "v \<le> 255"
proof -
  define n where "n = min 16 w * min 9 h"
  define s where "s = samples (min 16 w) (min 9 h) w h src"
  define r where "r = foldl (\<lambda>st cv. add_sample cv st) (replicate n 0, replicate n 0) s"
  have vals: "\<forall>(c, v) \<in> set s. v < 256" using src sample_index by (fastforce simp: samples_def s_def)
  have len: "length (fst r) = n" "length (snd r) = n" unfolding r_def by (simp_all add: add_samples_length)
  have n_s: "0 + length s \<le> 16777216" using size by (simp add: s_def samples_length)
  have bound: "\<forall>c < n. fst r ! c \<le> 255 * snd r ! c"
    using add_samples_bound [OF vals _ _ n_s, of "replicate n 0" "replicate n 0"] by (simp add: r_def)
  have grid: "blur_grid w h src = map2 cell_average (fst r) (snd r)"
    unfolding blur_grid_def Let_def case_prod_unfold n_def r_def s_def by (rule refl)
  obtain c where c: "c < n" "v = cell_average (fst r ! c) (snd r ! c)" using v len unfolding grid by (auto simp: in_set_conv_nth)
  have "fst r ! c div snd r ! c \<le> (255 * snd r ! c) div snd r ! c" using bound c(1) by (intro div_le_mono) simp
  then show ?thesis by (cases "snd r ! c = 0") (simp_all add: c cell_average_def)
qed

lemma samples_cong:
  assumes "\<And>x y. x \<in> set (every_other w) \<Longrightarrow> y \<in> set (every_other h) \<Longrightarrow> src ! (y * w + x) = src' ! (y * w + x)"
  shows "blur_grid w h src = blur_grid w h src'"
proof -
  have "samples gw gh w h src = samples gw gh w h src'" for gw gh
    unfolding samples_def by (intro arg_cong [of _ _ concat] map_cong) (auto simp: assms)
  then show ?thesis by (simp add: blur_grid_def)
qed

lemma enlarge_length: "length (enlarge rnd w h grid) = w * h"
proof -
  have "length (concat (map (\<lambda>t. map (mix_pixel (mix_row grid gw t)) xs) ts)) = length ts * length xs" for ts gw and xs :: "(nat \<times> nat \<times> int) list"
    by (induction ts) simp_all
  then show ?thesis unfolding enlarge_def Let_def by (simp only: bilinearTaps_def length_map length_upt) simp
qed

text \<open>The averages of the cells of the three planes.\<close>

definition frame_cells :: "bytes \<Rightarrow> nat \<Rightarrow> nat \<Rightarrow> nat list list" where
  "frame_cells frame w h =
    (let cw = (w + 1) div 2; ch = (h + 1) div 2; luma = w * h; chroma = cw * ch
     in [blur_grid w h (plane 0 luma frame), blur_grid cw ch (plane luma chroma frame), blur_grid cw ch (plane (luma + chroma) chroma frame)])"

lemma plane_grid_bytes:
  assumes "\<forall>v \<in> set frame. v < 256" "start + w * h \<le> length frame" "w \<le> 8192" "h \<le> 8192" "v \<in> set (blur_grid w h (plane start (w * h) frame))"
  shows "v \<le> 255"
proof (rule blur_grid_bytes [OF _ _ _ assms(5)])
  show "length (plane start (w * h) frame) = w * h" using assms(2) by (simp add: plane_def)
  show "u < 256" if "u \<in> set (plane start (w * h) frame)" for u
    using that assms(1) by (auto simp: plane_def dest!: in_set_takeD in_set_dropD)
  have "(h + 1) div 2 * ((w + 1) div 2) \<le> 4096 * 4096" using assms(3,4) by (intro mult_mono) auto
  then show "(h + 1) div 2 * ((w + 1) div 2) \<le> 16777216" by simp
qed

lemma frame_cells_bytes:
  assumes "\<forall>v \<in> set frame. v < 256" "length frame = rawFrameSize w h" "0 < w" "0 < h" "w \<le> 8192" "h \<le> 8192"
    "c \<in> set (concat (frame_cells frame w h))"
  shows "c \<le> 255"
proof -
  let ?cw = "(w + 1) div 2" and ?ch = "(h + 1) div 2"
  have chroma: "?cw \<le> 8192" "?ch \<le> 8192" using assms(5,6) by auto
  have room: "0 + w * h \<le> length frame" "w * h + ?cw * ?ch \<le> length frame" "w * h + ?cw * ?ch + ?cw * ?ch \<le> length frame"
    using assms(2) by (simp_all add: rawFrameSize_def)
  consider "c \<in> set (blur_grid w h (plane 0 (w * h) frame))" | "c \<in> set (blur_grid ?cw ?ch (plane (w * h) (?cw * ?ch) frame))"
    | "c \<in> set (blur_grid ?cw ?ch (plane (w * h + ?cw * ?ch) (?cw * ?ch) frame))"
    using assms(7) by (auto simp: frame_cells_def Let_def)
  then show ?thesis
    by cases (rule plane_grid_bytes [OF assms(1) room(1) assms(5,6)] plane_grid_bytes [OF assms(1) room(2) chroma]
        plane_grid_bytes [OF assms(1) room(3) chroma]; assumption)+
qed

lemma blur_plane_bounds:
  assumes "float_rounding rnd" "0 < w" "w \<le> 65536" "0 < h" "h \<le> 65536"
    "\<And>c. c \<in> set (blur_grid w h src) \<Longrightarrow> lo \<le> c \<and> c \<le> hi \<and> c \<le> 255" "p \<in> set (enlarge rnd w h (blur_grid w h src))"
  shows "lo \<le> p \<and> p \<le> hi"
proof -
  have "lo \<le> p \<and> p \<le> min hi 255"
    by (rule enlarge_bounds [OF assms(1-5) blur_grid_length _ _ assms(7)]) (use assms(6) in auto)
  then show ?thesis by simp
qed

lemma frame_cells_length: "length (concat (frame_cells frame w h)) \<le> 432"
proof -
  have "min 16 a * min 9 b \<le> 16 * (9::nat)" for a b by (intro mult_mono) auto
  then have "length (blur_grid a b src) \<le> 144" for a b src by (simp add: blur_grid_length)
  from add_mono [OF this add_mono [OF this this]] show ?thesis by (simp add: frame_cells_def Let_def)
qed

text \<open>
  Property C35. The fail-closed blur of a raw frame shows nothing but cell averages: it exists for every frame
  of the right size and has that size; it is a function of at most 432 averages (two frames with the same
  averages have the same blur, whatever their detail); and every byte of it lies within the range of the
  averages, so no rounding of \<open>float64\<close> and no wrap-around of the counters brings anything else to the screen.
\<close>

theorem blur_shows_only_cell_averages:
  assumes r: "float_rounding rnd" and size: "0 < w" "w \<le> 8192" "0 < h" "h \<le> 8192"
    and frame: "length frame = rawFrameSize w h" "\<forall>v \<in> set frame. v < 256"
  shows "\<exists>out. blurRawFrame rnd frame w h = Some out \<and> length out = rawFrameSize w h \<and>
    length (concat (frame_cells frame w h)) \<le> 432 \<and>
    (\<forall>frame'. length frame' = rawFrameSize w h \<longrightarrow> frame_cells frame' w h = frame_cells frame w h \<longrightarrow>
       blurRawFrame rnd frame' w h = Some out) \<and>
    (\<forall>lo hi. (\<forall>c \<in> set (concat (frame_cells frame w h)). lo \<le> c \<and> c \<le> hi) \<longrightarrow> (\<forall>p \<in> set out. lo \<le> p \<and> p \<le> hi))"
proof -
  let ?cw = "(w + 1) div 2" and ?ch = "(h + 1) div 2"
  let ?y = "blur_grid w h (plane 0 (w * h) frame)" and ?u = "blur_grid ?cw ?ch (plane (w * h) (?cw * ?ch) frame)"
    and ?v = "blur_grid ?cw ?ch (plane (w * h + ?cw * ?ch) (?cw * ?ch) frame)"
  let ?out = "enlarge rnd w h ?y @ enlarge rnd ?cw ?ch ?u @ enlarge rnd ?cw ?ch ?v"
  have pos: "rawFrameSize w h \<noteq> 0" using size by (simp add: rawFrameSize_def)
  have chroma: "0 < ?cw" "?cw \<le> 65536" "0 < ?ch" "?ch \<le> 65536" and luma: "w \<le> 65536" "h \<le> 65536" using size by auto
  have out: "blurRawFrame rnd frame w h = Some ?out" using frame pos by (simp add: blurRawFrame_def blurPlane_def Let_def)
  have length: "length ?out = rawFrameSize w h" by (simp add: enlarge_length rawFrameSize_def)
  have same: "blurRawFrame rnd frame' w h = Some ?out"
    if "length frame' = rawFrameSize w h" "frame_cells frame' w h = frame_cells frame w h" for frame'
    using that pos by (simp add: blurRawFrame_def blurPlane_def frame_cells_def Let_def)
  have cells: "set (concat (frame_cells frame w h)) = set ?y \<union> set ?u \<union> set ?v" by (simp add: frame_cells_def Let_def Un_assoc)
  have bounds: "lo \<le> p \<and> p \<le> hi" if all: "\<forall>c \<in> set ?y \<union> set ?u \<union> set ?v. lo \<le> c \<and> c \<le> hi" and p: "p \<in> set ?out" for lo hi p
  proof -
    have c: "lo \<le> c \<and> c \<le> hi \<and> c \<le> 255" if mem: "c \<in> set ?y \<union> set ?u \<union> set ?v" for c
    proof -
      have "c \<in> set (concat (frame_cells frame w h))" unfolding cells by (rule mem)
      then have "c \<le> 255" by (rule frame_cells_bytes [OF frame(2,1) size(1,3,2,4)])
      then show ?thesis using all mem by blast
    qed
    consider "p \<in> set (enlarge rnd w h ?y)" | "p \<in> set (enlarge rnd ?cw ?ch ?u)" | "p \<in> set (enlarge rnd ?cw ?ch ?v)"
      using p by auto
    then show ?thesis
    proof cases
      case 1
      show ?thesis by (rule blur_plane_bounds [OF r size(1) luma(1) size(3) luma(2) _ 1]) (rule c, blast)
    next
      case 2
      show ?thesis by (rule blur_plane_bounds [OF r chroma _ 2]) (rule c, blast)
    next
      case 3
      show ?thesis by (rule blur_plane_bounds [OF r chroma _ 3]) (rule c, blast)
    qed
  qed
  then have "\<forall>lo hi. (\<forall>c \<in> set (concat (frame_cells frame w h)). lo \<le> c \<and> c \<le> hi) \<longrightarrow> (\<forall>p \<in> set ?out. lo \<le> p \<and> p \<le> hi)"
    unfolding cells by blast
  then show ?thesis using out length same frame_cells_length by blast
qed

theorem blur_shows_only_cell_averages_witness:
  "\<exists>out. blurRawFrame (\<lambda>q. q) [10, 200, 30, 40, 50, 60, 70, 80, 90, 100, 110, 120] 4 2 = Some out \<and> length out = 12 \<and>
    list_all (\<lambda>p. p \<le> 110) out"
proof -
  have cells: "frame_cells [10, 200, 30, 40, 50, 60, 70, 80, 90, 100, 110, 120] 4 2 = [[10, 0, 30, 0, 0, 0, 0, 0], [90, 0], [110, 0]]"
    by code_simp
  have size: "rawFrameSize 4 2 = 12" by (simp add: rawFrameSize_def)
  have round: "float_rounding (\<lambda>q. q)" by (simp add: float_rounding_def)
  obtain out where out: "blurRawFrame (\<lambda>q. q) [10, 200, 30, 40, 50, 60, 70, 80, 90, 100, 110, 120] 4 2 = Some out" "length out = 12"
    and range: "\<And>lo hi. (\<forall>c \<in> set (concat [[10, 0, 30, 0, 0, 0, 0, 0], [90, 0], [110, 0]]). lo \<le> c \<and> c \<le> hi) \<Longrightarrow> (\<forall>p \<in> set out. lo \<le> p \<and> p \<le> hi)"
    using blur_shows_only_cell_averages [OF round, of 4 2 "[10, 200, 30, 40, 50, 60, 70, 80, 90, 100, 110, 120]", unfolded cells size] by auto
  show ?thesis using out range [of 0 110] by (auto simp: list_all_iff)
qed



text \<open>
  A plane narrower than 32 pixels can have cells without a sample (the samples are every second pixel); the code
  shows them as zero, which is not an average of the plane. A uniform grey frame of four by two pixels shows it.
\<close>

lemma narrow_frame_has_empty_cells:
  "blurRawFrame (\<lambda>q. q) (replicate 12 100) 4 2 = Some [100, 0, 100, 0, 0, 0, 0, 0, 100, 0, 100, 0]"
  by code_simp

subsection \<open>What the AI is told about a frame\<close>

text \<open>A \<open>float64\<close> from a request: finite, an infinity (with its sign) or not a number.\<close>

datatype float64 = Finite rat | Inf bool | NaN

record MosaicConfig =
  BlurRadius :: "float64 option"
  PixelSize :: "nat option"
  MaskMargin :: "nat option"

abbreviation MaxMosaicBlurRadius :: rat where "MaxMosaicBlurRadius \<equiv> 64"
abbreviation MinMosaicPixelSize :: nat where "MinMosaicPixelSize \<equiv> 1"
abbreviation MaxMosaicPixelSize :: nat where "MaxMosaicPixelSize \<equiv> 8"
abbreviation MaxMosaicMaskMargin :: nat where "MaxMosaicMaskMargin \<equiv> 64"

definition bad_radius :: "float64 \<Rightarrow> bool" where
  "bad_radius r = (case r of NaN \<Rightarrow> True | Inf _ \<Rightarrow> True | Finite q \<Rightarrow> q \<le> 0 \<or> q > MaxMosaicBlurRadius)"

definition ValidateMosaic :: "MosaicConfig \<Rightarrow> string option" where
  "ValidateMosaic c =
    (if (case BlurRadius c of None \<Rightarrow> False | Some r \<Rightarrow> bad_radius r) then Some ''blur_radius''
     else if (case PixelSize c of None \<Rightarrow> False | Some p \<Rightarrow> p < MinMosaicPixelSize \<or> p > MaxMosaicPixelSize) then Some ''pixel_size''
     else if (case MaskMargin c of None \<Rightarrow> False | Some m \<Rightarrow> m > MaxMosaicMaskMargin) then Some ''mask_margin''
     else None)"

text \<open>Comparison of two \<open>float64\<close>: not a number equals nothing.\<close>

definition float_equal :: "float64 \<Rightarrow> float64 \<Rightarrow> bool" where
  "float_equal a b = (a \<noteq> NaN \<and> a = b)"

definition equalPointer :: "('a \<Rightarrow> 'a \<Rightarrow> bool) \<Rightarrow> 'a option \<Rightarrow> 'a option \<Rightarrow> bool" where
  "equalPointer eq a b = (case (a, b) of (Some x, Some y) \<Rightarrow> eq x y | (None, None) \<Rightarrow> True | _ \<Rightarrow> False)"

definition EqualMosaic :: "MosaicConfig \<Rightarrow> MosaicConfig \<Rightarrow> bool" where
  "EqualMosaic c d = (equalPointer float_equal (BlurRadius c) (BlurRadius d) \<and>
     equalPointer (=) (PixelSize c) (PixelSize d) \<and> equalPointer (=) (MaskMargin c) (MaskMargin d))"

definition aiMaskMargin :: "(rat \<Rightarrow> rat) \<Rightarrow> nat \<Rightarrow> nat \<Rightarrow> nat \<Rightarrow> nat \<Rightarrow> nat \<Rightarrow> nat" where
  "aiMaskMargin rnd margin inW inH outW outH =
    (if inW = 0 \<or> inH = 0 \<or> outW = 0 \<or> outH = 0 then margin
     else let scale = max (rnd (of_nat inW / of_nat outW)) (rnd (of_nat inH / of_nat outH));
              converted = round (rnd (of_nat margin * scale))
          in if converted > int MaxMosaicMaskMargin then MaxMosaicMaskMargin else nat converted)"

definition aiRequest :: "(rat \<Rightarrow> rat) \<Rightarrow> MosaicConfig \<Rightarrow> nat \<Rightarrow> nat \<Rightarrow> nat \<Rightarrow> nat \<Rightarrow> MosaicConfig option" where
  "aiRequest rnd c inW inH outW outH =
    (if BlurRadius c = None \<and> PixelSize c = None \<and> MaskMargin c = None then None
     else Some (c\<lparr>MaskMargin := map_option (\<lambda>m. aiMaskMargin rnd m inW inH outW outH) (MaskMargin c)\<rparr>))"

lemma EqualMosaic_eq: "BlurRadius c \<noteq> Some NaN \<Longrightarrow> EqualMosaic c d \<longleftrightarrow> c = d"
  by (cases c, cases d) (auto simp: EqualMosaic_def equalPointer_def float_equal_def split: option.splits)

lemma Validate_no_NaN: "ValidateMosaic c = None \<Longrightarrow> BlurRadius c \<noteq> Some NaN"
  by (auto simp: ValidateMosaic_def bad_radius_def split: if_splits)

lemma aiMaskMargin_bound: "m \<le> 64 \<Longrightarrow> aiMaskMargin rnd m inW inH outW outH \<le> 64"
  by (auto simp: aiMaskMargin_def Let_def)

lemma request_in_contract: "ValidateMosaic c = None \<Longrightarrow> aiRequest rnd c a b w h = Some r \<Longrightarrow> ValidateMosaic r = None"
  by (auto simp: ValidateMosaic_def aiRequest_def aiMaskMargin_bound not_less split: if_splits option.splits)

lemma empty_request: "aiRequest rnd c a b w h = None \<longleftrightarrow> BlurRadius c = None \<and> PixelSize c = None \<and> MaskMargin c = None"
  by (simp add: aiRequest_def)

lemma same_size_keeps_margin:
  assumes "float_rounding rnd" "m \<le> 64" "0 < w" "0 < h"
  shows "aiMaskMargin rnd m w h w h = m"
  using assms rounding_int [OF assms(1), of 1] rounding_int [OF assms(1), of "int m"] by (simp add: aiMaskMargin_def Let_def)

subsection \<open>What the AI did to a frame\<close>

record FaceMetadata =
  ClassName :: string
  Whitelisted :: bool
  AnonStatus :: string

record mosaicCounts =
  faces :: nat
  plates :: nat
  whitelistedFaces :: nat
  swappedFaces :: nat
  blurFallbackFaces :: nat

definition count_object :: "mosaicCounts \<Rightarrow> FaceMetadata \<Rightarrow> mosaicCounts" where
  "count_object c ob =
    (let c1 = (if ClassName ob = ''number_plate'' then c\<lparr>plates := plates c + 1\<rparr>
               else if Whitelisted ob then c\<lparr>whitelistedFaces := whitelistedFaces c + 1\<rparr>
               else c\<lparr>faces := faces c + 1\<rparr>)
     in if AnonStatus ob = ''swapped'' then c1\<lparr>swappedFaces := swappedFaces c1 + 1\<rparr>
        else if AnonStatus ob = ''blur_fallback'' then c1\<lparr>blurFallbackFaces := blurFallbackFaces c1 + 1\<rparr>
        else c1)"

definition classifyMosaic :: "FaceMetadata list \<Rightarrow> mosaicCounts" where
  "classifyMosaic obs = foldl count_object \<lparr>faces = 0, plates = 0, whitelistedFaces = 0, swappedFaces = 0, blurFallbackFaces = 0\<rparr> obs"

datatype MosaicKind = FaceOnly | PlateOnly | Both | NoneKind

definition mosaic_kind :: "mosaicCounts \<Rightarrow> MosaicKind" where
  "mosaic_kind c = (if faces c > 0 \<and> plates c > 0 then Both else if faces c > 0 then FaceOnly
     else if plates c > 0 then PlateOnly else NoneKind)"

record MosaicTally =
  t_frames :: "MosaicKind \<Rightarrow> 64 word"
  t_faces :: "64 word"
  t_plates :: "64 word"
  t_whitelisted :: "64 word"
  t_swapped :: "64 word"
  t_blurFallback :: "64 word"

definition NewMosaicTally :: MosaicTally where
  "NewMosaicTally = \<lparr>t_frames = (\<lambda>_. 0), t_faces = 0, t_plates = 0, t_whitelisted = 0, t_swapped = 0, t_blurFallback = 0\<rparr>"

definition recordTally :: "MosaicTally \<Rightarrow> mosaicCounts \<Rightarrow> MosaicTally" where
  "recordTally t c = t\<lparr>t_frames := (t_frames t)(mosaic_kind c := t_frames t (mosaic_kind c) + 1),
     t_faces := t_faces t + of_nat (faces c), t_plates := t_plates t + of_nat (plates c),
     t_whitelisted := t_whitelisted t + of_nat (whitelistedFaces c), t_swapped := t_swapped t + of_nat (swappedFaces c),
     t_blurFallback := t_blurFallback t + of_nat (blurFallbackFaces c)\<rparr>"

lemma classify_counts:
  "faces (foldl count_object c obs) = faces c + length (filter (\<lambda>ob. ClassName ob \<noteq> ''number_plate'' \<and> \<not> Whitelisted ob) obs) \<and>
   plates (foldl count_object c obs) = plates c + length (filter (\<lambda>ob. ClassName ob = ''number_plate'') obs) \<and>
   whitelistedFaces (foldl count_object c obs) = whitelistedFaces c + length (filter (\<lambda>ob. ClassName ob \<noteq> ''number_plate'' \<and> Whitelisted ob) obs)"
  by (induction obs arbitrary: c) (auto simp: count_object_def Let_def)

text \<open>Every object is counted in one class.\<close>

lemma classify_partition:
  "faces (classifyMosaic obs) + plates (classifyMosaic obs) + whitelistedFaces (classifyMosaic obs) = length obs"
  unfolding classifyMosaic_def by (simp add: classify_counts) (induction obs; auto)

text \<open>A frame counts as having nothing to blur exactly when every object in it is a whitelisted face.\<close>

lemma kind_none: "mosaic_kind (classifyMosaic obs) = NoneKind \<longleftrightarrow> (\<forall>ob \<in> set obs. ClassName ob \<noteq> ''number_plate'' \<and> Whitelisted ob)"
  by (auto simp: mosaic_kind_def classifyMosaic_def classify_counts filter_empty_conv)

definition tally_of :: "FaceMetadata list list \<Rightarrow> MosaicTally" where
  "tally_of frames = foldl (\<lambda>t obs. recordTally t (classifyMosaic obs)) NewMosaicTally frames"

lemma tally_frames_gen:
  "t_frames (foldl (\<lambda>t obs. recordTally t (classifyMosaic obs)) t frames) k =
   t_frames t k + of_nat (length (filter (\<lambda>obs. mosaic_kind (classifyMosaic obs) = k) frames))"
  by (induction frames arbitrary: t) (auto simp: recordTally_def)

lemma tally_frames: "t_frames (tally_of frames) k = of_nat (length (filter (\<lambda>obs. mosaic_kind (classifyMosaic obs) = k) frames))"
  by (simp add: tally_of_def tally_frames_gen NewMosaicTally_def)

lemma tally_partition: "t_frames (tally_of frames) FaceOnly + t_frames (tally_of frames) PlateOnly + t_frames (tally_of frames) Both +
    t_frames (tally_of frames) NoneKind = of_nat (length frames)"
proof -
  have "length (filter (\<lambda>obs. f obs = FaceOnly) xs) + length (filter (\<lambda>obs. f obs = PlateOnly) xs) +
    length (filter (\<lambda>obs. f obs = Both) xs) + length (filter (\<lambda>obs. f obs = NoneKind) xs) = length xs" for f :: "'a \<Rightarrow> MosaicKind" and xs
    by (induction xs) (auto intro: MosaicKind.exhaust)
  from this [of "\<lambda>obs. mosaic_kind (classifyMosaic obs)" frames] show ?thesis
    unfolding tally_frames by (simp flip: of_nat_add)
qed

end
