(* ===== verification/PrivacyProcessor.thy ===== *)
theory PrivacyProcessor
  imports FrameBlur EgressWriter
begin

text \<open>
  The privacy processor of a session (\<^verbatim>\<open>internal/media/processor.go\<close>), the fail-closed boundary between
  the camera and the broadcast, and the loop that feeds it (\<^verbatim>\<open>processImages\<close> of \<^verbatim>\<open>track.go\<close>).

  A call takes the lock \<open>aiMu\<close> for its whole length, so a setting and the processing of a frame exclude each
  other; the frames of a session are processed by one goroutine. A run is therefore a sequence of whole calls.
  What the AI answers, how long things take and whether the context ends are arguments of a call. The field
  \<open>p_log\<close> is a ghost: the calls of the AI and the counters that the code raises, the latest first.
\<close>

subsection \<open>Configuration, errors and answers\<close>

datatype PrivacyMode = PrivacyModeBypass | PrivacyModeFixedDelay | PrivacyModeReal | PrivacyModeOther

datatype WireFormat = WireFormatUnset | WireFormatJPEG | WireFormatRaw

datatype AIFailurePolicy = FailurePolicyUnset | FailurePolicyBlackoutLatch | FailurePolicyFreeze

text \<open>What the code asks of an error of the stream: \<open>errors.Is\<close> of the two context errors and the gRPC code.\<close>

record ai_error =
  isCanceled :: bool
  isDeadline :: bool
  codeDeadline :: bool

record ProcessedVideoChunk =
  c_timestamp :: int
  c_errorCode :: string
  c_statusMessage :: string
  c_data :: bytes
  c_faces :: "FaceMetadata list"

datatype process_error =
    AIInputPaused | ContextDone | UnsupportedMode | NotReal | AIFailed ai_error | TimestampMismatch
  | InferenceTimeout | ErrorCode string | BadStatus string | EmptyFrame | NoDimensions | EncodeFailed | NoAIStream

datatype latch_hint = HintInference | HintTimeout | HintRaw | HintDefault

record ai_request =
  q_frame :: bytes
  q_timestamp :: int
  q_width :: nat
  q_height :: nat
  q_pixFmt :: string
  q_mosaic :: "MosaicConfig option"

text \<open>The outcome of a call of the AI, as the latch sees it.\<close>

datatype outcome = Good | Timeout | Fatal | Canceled

datatype processor_event =
    AskedAI instant ai_request outcome
  | ClosedAI
  | FallbackFrame
  | FallbackLatched latch_hint
  | FallbackRecovered

record Processor =
  p_mode :: PrivacyMode
  p_ai :: bool
  p_aiInputPaused :: bool
  p_anonymizationEnabled :: bool
  p_screenBlurEnabled :: bool
  p_mosaicConfig :: MosaicConfig
  p_egressWidth :: nat
  p_egressHeight :: nat
  p_privacyGeneration :: nat
  p_wireFormat :: WireFormat
  p_failurePolicy :: AIFailurePolicy
  p_timeoutLatchThreshold :: nat
  p_consecutiveTimeouts :: nat
  p_fallback :: bool
  p_recoveryProbeInterval :: duration
  p_lastProbeAt :: "instant option"
  p_blackoutData :: "bytes option"
  p_blackoutWidth :: nat
  p_blackoutHeight :: nat
  p_mosaicTally :: "MosaicTally option"
  p_log :: "processor_event list"

text \<open>
  \<open>image/jpeg\<close> and the rounding of \<open>float64\<close>: \<open>j_config\<close> is \<open>jpeg.DecodeConfig\<close>, \<open>j_encode\<close> is
  \<open>jpeg.Encode\<close> with quality 75, both \<open>None\<close> on an error.
\<close>

record YCbCr =
  im_width :: nat
  im_height :: nat
  im_Y :: bytes
  im_Cb :: bytes
  im_Cr :: bytes

record codec =
  j_config :: "bytes \<Rightarrow> (nat \<times> nat) option"
  j_encode :: "YCbCr \<Rightarrow> bytes option"
  j_round :: "rat \<Rightarrow> rat"

abbreviation defaultRecoveryProbeInterval :: duration where
  "defaultRecoveryProbeInterval \<equiv> Second"

subsection \<open>Construction\<close>

text \<open>\<open>privacyGenerations.Add(1)\<close>: the counter of the process, a \<open>uint64\<close>.\<close>

definition next_generation :: "nat \<Rightarrow> nat" where
  "next_generation g = (g + 1) mod 2 ^ 64"

definition NewProcessor ::
    "PrivacyMode \<Rightarrow> bool \<Rightarrow> WireFormat \<Rightarrow> AIFailurePolicy \<Rightarrow> int \<Rightarrow> nat \<Rightarrow> (process_error + Processor) \<times> nat" where
  "NewProcessor mode ai wire policy threshold gens =
    (if mode = PrivacyModeReal \<and> \<not> ai then (Err NoAIStream, gens)
     else (Ok \<lparr>p_mode = mode, p_ai = ai, p_aiInputPaused = False, p_anonymizationEnabled = (mode = PrivacyModeReal),
       p_screenBlurEnabled = False, p_mosaicConfig = \<lparr>BlurRadius = None, PixelSize = None, MaskMargin = None\<rparr>,
       p_egressWidth = 0, p_egressHeight = 0, p_privacyGeneration = next_generation gens,
       p_wireFormat = (if wire = WireFormatUnset then WireFormatJPEG else wire),
       p_failurePolicy = (if policy = FailurePolicyUnset then FailurePolicyBlackoutLatch else policy),
       p_timeoutLatchThreshold = nat threshold, p_consecutiveTimeouts = 0, p_fallback = False,
       p_recoveryProbeInterval = defaultRecoveryProbeInterval, p_lastProbeAt = None, p_blackoutData = None,
       p_blackoutWidth = 0, p_blackoutHeight = 0, p_mosaicTally = None, p_log = []\<rparr>, next_generation gens))"

definition note_event :: "processor_event \<Rightarrow> Processor \<Rightarrow> Processor" where
  "note_event ev p = p\<lparr>p_log := ev # p_log p\<rparr>"

definition close_ai :: "Processor \<Rightarrow> Processor" where
  "close_ai p = (if p_ai p then note_event ClosedAI p else p)"

subsection \<open>Settings\<close>

definition SuspendAIInput :: "Processor \<Rightarrow> Processor" where
  "SuspendAIInput p = (if p_mode p \<noteq> PrivacyModeReal then p else close_ai (p\<lparr>p_aiInputPaused := True\<rparr>))"

definition ResumeAIInput :: "Processor \<Rightarrow> Processor" where
  "ResumeAIInput p = (if p_mode p \<noteq> PrivacyModeReal then p else p\<lparr>p_aiInputPaused := False\<rparr>)"

definition new_setting :: "bool \<Rightarrow> Processor \<times> nat \<Rightarrow> Processor \<times> nat" where
  "new_setting changed pg = (case pg of (p, g) \<Rightarrow>
     if changed then (p\<lparr>p_privacyGeneration := next_generation g\<rparr>, next_generation g) else (p, g))"

definition SetAnonymizationEnabled :: "bool \<Rightarrow> Processor \<times> nat \<Rightarrow> Processor \<times> nat" where
  "SetAnonymizationEnabled enabled pg =
    (if p_mode (fst pg) \<noteq> PrivacyModeReal then pg
     else let (p, g) = new_setting (p_anonymizationEnabled (fst pg) \<noteq> enabled) pg in (p\<lparr>p_anonymizationEnabled := enabled\<rparr>, g))"

definition SetScreenBlurEnabled :: "bool \<Rightarrow> Processor \<times> nat \<Rightarrow> Processor \<times> nat" where
  "SetScreenBlurEnabled enabled pg =
    (if p_mode (fst pg) \<noteq> PrivacyModeReal then pg
     else let (p, g) = new_setting (p_screenBlurEnabled (fst pg) \<noteq> enabled) pg in (p\<lparr>p_screenBlurEnabled := enabled\<rparr>, g))"

definition SetMosaicConfig :: "MosaicConfig \<Rightarrow> Processor \<times> nat \<Rightarrow> Processor \<times> nat" where
  "SetMosaicConfig cfg pg =
    (if p_mode (fst pg) \<noteq> PrivacyModeReal then pg
     else let (p, g) = new_setting (\<not> EqualMosaic (p_mosaicConfig (fst pg)) cfg) pg in (p\<lparr>p_mosaicConfig := cfg\<rparr>, g))"

text \<open>\<open>SetEgressVideoSize\<close> with the size that \<open>parseVideoSize\<close> reads from the configuration.\<close>

definition SetEgressVideoSize :: "nat \<Rightarrow> nat \<Rightarrow> Processor \<Rightarrow> Processor" where
  "SetEgressVideoSize w h p = p\<lparr>p_egressWidth := w, p_egressHeight := h\<rparr>"

definition SetMosaicTally :: "MosaicTally option \<Rightarrow> Processor \<Rightarrow> Processor" where
  "SetMosaicTally t p = p\<lparr>p_mosaicTally := t\<rparr>"

definition ScreenBlurEnabled :: "Processor \<Rightarrow> bool" where
  "ScreenBlurEnabled p = (p_mode p = PrivacyModeReal \<and> p_screenBlurEnabled p)"

definition AnonymizationEnabled :: "Processor \<Rightarrow> bool" where
  "AnonymizationEnabled p = (p_mode p = PrivacyModeReal \<and> p_anonymizationEnabled p)"

subsection \<open>The frames of the fallback\<close>

definition raw_black :: "nat \<Rightarrow> nat \<Rightarrow> bytes" where
  "raw_black w h = replicate (w * h) 16 @ replicate (rawFrameSize w h - w * h) 128"

definition black_image :: "nat \<Rightarrow> nat \<Rightarrow> YCbCr" where
  "black_image w h = (let chroma = ((w + 1) div 2) * ((h + 1) div 2)
     in \<lparr>im_width = w, im_height = h, im_Y = replicate (w * h) 16, im_Cb = replicate chroma 128, im_Cr = replicate chroma 128\<rparr>)"

definition blackoutFrame :: "codec \<Rightarrow> bytes \<Rightarrow> nat \<Rightarrow> nat \<Rightarrow> Processor \<Rightarrow> (process_error + bytes) \<times> Processor" where
  "blackoutFrame c reference w h p =
    (case (if p_blackoutWidth p = w \<and> p_blackoutHeight p = h then p_blackoutData p else None) of
       Some d \<Rightarrow> (Ok d, p)
     | None \<Rightarrow>
         let p = p\<lparr>p_blackoutWidth := w, p_blackoutHeight := h\<rparr> in
         if p_wireFormat p = WireFormatRaw
         then if rawFrameSize w h = 0 then (Err NoDimensions, p)
              else (Ok (raw_black w h), p\<lparr>p_blackoutData := Some (raw_black w h)\<rparr>)
         else let (tw, th) = (case j_config c reference of Some d \<Rightarrow> d | None \<Rightarrow> (w, h)) in
              if tw = 0 \<or> th = 0 then (Err NoDimensions, p)
              else (case j_encode c (black_image tw th) of
                      None \<Rightarrow> (Err EncodeFailed, p)
                    | Some d \<Rightarrow> (Ok d, p\<lparr>p_blackoutData := Some d\<rparr>)))"

definition blur_of :: "codec \<Rightarrow> WireFormat \<Rightarrow> bytes \<Rightarrow> nat \<Rightarrow> nat \<Rightarrow> bytes option" where
  "blur_of c wire frame w h = (if wire = WireFormatRaw then blurRawFrame (j_round c) frame w h else None)"

definition serveBlackout ::
    "codec \<Rightarrow> bytes \<Rightarrow> nat \<Rightarrow> nat \<Rightarrow> process_error option \<Rightarrow> Processor \<Rightarrow> (process_error + bytes) \<times> Processor" where
  "serveBlackout c reference w h because p =
    (case blur_of c (p_wireFormat p) reference w h of
       Some b \<Rightarrow> (Ok b, note_event FallbackFrame p)
     | None \<Rightarrow> (case blackoutFrame c reference w h p of
         (Err err, p) \<Rightarrow> (Err (case because of Some e \<Rightarrow> e | None \<Rightarrow> err), p)
       | (Ok black, p) \<Rightarrow> (Ok black, note_event FallbackFrame p)))"

definition screenBlur :: "codec \<Rightarrow> bytes \<Rightarrow> nat \<Rightarrow> nat \<Rightarrow> Processor \<Rightarrow> (process_error + bytes) \<times> Processor" where
  "screenBlur c frame w h p =
    (case blur_of c (p_wireFormat p) frame w h of Some b \<Rightarrow> (Ok b, p) | None \<Rightarrow> blackoutFrame c frame w h p)"

subsection \<open>Asking the AI\<close>

text \<open>
  \<open>strings.EqualFold\<close> of a text with a word of lower-case ASCII letters: every letter in either case, and for
  \<open>s\<close> also the long s (U+017F), the only other character that folds to a letter of \<open>success\<close>.
\<close>

fun equal_fold :: "string \<Rightarrow> string \<Rightarrow> bool" where
  "equal_fold t [] = (t = [])"
| "equal_fold t (c # pattern) =
    ((t \<noteq> [] \<and> (hd t = c \<or> of_char (hd t) + 32 = (of_char c :: nat)) \<and> equal_fold (drop 1 t) pattern) \<or>
     (c = CHR ''s'' \<and> take 2 t = [CHR 0xC5, CHR 0xBF] \<and> equal_fold (drop 2 t) pattern))"

definition isTimeoutError :: "process_error \<Rightarrow> bool" where
  "isTimeoutError err = (case err of AIFailed e \<Rightarrow> isDeadline e \<or> codeDeadline e | InferenceTimeout \<Rightarrow> True | _ \<Rightarrow> False)"

definition is_canceled :: "process_error \<Rightarrow> bool" where
  "is_canceled err = (case err of AIFailed e \<Rightarrow> isCanceled e | _ \<Rightarrow> False)"

definition latchHint :: "process_error \<Rightarrow> WireFormat \<Rightarrow> latch_hint" where
  "latchHint err wire = (if err = InferenceTimeout then HintInference else if isTimeoutError err then HintTimeout
     else if wire = WireFormatRaw then HintRaw else HintDefault)"

definition aiPixFmt :: "Processor \<Rightarrow> string" where
  "aiPixFmt p = (if p_wireFormat p = WireFormatRaw then ''yuv420p'' else '''')"

text \<open>The checks of \<open>processImage\<close> on what the stream returned.\<close>

definition accept_answer :: "int \<Rightarrow> ai_error + ProcessedVideoChunk \<Rightarrow> process_error + ProcessedVideoChunk" where
  "accept_answer ts answer = (case answer of
      Err e \<Rightarrow> Err (AIFailed e)
    | Ok r \<Rightarrow>
        if c_timestamp r \<noteq> ts then Err TimestampMismatch
        else if c_errorCode r \<noteq> [] then
          (if c_errorCode r = ''INFERENCE_TIMEOUT'' then Err InferenceTimeout else Err (ErrorCode (c_errorCode r)))
        else if \<not> equal_fold (c_statusMessage r) ''success'' then Err (BadStatus (c_statusMessage r))
        else if c_data r = [] then Err EmptyFrame
        else Ok r)"

definition outcome_of :: "process_error + ProcessedVideoChunk \<Rightarrow> outcome" where
  "outcome_of res = (case res of Ok _ \<Rightarrow> Good | Err err \<Rightarrow>
     if is_canceled err then Canceled else if isTimeoutError err then Timeout else Fatal)"

definition recordMosaic :: "FaceMetadata list \<Rightarrow> Processor \<Rightarrow> Processor" where
  "recordMosaic obs p = p\<lparr>p_mosaicTally := map_option (\<lambda>t. recordTally t (classifyMosaic obs)) (p_mosaicTally p)\<rparr>"

text \<open>A call with its frame: the answer that the AI would give, the time of each reading of the clock.\<close>

record frame_call =
  fc_frame :: bytes
  fc_timestamp :: int
  fc_width :: nat
  fc_height :: nat
  fc_answer :: "ai_error + ProcessedVideoChunk"
  fc_before :: nat
  fc_asking :: nat
  fc_contextDone :: bool

definition ask_of :: "codec \<Rightarrow> frame_call \<Rightarrow> Processor \<Rightarrow> ai_request" where
  "ask_of c f p = \<lparr>q_frame = fc_frame f, q_timestamp = fc_timestamp f, q_width = fc_width f, q_height = fc_height f,
     q_pixFmt = aiPixFmt p,
     q_mosaic = aiRequest (j_round c) (p_mosaicConfig p) (fc_width f) (fc_height f) (p_egressWidth p) (p_egressHeight p)\<rparr>"

definition processImage :: "codec \<Rightarrow> frame_call \<Rightarrow> instant \<Rightarrow> Processor \<Rightarrow> (process_error + bytes) \<times> Processor" where
  "processImage c f now p =
    (if p_mode p \<noteq> PrivacyModeReal then (Err NotReal, p)
     else let res = accept_answer (fc_timestamp f) (fc_answer f);
              p = note_event (AskedAI now (ask_of c f p) (outcome_of res)) p
          in case res of Err err \<Rightarrow> (Err err, p) | Ok r \<Rightarrow> (Ok (c_data r), recordMosaic (c_faces r) p))"

subsection \<open>Processing a frame\<close>

definition probe_due :: "instant \<Rightarrow> Processor \<Rightarrow> bool" where
  "probe_due now p = (case p_lastProbeAt p of None \<Rightarrow> True | Some l \<Rightarrow> now - l \<ge> p_recoveryProbeInterval p)"

text \<open>
  \<open>process\<close> at the instant \<open>now\<close>: the AI is asked at \<open>now\<close> (after the probe's clock was read) and has answered
  \<open>fc_asking\<close> later, when a new latch sets \<open>lastProbeAt\<close>.
\<close>

definition process_latched :: "codec \<Rightarrow> frame_call \<Rightarrow> instant \<Rightarrow> Processor \<Rightarrow> (process_error + bytes) \<times> Processor" where
  "process_latched c f now p =
    (if \<not> probe_due now p then serveBlackout c (fc_frame f) (fc_width f) (fc_height f) None p
     else case processImage c f now (p\<lparr>p_lastProbeAt := Some now\<rparr>) of
        (Err err, p) \<Rightarrow> serveBlackout c (fc_frame f) (fc_width f) (fc_height f) (Some err) p
      | (Ok out, p) \<Rightarrow> (Ok out, note_event FallbackRecovered (p\<lparr>p_fallback := False, p_consecutiveTimeouts := 0\<rparr>)))"

definition latch :: "process_error \<Rightarrow> instant \<Rightarrow> Processor \<Rightarrow> Processor" where
  "latch err now p = (if p_fallback p then p
     else note_event (FallbackLatched (latchHint err (p_wireFormat p))) (p\<lparr>p_fallback := True, p_lastProbeAt := Some now\<rparr>))"

definition after_failure :: "codec \<Rightarrow> frame_call \<Rightarrow> process_error \<Rightarrow> instant \<Rightarrow> Processor \<Rightarrow> (process_error + bytes) \<times> Processor" where
  "after_failure c f err now p =
    (let serve = serveBlackout c (fc_frame f) (fc_width f) (fc_height f) (Some err) in
     if is_canceled err then (Err err, p)
     else if p_failurePolicy p = FailurePolicyFreeze then (Err err, p)
     else if isTimeoutError err then
       (let p = p\<lparr>p_consecutiveTimeouts := p_consecutiveTimeouts p + 1\<rparr> in
        if p_consecutiveTimeouts p \<le> p_timeoutLatchThreshold p then serve p else serve (latch err now p))
     else serve (latch err now (p\<lparr>p_consecutiveTimeouts := 0\<rparr>)))"

definition process_frame :: "codec \<Rightarrow> frame_call \<Rightarrow> instant \<Rightarrow> Processor \<Rightarrow> (process_error + bytes) \<times> Processor" where
  "process_frame c f now p = (case p_mode p of
      PrivacyModeBypass \<Rightarrow> (Ok (fc_frame f), p)
    | PrivacyModeFixedDelay \<Rightarrow> (if fc_contextDone f then Err ContextDone else Ok (fc_frame f), p)
    | PrivacyModeReal \<Rightarrow>
        (if p_fallback p then process_latched c f now p
         else case processImage c f now p of
            (Ok out, p) \<Rightarrow> (Ok out, p\<lparr>p_consecutiveTimeouts := 0\<rparr>)
          | (Err err, p) \<Rightarrow> after_failure c f err (now + int (fc_asking f)) p)
    | PrivacyModeOther \<Rightarrow> (Err UnsupportedMode, p))"

definition Process :: "codec \<Rightarrow> frame_call \<Rightarrow> instant \<Rightarrow> Processor \<Rightarrow> (process_error + bytes) \<times> Processor" where
  "Process c f now p =
    (if p_mode p = PrivacyModeReal \<and> p_aiInputPaused p then (Err AIInputPaused, p)
     else if p_mode p = PrivacyModeReal \<and> p_screenBlurEnabled p then screenBlur c (fc_frame f) (fc_width f) (fc_height f) p
     else if p_mode p = PrivacyModeReal \<and> \<not> p_anonymizationEnabled p then (Ok (fc_frame f), p)
     else process_frame c f now p)"

text \<open>\<open>ProcessIfAIInputEnabled\<close>; \<open>None\<close> is \<open>processed = false\<close>.\<close>

definition ProcessIfAIInputEnabled :: "codec \<Rightarrow> frame_call \<Rightarrow> instant \<Rightarrow> Processor \<Rightarrow> (process_error + bytes) option \<times> Processor" where
  "ProcessIfAIInputEnabled c f now p =
    (if p_mode p = PrivacyModeReal \<and> p_aiInputPaused p then (None, p)
     else if p_mode p = PrivacyModeReal \<and> p_screenBlurEnabled p
     then map_prod Some id (screenBlur c (fc_frame f) (fc_width f) (fc_height f) p)
     else if p_mode p = PrivacyModeReal \<and> \<not> p_anonymizationEnabled p then (Some (Ok (fc_frame f)), p)
     else map_prod Some id (process_frame c f now p))"

text \<open>\<open>ProcessImage\<close>, which no caller of the server uses.\<close>

definition ProcessImage :: "codec \<Rightarrow> frame_call \<Rightarrow> instant \<Rightarrow> Processor \<Rightarrow> (process_error + bytes) \<times> Processor" where
  "ProcessImage c f now p = (if p_aiInputPaused p then (Err AIInputPaused, p) else processImage c f now p)"

subsection \<open>Runs\<close>

datatype setting =
    Suspend | Resume | Anonymize bool | BlurScreen bool | Mosaic MosaicConfig | EgressSize nat nat | Tally "MosaicTally option"

definition apply_setting :: "setting \<Rightarrow> Processor \<times> nat \<Rightarrow> Processor \<times> nat" where
  "apply_setting s pg = (case s of
      Suspend \<Rightarrow> map_prod SuspendAIInput id pg
    | Resume \<Rightarrow> map_prod ResumeAIInput id pg
    | Anonymize b \<Rightarrow> SetAnonymizationEnabled b pg
    | BlurScreen b \<Rightarrow> SetScreenBlurEnabled b pg
    | Mosaic cfg \<Rightarrow> SetMosaicConfig cfg pg
    | EgressSize w h \<Rightarrow> map_prod (SetEgressVideoSize w h) id pg
    | Tally t \<Rightarrow> map_prod (SetMosaicTally t) id pg)"

text \<open>
  A processor in the process: the counter of the generations, which other sessions raise too (\<open>Elsewhere\<close>), and
  the clock. A frame begins \<open>fc_before\<close> after the last event.
\<close>

record processor_run =
  y_p :: Processor
  y_gens :: nat
  y_now :: instant

datatype run_event = Change setting | Frame frame_call | Elsewhere | Wait nat

definition processor_step :: "codec \<Rightarrow> processor_run \<Rightarrow> run_event \<Rightarrow> processor_run" where
  "processor_step c y ev = (case ev of
      Change s \<Rightarrow> (let (p, g) = apply_setting s (y_p y, y_gens y) in y\<lparr>y_p := p, y_gens := g\<rparr>)
    | Frame f \<Rightarrow> (let now = y_now y + int (fc_before f)
        in y\<lparr>y_p := snd (ProcessIfAIInputEnabled c f now (y_p y)), y_now := now + int (fc_asking f)\<rparr>)
    | Elsewhere \<Rightarrow> y\<lparr>y_gens := next_generation (y_gens y)\<rparr>
    | Wait d \<Rightarrow> y\<lparr>y_now := y_now y + int d\<rparr>)"

definition fresh_processor :: "processor_run \<Rightarrow> bool" where
  "fresh_processor y = (\<exists>mode ai wire policy threshold gens.
     NewProcessor mode ai wire policy threshold gens = (Ok (y_p y), y_gens y))"

subsection \<open>Only hidden frames leave\<close>

text \<open>The black frame: of the size of the frame on a raw wire, of some size on a JPEG wire.\<close>

definition is_black :: "codec \<Rightarrow> WireFormat \<Rightarrow> nat \<Rightarrow> nat \<Rightarrow> bytes \<Rightarrow> bool" where
  "is_black c wire w h out =
    (if wire = WireFormatRaw then \<exists>w' h'. out = raw_black w' h' \<and> (0 < w \<and> 0 < h \<longrightarrow> w' = w \<and> h' = h)
     else \<exists>w' h'. j_encode c (black_image w' h') = Some out)"

definition cache_ok :: "codec \<Rightarrow> WireFormat \<Rightarrow> bytes option \<Rightarrow> nat \<Rightarrow> nat \<Rightarrow> bool" where
  "cache_ok c wire data w h = (\<forall>d. data = Some d \<longrightarrow> is_black c wire w h d)"

abbreviation blackout_ok :: "codec \<Rightarrow> Processor \<Rightarrow> bool" where
  "blackout_ok c p \<equiv> cache_ok c (p_wireFormat p) (p_blackoutData p) (p_blackoutWidth p) (p_blackoutHeight p)"

lemma cache_some [simp]: "cache_ok c wire (Some d) w h = is_black c wire w h d"
  by (simp add: cache_ok_def)

lemma raw_size_pos: "rawFrameSize w h = 0 \<longleftrightarrow> w = 0 \<or> h = 0"
  by (cases "w = 0 \<or> h = 0") (auto simp: rawFrameSize_def)

lemma is_black_raw [simp]: "is_black c WireFormatRaw w h (raw_black w h)"
  by (auto simp: is_black_def)

lemma is_black_jpeg: "wire \<noteq> WireFormatRaw \<Longrightarrow> j_encode c (black_image a b) = Some d \<Longrightarrow> is_black c wire w h d"
  by (auto simp: is_black_def)

text \<open>The cached frame stays black when the code notes the size of a frame for which there is no black frame.\<close>

lemma cache_resized: "cache_ok c wire data a b \<Longrightarrow> w = 0 \<or> h = 0 \<or> wire \<noteq> WireFormatRaw \<Longrightarrow> cache_ok c wire data w h"
  unfolding cache_ok_def is_black_def by (cases "wire = WireFormatRaw") (simp; blast)+

lemma blackoutFrame_black:
  assumes "blackout_ok c p" "blackoutFrame c ref w h p = (res, p')"
  shows "blackout_ok c p'" "p_wireFormat p' = p_wireFormat p" "res = Ok out \<Longrightarrow> is_black c (p_wireFormat p) w h out"
  using assms
  by (auto simp: blackoutFrame_def Let_def raw_size_pos is_black_jpeg cache_resized split: if_splits option.splits prod.splits)

text \<open>What may be shown in place of a frame that the AI has not processed.\<close>

definition is_fallback :: "codec \<Rightarrow> WireFormat \<Rightarrow> frame_call \<Rightarrow> bytes \<Rightarrow> bool" where
  "is_fallback c wire f out = (blur_of c wire (fc_frame f) (fc_width f) (fc_height f) = Some out \<or> is_black c wire (fc_width f) (fc_height f) out)"

text \<open>A frame that the AI processed: the answer to this very frame, a success with data.\<close>

definition is_answer :: "frame_call \<Rightarrow> bytes \<Rightarrow> bool" where
  "is_answer f out = (\<exists>r. accept_answer (fc_timestamp f) (fc_answer f) = Ok r \<and> out = c_data r)"

text \<open>A step that keeps the cache and lets nothing out but \<open>good\<close> frames.\<close>

definition hides :: "codec \<Rightarrow> Processor \<Rightarrow> (bytes \<Rightarrow> bool) \<Rightarrow> (process_error + bytes) \<times> Processor \<Rightarrow> bool" where
  "hides c p good rp = (p_wireFormat (snd rp) = p_wireFormat p \<and>
     cache_ok c (p_wireFormat p) (p_blackoutData (snd rp)) (p_blackoutWidth (snd rp)) (p_blackoutHeight (snd rp)) \<and> (\<forall>out. fst rp = Ok out \<longrightarrow> good out))"

lemma serveBlackout_hides:
  assumes "blackout_ok c p"
  shows "hides c p (is_fallback c (p_wireFormat p) f) (serveBlackout c (fc_frame f) (fc_width f) (fc_height f) because p)"
proof -
  obtain r q where b: "blackoutFrame c (fc_frame f) (fc_width f) (fc_height f) p = (r, q)" by fastforce
  show ?thesis using assms blackoutFrame_black [OF assms b]
    by (auto simp: serveBlackout_def b note_event_def is_fallback_def hides_def split: sum.splits option.splits)
qed

lemma screenBlur_hides:
  assumes "blackout_ok c p"
  shows "hides c p (is_fallback c (p_wireFormat p) f) (screenBlur c (fc_frame f) (fc_width f) (fc_height f) p)"
proof -
  obtain r q where b: "blackoutFrame c (fc_frame f) (fc_width f) (fc_height f) p = (r, q)" by fastforce
  show ?thesis using assms blackoutFrame_black [OF assms b]
    by (auto simp: screenBlur_def b is_fallback_def hides_def split: option.splits)
qed

lemma processImage_frame:
  assumes "processImage c f now p = (res, p')"
  shows "res = Ok out \<Longrightarrow> is_answer f out" "p_wireFormat p' = p_wireFormat p" "p_blackoutData p' = p_blackoutData p"
    "p_blackoutWidth p' = p_blackoutWidth p" "p_blackoutHeight p' = p_blackoutHeight p"
  using assms by (auto simp: processImage_def is_answer_def Let_def note_event_def recordMosaic_def split: if_splits sum.splits)

lemma hides_mono: "hides c q good rp \<Longrightarrow> p_wireFormat q = p_wireFormat p \<Longrightarrow> (\<And>out. good out \<Longrightarrow> good' out) \<Longrightarrow> hides c p good' rp"
  by (auto simp: hides_def)

lemma after_failure_hides:
  assumes "blackout_ok c p"
  shows "hides c p (is_fallback c (p_wireFormat p) f) (after_failure c f err now p)"
proof -
  have "hides c p (is_fallback c (p_wireFormat p) f) (serveBlackout c (fc_frame f) (fc_width f) (fc_height f) (Some err) q)"
    if "p_wireFormat q = p_wireFormat p" "blackout_ok c q" for q
    using serveBlackout_hides [OF that(2), of f "Some err"] that(1) by (simp add: hides_def)
  then show ?thesis using assms by (simp add: after_failure_def Let_def latch_def note_event_def) (simp add: hides_def)
qed

lemma process_frame_hides:
  assumes ok: "blackout_ok c p" and mode: "p_mode p = PrivacyModeReal"
  shows "hides c p (\<lambda>out. is_answer f out \<or> is_fallback c (p_wireFormat p) f out) (process_frame c f now p)"
proof (cases "p_fallback p")
  case latched: True
  show ?thesis
  proof (cases "probe_due now p")
    case False
    then have "process_frame c f now p = serveBlackout c (fc_frame f) (fc_width f) (fc_height f) None p"
      using latched mode by (simp add: process_frame_def process_latched_def)
    then show ?thesis using serveBlackout_hides [OF ok, of f None] by (auto elim: hides_mono)
  next
    case due: True
    obtain res q where i: "processImage c f now (p\<lparr>p_lastProbeAt := Some now\<rparr>) = (res, q)" by fastforce
    have q: "p_wireFormat q = p_wireFormat p" "blackout_ok c q" using processImage_frame [OF i] ok by simp_all
    show ?thesis
    proof (cases res)
      case (Inl err)
      then have "process_frame c f now p = serveBlackout c (fc_frame f) (fc_width f) (fc_height f) (Some err) q"
        using latched mode due by (simp add: process_frame_def process_latched_def i)
      then show ?thesis using serveBlackout_hides [OF q(2), of f "Some err"] q(1) by (auto elim: hides_mono)
    next
      case (Inr out)
      then show ?thesis using latched mode due q processImage_frame(1) [OF i]
        by (simp add: process_frame_def process_latched_def i note_event_def hides_def)
    qed
  qed
next
  case open_frame: False
  obtain res q where i: "processImage c f now p = (res, q)" by fastforce
  have q: "p_wireFormat q = p_wireFormat p" "blackout_ok c q" using processImage_frame [OF i] ok by simp_all
  show ?thesis
  proof (cases res)
    case (Inl err)
    then have "process_frame c f now p = after_failure c f err (now + int (fc_asking f)) q"
      using open_frame mode by (simp add: process_frame_def i)
    then show ?thesis using after_failure_hides [OF q(2), of f err "now + int (fc_asking f)"] q(1) by (auto elim: hides_mono)
  next
    case (Inr out)
    then show ?thesis using open_frame mode q processImage_frame(1) [OF i] by (simp add: process_frame_def i hides_def)
  qed
qed

lemma process_frame_other: "p_mode p \<noteq> PrivacyModeReal \<Longrightarrow> snd (process_frame c f now p) = p"
  by (cases "p_mode p") (simp_all add: process_frame_def)

lemma frame_keeps_cache: "blackout_ok c p \<Longrightarrow> blackout_ok c (snd (ProcessIfAIInputEnabled c f now p))"
  using screenBlur_hides [of c p f] process_frame_hides [of c p f now] process_frame_other [of p c f now]
  by (cases "p_mode p = PrivacyModeReal") (simp_all add: ProcessIfAIInputEnabled_def hides_def)

text \<open>A setting changes neither the wire format, the cache, the mode nor the latch.\<close>

lemma setting_frame [simp]:
  "p_mode (fst (apply_setting s pg)) = p_mode (fst pg)"
  "p_wireFormat (fst (apply_setting s pg)) = p_wireFormat (fst pg)"
  "p_blackoutData (fst (apply_setting s pg)) = p_blackoutData (fst pg)"
  "p_blackoutWidth (fst (apply_setting s pg)) = p_blackoutWidth (fst pg)"
  "p_blackoutHeight (fst (apply_setting s pg)) = p_blackoutHeight (fst pg)"
  by (cases s; cases pg; simp add: apply_setting_def SuspendAIInput_def ResumeAIInput_def SetAnonymizationEnabled_def
      SetScreenBlurEnabled_def SetMosaicConfig_def SetEgressVideoSize_def SetMosaicTally_def new_setting_def close_ai_def note_event_def)+

interpretation blackout_cache: guarded_state "processor_step c" "\<lambda>y. blackout_ok c (y_p y)" "\<lambda>_. True" for c
proof
  fix y :: processor_run and ev
  assume "blackout_ok c (y_p y)"
  then show "blackout_ok c (y_p (processor_step c y ev))"
    by (cases ev) (simp_all add: processor_step_def Let_def case_prod_unfold frame_keeps_cache)
qed

lemma list_all_True [simp]: "list_all (\<lambda>_. True) xs"
  by (simp add: list_all_iff)

lemma NewProcessor_fields:
  assumes "NewProcessor mode ai wire policy threshold gens = (Ok p, g)"
  shows "p_blackoutData p = None \<and> \<not> p_fallback p \<and> p_log p = [] \<and> p_consecutiveTimeouts p = 0 \<and>
    p_recoveryProbeInterval p = Second \<and> p_privacyGeneration p = g \<and> BlurRadius (p_mosaicConfig p) = None"
proof (cases "mode = PrivacyModeReal \<and> \<not> ai")
  case True
  then show ?thesis using assms by (simp add: NewProcessor_def)
next
  case False
  have p: "p = projr (fst (NewProcessor mode ai wire policy threshold gens))" and g: "g = snd (NewProcessor mode ai wire policy threshold gens)"
    by (simp_all add: assms)
  show ?thesis unfolding p g NewProcessor_def if_not_P [OF False] by simp
qed

lemma fresh_processor_fields:
  assumes "fresh_processor y"
  shows "p_blackoutData (y_p y) = None" "\<not> p_fallback (y_p y)" "p_log (y_p y) = []" "p_consecutiveTimeouts (y_p y) = 0"
    "p_recoveryProbeInterval (y_p y) = Second" "p_privacyGeneration (y_p y) = y_gens y" "BlurRadius (p_mosaicConfig (y_p y)) = None"
  using assms NewProcessor_fields unfolding fresh_processor_def by blast+

lemma run_keeps_cache: "fresh_processor y \<Longrightarrow> blackout_ok c (y_p (foldl (processor_step c) y evs))"
  by (rule blackout_cache.run_inv) (simp_all add: fresh_processor_fields cache_ok_def)

subsection \<open>The latch\<close>

text \<open>The calls of the AI in a log, with the instant and the outcome, the latest first.\<close>

fun asked :: "processor_event list \<Rightarrow> (instant \<times> outcome) list" where
  "asked [] = []"
| "asked (AskedAI t q res # lg) = (t, res) # asked lg"
| "asked (ev # lg) = asked lg"

text \<open>
  The abstract latch: when it is set, the AI is asked at most once in an interval; without it every frame asks
  the AI. \<open>frame_asks\<close> is the frame that reaches the AI boundary.
\<close>

record Latch =
  l_on :: bool
  l_last :: "instant option"
  l_streak :: nat
  l_asked :: "(instant \<times> outcome) list"

definition latch_of :: "Processor \<Rightarrow> Latch" where
  "latch_of p = \<lparr>l_on = p_fallback p, l_last = p_lastProbeAt p, l_streak = p_consecutiveTimeouts p, l_asked = asked (p_log p)\<rparr>"

definition latch_due :: "instant \<Rightarrow> Latch \<Rightarrow> bool" where
  "latch_due now l = (case l_last l of None \<Rightarrow> True | Some t \<Rightarrow> now - t \<ge> Second)"

definition latch_frame :: "bool \<Rightarrow> nat \<Rightarrow> outcome \<Rightarrow> instant \<Rightarrow> instant \<Rightarrow> Latch \<Rightarrow> Latch" where
  "latch_frame freeze threshold res now answered l =
    (if l_on l then
       (if \<not> latch_due now l then l
        else if res = Good then \<lparr>l_on = False, l_last = Some now, l_streak = 0, l_asked = (now, res) # l_asked l\<rparr>
        else \<lparr>l_on = True, l_last = Some now, l_streak = l_streak l, l_asked = (now, res) # l_asked l\<rparr>)
     else if res = Good then \<lparr>l_on = False, l_last = l_last l, l_streak = 0, l_asked = (now, res) # l_asked l\<rparr>
     else if res = Canceled \<or> freeze then \<lparr>l_on = False, l_last = l_last l, l_streak = l_streak l, l_asked = (now, res) # l_asked l\<rparr>
     else if res = Timeout \<and> l_streak l + 1 \<le> threshold
       then \<lparr>l_on = False, l_last = l_last l, l_streak = l_streak l + 1, l_asked = (now, res) # l_asked l\<rparr>
     else \<lparr>l_on = True, l_last = Some answered, l_streak = (if res = Timeout then l_streak l + 1 else 0),
            l_asked = (now, res) # l_asked l\<rparr>)"

lemma blackoutFrame_latch [simp]:
  "p_fallback (snd (blackoutFrame c ref w h p)) = p_fallback p" "p_lastProbeAt (snd (blackoutFrame c ref w h p)) = p_lastProbeAt p"
  "p_consecutiveTimeouts (snd (blackoutFrame c ref w h p)) = p_consecutiveTimeouts p" "p_log (snd (blackoutFrame c ref w h p)) = p_log p"
  "p_mode (snd (blackoutFrame c ref w h p)) = p_mode p" "p_failurePolicy (snd (blackoutFrame c ref w h p)) = p_failurePolicy p"
  "p_timeoutLatchThreshold (snd (blackoutFrame c ref w h p)) = p_timeoutLatchThreshold p"
  "p_recoveryProbeInterval (snd (blackoutFrame c ref w h p)) = p_recoveryProbeInterval p"
  by (simp_all add: blackoutFrame_def Let_def split: option.split prod.split)

lemma serveBlackout_latch [simp]:
  "p_fallback (snd (serveBlackout c ref w h because p)) = p_fallback p"
  "p_lastProbeAt (snd (serveBlackout c ref w h because p)) = p_lastProbeAt p"
  "p_consecutiveTimeouts (snd (serveBlackout c ref w h because p)) = p_consecutiveTimeouts p"
  "asked (p_log (snd (serveBlackout c ref w h because p))) = asked (p_log p)"
  "p_mode (snd (serveBlackout c ref w h because p)) = p_mode p"
  "p_failurePolicy (snd (serveBlackout c ref w h because p)) = p_failurePolicy p"
  "p_timeoutLatchThreshold (snd (serveBlackout c ref w h because p)) = p_timeoutLatchThreshold p"
  "p_recoveryProbeInterval (snd (serveBlackout c ref w h because p)) = p_recoveryProbeInterval p"
proof -
  obtain r q where b: "blackoutFrame c ref w h p = (r, q)" by fastforce
  note q = blackoutFrame_latch [of c ref w h p, unfolded b snd_conv]
  show "p_fallback (snd (serveBlackout c ref w h because p)) = p_fallback p"
    "p_lastProbeAt (snd (serveBlackout c ref w h because p)) = p_lastProbeAt p"
    "p_consecutiveTimeouts (snd (serveBlackout c ref w h because p)) = p_consecutiveTimeouts p"
    "asked (p_log (snd (serveBlackout c ref w h because p))) = asked (p_log p)"
    "p_mode (snd (serveBlackout c ref w h because p)) = p_mode p"
    "p_failurePolicy (snd (serveBlackout c ref w h because p)) = p_failurePolicy p"
    "p_timeoutLatchThreshold (snd (serveBlackout c ref w h because p)) = p_timeoutLatchThreshold p"
    "p_recoveryProbeInterval (snd (serveBlackout c ref w h because p)) = p_recoveryProbeInterval p"
    by (simp_all add: serveBlackout_def b note_event_def q split: option.split sum.split)
qed

lemma screenBlur_latch [simp]:
  "p_fallback (snd (screenBlur c ref w h p)) = p_fallback p" "p_lastProbeAt (snd (screenBlur c ref w h p)) = p_lastProbeAt p"
  "p_consecutiveTimeouts (snd (screenBlur c ref w h p)) = p_consecutiveTimeouts p" "p_log (snd (screenBlur c ref w h p)) = p_log p"
  "p_mode (snd (screenBlur c ref w h p)) = p_mode p"
  "p_failurePolicy (snd (screenBlur c ref w h p)) = p_failurePolicy p"
  "p_timeoutLatchThreshold (snd (screenBlur c ref w h p)) = p_timeoutLatchThreshold p"
  "p_recoveryProbeInterval (snd (screenBlur c ref w h p)) = p_recoveryProbeInterval p"
  by (simp_all add: screenBlur_def split: option.split)

text \<open>The rules that a run never changes, and the outcome of the AI for a call.\<close>

definition rules_of :: "Processor \<Rightarrow> PrivacyMode \<times> AIFailurePolicy \<times> nat \<times> duration" where
  "rules_of p = (p_mode p, p_failurePolicy p, p_timeoutLatchThreshold p, p_recoveryProbeInterval p)"

definition outcome_for :: "frame_call \<Rightarrow> outcome" where
  "outcome_for f = outcome_of (accept_answer (fc_timestamp f) (fc_answer f))"

lemma outcome_Good: "outcome_of res = Good \<longleftrightarrow> (\<exists>r. res = Ok r)"
  by (auto simp: outcome_of_def split: sum.splits)

lemma processImage_answer:
  assumes "p_mode p = PrivacyModeReal"
  shows "latch_of (snd (processImage c f now p)) = (latch_of p)\<lparr>l_asked := (now, outcome_for f) # asked (p_log p)\<rparr>"
    "rules_of (snd (processImage c f now p)) = rules_of p"
    "(\<exists>out. fst (processImage c f now p) = Ok out) \<longleftrightarrow> outcome_for f = Good"
    "fst (processImage c f now p) = Err err \<Longrightarrow> accept_answer (fc_timestamp f) (fc_answer f) = Err err"
  using assms by (auto simp: processImage_def Let_def note_event_def recordMosaic_def latch_of_def rules_of_def outcome_for_def
      outcome_of_def split: sum.splits if_splits)

lemma after_failure_latch:
  assumes "outcome_of (Err err :: process_error + ProcessedVideoChunk) = res"
  shows "latch_of (snd (after_failure c f err now p)) =
     (if res = Canceled \<or> p_failurePolicy p = FailurePolicyFreeze then latch_of p
      else if res = Timeout \<and> p_consecutiveTimeouts p + 1 \<le> p_timeoutLatchThreshold p then (latch_of p)\<lparr>l_streak := p_consecutiveTimeouts p + 1\<rparr>
      else \<lparr>l_on = True, l_last = (if p_fallback p then p_lastProbeAt p else Some now),
        l_streak = (if res = Timeout then p_consecutiveTimeouts p + 1 else 0), l_asked = asked (p_log p)\<rparr>)"
    "rules_of (snd (after_failure c f err now p)) = rules_of p"
  using assms by (auto simp: after_failure_def Let_def latch_def note_event_def outcome_of_def rules_of_def latch_of_def
      split: if_splits)

text \<open>The latch of the processor refines the abstract latch, frame by frame.\<close>

lemma processImage_sum:
  assumes "p_mode p = PrivacyModeReal"
  obtains (good) out q where "outcome_for f = Good" "processImage c f now p = (Ok out, q)"
      "latch_of q = (latch_of p)\<lparr>l_asked := (now, Good) # asked (p_log p)\<rparr>" "rules_of q = rules_of p"
  | (bad) err q where "outcome_for f \<noteq> Good" "processImage c f now p = (Err err, q)"
      "latch_of q = (latch_of p)\<lparr>l_asked := (now, outcome_for f) # asked (p_log p)\<rparr>" "rules_of q = rules_of p"
      "outcome_of (Err err :: process_error + ProcessedVideoChunk) = outcome_for f"
proof -
  obtain r q where i: "processImage c f now p = (r, q)" by fastforce
  note a = processImage_answer [OF assms, of c f now, unfolded i fst_conv snd_conv]
  show thesis
  proof (cases r)
    case (Inl err)
    then have "outcome_for f \<noteq> Good" using a(3) by simp
    moreover have "outcome_of (Err err :: process_error + ProcessedVideoChunk) = outcome_for f"
      using a(4) [OF Inl] by (simp add: outcome_for_def)
    ultimately show thesis using bad i Inl a(1,2) by simp
  next
    case (Inr out)
    then have "outcome_for f = Good" using a(3) by simp
    then show thesis using good [of out q] i Inr a(1,2) by simp
  qed
qed

lemma process_frame_latch:
  assumes mode: "p_mode p = PrivacyModeReal" and interval: "p_recoveryProbeInterval p = Second"
  shows "latch_of (snd (process_frame c f now p)) =
      latch_frame (p_failurePolicy p = FailurePolicyFreeze) (p_timeoutLatchThreshold p) (outcome_for f) now (now + int (fc_asking f)) (latch_of p)
    \<and> rules_of (snd (process_frame c f now p)) = rules_of p"
proof (cases "p_fallback p")
  case latched: True
  have due: "probe_due now p = latch_due now (latch_of p)" by (simp add: probe_due_def latch_due_def latch_of_def interval split: option.split)
  have l: "l_on (latch_of p)" using latched by (simp add: latch_of_def)
  show ?thesis
  proof (cases "probe_due now p")
    case False
    then show ?thesis using latched mode l due by (simp add: process_frame_def process_latched_def latch_frame_def) (simp add: latch_of_def rules_of_def)
  next
    case True
    have m: "p_mode (p\<lparr>p_lastProbeAt := Some now\<rparr>) = PrivacyModeReal" using mode by simp
    from processImage_sum [OF m, of f c now] show ?thesis
    proof cases
      case (1 out q)
      then show ?thesis using latched mode True l due
        by (simp add: process_frame_def process_latched_def latch_frame_def note_event_def) (simp add: latch_of_def rules_of_def)
    next
      case (2 err q)
      then show ?thesis using latched mode True l due
        by (simp add: process_frame_def process_latched_def latch_frame_def) (simp add: latch_of_def rules_of_def)
    qed
  qed
next
  case open_frame: False
  have l: "\<not> l_on (latch_of p)" using open_frame by (simp add: latch_of_def)
  from processImage_sum [OF mode, of f c now] show ?thesis
  proof cases
    case (1 out q)
    then show ?thesis using open_frame mode l by (simp add: process_frame_def latch_frame_def) (simp add: latch_of_def rules_of_def)
  next
    case (2 err q)
    then have "p_failurePolicy q = p_failurePolicy p" "p_timeoutLatchThreshold q = p_timeoutLatchThreshold p"
      "p_consecutiveTimeouts q = p_consecutiveTimeouts p" "p_fallback q = p_fallback p" "asked (p_log q) = (now, outcome_for f) # asked (p_log p)"
      by (simp_all add: latch_of_def rules_of_def)
    then show ?thesis using 2 open_frame mode l after_failure_latch [OF 2(5), of c f "now + int (fc_asking f)" q]
      by (simp add: process_frame_def latch_frame_def) (simp add: latch_of_def)
  qed
qed

text \<open>The frames that reach the AI boundary; all others leave the latch alone.\<close>

definition reaches_ai :: "Processor \<Rightarrow> bool" where
  "reaches_ai p = (p_mode p = PrivacyModeReal \<and> \<not> p_aiInputPaused p \<and> \<not> p_screenBlurEnabled p \<and> p_anonymizationEnabled p)"

lemma frame_latch:
  assumes "p_recoveryProbeInterval p = Second"
  shows "latch_of (snd (ProcessIfAIInputEnabled c f now p)) =
      (if reaches_ai p then latch_frame (p_failurePolicy p = FailurePolicyFreeze) (p_timeoutLatchThreshold p) (outcome_for f)
         now (now + int (fc_asking f)) (latch_of p) else latch_of p)
    \<and> rules_of (snd (ProcessIfAIInputEnabled c f now p)) = rules_of p"
  using process_frame_latch [OF _ assms, of c f now] process_frame_other [of p c f now]
  by (cases "p_mode p = PrivacyModeReal") (auto simp: ProcessIfAIInputEnabled_def reaches_ai_def latch_of_def rules_of_def)

lemma asked_closed [simp]: "asked (p_log (close_ai p)) = asked (p_log p)"
  by (simp add: close_ai_def note_event_def)

lemma setting_latch: "latch_of (fst (apply_setting s pg)) = latch_of (fst pg) \<and> rules_of (fst (apply_setting s pg)) = rules_of (fst pg)"
  by (cases s; cases pg; simp add: apply_setting_def SuspendAIInput_def ResumeAIInput_def SetAnonymizationEnabled_def latch_of_def
      rules_of_def SetScreenBlurEnabled_def SetMosaicConfig_def SetEgressVideoSize_def SetMosaicTally_def new_setting_def close_ai_def note_event_def)

subsection \<open>What the latch guarantees\<close>

text \<open>The outcomes after the last good answer, and whether they call for the latch.\<close>

definition since_good :: "outcome list \<Rightarrow> outcome list" where
  "since_good os = takeWhile (\<lambda>res. res \<noteq> Good) os"

definition broken :: "nat \<Rightarrow> outcome list \<Rightarrow> bool" where
  "broken threshold os = (Fatal \<in> set (since_good os) \<or> threshold < count_list (since_good os) Timeout)"

lemma since_good_Cons [simp]: "since_good (res # os) = (if res = Good then [] else res # since_good os)"
  by (simp add: since_good_def)

definition latch_inv :: "bool \<Rightarrow> nat \<Rightarrow> instant \<Rightarrow> Latch \<Rightarrow> bool" where
  "latch_inv freeze threshold now l =
    ((\<forall>(t, res) \<in> set (l_asked l). t \<le> now) \<and>
     (l_on l \<longrightarrow> (\<exists>t0. l_last l = Some t0 \<and> t0 \<le> now \<and> (\<forall>(t, res) \<in> set (l_asked l). t \<le> t0))) \<and>
     (l_on l \<longleftrightarrow> \<not> freeze \<and> broken threshold (map snd (l_asked l))) \<and>
     (\<not> l_on l \<and> \<not> freeze \<longrightarrow> l_streak l = count_list (since_good (map snd (l_asked l))) Timeout))"

lemma latch_inv_later: "latch_inv freeze threshold now l \<Longrightarrow> now \<le> now' \<Longrightarrow> latch_inv freeze threshold now' l"
  unfolding latch_inv_def by fastforce

lemma latch_frame_inv:
  assumes "latch_inv freeze threshold now l" "now \<le> answered"
  shows "latch_inv freeze threshold answered (latch_frame freeze threshold res now answered l)"
proof (cases "l_on l")
  case on: True
  then show ?thesis
  proof (cases "latch_due now l")
    case True
    then show ?thesis using assms on by (cases res) (fastforce simp: latch_inv_def latch_frame_def broken_def)+
  next
    case False
    then show ?thesis using latch_inv_later [OF assms] on by (simp add: latch_frame_def)
  qed
next
  case False
  then show ?thesis using assms by (cases res) (fastforce simp: latch_inv_def latch_frame_def broken_def)+
qed

definition processor_ok :: "processor_run \<Rightarrow> bool" where
  "processor_ok y = (p_recoveryProbeInterval (y_p y) = Second \<and>
     latch_inv (p_failurePolicy (y_p y) = FailurePolicyFreeze) (p_timeoutLatchThreshold (y_p y)) (y_now y) (latch_of (y_p y)))"

lemma processor_ok_eq:
  "rules_of p' = rules_of (y_p y) \<Longrightarrow> processor_ok (y\<lparr>y_p := p', y_gens := g, y_now := t\<rparr>) \<longleftrightarrow> p_recoveryProbeInterval (y_p y) = Second \<and>
     latch_inv (p_failurePolicy (y_p y) = FailurePolicyFreeze) (p_timeoutLatchThreshold (y_p y)) t (latch_of p')"
  by (simp add: processor_ok_def rules_of_def)

lemma step_run_inv:
  assumes "processor_ok y"
  shows "processor_ok (processor_step c y ev)"
proof (cases ev)
  case (Change s)
  then show ?thesis using assms setting_latch [of s "(y_p y, y_gens y)"]
    by (simp add: processor_step_def processor_ok_def rules_of_def Let_def case_prod_unfold)
next
  case (Frame f)
  let ?now = "y_now y + int (fc_before f)" and ?p' = "snd (ProcessIfAIInputEnabled c f (y_now y + int (fc_before f)) (y_p y))"
  have i: "p_recoveryProbeInterval (y_p y) = Second" and inv: "latch_inv (p_failurePolicy (y_p y) = FailurePolicyFreeze) (p_timeoutLatchThreshold (y_p y)) ?now (latch_of (y_p y))"
    using assms latch_inv_later [of _ _ "y_now y" _ ?now] by (simp_all add: processor_ok_def)
  have "latch_inv (p_failurePolicy (y_p y) = FailurePolicyFreeze) (p_timeoutLatchThreshold (y_p y)) (?now + int (fc_asking f)) (latch_of ?p')"
    using frame_latch [OF i, of c f ?now] latch_frame_inv [OF inv, of "?now + int (fc_asking f)" "outcome_for f"]
      latch_inv_later [OF inv, of "?now + int (fc_asking f)"] by simp
  then show ?thesis using frame_latch [OF i, of c f ?now] i by (simp add: Frame processor_step_def processor_ok_def rules_of_def Let_def)
next
  case Elsewhere
  then show ?thesis using assms by (simp add: processor_step_def processor_ok_def)
next
  case (Wait d)
  then show ?thesis using assms latch_inv_later [of _ _ "y_now y" _ "y_now y + int d"] by (simp add: processor_step_def processor_ok_def)
qed

interpretation latched_runs: guarded_state "processor_step c" processor_ok "\<lambda>_. True" for c
  by unfold_locales (rule step_run_inv)

lemma fresh_run_inv: "fresh_processor y \<Longrightarrow> processor_ok y"
  by (simp add: processor_ok_def latch_inv_def latch_of_def fresh_processor_fields broken_def since_good_def)

lemma run_has_inv: "fresh_processor y \<Longrightarrow> processor_ok (foldl (processor_step c) y evs)"
  by (rule latched_runs.run_inv) (simp_all add: fresh_run_inv)


text \<open>
  Property C33. The fail-closed latch of a processor follows the answers of the AI: after any run it is set exactly
  when the failure policy latches and since the last good answer the AI failed otherwise than by a timeout, or
  timed out more often than the threshold allows. Requests that the server itself cancelled never count.
\<close>

theorem latch_follows_outcomes:
  assumes "fresh_processor y0" and "y = foldl (processor_step c) y0 evs"
  shows "p_fallback (y_p y) \<longleftrightarrow> p_failurePolicy (y_p y) \<noteq> FailurePolicyFreeze \<and>
    broken (p_timeoutLatchThreshold (y_p y)) (map snd (asked (p_log (y_p y))))"
  using run_has_inv [OF assms(1), of c evs] by (simp add: assms(2) processor_ok_def latch_inv_def latch_of_def)

text \<open>
  Property C34. A latched session spares the AI: a frame asks the AI at most once, and while the latch is set it
  does so no earlier than a second after every earlier call of the session.
\<close>

theorem latched_probes_are_spaced:
  assumes "fresh_processor y0" and "y = foldl (processor_step c) y0 evs" and now: "y_now y \<le> now"
    and p': "p' = snd (ProcessIfAIInputEnabled c f now (y_p y))" and new: "asked (p_log p') \<noteq> asked (p_log (y_p y))"
  shows "\<exists>res. asked (p_log p') = (now, res) # asked (p_log (y_p y)) \<and>
    (p_fallback (y_p y) \<longrightarrow> (\<forall>(t, res) \<in> set (asked (p_log (y_p y))). t + Second \<le> now))"
proof -
  have inv: "processor_ok y" using run_has_inv [OF assms(1), of c evs] by (simp add: assms(2))
  then have i: "p_recoveryProbeInterval (y_p y) = Second" by (simp add: processor_ok_def)
  have "reaches_ai (y_p y)" using frame_latch [OF i, of c f now] new by (auto simp: p' latch_of_def split: if_splits)
  then have l: "latch_of p' = latch_frame (p_failurePolicy (y_p y) = FailurePolicyFreeze) (p_timeoutLatchThreshold (y_p y)) (outcome_for f)
      now (now + int (fc_asking f)) (latch_of (y_p y))" using frame_latch [OF i, of c f now] by (simp add: p')
  then have asks: "asked (p_log p') = (now, outcome_for f) # asked (p_log (y_p y))" and due: "p_fallback (y_p y) \<Longrightarrow> latch_due now (latch_of (y_p y))"
    using new by (auto simp: latch_frame_def latch_of_def split: if_splits)
  have "\<forall>(t, res) \<in> set (asked (p_log (y_p y))). t + Second \<le> now" if "p_fallback (y_p y)"
    using due [OF that] inv that by (fastforce simp: processor_ok_def latch_inv_def latch_of_def latch_due_def)
  then show ?thesis using asks by blast
qed

subsection \<open>Generations of the settings\<close>

definition settings_of :: "Processor \<Rightarrow> bool \<times> bool \<times> MosaicConfig" where
  "settings_of p = (p_anonymizationEnabled p, p_screenBlurEnabled p, p_mosaicConfig p)"

lemma blackoutFrame_settings [simp]:
  "p_privacyGeneration (snd (blackoutFrame c ref w h p)) = p_privacyGeneration p"
  "settings_of (snd (blackoutFrame c ref w h p)) = settings_of p"
  by (simp_all add: blackoutFrame_def settings_of_def Let_def split: option.split prod.split)

lemma serveBlackout_settings [simp]:
  "p_privacyGeneration (snd (serveBlackout c ref w h because p)) = p_privacyGeneration p"
  "settings_of (snd (serveBlackout c ref w h because p)) = settings_of p"
proof -
  obtain r q where b: "blackoutFrame c ref w h p = (r, q)" by fastforce
  note q = blackoutFrame_settings [of c ref w h p, unfolded b snd_conv]
  show "p_privacyGeneration (snd (serveBlackout c ref w h because p)) = p_privacyGeneration p"
    "settings_of (snd (serveBlackout c ref w h because p)) = settings_of p"
    using q by (simp_all add: serveBlackout_def b note_event_def settings_of_def split: option.split sum.split)
qed

lemma processImage_settings [simp]:
  "p_privacyGeneration (snd (processImage c f now p)) = p_privacyGeneration p"
  "settings_of (snd (processImage c f now p)) = settings_of p"
  by (simp_all add: processImage_def Let_def note_event_def recordMosaic_def settings_of_def split: sum.split)

lemma after_failure_settings [simp]:
  "p_privacyGeneration (snd (after_failure c f err now p)) = p_privacyGeneration p"
  "settings_of (snd (after_failure c f err now p)) = settings_of p"
  by (simp_all add: after_failure_def latch_def note_event_def Let_def) (simp_all add: settings_of_def)

lemma process_latched_settings [simp]:
  "p_privacyGeneration (snd (process_latched c f now p)) = p_privacyGeneration p"
  "settings_of (snd (process_latched c f now p)) = settings_of p"
proof -
  obtain r q where i: "processImage c f now (p\<lparr>p_lastProbeAt := Some now\<rparr>) = (r, q)" by fastforce
  have q: "p_privacyGeneration q = p_privacyGeneration p" "settings_of q = settings_of p"
    using processImage_settings [of c f now "p\<lparr>p_lastProbeAt := Some now\<rparr>"] by (simp_all add: i settings_of_def)
  have g: "settings_of (note_event FallbackRecovered (q\<lparr>p_fallback := False, p_consecutiveTimeouts := 0\<rparr>)) = settings_of q"
    by (simp add: settings_of_def note_event_def)
  show "p_privacyGeneration (snd (process_latched c f now p)) = p_privacyGeneration p"
    by (cases r) (simp_all add: process_latched_def i q note_event_def)
  show "settings_of (snd (process_latched c f now p)) = settings_of p"
    by (cases r) (simp_all add: process_latched_def i q g)
qed

lemma process_frame_settings [simp]:
  "p_privacyGeneration (snd (process_frame c f now p)) = p_privacyGeneration p"
  "settings_of (snd (process_frame c f now p)) = settings_of p"
proof -
  obtain r q where i: "processImage c f now p = (r, q)" by fastforce
  have q: "p_privacyGeneration q = p_privacyGeneration p" "settings_of q = settings_of p"
    using processImage_settings [of c f now p] by (simp_all add: i)
  have g: "settings_of (q\<lparr>p_consecutiveTimeouts := 0\<rparr>) = settings_of q" by (simp add: settings_of_def)
  show "p_privacyGeneration (snd (process_frame c f now p)) = p_privacyGeneration p"
    by (cases "p_mode p"; cases r) (simp_all add: process_frame_def i q)
  show "settings_of (snd (process_frame c f now p)) = settings_of p"
    by (cases "p_mode p"; cases r) (simp_all add: process_frame_def i q g)
qed

lemma frame_settings [simp]:
  "p_privacyGeneration (snd (ProcessIfAIInputEnabled c f now p)) = p_privacyGeneration p"
  "settings_of (snd (ProcessIfAIInputEnabled c f now p)) = settings_of p"
  by (simp_all add: ProcessIfAIInputEnabled_def screenBlur_def split: option.split)

text \<open>The configurations that reach a processor are validated, so no blur radius is not a number.\<close>

definition validated :: "run_event \<Rightarrow> bool" where
  "validated ev = (case ev of Change (Mosaic cfg) \<Rightarrow> ValidateMosaic cfg = None | _ \<Rightarrow> True)"

definition tagged :: "processor_run \<Rightarrow> bool" where
  "tagged y = (p_privacyGeneration (y_p y) \<le> y_gens y \<and> BlurRadius (p_mosaicConfig (y_p y)) \<noteq> Some NaN)"

text \<open>One step: the settings stay with their generation, or they get a generation above all that were used.\<close>

lemma step_generation:
  assumes "tagged y" "validated ev" "y_gens y + 1 < 2 ^ 64"
  shows "tagged (processor_step c y ev) \<and> y_gens (processor_step c y ev) \<le> y_gens y + 1 \<and>
    (p_privacyGeneration (y_p (processor_step c y ev)) = p_privacyGeneration (y_p y) \<and>
       settings_of (y_p (processor_step c y ev)) = settings_of (y_p y) \<and> y_gens y \<le> y_gens (processor_step c y ev) \<or>
     p_privacyGeneration (y_p (processor_step c y ev)) = y_gens y + 1 \<and> y_gens (processor_step c y ev) = y_gens y + 1)"
proof -
  have g: "next_generation (y_gens y) = y_gens y + 1" using assms(3) by (simp add: next_generation_def)
  show ?thesis
  proof (cases ev)
    case (Change s)
    show ?thesis
    proof (cases s)
      case (Mosaic cfg)
      have "BlurRadius cfg \<noteq> Some NaN" using assms(2) Change Mosaic Validate_no_NaN by (simp add: validated_def)
      then show ?thesis using assms(1) Change Mosaic g
        by (auto simp: processor_step_def apply_setting_def SetMosaicConfig_def new_setting_def tagged_def settings_of_def EqualMosaic_eq Let_def)
    qed (use assms(1) Change g in \<open>auto simp: processor_step_def apply_setting_def SuspendAIInput_def ResumeAIInput_def SetAnonymizationEnabled_def
        SetScreenBlurEnabled_def SetEgressVideoSize_def SetMosaicTally_def new_setting_def close_ai_def note_event_def tagged_def settings_of_def\<close>)
  next
    case (Frame f)
    then show ?thesis using assms(1) frame_settings(2) [of c f "y_now y + int (fc_before f)" "y_p y"]
      by (simp add: processor_step_def tagged_def Let_def settings_of_def)
  qed (use assms(1) g in \<open>simp_all add: processor_step_def tagged_def settings_of_def\<close>)
qed

text \<open>Over any run: the same generation means the same settings, and other settings a larger generation.\<close>

lemma run_generation:
  assumes "tagged y" "list_all validated evs" "y_gens y + length evs < 2 ^ 64" and y': "y' = foldl (processor_step c) y evs"
  shows "tagged y' \<and> y_gens y' \<le> y_gens y + length evs \<and> y_gens y \<le> y_gens y' \<and>
    (p_privacyGeneration (y_p y') = p_privacyGeneration (y_p y) \<and> settings_of (y_p y') = settings_of (y_p y) \<or>
     p_privacyGeneration (y_p y') > p_privacyGeneration (y_p y))"
  using assms(2,3) unfolding y'
proof (induction evs rule: rev_induct)
  case Nil
  then show ?case using assms(1) by simp
next
  case (snoc ev evs)
  let ?z = "foldl (processor_step c) y evs"
  have z: "tagged ?z" "y_gens ?z \<le> y_gens y + length evs" "y_gens y \<le> y_gens ?z"
    "p_privacyGeneration (y_p ?z) = p_privacyGeneration (y_p y) \<and> settings_of (y_p ?z) = settings_of (y_p y) \<or>
     p_privacyGeneration (y_p ?z) > p_privacyGeneration (y_p y)" using snoc by simp_all
  have le: "p_privacyGeneration (y_p y) \<le> y_gens ?z" using assms(1) z(3) by (simp add: tagged_def)
  show ?case using step_generation [OF z(1), of ev c] snoc.prems z le by auto
qed

lemma fresh_tagged: "fresh_processor y \<Longrightarrow> tagged y"
  by (simp add: tagged_def fresh_processor_fields)

subsection \<open>The loop that feeds the processor\<close>

text \<open>
  One turn of \<open>processImages\<close>: other goroutines may change settings between its reading of the generation and the
  processing (\<open>before\<close>) and between the processing and the second reading (\<open>after\<close>). An enqueued frame carries the
  generation, or 0 when it changed.
\<close>

datatype item_result = Skipped | Dropped process_error | Enqueued bytes nat

definition processImages_item ::
    "codec \<Rightarrow> run_event list \<Rightarrow> frame_call \<Rightarrow> run_event list \<Rightarrow> processor_run \<Rightarrow> item_result \<times> processor_run" where
  "processImages_item c before f after y =
    (let generation = p_privacyGeneration (y_p y);
         y = foldl (processor_step c) y before;
         res = fst (ProcessIfAIInputEnabled c f (y_now y + int (fc_before f)) (y_p y));
         y = processor_step c y (Frame f)
     in case res of
          None \<Rightarrow> (Skipped, y)
        | Some (Err err) \<Rightarrow> (Dropped err, y)
        | Some (Ok out) \<Rightarrow>
            let y = foldl (processor_step c) y after
            in (Enqueued out (if p_privacyGeneration (y_p y) = generation then generation else 0), y))"

lemma item_steps:
  assumes "processImages_item c before f after y = (Enqueued out tag, y')"
  shows "y' = foldl (processor_step c) y (before @ Frame f # after)"
    "tag = (if p_privacyGeneration (y_p y') = p_privacyGeneration (y_p y) then p_privacyGeneration (y_p y) else 0)"
    "fst (ProcessIfAIInputEnabled c f (y_now (foldl (processor_step c) y before) + int (fc_before f)) (y_p (foldl (processor_step c) y before))) = Some (Ok out)"
  using assms by (auto simp: processImages_item_def Let_def split: option.splits sum.splits)

text \<open>
  Property C6. A frame that went out under other settings is never frozen on the screen: when the loop has
  enqueued a frame that was processed under settings that differ from those in force later (for example the
  camera image before anonymization was switched on), then after the egress was told of the new generation its
  writer may not repeat that frame in a gap, whatever settings changed in between, here and in other sessions,
  and however the change raced with the processing of the frame.
\<close>

theorem changed_settings_end_held_frames:
  assumes fresh: "fresh_processor y0" and y: "y = foldl (processor_step c) y0 evs"
    and item: "processImages_item c before f after y = (Enqueued out tag, y')"
    and later: "y'' = foldl (processor_step c) y' rest"
    and valid: "list_all validated (evs @ before @ after @ rest)"
    and room: "y_gens y0 + length evs + length before + length after + length rest + 1 < 2 ^ 64"
    and changed: "settings_of (y_p (foldl (processor_step c) y before)) \<noteq> settings_of (y_p y'')"
  shows "\<not> holdable (InvalidateHeldFrame (p_privacyGeneration (y_p y'')) e) tag"
proof -
  let ?z = "foldl (processor_step c) y before"
  have v: "list_all validated evs" "list_all validated before" "list_all validated (Frame f # after)" "list_all validated rest"
    using valid by (simp_all add: validated_def)
  have r: "y_gens y0 + length evs < 2 ^ 64" using room by linarith
  note y1 = run_generation [OF fresh_tagged [OF fresh] v(1) r y]
  have r: "y_gens y + length before < 2 ^ 64" using room y1 by linarith
  note z = run_generation [where c = c, OF conjunct1 [OF y1] v(2) r refl]
  have y': "y' = foldl (processor_step c) ?z (Frame f # after)" using item_steps(1) [OF item] by simp
  have r: "y_gens ?z + length (Frame f # after) < 2 ^ 64" using room y1 z unfolding list.size by linarith
  note z' = run_generation [OF conjunct1 [OF z] v(3) r y']
  have r: "y_gens y' + length rest < 2 ^ 64" using room y1 z z' unfolding list.size by linarith
  note last = run_generation [OF conjunct1 [OF z'] v(4) r later]
  have "tag = 0 \<or> tag < p_privacyGeneration (y_p y'')"
  proof (cases "p_privacyGeneration (y_p y') = p_privacyGeneration (y_p y)")
    case True
    then have "p_privacyGeneration (y_p y') < p_privacyGeneration (y_p y'')" using z z' last changed by (metis less_irrefl less_trans)
    then show ?thesis using True item_steps(2) [OF item] by simp
  next
    case False
    then show ?thesis using item_steps(2) [OF item] by simp
  qed
  then show ?thesis by (auto simp: holdable_def InvalidateHeldFrame_def)
qed

subsection \<open>Witnesses\<close>

definition demo_codec :: codec where
  "demo_codec = \<lparr>j_config = (\<lambda>_. None), j_encode = (\<lambda>_. None), j_round = (\<lambda>q. q)\<rparr>"

definition demo_processor :: processor_run where
  "demo_processor = \<lparr>y_p = projr (fst (NewProcessor PrivacyModeReal True WireFormatRaw FailurePolicyUnset 1 0)), y_gens = 1, y_now = 0\<rparr>"

definition demo_call :: "ai_error + ProcessedVideoChunk \<Rightarrow> frame_call" where
  "demo_call answer = \<lparr>fc_frame = [10, 200, 30, 40, 50, 60, 70, 80, 90, 100, 110, 120], fc_timestamp = 7, fc_width = 4, fc_height = 2,
     fc_answer = answer, fc_before = 0, fc_asking = 1000, fc_contextDone = False\<rparr>"

abbreviation demo_down :: "ai_error + ProcessedVideoChunk" where
  "demo_down \<equiv> Err \<lparr>isCanceled = False, isDeadline = False, codeDeadline = False\<rparr>"

lemma demo_fresh: "fresh_processor demo_processor"
  unfolding fresh_processor_def demo_processor_def
  by (rule exI [of _ PrivacyModeReal], rule exI [of _ True], rule exI [of _ WireFormatRaw], rule exI [of _ FailurePolicyUnset],
      rule exI [of _ 1], rule exI [of _ 0]) (simp add: NewProcessor_def next_generation_def)


theorem latch_follows_outcomes_witness:
  "p_fallback (y_p (foldl (processor_step demo_codec) demo_processor [Frame (demo_call demo_down)])) \<and> broken 1 [Fatal]"
proof -
  let ?y = "foldl (processor_step demo_codec) demo_processor [Frame (demo_call demo_down)]"
  have on: "p_fallback (y_p ?y)" "p_timeoutLatchThreshold (y_p ?y) = 1" "map snd (asked (p_log (y_p ?y))) = [Fatal]" by code_simp+
  show ?thesis using latch_follows_outcomes [OF demo_fresh refl, of demo_codec "[Frame (demo_call demo_down)]"] on by simp
qed

theorem latched_probes_are_spaced_witness:
  "list_all (\<lambda>(t, res). t + Second \<le> 2000000000)
     (asked (p_log (y_p (foldl (processor_step demo_codec) demo_processor [Frame (demo_call demo_down)]))))"
proof -
  let ?y = "foldl (processor_step demo_codec) demo_processor [Frame (demo_call demo_down)]"
  have on: "p_fallback (y_p ?y)" "y_now ?y \<le> 2000000000"
    "asked (p_log (snd (ProcessIfAIInputEnabled demo_codec (demo_call demo_down) 2000000000 (y_p ?y)))) \<noteq> asked (p_log (y_p ?y))" by code_simp+
  show ?thesis using latched_probes_are_spaced [OF demo_fresh refl on(2) refl on(3)] on(1) unfolding list_all_iff by blast
qed

theorem changed_settings_end_held_frames_witness:
  "\<forall>e :: RTMPEgress. \<not> holdable (InvalidateHeldFrame 3 e) 2"
proof
  fix e :: RTMPEgress
  let ?y = "foldl (processor_step demo_codec) demo_processor [Change (Anonymize False)]"
  let ?item = "processImages_item demo_codec [] (demo_call demo_down) [] ?y"
  let ?last = "foldl (processor_step demo_codec) (snd ?item) [Change (Anonymize True)]"
  have on: "fst ?item = Enqueued (fc_frame (demo_call demo_down)) 2" "p_privacyGeneration (y_p ?last) = 3" "y_gens demo_processor = 1"
    by code_simp+
  have changed: "settings_of (y_p (foldl (processor_step demo_codec) ?y [])) \<noteq> settings_of (y_p ?last)" by code_simp
  have item: "?item = (Enqueued (fc_frame (demo_call demo_down)) 2, snd ?item)" using on(1) by (cases ?item) simp
  have valid: "list_all validated ([Change (Anonymize False)] @ [] @ [] @ [Change (Anonymize True)])" by (simp add: validated_def)
  show "\<not> holdable (InvalidateHeldFrame 3 e) 2"
    using changed_settings_end_held_frames [OF demo_fresh refl item refl valid _ changed, of e] on(2,3) by simp
qed

subsection \<open>What the AI is asked\<close>

fun requests :: "processor_event list \<Rightarrow> ai_request list" where
  "requests [] = []"
| "requests (AskedAI t q res # lg) = q # requests lg"
| "requests (ev # lg) = requests lg"

lemma serveBlackout_requests [simp]: "requests (p_log (snd (serveBlackout c ref w h because p))) = requests (p_log p)"
proof -
  obtain r q where b: "blackoutFrame c ref w h p = (r, q)" by fastforce
  have "p_log q = p_log p" using blackoutFrame_latch(4) [of c ref w h p] by (simp add: b)
  then show ?thesis by (simp add: serveBlackout_def b note_event_def split: option.split sum.split)
qed

lemma after_failure_requests [simp]: "requests (p_log (snd (after_failure c f err now p))) = requests (p_log p)"
  by (simp add: after_failure_def latch_def note_event_def Let_def)

lemma processImage_requests:
  "p_mode p = PrivacyModeReal \<Longrightarrow> requests (p_log (snd (processImage c f now p))) = ask_of c f p # requests (p_log p)"
  by (simp add: processImage_def Let_def note_event_def recordMosaic_def split: sum.split)

lemma ask_of_probe [simp]: "ask_of c f (p\<lparr>p_lastProbeAt := t\<rparr>) = ask_of c f p"
  by (simp add: ask_of_def aiPixFmt_def)

lemma process_frame_requests:
  assumes mode: "p_mode p = PrivacyModeReal"
  shows "requests (p_log (snd (process_frame c f now p))) \<in> {requests (p_log p), ask_of c f p # requests (p_log p)}"
proof -
  obtain r q where i: "processImage c f now p = (r, q)" by fastforce
  obtain r' q' where j: "processImage c f now (p\<lparr>p_lastProbeAt := Some now\<rparr>) = (r', q')" by fastforce
  have q: "requests (p_log q) = ask_of c f p # requests (p_log p)" using processImage_requests [OF mode, of c f now] by (simp add: i)
  have q': "requests (p_log q') = ask_of c f p # requests (p_log p)"
    using processImage_requests [of "p\<lparr>p_lastProbeAt := Some now\<rparr>" c f now] mode by (simp add: j)
  show ?thesis using mode
    by (cases r; cases r') (simp_all add: process_frame_def process_latched_def i j q q' note_event_def)
qed

lemma frame_requests:
  "requests (p_log (snd (ProcessIfAIInputEnabled c f now p))) \<in> {requests (p_log p), ask_of c f p # requests (p_log p)}"
  using process_frame_requests [of p c f now] process_frame_other [of p c f now]
  by (cases "p_mode p = PrivacyModeReal") (auto simp: ProcessIfAIInputEnabled_def)

lemma setting_requests [simp]: "requests (p_log (fst (apply_setting s pg))) = requests (p_log (fst pg))"
  by (cases s; cases pg; simp add: apply_setting_def SuspendAIInput_def ResumeAIInput_def SetAnonymizationEnabled_def
      SetScreenBlurEnabled_def SetMosaicConfig_def SetEgressVideoSize_def SetMosaicTally_def new_setting_def close_ai_def note_event_def)

definition request_ok :: "ai_request \<Rightarrow> bool" where
  "request_ok q = (case q_mosaic q of None \<Rightarrow> True
     | Some r \<Rightarrow> ValidateMosaic r = None \<and> (BlurRadius r \<noteq> None \<or> PixelSize r \<noteq> None \<or> MaskMargin r \<noteq> None))"

lemma ask_of_ok: "ValidateMosaic (p_mosaicConfig p) = None \<Longrightarrow> request_ok (ask_of c f p)"
  using request_in_contract [of "p_mosaicConfig p"] by (auto simp: request_ok_def ask_of_def aiRequest_def split: option.split)

definition requests_ok :: "processor_run \<Rightarrow> bool" where
  "requests_ok y = (ValidateMosaic (p_mosaicConfig (y_p y)) = None \<and> (\<forall>q \<in> set (requests (p_log (y_p y))). request_ok q))"

lemma setting_mosaic: "p_mosaicConfig (fst (apply_setting s pg)) = p_mosaicConfig (fst pg) \<or>
    (\<exists>cfg. s = Mosaic cfg \<and> p_mosaicConfig (fst (apply_setting s pg)) = cfg)"
  by (cases s; cases pg; simp add: apply_setting_def SuspendAIInput_def ResumeAIInput_def SetAnonymizationEnabled_def
      SetScreenBlurEnabled_def SetMosaicConfig_def SetEgressVideoSize_def SetMosaicTally_def new_setting_def close_ai_def note_event_def)

interpretation contract: guarded_state "processor_step c" requests_ok validated for c
proof
  fix y :: processor_run and ev
  assume ok: "requests_ok y" and v: "validated ev"
  show "requests_ok (processor_step c y ev)"
  proof (cases ev)
    case (Change s)
    have "ValidateMosaic (p_mosaicConfig (fst (apply_setting s (y_p y, y_gens y)))) = None"
      using setting_mosaic [of s "(y_p y, y_gens y)"]
    proof (elim disjE exE conjE)
      fix cfg
      assume "s = Mosaic cfg" "p_mosaicConfig (fst (apply_setting s (y_p y, y_gens y))) = cfg"
      then show ?thesis using v Change by (simp add: validated_def)
    qed (use ok in \<open>simp add: requests_ok_def\<close>)
    then show ?thesis using ok Change by (simp add: processor_step_def requests_ok_def Let_def case_prod_unfold)
  next
    case (Frame f)
    have "p_mosaicConfig (snd (ProcessIfAIInputEnabled c f (y_now y + int (fc_before f)) (y_p y))) = p_mosaicConfig (y_p y)"
      using frame_settings(2) [of c f "y_now y + int (fc_before f)" "y_p y"] by (simp add: settings_of_def)
    then show ?thesis using ok Frame frame_requests [of c f "y_now y + int (fc_before f)" "y_p y"] ask_of_ok [of "y_p y" c f]
      by (auto simp: processor_step_def requests_ok_def Let_def)
  qed (use ok in \<open>simp_all add: processor_step_def requests_ok_def\<close>)
qed

lemma fresh_requests:
  assumes "NewProcessor mode ai wire policy threshold gens = (Ok p, g)"
  shows "ValidateMosaic (p_mosaicConfig p) = None"
proof (cases "mode = PrivacyModeReal \<and> \<not> ai")
  case True
  then show ?thesis using assms by (simp add: NewProcessor_def)
next
  case False
  have p: "p = projr (fst (NewProcessor mode ai wire policy threshold gens))" by (simp add: assms)
  show ?thesis unfolding p NewProcessor_def if_not_P [OF False] by (simp add: ValidateMosaic_def)
qed

text \<open>
  Property C36. Every request that a processor ever sends to the AI fits the contract of the AI: as long as the
  configurations of the callers are validated, every blur configuration in a request lies in the ranges of the
  contract, after the conversion of the margin to the size of the AI's frame and its rounding, and a request
  without any setting carries no configuration. A value outside the ranges would make the AI fail the frame and
  latch the session.
\<close>

theorem requests_fit_contract:
  assumes "fresh_processor y0" and "list_all validated evs" and "y = foldl (processor_step c) y0 evs"
    and "q \<in> set (requests (p_log (y_p y)))"
  shows "request_ok q"
proof -
  have "requests_ok y0" using assms(1) fresh_requests fresh_processor_fields(3) [OF assms(1)] unfolding fresh_processor_def requests_ok_def by auto
  then have "requests_ok y" unfolding assms(3) by (rule contract.run_inv) fact
  then show ?thesis using assms(4) by (simp add: requests_ok_def)
qed

theorem requests_fit_contract_witness:
  "list_all request_ok (requests (p_log (y_p (foldl (processor_step demo_codec) demo_processor
     [Change (Mosaic \<lparr>BlurRadius = Some (Finite 24), PixelSize = None, MaskMargin = Some 60\<rparr>), Change (EgressSize 2 1), Frame (demo_call demo_down)]))))"
proof -
  let ?evs = "[Change (Mosaic \<lparr>BlurRadius = Some (Finite 24), PixelSize = None, MaskMargin = Some 60\<rparr>), Change (EgressSize 2 1), Frame (demo_call demo_down)]"
  have v: "list_all validated ?evs" by (simp add: validated_def ValidateMosaic_def bad_radius_def)
  show ?thesis using requests_fit_contract [OF demo_fresh v refl] unfolding list_all_iff by blast
qed

subsection \<open>The label of the cached black frame\<close>

text \<open>
  \<open>blackoutWidth\<close> and \<open>blackoutHeight\<close> are documented as the size of the frame that \<open>blackoutData\<close> was made for,
  but \<open>blackoutFrame\<close> writes them before it knows that it can make one: after a frame for which there is no black
  frame the next such frame gets the cached one of another size instead of the error.
\<close>

lemma failed_blackout_relabels_cache:
  "let p = snd (blackoutFrame demo_codec [] 4 2 (y_p demo_processor)); (first, q) = blackoutFrame demo_codec [] 0 0 p
   in first = Err NoDimensions \<and> fst (blackoutFrame demo_codec [] 0 0 q) = Ok (raw_black 4 2)"
  by code_simp

end
