(* ===== verification/Spec2Isabelle.thy ===== *)
theory Spec2Isabelle
  imports BroadcastLimits EgressSlots H264 AiPool BroadcastSettings EgressWriter BroadcastRuns Ledger PeerRecovery UpgradeOffer BroadcastHandlers WithdrawalGate SwitchStream FrameBlur PrivacyProcessor
begin

text \<open>
  InnoLive server: a shallow model of the server that takes live video from a browser or an app,
  anonymises it on AI workers and sends it to YouTube and Chzzk.

  \<^bold>\<open>The program and its parts.\<close> A user opens a session (\<^verbatim>\<open>internal/session\<close>) and negotiates WebRTC; the
  video goes through FFmpeg decoders to an AI worker of the pool (\<^verbatim>\<open>internal/ai\<close>) and back, and an RTMP
  egress (\<^verbatim>\<open>internal/media/egress.go\<close>) writes it to each platform the session streams to. How many egresses
  may run is decided by a budget of slots (\<^verbatim>\<open>internal/media/egress_slots.go\<close>) that the plans
  (\<^verbatim>\<open>internal/plan\<close>) reserve shares of; what a plan allows and for how long is decided by the limits of
  the server (\<^verbatim>\<open>internal/server/limits.go\<close>, \<^verbatim>\<open>plan_gate.go\<close>). The broadcast on a platform has a lifecycle of
  its own (\<^verbatim>\<open>internal/session/broadcast.go\<close>, \<^verbatim>\<open>manager.go\<close>): settings, prepare, go live, pause, stop.

  \<^bold>\<open>Theories.\<close>
  \<^item> \<open>Prelude\<close>: Go's integers, durations and results, sums over Go maps, decimal printing, the loop that
    picks the least loaded candidate, and the interfaces \<open>guarded_state\<close> (state changes that keep an
    invariant) and the placement rule, which several components interpret.
  \<^item> \<open>Plan\<close> (\<^verbatim>\<open>internal/plan/plan.go\<close>): plans, modes and policies.
  \<^item> \<open>BroadcastLimits\<close> (\<^verbatim>\<open>internal/server/limits.go\<close>, \<^verbatim>\<open>plan_gate.go\<close>): which broadcasts are stopped or warned
    at a check, the remaining time, and the plan gate.
  \<^item> \<open>EgressSlots\<close> (\<^verbatim>\<open>internal/media/egress_slots.go\<close>): units of owners, reserves of tiers, cards, waiters and
    holds; the accounts balance in every run, no waiter misses a wake-up, the top tier is always admitted.
  \<^item> \<open>H264\<close> (\<^verbatim>\<open>internal/media/h264.go\<close>): bit reader, exp-Golomb codes, SPS dimensions, Annex B and the
    access unit reader, with encoders as the reference for the round trips.
  \<^item> \<open>AiPool\<close> (\<^verbatim>\<open>internal/ai/pool.go\<close>, \<^verbatim>\<open>vod.go\<close>, \<^verbatim>\<open>internal/server/ai_workers.go\<close>): assignment of sessions to workers,
    draining, readiness, video on demand leases, whitelists on all workers, replacement of a worker.
  \<^item> \<open>BroadcastSettings\<close> (\<^verbatim>\<open>internal/session/broadcast.go\<close>, \<^verbatim>\<open>chzzk_broadcast.go\<close>, \<^verbatim>\<open>face_swap_notice.go\<close>,
    \<^verbatim>\<open>resolution.go\<close>): validation of what the user enters.
  \<^item> \<open>EgressStatus\<close> and \<open>EgressWriter\<close> (\<^verbatim>\<open>internal/media/egress.go\<close>): the phase table, pause, mute, reconnect
    budget and masking of stream keys; the frame queue, the writer and the outer loop of an egress.
  \<^item> \<open>Broadcast\<close> and \<open>BroadcastRuns\<close> (\<^verbatim>\<open>internal/session/broadcast.go\<close>, \<^verbatim>\<open>manager.go\<close>, \<^verbatim>\<open>resolution.go\<close>,
    \<^verbatim>\<open>usage.go\<close>): the operations on the stream targets of a session and all their interleavings.
  \<^item> \<open>BroadcastHandlers\<close> (\<^verbatim>\<open>internal/server/server.go\<close>, \<^verbatim>\<open>owned_broadcasts.go\<close>): preparing, going live and
    disposing of broadcasts with the calls of the platform, on top of the broadcast lifecycle.
  \<^item> \<open>Ledger\<close> (\<^verbatim>\<open>internal/usage\<close>): charges of a month, local takes, heartbeats.
  \<^item> \<open>PeerRecovery\<close> (\<^verbatim>\<open>internal/session/peer_recovery.go\<close>): the recovery of a lost input with its timers.
  \<^item> \<open>UpgradeOffer\<close> (\<^verbatim>\<open>internal/session/upgrade_offer.go\<close>, \<^verbatim>\<open>internal/server/upgrade_offer.go\<close>,
    \<^verbatim>\<open>resolution_switch.go\<close> of both): offers of a larger configuration, the units held for them, the switch.
  \<^item> \<open>WithdrawalGate\<close> (\<^verbatim>\<open>internal/auth/withdrawal_gate.go\<close>, \<^verbatim>\<open>account_withdrawal.go\<close>,
    \<^verbatim>\<open>account_withdrawal_http.go\<close>): the deletion of an account against the operations of its user.
  \<^item> \<open>SwitchStream\<close> (\<^verbatim>\<open>internal/ai/switch.go\<close>): the AI stream that moves between workers.
  \<^item> \<open>FrameBlur\<close> (\<^verbatim>\<open>internal/media/fallback_blur.go\<close>, \<^verbatim>\<open>mosaic_config.go\<close>, \<^verbatim>\<open>mosaic.go\<close>): the blur of a whole
    frame, the blur configuration the AI is sent, the classification of what it blurred.
  \<^item> \<open>PrivacyProcessor\<close> (\<^verbatim>\<open>internal/media/processor.go\<close>, \<^verbatim>\<open>track.go\<close>): the fail-closed boundary between the
    camera and the broadcast, its latch, the generations of its settings.

  \<^bold>\<open>How state and operations correspond.\<close> A Go struct is a record with the fields the operations use, a
  method is a function from the struct (and its arguments) to the result and the new struct, and an
  error is the left side of a sum. Code that runs under one lock is one function; what other goroutines
  may do between two locked sections is an explicit event of a step relation or an argument (for
  example the events \<open>pauseEgress\<close> lets pass between its two looks at the status). The clock, fresh
  identifiers, answers of gRPC and HTTP calls and the Unicode classes are arguments. Integers are words
  where the code relies on their width (the bit reader, RTP timestamps) and \<open>int\<close> or \<open>nat\<close> elsewhere.

  \<^bold>\<open>What the lemmas show.\<close> Invariants over every run: the accounts of the slot budget, the counts of the AI
  pool, mute and pause of an egress, the broadcasts of a session, the channels of other accounts, the legs
  of an AI stream. Safety: with anonymization on nothing leaves the processor but answers of the AI, blurs
  and black frames; nothing outdated is written to viewers or frozen on their screen; no stream key in a
  status; a stop wins over a go-live in flight; no operation of a user beside the deletion of the account.
  Errors: every broadcast that a handler made on a platform is recorded or disposed of. Functions against a
  specification: limits, settings, placement, charges, the pause of the AI input, the latch. Refinement: the
  upgrade offer of an abstract promise, the processor of an abstract latch. Liveness: no lost wake-up of a
  waiter, one result for every switch, a recovery that ends. Round trips of the H.264 parsers. Termination
  of the egress loop and bounds of its waits.

  \<^bold>\<open>Interfaces.\<close> \<open>guarded_state\<close> is interpreted by the slot budget, the pool, the egress (mute, error texts,
  loop) and the processor (cached frame, latch, requests); the placement rule by the cards of the budget and
  the workers of the pool; \<open>target_calls\<close> and \<open>all_target_calls\<close> by three relations on stream targets.

  \<^bold>\<open>Bounds and fuel.\<close> Loops over lists are structural. The loops that Go runs until a channel closes are
  runs over an arbitrary list of events, so every theorem about them holds for every length. The
  backoff loop of \<open>nextDelay\<close> runs as often as the number of attempts. The loop of the leading zeros of
  an exp-Golomb code is bounded by 32 as in the source.

  \<^bold>\<open>Assumptions that appear as hypotheses.\<close> The runs of a session assume what its callers do: a recorded
  broadcast has an identity, only the caller whose go-live was accepted completes or aborts it, once,
  and a target is not prepared while its go-live is in flight. The code does not enforce the last one;
  \<open>prepare_during_go_live_loses_broadcast\<close> shows what happens otherwise. The handlers assume that other goroutines
  keep the recorded broadcasts and that a provider returns its own name; the upgrade offer that the tiers
  of the groups are those of their plans and that the pauses of a span are sorted as \<open>sort.Slice\<close> would.
  \<open>float64\<close> rounding is a parameter that is monotone and exact on halves of small integers
  (\<open>float_rounding\<close>), \<open>strings.EqualFold\<close> one of the AI stream. The generations of the settings are a
  \<open>uint64\<close>, so a run is assumed to be shorter than \<open>2 ^ 64\<close>.

  \<^bold>\<open>Not modelled.\<close> Child processes, pipes, WebRTC, gRPC and HTTP transport, SQL, JPEG coding, logging and
  metrics: they are input and output or code outside the repository. The handlers of \<^verbatim>\<open>internal/server\<close> that
  only decode, route and answer, and the clients of the platforms, which translate HTTP answers. Session
  creation and signaling, session handoff and the relaunch of a pipeline on another worker, which drive pion
  and FFmpeg objects of which nearly every statement is a call outside the repository. Tokens, billing and
  the jobs of recorded video, whose logic is in the SQL they send. The queue of guests and the storage of
  reference faces. The manifest lists each part with its reason.
\<close>

end
